(* ===== verification/Prelude.thy ===== *)
theory Prelude
  imports Complex_Main "HOL-Library.Word"
begin

text \<open>
  Shared vocabulary of the development.

  \<^item> machine integers: \<open>u8\<close>, \<open>u32\<close>, \<open>u64\<close>, \<open>u128\<close> are words of that width; the Rust operations
    that the sources use on them (overflowing and checked operations, casts) are written here once;
  \<^item> results: a fallible Rust function returns \<open>'e + 'a\<close> (\<open>Inl\<close> is \<open>Err\<close>, \<open>Inr\<close> is \<open>Ok\<close>), an operation
    that can panic returns an \<open>option\<close> with \<open>None\<close> for the panic;
  \<^item> byte strings: \<open>to_le_bytes\<close>/\<open>from_le_bytes\<close> and the big-endian pair, and the value of a byte list
    read as a little-endian natural number;
  \<^item> slices: \<open>chunks\<close> and \<open>rposition\<close>;
  \<^item> strings: code points, and their UTF-8 bytes.
\<close>

unbundle bit_operations_syntax

named_theorems word_arith \<open>integer value of a word operation\<close>
named_theorems codec \<open>length and round-trip facts of byte encodings\<close>

subsection \<open>Machine integers\<close>

type_synonym u8 = "8 word"
type_synonym u32 = "32 word"
type_synonym u64 = "64 word"
type_synonym u128 = "128 word"
type_synonym bytes = "u8 list"

definition overflowing_sub :: "'a::len word \<Rightarrow> 'a word \<Rightarrow> 'a word \<times> bool" where
  "overflowing_sub a b = (a - b, a < b)"

definition overflowing_add :: "'a::len word \<Rightarrow> 'a word \<Rightarrow> 'a word \<times> bool" where
  "overflowing_add a b = (a + b, 2 ^ LENGTH('a) \<le> unat a + unat b)"

definition checked_add :: "'a::len word \<Rightarrow> 'a word \<Rightarrow> 'a word option" where
  "checked_add a b = (if unat a + unat b < 2 ^ LENGTH('a) then Some (a + b) else None)"

definition saturating_add :: "'a::len word \<Rightarrow> 'a word \<Rightarrow> 'a word" where
  "saturating_add a b = (if unat a + unat b < 2 ^ LENGTH('a) then a + b else - 1)"

definition saturating_sub :: "'a::len word \<Rightarrow> 'a word \<Rightarrow> 'a word" where
  "saturating_sub a b = (if a < b then 0 else a - b)"

definition saturating_mul :: "'a::len word \<Rightarrow> 'a word \<Rightarrow> 'a word" where
  "saturating_mul a b = (if unat a * unat b < 2 ^ LENGTH('a) then a * b else - 1)"

text \<open>
  A Rust function that returns a \<open>Result\<close> and may also panic returns an \<open>outcome\<close>; \<open>and_then\<close> is the
  sequencing of the \<open>?\<close> operator.
\<close>

datatype ('e, 'a) outcome = Ok 'a | Err 'e | Panic

primrec and_then :: "('e, 'a) outcome \<Rightarrow> ('a \<Rightarrow> ('e, 'b) outcome) \<Rightarrow> ('e, 'b) outcome" where
  "and_then (Ok x) f = f x"
| "and_then (Err e) f = Err e"
| "and_then Panic f = Panic"

lemma and_then_eq_Ok [simp]: "and_then m f = Ok y \<longleftrightarrow> (\<exists>x. m = Ok x \<and> f x = Ok y)"
  by (cases m) auto

lemma and_then_cong [cong]: "m = m' \<Longrightarrow> (\<And>x. m' = Ok x \<Longrightarrow> f x = g x) \<Longrightarrow> and_then m f = and_then m' g"
  by (cases m') auto

text \<open>For a \<open>Result\<close> without panics: the \<open>?\<close> operator, \<open>ensure!\<close> and collecting a list of results.\<close>

definition res_bind :: "'e + 'a \<Rightarrow> ('a \<Rightarrow> 'e + 'b) \<Rightarrow> 'e + 'b" where
  "res_bind m f = (case m of Inl e \<Rightarrow> Inl e | Inr x \<Rightarrow> f x)"

definition ensure :: "bool \<Rightarrow> 'e \<Rightarrow> 'e + unit" where
  "ensure b e = (if b then Inr () else Inl e)"

fun collect :: "('a \<Rightarrow> 'e + 'b) \<Rightarrow> 'a list \<Rightarrow> 'e + 'b list" where
  "collect f [] = Inr []"
| "collect f (x # xs) = res_bind (f x) (\<lambda>y. res_bind (collect f xs) (\<lambda>ys. Inr (y # ys)))"

lemma res_bind_simps [simp]: "res_bind (Inl e) f = Inl e" "res_bind (Inr x) f = f x"
  by (simp_all add: res_bind_def)

lemma res_bind_eq_Inr [simp]: "res_bind m f = Inr y \<longleftrightarrow> (\<exists>x. m = Inr x \<and> f x = Inr y)"
  by (cases m) auto

lemma res_bind_eq_Inl: "res_bind m f = Inl e \<longleftrightarrow> m = Inl e \<or> (\<exists>x. m = Inr x \<and> f x = Inl e)"
  by (cases m) auto

lemma res_bind_cong [cong]: "m = m' \<Longrightarrow> (\<And>x. m' = Inr x \<Longrightarrow> f x = g x) \<Longrightarrow> res_bind m f = res_bind m' g"
  by (cases m') auto

lemma ensure_eq [simp]: "ensure b e = Inr u \<longleftrightarrow> b" "ensure b e = Inl e' \<longleftrightarrow> \<not> b \<and> e = e'"
  by (auto simp: ensure_def)

lemma ensure_simps [simp]: "ensure True e = Inr ()" "ensure False e = Inl e"
  by (simp_all add: ensure_def)

lemma collect_eq_Inr: "collect f xs = Inr ys \<longleftrightarrow> map f xs = map Inr ys"
  by (induction f xs arbitrary: ys rule: collect.induct) (auto simp: map_eq_Cons_conv Cons_eq_map_conv)

text \<open>Integer readings of wrapping subtraction and addition, in the two cases.\<close>

lemma uint_minus_ge [word_arith]: "b \<le> a \<Longrightarrow> uint (a - b) = uint a - uint b"
  for a b :: "'a::len word"
  by (simp add: uint_minus_simple_alt)

lemma uint_minus_lt [word_arith]: "a < b \<Longrightarrow> uint (a - b) = uint a - uint b + 2 ^ LENGTH('a)"
  for a b :: "'a::len word"
  by (simp add: uint_sub_if' word_less_def)

lemma uint_plus_small [word_arith]:
  "uint a + uint b < 2 ^ LENGTH('a) \<Longrightarrow> uint (a + b) = uint a + uint b"
  for a b :: "'a::len word"
  by (simp add: uint_plus_if')

lemma uint_plus_big [word_arith]:
  "2 ^ LENGTH('a) \<le> uint a + uint b \<Longrightarrow> uint (a + b) = uint a + uint b - 2 ^ LENGTH('a)"
  for a b :: "'a::len word"
  by (simp add: uint_plus_if')

lemma uint_times_small [word_arith]:
  "uint a * uint b < 2 ^ LENGTH('a) \<Longrightarrow> uint (a * b) = uint a * uint b"
  for a b :: "'a::len word"
  by (simp add: uint_word_ariths)

lemma uint_cast [word_arith]: "uint (ucast a :: 'b::len word) = uint a mod 2 ^ LENGTH('b)"
  for a :: "'a::len word"
  by (simp add: unsigned_ucast_eq take_bit_eq_mod)

lemma uint_shiftr [word_arith]: "uint (drop_bit n a) = uint a div 2 ^ n"
  for a :: "'a::len word"
  by (subst unsigned_drop_bit_eq) (simp only: take_bit_eq_mod drop_bit_eq_div mod_pos_pos_trivial
      unsigned_greater_eq uint_lt2p)

lemma uint_shiftl_small [word_arith]:
  "uint a * 2 ^ n < 2 ^ LENGTH('a) \<Longrightarrow> uint (push_bit n a) = uint a * 2 ^ n"
  for a :: "'a::len word"
  by (subst unsigned_push_bit_eq) (simp only: take_bit_eq_mod push_bit_eq_mult mod_pos_pos_trivial
      unsigned_greater_eq zero_le_mult_iff zero_le_power zero_le_numeral simp_thms)

lemma uint_u64_bound: "0 \<le> uint a \<and> uint a < 18446744073709551616" for a :: u64
  using uint_lt2p [of a] by simp

lemma uint_u128_bound: "0 \<le> uint a \<and> uint a < 340282366920938463463374607431768211456" for a :: u128
  using uint_lt2p [of a] by simp


subsection \<open>Byte strings\<close>

primrec le_value :: "bytes \<Rightarrow> nat" where
  "le_value [] = 0"
| "le_value (b # bs) = unat b + 256 * le_value bs"

fun le_digits :: "nat \<Rightarrow> nat \<Rightarrow> bytes" where
  "le_digits 0 n = []"
| "le_digits (Suc k) n = word_of_nat (n mod 256) # le_digits k (n div 256)"

definition to_le_bytes :: "'a::len word \<Rightarrow> bytes" where
  "to_le_bytes w = le_digits (LENGTH('a) div 8) (unat w)"

definition from_le_bytes :: "bytes \<Rightarrow> 'a::len word" where
  "from_le_bytes bs = word_of_nat (le_value bs)"

definition to_be_bytes :: "'a::len word \<Rightarrow> bytes" where
  "to_be_bytes w = rev (to_le_bytes w)"

definition from_be_bytes :: "bytes \<Rightarrow> 'a::len word" where
  "from_be_bytes bs = from_le_bytes (rev bs)"

lemma unat_of_nat_u64: "m < 2 ^ 64 \<Longrightarrow> unat (word_of_nat m :: u64) = m"
  by (simp add: unsigned_of_nat take_bit_nat_eq_self)

lemma unat_u8_bound: "unat b < 256" for b :: u8
  using unsigned_less [of b] by simp

lemma le_value_bound: "le_value bs < 256 ^ length bs"
proof (induction bs)
  case (Cons b bs)
  have "unat b + 256 * le_value bs < 256 * (le_value bs + 1)"
    using unat_u8_bound [of b] by simp
  also have "\<dots> \<le> 256 * 256 ^ length bs"
    using Cons.IH by (intro mult_le_mono2) simp
  finally show ?case by simp
qed simp

lemma length_le_digits [simp, codec]: "length (le_digits k n) = k"
  by (induction k n rule: le_digits.induct) simp_all

lemma le_value_le_digits [codec]: "le_value (le_digits k n) = n mod 256 ^ k"
proof (induction k n rule: le_digits.induct)
  case (2 k n)
  have "n mod 256 + 256 * (n div 256 mod 256 ^ k) = n mod (256 * 256 ^ k)"
    by (simp add: mod_mult2_eq)
  then show ?case
    using 2 by (simp add: unat_of_nat)
qed simp

lemma le_digits_le_value [codec]: "le_digits (length bs) (le_value bs) = bs"
proof (induction bs)
  case (Cons b bs)
  have "(unat b + 256 * le_value bs) mod 256 = unat b" "(unat b + 256 * le_value bs) div 256 = le_value bs"
    using unat_u8_bound [of b] by simp_all
  with Cons show ?case by simp
qed simp

lemma le_value_inject: "length xs = length ys \<Longrightarrow> le_value xs = le_value ys \<longleftrightarrow> xs = ys"
  by (metis le_digits_le_value)

lemma le_value_append: "le_value (xs @ ys) = le_value xs + 256 ^ length xs * le_value ys"
  by (induction xs) (simp_all add: algebra_simps)

lemma pow_256: "8 dvd n \<Longrightarrow> (256 :: nat) ^ (n div 8) = 2 ^ n"
proof -
  assume "8 dvd n"
  then have "(2 :: nat) ^ n = (2 ^ 8) ^ (n div 8)"
    by (metis dvd_mult_div_cancel power_mult)
  then show ?thesis by simp
qed

lemma unat_from_le_bytes: "length bs = LENGTH('a) div 8 \<Longrightarrow> 8 dvd LENGTH('a) \<Longrightarrow>
    unat (from_le_bytes bs :: 'a::len word) = le_value bs"
proof -
  assume len: "length bs = LENGTH('a) div 8" and "8 dvd LENGTH('a)"
  then show ?thesis
    using le_value_bound [of bs] by (simp add: from_le_bytes_def unat_of_nat pow_256)
qed

lemma length_to_le_bytes [codec]: "length (to_le_bytes (w :: 'a::len word)) = LENGTH('a) div 8"
  by (simp add: to_le_bytes_def)

lemma le_value_to_le_bytes [codec]: "8 dvd LENGTH('a) \<Longrightarrow> le_value (to_le_bytes w) = unat w"
  for w :: "'a::len word"
  using unsigned_less [of w] by (simp add: to_le_bytes_def le_value_le_digits pow_256)

lemma from_le_bytes_to_le_bytes [codec]: "8 dvd LENGTH('a) \<Longrightarrow> from_le_bytes (to_le_bytes w) = w"
  for w :: "'a::len word"
  by (simp add: from_le_bytes_def le_value_to_le_bytes)

lemma to_le_bytes_from_le_bytes [codec]:
  "8 dvd LENGTH('a) \<Longrightarrow> length bs = LENGTH('a) div 8 \<Longrightarrow> to_le_bytes (from_le_bytes bs :: 'a::len word) = bs"
  by (simp add: to_le_bytes_def unat_from_le_bytes) (metis le_digits_le_value)

lemma from_be_bytes_to_be_bytes [codec]: "8 dvd LENGTH('a) \<Longrightarrow> from_be_bytes (to_be_bytes w) = w"
  for w :: "'a::len word"
  by (simp add: from_be_bytes_def to_be_bytes_def codec)

lemma to_be_bytes_from_be_bytes [codec]:
  "8 dvd LENGTH('a) \<Longrightarrow> length bs = LENGTH('a) div 8 \<Longrightarrow> to_be_bytes (from_be_bytes bs :: 'a::len word) = bs"
  by (simp add: from_be_bytes_def to_be_bytes_def codec)


subsection \<open>Slices\<close>

text \<open>\<open>slice::chunks\<close>: consecutive pieces of \<open>n\<close> elements, the last one possibly shorter.\<close>

function chunks :: "nat \<Rightarrow> 'a list \<Rightarrow> 'a list list" where
  "chunks n xs = (if n = 0 \<or> xs = [] then [] else take n xs # chunks n (drop n xs))"
  by pat_completeness auto
termination
  by (relation "measure (\<lambda>(n, xs). length xs)") auto

declare chunks.simps [simp del]

lemma chunks_Nil [simp]: "chunks n [] = []"
  by (simp add: chunks.simps)

lemma chunks_step: "0 < n \<Longrightarrow> xs \<noteq> [] \<Longrightarrow> chunks n xs = take n xs # chunks n (drop n xs)"
  by (subst chunks.simps) simp

lemma concat_chunks [simp]: "0 < n \<Longrightarrow> concat (chunks n xs) = xs"
  by (induction n xs rule: chunks.induct) (subst chunks.simps, auto)

lemma chunks_append: "0 < n \<Longrightarrow> length xs = n \<Longrightarrow> chunks n (xs @ ys) = xs # chunks n ys"
  by (subst chunks_step) auto

text \<open>\<open>Iterator::rposition\<close>: the last index whose element satisfies the test.\<close>

fun rposition :: "('a \<Rightarrow> bool) \<Rightarrow> 'a list \<Rightarrow> nat option" where
  "rposition t [] = None"
| "rposition t (x # xs) =
     (case rposition t xs of Some i \<Rightarrow> Some (Suc i) | None \<Rightarrow> if t x then Some 0 else None)"

lemma rposition_None: "rposition t xs = None \<longleftrightarrow> (\<forall>x\<in>set xs. \<not> t x)"
  by (induction xs) (auto split: option.splits)

lemma rposition_Some:
  "rposition t xs = Some i \<Longrightarrow> i < length xs \<and> t (xs ! i) \<and> (\<forall>j<length xs. i < j \<longrightarrow> \<not> t (xs ! j))"
proof (induction xs arbitrary: i)
  case (Cons x xs)
  show ?case
  proof (cases "rposition t xs")
    case None
    then have "\<not> t (xs ! j)" if "j < length xs" for j
      using that by (simp add: rposition_None)
    then show ?thesis using Cons.prems None
      by (auto split: if_splits simp: nth_Cons')
  next
    case (Some k)
    then show ?thesis using Cons.prems Cons.IH [OF Some] by (auto simp: nth_Cons')
  qed
qed simp


subsection \<open>Strings\<close>

text \<open>
  A Rust \<open>str\<close> is a list of Unicode code points; \<open>lit\<close> writes an ASCII literal and \<open>utf8\<close> is
  \<open>as_bytes\<close>.
\<close>

type_synonym ustr = "nat list"

definition lit :: "string \<Rightarrow> ustr" where
  "lit s = map of_char s"

definition utf8_char :: "nat \<Rightarrow> bytes" where
  "utf8_char c =
     map word_of_nat
       (if c < 128 then [c]
        else if c < 2048 then [192 + c div 64, 128 + c mod 64]
        else if c < 65536 then [224 + c div 4096, 128 + c div 64 mod 64, 128 + c mod 64]
        else [240 + c div 262144, 128 + c div 4096 mod 64, 128 + c div 64 mod 64, 128 + c mod 64])"

definition utf8 :: "ustr \<Rightarrow> bytes" where
  "utf8 s = concat (map utf8_char s)"

lemma lit_Nil [simp]: "lit [] = []"
  by (simp add: lit_def)

lemma lit_Cons [simp]: "lit (c # s) = of_char c # lit s"
  by (simp add: lit_def)

lemma utf8_Nil [simp]: "utf8 [] = []"
  by (simp add: utf8_def)

lemma utf8_Cons [simp]: "utf8 (c # s) = utf8_char c @ utf8 s"
  by (simp add: utf8_def)

lemma utf8_append [simp]: "utf8 (s @ t) = utf8 s @ utf8 t"
  by (simp add: utf8_def)

lemma utf8_char_ascii [simp]: "c < 128 \<Longrightarrow> utf8_char c = [word_of_nat c]"
  by (simp add: utf8_char_def)

text \<open>\<open>char::is_whitespace\<close>.\<close>

definition white_space :: "nat \<Rightarrow> bool" where
  "white_space c \<longleftrightarrow> 9 \<le> c \<and> c \<le> 13 \<or> 0x2000 \<le> c \<and> c \<le> 0x200A \<or>
     c \<in> set [0x20, 0x85, 0xA0, 0x1680, 0x2028, 0x2029, 0x202F, 0x205F, 0x3000]"

end
