(* ===== verification/Goldilocks.thy ===== *)
theory Goldilocks
  imports Prelude
begin

text \<open>
  The abstract specification of the base field: the integers modulo the Goldilocks number
  \<open>P = 2 ^ 64 - 2 ^ 32 + 1\<close>, as a type \<open>fp\<close> that is an instance of the library's class \<open>field\<close>.
  \<open>P\<close> is not assumed to be prime: the powers of 7 are shown to be distinct up to exponent \<open>P - 1\<close>
  (Lucas' criterion, by evaluating six modular powers), so every non-zero element is a power of 7
  and has an inverse.  The concrete arithmetic of \<open>Belt\<close> refines this type.
\<close>

subsection \<open>The ring of residues\<close>

abbreviation P :: int where
  "P \<equiv> 18446744069414584321"

typedef fp = "{0..<P}"
  morphisms fp_rep fp_abs
  by (rule exI [of _ 0]) simp

setup_lifting type_definition_fp

instantiation fp :: comm_ring_1
begin

lift_definition zero_fp :: fp is 0 by simp

lift_definition one_fp :: fp is 1 by simp

lift_definition plus_fp :: "fp \<Rightarrow> fp \<Rightarrow> fp" is "\<lambda>x y. (x + y) mod P" by simp

lift_definition minus_fp :: "fp \<Rightarrow> fp \<Rightarrow> fp" is "\<lambda>x y. (x - y) mod P" by simp

lift_definition uminus_fp :: "fp \<Rightarrow> fp" is "\<lambda>x. (- x) mod P" by simp

lift_definition times_fp :: "fp \<Rightarrow> fp \<Rightarrow> fp" is "\<lambda>x y. (x * y) mod P" by simp

instance
  by standard (transfer; simp add: mod_simps algebra_simps)+

end

lemma fp_rep_bounds: "0 \<le> fp_rep x \<and> fp_rep x < P"
  using fp_rep [of x] by simp

lemma fp_rep_of_nat: "fp_rep (of_nat n) = int n mod P"
  by (induction n) (simp_all add: zero_fp.rep_eq one_fp.rep_eq plus_fp.rep_eq mod_simps algebra_simps)

lemma fp_rep_of_int: "fp_rep (of_int n) = n mod P"
proof (cases n rule: int_cases2)
  case (nonneg m)
  then show ?thesis by (simp add: fp_rep_of_nat)
next
  case (nonpos m)
  then show ?thesis by (simp add: uminus_fp.rep_eq fp_rep_of_nat mod_simps)
qed

lemma of_int_fp_rep [simp]: "of_int (fp_rep x) = x"
  by (rule fp_rep_inject [THEN iffD1])
     (simp add: fp_rep_of_int mod_pos_pos_trivial fp_rep_bounds [THEN conjunct1] fp_rep_bounds [THEN conjunct2])

lemma of_int_fp_eq_iff: "(of_int m :: fp) = of_int n \<longleftrightarrow> m mod P = n mod P"
  by (simp flip: fp_rep_inject add: fp_rep_of_int)

lemma of_int_fp_eq_0_iff: "(of_int m :: fp) = 0 \<longleftrightarrow> P dvd m"
  using of_int_fp_eq_iff [of m 0] by (auto simp: dvd_eq_mod_eq_0)

lemma of_int_fp_P [simp]: "(of_int P :: fp) = 0"
  by (simp only: of_int_fp_eq_0_iff) simp

lemma UNIV_fp: "(UNIV :: fp set) = of_int ` {0..<P}"
proof
  show "(UNIV :: fp set) \<subseteq> of_int ` {0..<P}"
  proof
    fix x :: fp
    have "x = of_int (fp_rep x)" by simp
    moreover have "fp_rep x \<in> {0..<P}" by (rule fp_rep)
    ultimately show "x \<in> of_int ` {0..<P}" by blast
  qed
qed simp

instance fp :: finite
  by standard (simp add: UNIV_fp)

lemma card_fp: "card (UNIV :: fp set) = nat P"
proof -
  have "inj_on (of_int :: int \<Rightarrow> fp) {0..<P}"
    by (rule inj_onI) (simp add: of_int_fp_eq_iff)
  then have "card (UNIV :: fp set) = card {0..<P}"
    by (simp add: UNIV_fp card_image)
  then show ?thesis by simp
qed

subsection \<open>Powers of 7\<close>

text \<open>
  Modular powers by repeated squaring over the binary form of the exponent, to evaluate the powers
  that Lucas' criterion asks for.
\<close>

fun mpow :: "int \<Rightarrow> num \<Rightarrow> int" where
  "mpow b num.One = b mod P"
| "mpow b (num.Bit0 n) = mpow (b * b mod P) n"
| "mpow b (num.Bit1 n) = b * mpow (b * b mod P) n mod P"

lemma of_int_mod_P [simp]: "(of_int (m mod P) :: fp) = of_int m"
  by (simp add: of_int_fp_eq_iff)

lemma of_int_mpow: "(of_int (mpow b n) :: fp) = of_int b ^ numeral n"
  by (induction b n rule: mpow.induct)
     (simp_all add: power_numeral_even power_numeral_odd power_mult_distrib Let_def power_add mult.assoc)

subsection \<open>The field\<close>

text \<open>
  Lucas' criterion with the witness 7: \<open>7 ^ (P - 1) = 1\<close> and \<open>7 ^ ((P - 1) div q) \<noteq> 1\<close> for every prime
  factor \<open>q\<close> of \<open>P - 1\<close>.  So the powers of 7 are all the non-zero elements, and \<open>fp\<close> is a field.
\<close>

definition group_order :: nat where
  "group_order = 2 ^ 32 * 3 * 5 * 17 * 257 * 65537"

definition prime_divs :: "nat list" where
  "prime_divs = [2, 3, 5, 17, 257, 65537]"

lemma group_order_eq: "group_order = 18446744069414584320"
  by (simp add: group_order_def)

lemma trial_division:
  fixes q :: nat
  assumes "0 \<le> k" and "int q < (1 + k) ^ 2" and "\<forall>d\<in>set [2..k]. \<not> d dvd int q" and "d dvd q" and "0 < q"
  shows "d = 1 \<or> d = q"
proof (rule ccontr)
  assume neg: "\<not> (d = 1 \<or> d = q)"
  from \<open>d dvd q\<close> obtain e where e: "q = d * e" ..
  have small: "k < int x" if "x dvd q" "x \<noteq> 1" for x
  proof (rule ccontr)
    assume "\<not> k < int x"
    from that \<open>0 < q\<close> have "2 \<le> x"
      by (cases "x = 0") auto
    with \<open>\<not> k < int x\<close> have "int x \<in> set [2..k]" by simp
    with assms(3) have "\<not> int x dvd int q" by blast
    with that show False by simp
  qed
  have "k < int d" using \<open>d dvd q\<close> neg by (intro small) auto
  moreover have "k < int e"
  proof (rule small)
    show "e dvd q" using e by simp
    show "e \<noteq> 1" using e neg by auto
  qed
  ultimately have "(1 + k) * (1 + k) \<le> int d * int e"
    using \<open>0 \<le> k\<close> by (intro mult_mono) simp_all
  with assms(2) e show False by (simp add: power2_eq_square)
qed

lemma prime_2: "d dvd 2 \<Longrightarrow> d = 1 \<or> d = 2" for d :: nat
  by (rule trial_division [where k = 1]) simp_all

lemma prime_3: "d dvd 3 \<Longrightarrow> d = 1 \<or> d = 3" for d :: nat
  by (rule trial_division [where k = 1]) simp_all

lemma prime_5: "d dvd 5 \<Longrightarrow> d = 1 \<or> d = 5" for d :: nat
  by (rule trial_division [where k = 2]) (simp_all add: upto.simps)

lemma prime_17: "d dvd 17 \<Longrightarrow> d = 1 \<or> d = 17" for d :: nat
  by (rule trial_division [where k = 4]) (simp_all add: upto.simps)

lemma prime_257: "d dvd 257 \<Longrightarrow> d = 1 \<or> d = 257" for d :: nat
  by (rule trial_division [where k = 16]) (simp_all add: upto.simps)

lemma not_dvd_65537: "\<forall>d\<in>set [2..256]. \<not> d dvd (65537 :: int)"
  by code_simp

lemma prime_65537: "d dvd 65537 \<Longrightarrow> d = 1 \<or> d = 65537" for d :: nat
proof (rule trial_division [where k = 256])
  show "\<forall>d\<in>set [2..256]. \<not> d dvd int 65537"
    using not_dvd_65537 by (simp only: of_nat_numeral)
qed simp_all

lemma prime_divs_prime:
  assumes "q \<in> set prime_divs" and "d dvd q"
  shows "d = 1 \<or> d = q"
  using assms prime_2 prime_3 prime_5 prime_17 prime_257 prime_65537
  unfolding prime_divs_def list.set insert_iff empty_iff by blast

lemma coprime_of_not_dvd:
  fixes q m :: nat
  assumes "\<And>d. d dvd q \<Longrightarrow> d = 1 \<or> d = q" and "\<not> q dvd m"
  shows "coprime m q"
proof -
  have "gcd m q dvd q" by simp
  with assms have "gcd m q = 1" by (metis gcd_dvd1)
  then show ?thesis by (simp add: coprime_iff_gcd_eq_1)
qed

lemma group_order_prime_factor:
  assumes "m dvd group_order" and "m \<noteq> 1"
  shows "\<exists>q\<in>set prime_divs. q dvd m"
proof (rule ccontr)
  assume "\<not> ?thesis"
  then have cop: "coprime m q" if "q \<in> set prime_divs" for q
    using coprime_of_not_dvd prime_divs_prime that by blast
  have "coprime m (2 ^ 32)"
    using cop [of 2] by (subst coprime_power_right_iff) (simp add: prime_divs_def)
  then have "coprime m group_order"
    unfolding group_order_def coprime_mult_right_iff
    using cop unfolding prime_divs_def list.set by blast
  with assms show False by (metis coprime_absorb_left nat_dvd_1_iff_1)
qed

lemma powers_distinct_aux:
  fixes g :: "'a::comm_ring_1"
  assumes one: "g ^ group_order = 1"
    and ne: "\<And>q. q \<in> set prime_divs \<Longrightarrow> g ^ (group_order div q) \<noteq> 1"
    and k: "0 < k" "k < group_order"
  shows "g ^ k \<noteq> 1"
proof
  assume gk: "g ^ k = 1"
  define d where "d = gcd k group_order"
  obtain x y where "k * x = group_order * y + d"
    using bezout_nat [of k group_order] k by (auto simp: d_def)
  then have "(g ^ k) ^ x = (g ^ group_order) ^ y * g ^ d"
    by (simp add: power_mult [symmetric] power_add)
  with gk one have gd: "g ^ d = 1" by simp
  have "d dvd group_order" by (simp add: d_def)
  then obtain m where m: "group_order = d * m" ..
  have "d \<le> k" using k by (simp add: d_def)
  with k m have "m \<noteq> 1" by auto
  moreover have "m dvd group_order" unfolding m by (rule dvd_triv_right)
  ultimately obtain q where q: "q \<in> set prime_divs" and "q dvd m"
    using group_order_prime_factor by blast
  from \<open>q dvd m\<close> obtain r where r: "m = q * r" ..
  have "0 < q" using q by (auto simp: prime_divs_def)
  then have "group_order div q = d * r"
    by (simp add: m r ac_simps)
  then have "g ^ (group_order div q) = 1"
    by (simp add: power_mult gd)
  with ne [OF q] show False by simp
qed

lemma seven_pow_iff: "(of_int 7 :: fp) ^ numeral n = 1 \<longleftrightarrow> mpow 7 n mod P = 1"
proof -
  have "(of_int 7 :: fp) ^ numeral n = of_int (mpow 7 n)" by (simp only: of_int_mpow)
  also have "\<dots> = 1 \<longleftrightarrow> mpow 7 n mod P = 1"
    using of_int_fp_eq_iff [of "mpow 7 n" 1] by simp
  finally show ?thesis .
qed

lemma seven_order: "(of_int 7 :: fp) ^ group_order = 1"
  unfolding group_order_eq seven_pow_iff by code_simp

lemma seven_root_2: "(of_int 7 :: fp) ^ 9223372034707292160 \<noteq> 1"
  unfolding seven_pow_iff by code_simp
lemma seven_root_3: "(of_int 7 :: fp) ^ 6148914689804861440 \<noteq> 1"
  unfolding seven_pow_iff by code_simp
lemma seven_root_5: "(of_int 7 :: fp) ^ 3689348813882916864 \<noteq> 1"
  unfolding seven_pow_iff by code_simp
lemma seven_root_17: "(of_int 7 :: fp) ^ 1085102592318504960 \<noteq> 1"
  unfolding seven_pow_iff by code_simp
lemma seven_root_257: "(of_int 7 :: fp) ^ 71777214277877760 \<noteq> 1"
  unfolding seven_pow_iff by code_simp
lemma seven_root_65537: "(of_int 7 :: fp) ^ 281470681743360 \<noteq> 1"
  unfolding seven_pow_iff by code_simp

lemma group_order_div:
    "group_order div 2 = 9223372034707292160"
    "group_order div 3 = 6148914689804861440"
    "group_order div 5 = 3689348813882916864"
    "group_order div 17 = 1085102592318504960"
    "group_order div 257 = 71777214277877760"
    "group_order div 65537 = 281470681743360"
  unfolding group_order_eq by simp_all

lemma seven_not_root:
  assumes "q \<in> set prime_divs"
  shows "(of_int 7 :: fp) ^ (group_order div q) \<noteq> 1"
proof -
  from assms consider "q = 2" | "q = 3" | "q = 5" | "q = 17" | "q = 257" | "q = 65537"
    unfolding prime_divs_def list.set insert_iff empty_iff by blast
  then show ?thesis
    by cases (simp_all only: group_order_div seven_root_2 seven_root_3 seven_root_5 seven_root_17
        seven_root_257 seven_root_65537 not_False_eq_True)
qed


definition gen :: fp where
  "gen = of_int 7"

lemma gen_pow_order: "gen ^ group_order = 1"
  unfolding gen_def by (rule seven_order)

lemma gen_pow_ne_1: "0 < k \<Longrightarrow> k < group_order \<Longrightarrow> gen ^ k \<noteq> 1"
  unfolding gen_def by (rule powers_distinct_aux [OF seven_order seven_not_root])

lemma gen_pow_unit: "k \<le> group_order \<Longrightarrow> gen ^ (group_order - k) * gen ^ k = 1"
  by (simp only: power_add [symmetric] le_add_diff_inverse2 gen_pow_order)

lemma gen_pow_distinct:
  assumes "i < j" "j < group_order"
  shows "gen ^ i \<noteq> gen ^ j"
proof
  assume "gen ^ i = gen ^ j"
  also have "gen ^ j = gen ^ i * gen ^ (j - i)"
    using assms(1) by (simp only: power_add [symmetric] le_add_diff_inverse less_imp_le)
  finally have "(gen ^ (group_order - i) * gen ^ i) * gen ^ (j - i) = gen ^ (group_order - i) * gen ^ i"
    by (simp only: mult.assoc)
  with assms have "gen ^ (j - i) = 1"
    by (simp add: gen_pow_unit)
  moreover have "0 < j - i" "j - i < group_order"
    using assms less_imp_diff_less by simp_all
  ultimately show False using gen_pow_ne_1 by blast
qed

lemma nonzero_is_gen_pow:
  assumes "x \<noteq> 0"
  shows "\<exists>k<group_order. x = gen ^ k"
proof -
  let ?S = "(\<lambda>k. gen ^ k) ` {0..<group_order}"
  have "inj_on (\<lambda>k. gen ^ k) {0..<group_order}"
    by (rule inj_onI) (metis atLeastLessThan_iff gen_pow_distinct nat_neq_iff)
  then have "card ?S = group_order"
    by (simp add: card_image)
  moreover have "card (UNIV - {0 :: fp}) = group_order"
    by (simp add: card_fp group_order_eq)
  moreover have "0 \<notin> ?S"
  proof
    assume "0 \<in> ?S"
    then obtain k where "k < group_order" "gen ^ k = 0" by auto
    with gen_pow_unit [of k] show False by simp
  qed
  ultimately have "?S = UNIV - {0}"
    by (intro card_subset_eq) auto
  with assms have "x \<in> ?S" by simp
  then show ?thesis by auto
qed

lemma fermat_fp: "x \<noteq> 0 \<Longrightarrow> x ^ group_order = 1" for x :: fp
proof -
  assume "x \<noteq> 0"
  then obtain k where "x = gen ^ k" using nonzero_is_gen_pow by blast
  then have "x ^ group_order = (gen ^ group_order) ^ k"
    by (simp only: power_mult [symmetric] mult.commute)
  then show ?thesis by (simp only: gen_pow_order power_one)
qed

instantiation fp :: field
begin

definition inverse_fp :: "fp \<Rightarrow> fp" where
  "inverse_fp x = x ^ (group_order - 1)"

definition divide_fp :: "fp \<Rightarrow> fp \<Rightarrow> fp" where
  "divide_fp x y = x * inverse y"

instance
proof
  fix x y :: fp
  show "inverse x * x = 1" if "x \<noteq> 0"
  proof -
    have "inverse x * x = x ^ Suc (group_order - 1)"
      by (simp only: inverse_fp_def power_Suc2)
    also have "Suc (group_order - 1) = group_order"
      by (simp add: group_order_eq)
    finally show ?thesis using fermat_fp [OF that] by simp
  qed
  show "x div y = x * inverse y" by (rule divide_fp_def)
  show "inverse (0 :: fp) = 0"
    unfolding inverse_fp_def by (rule zero_power) (simp add: group_order_eq)
qed

end

end
