(* ===== verification/Belt.thy ===== *)
theory Belt
  imports Goldilocks
begin

text \<open>
  The Goldilocks base field of \<^verbatim>\<open>crates/vesl-signing/src/math/belt.rs\<close>: a \<open>Belt\<close> wraps a \<open>u64\<close>
  and the functions below are the arithmetic of its operators, on machine words with the wrapping
  and overflowing operations of the source.  The correctness lemmas relate every function to integer
  arithmetic modulo \<open>P = 2 ^ 64 - 2 ^ 32 + 1\<close>.
\<close>

subsection \<open>Constants\<close>

definition PRIME :: u64 where
  "PRIME = 18446744069414584321"

definition PRIME_128 :: u128 where
  "PRIME_128 = ucast PRIME"

definition RP :: u128 where
  "RP = 340282366841710300967557013911933812736"

definition R2 :: u128 where
  "R2 = 18446744065119617025"


subsection \<open>Operations\<close>

definition based_check :: "u64 \<Rightarrow> bool" where
  "based_check a = (a < PRIME)"

definition badd :: "u64 \<Rightarrow> u64 \<Rightarrow> u64" where
  "badd a b =
     (let b = PRIME - b;
          (r, c) = overflowing_sub a b;
          adj = (0 :: u32) - of_bool c
      in r - ucast adj)"

definition bneg :: "u64 \<Rightarrow> u64" where
  "bneg a = (if a \<noteq> 0 then PRIME - a else 0)"

definition bsub :: "u64 \<Rightarrow> u64 \<Rightarrow> u64" where
  "bsub a b =
     (let (r, c) = overflowing_sub a b;
          adj = (0 :: u32) - of_bool c
      in r - ucast adj)"

definition reduce_159 :: "u64 \<Rightarrow> u32 \<Rightarrow> u64 \<Rightarrow> u64" where
  "reduce_159 low mid high =
     (let (low2, carry) = overflowing_sub low high;
          low2 = (if carry then low2 + PRIME else low2);
          product = push_bit 32 (ucast mid);
          product = product - drop_bit 32 product;
          (result, carry) = overflowing_add product low2;
          result = (if carry then result - PRIME else result)
      in if PRIME \<le> result then result - PRIME else result)"

definition reduce :: "u128 \<Rightarrow> u64" where
  "reduce n = reduce_159 (ucast n) (ucast (drop_bit 64 n)) (ucast (drop_bit 96 n))"

definition bmul :: "u64 \<Rightarrow> u64 \<Rightarrow> u64" where
  "bmul a b = reduce (ucast a * ucast b)"

definition mont_reduction :: "u128 \<Rightarrow> u64" where
  "mont_reduction a =
     (let x1 = drop_bit 32 a AND 0xffffffff;
          x2 = drop_bit 64 a;
          x0 = a AND 0xffffffff;
          c = push_bit 32 (x0 + x1);
          f = drop_bit 64 c;
          d = c - (x1 + f * PRIME_128)
      in if d \<le> x2 then ucast (x2 - d) else ucast (x2 + PRIME_128 - d))"

definition montiply :: "u64 \<Rightarrow> u64 \<Rightarrow> u64" where
  "montiply a b = mont_reduction (ucast a * ucast b)"

definition montify :: "u64 \<Rightarrow> u64" where
  "montify a = mont_reduction (ucast a * R2)"

definition montwopow :: "u64 \<Rightarrow> nat \<Rightarrow> u64" where
  "montwopow a b = ((\<lambda>res. montiply res res) ^^ b) a"

definition binv :: "u64 \<Rightarrow> u64" where
  "binv a =
     (let y = montify a;
          y2 = montiply y (montiply y y);
          y3 = montiply y (montiply y2 y2);
          y5 = montiply y2 (montwopow y3 2);
          y10 = montiply y5 (montwopow y5 5);
          y20 = montiply y10 (montwopow y10 10);
          y30 = montiply y10 (montwopow y20 10);
          y31 = montiply y (montiply y30 y30);
          dup = montiply (montwopow y31 32) y31
      in mont_reduction (ucast (montiply y (montiply dup dup))))"

text \<open>
  The loop of \<open>bpow\<close>, with the loop variables \<open>a\<close>, \<open>b\<close>, \<open>c\<close>; it stops when \<open>b \<le> 1\<close>.
\<close>

function bpow_loop :: "u64 \<Rightarrow> u64 \<Rightarrow> u64 \<Rightarrow> u64 \<times> u64" where
  "bpow_loop a b c =
     (if 1 < b then
        if b AND 1 = 0 then bpow_loop (reduce (ucast a * ucast a)) (b div 2) c
        else bpow_loop (reduce (ucast a * ucast a)) ((b - 1) div 2) (reduce (ucast c * ucast a))
      else (a, c))"
  by pat_completeness auto
termination
proof (relation "measure (\<lambda>(a, b, c). unat b)", goal_cases)
  case 1
  show ?case by simp
next
  case (2 a b c)
  then have "0 < unat b" by (simp add: word_less_nat_alt)
  then show ?case by (simp add: unat_div)
next
  case (3 a b c)
  then have "1 < unat b" by (simp add: word_less_nat_alt)
  then have "unat (b - 1) = unat b - 1"
    by (metis unat_gt_0 unat_minus_one not_one_less_zero unat_0)
  with \<open>1 < unat b\<close> show ?case by (simp add: unat_div)
qed

declare bpow_loop.simps [simp del]

definition bpow :: "u64 \<Rightarrow> u64 \<Rightarrow> u64" where
  "bpow a b =
     (if b = 0 then 1
      else let (a, c) = bpow_loop a b 1 in reduce (ucast c * ucast a))"


subsection \<open>Words as field elements\<close>

abbreviation based :: "u64 \<Rightarrow> bool" where
  "based a \<equiv> uint a < P"

definition fp_of :: "u64 \<Rightarrow> fp" where
  "fp_of a = of_int (uint a)"

named_theorems belt_hom \<open>canonical results and field values of the belt operations\<close>

lemma uint_PRIME [simp]: "uint PRIME = P"
  by (simp add: PRIME_def)

lemma based_check_iff: "based_check a \<longleftrightarrow> based a"
  by (simp add: based_check_def word_less_def)

lemma fp_of_eqI: "uint a mod P = n mod P \<Longrightarrow> fp_of a = of_int n"
  by (simp only: fp_of_def of_int_fp_eq_iff)

lemma fp_of_inject: "based a \<Longrightarrow> based b \<Longrightarrow> fp_of a = fp_of b \<longleftrightarrow> a = b"
  by (simp only: fp_of_def of_int_fp_eq_iff mod_pos_pos_trivial unsigned_greater_eq word_uint_eq_iff)

lemma fp_of_0 [simp]: "fp_of 0 = 0"
  by (simp add: fp_of_def)

lemma fp_of_1 [simp]: "fp_of 1 = 1"
  by (simp add: fp_of_def)

lemma fp_of_eq_0_iff: "based a \<Longrightarrow> fp_of a = 0 \<longleftrightarrow> a = 0"
  using fp_of_inject [of a 0] by simp

lemma uint_bsub:
  assumes "based a" "uint b \<le> P"
  shows "uint (bsub a b) = (if uint a < uint b then uint a - uint b + P else uint a - uint b)"
proof (cases "a < b")
  case True
  have "uint (a - b) = uint a - uint b + 2 ^ 64"
    using uint_minus_lt [OF True] by simp
  moreover have "uint (ucast ((0 :: u32) - of_bool (a < b)) :: u64) = 4294967295"
    using True by (simp add: uint_cast unsigned_minus_1_eq_mask mask_eq_exp_minus_1)
  moreover have "0 \<le> P + (uint a - uint b)"
    using assms uint_u64_bound [of a] by linarith
  ultimately have "uint (bsub a b) = uint a - uint b + 2 ^ 64 - 4294967295"
    using assms True unfolding bsub_def overflowing_sub_def Let_def prod.case
    by (subst uint_minus_ge) (simp_all add: word_le_def)
  then show ?thesis using True by (simp add: word_less_def)
next
  case False
  then show ?thesis
    by (simp add: bsub_def overflowing_sub_def uint_minus_ge word_less_def word_le_def)
qed

lemma uint_reduce_159:
  assumes "uint high \<le> P"
  shows "uint (reduce_159 low mid high) = (uint low + uint mid * 2 ^ 64 + uint high * 2 ^ 96) mod P"
proof -
  define l where "l = (if low < high then low - high + PRIME else low - high)"
  define p where "p = (push_bit 32 (ucast mid) :: u64) - drop_bit 32 (push_bit 32 (ucast mid))"
  have l: "uint l = (if uint low < uint high then uint low - uint high + P else uint low - uint high)"
  proof (cases "low < high")
    case True
    then have "uint (low - high) = uint low - uint high + 2 ^ 64"
      using uint_minus_lt [OF True] by simp
    moreover have "0 \<le> uint low" by (rule unsigned_greater_eq)
    ultimately have "0 \<le> P + (uint low - uint high)" using assms by linarith
    with \<open>uint (low - high) = _\<close> have "2 ^ LENGTH(64) \<le> uint (low - high) + uint PRIME"
      using assms unfolding uint_PRIME by simp
    then have "uint (low - high + PRIME) = uint low - uint high + P"
      using \<open>uint (low - high) = _\<close> by (subst uint_plus_big) simp_all
    with True show ?thesis by (simp add: l_def word_less_def)
  next
    case False
    then show ?thesis by (simp add: l_def uint_minus_ge word_less_def word_le_def)
  qed
  have mid: "0 \<le> uint mid \<and> uint mid < 4294967296"
    using uint_lt2p [of mid] by simp
  have sh: "uint (push_bit 32 (ucast mid) :: u64) = uint mid * 4294967296"
    using mid by (subst uint_shiftl_small) (simp_all add: uint_cast)
  then have p: "uint p = uint mid * 4294967295"
    using mid by (simp add: p_def uint_minus_ge word_le_def uint_shiftr)
  have "unat p + unat l = nat (uint p + uint l)"
    by (simp add: nat_add_distrib)
  then have ov: "18446744073709551616 \<le> unat p + unat l \<longleftrightarrow> 18446744073709551616 \<le> uint p + uint l"
    by (simp add: le_nat_iff)
  define r where "r = (if 18446744073709551616 \<le> uint p + uint l then p + l - PRIME else p + l)"
  have r: "uint r = (if 18446744073709551616 \<le> uint p + uint l then uint p + uint l - P else uint p + uint l)"
  proof (cases "18446744073709551616 \<le> uint p + uint l")
    case True
    then have "uint (p + l) = uint p + uint l - 18446744073709551616"
      by (simp add: uint_plus_big)
    moreover from this have "p + l < PRIME"
      using p mid uint_u64_bound [of l] by (simp add: word_less_def)
    ultimately show ?thesis using True by (simp add: r_def uint_minus_lt)
  next
    case False
    then show ?thesis by (simp add: r_def uint_plus_small)
  qed
  have eq: "reduce_159 low mid high = (if PRIME \<le> r then r - PRIME else r)"
    by (simp add: reduce_159_def overflowing_sub_def overflowing_add_def Let_def ov r_def
        l_def [symmetric] p_def [symmetric])
  have u: "uint (reduce_159 low mid high) = (if P \<le> uint r then uint r - P else uint r)"
    by (simp add: eq uint_minus_ge word_le_def)
  have "0 \<le> uint l" "uint l < 18446744073709551616"
    using uint_u64_bound [of l] by simp_all
  then have lt: "0 \<le> uint (reduce_159 low mid high) \<and> uint (reduce_159 low mid high) < P"
    using r p mid uint_u64_bound [of r] unfolding u by (auto split: if_splits)
  have "(uint low + uint mid * 2 ^ 64 + uint high * 2 ^ 96) mod P =
      (uint low - uint high + uint mid * 4294967295 + P * (uint mid + uint high * 4294967297)) mod P"
    by (simp add: algebra_simps)
  also have "\<dots> = (uint low - uint high + uint mid * 4294967295) mod P"
    by (simp only: mod_mult_self2)
  also have "\<dots> = (uint l + uint p) mod P"
    unfolding p by (rule mod_add_cong) (simp_all add: l)
  also have "\<dots> = uint r mod P"
    by (simp add: r add.commute)
  also have "\<dots> = uint (reduce_159 low mid high) mod P"
    by (simp add: u)
  also have "\<dots> = uint (reduce_159 low mid high)"
    using lt by (simp add: mod_pos_pos_trivial)
  finally show ?thesis ..
qed

lemma split_base3: "x mod A + (x div A) mod B * A + x div (A * B) * (A * B) = x" if "0 \<le> B"
  for x A B :: int
proof -
  have "x div (A * B) = x div A div B"
    using that by (rule zdiv_zmult2_eq)
  then have "(x div A) mod B + x div (A * B) * B = x div A"
    by (simp add: mod_div_mult_eq)
  then have "((x div A) mod B + x div (A * B) * B) * A = x div A * A" by simp
  then show ?thesis
    using mod_div_mult_eq [of x A] by (simp add: algebra_simps)
qed

lemma uint_reduce: "uint (reduce n) = uint n mod P"
proof -
  have n: "0 \<le> uint n \<and> uint n < 340282366920938463463374607431768211456"
    by (rule uint_u128_bound)
  have low: "uint (ucast n :: u64) = uint n mod 18446744073709551616"
    by (simp add: uint_cast)
  have mid: "uint (ucast (drop_bit 64 n) :: u32) = (uint n div 18446744073709551616) mod 4294967296"
    by (simp add: uint_cast uint_shiftr)
  have "uint n div 79228162514264337593543950336 < 4294967296"
    using n by (simp add: div_less_iff_less_mult)
  moreover have "0 \<le> uint n div 79228162514264337593543950336"
    using n by (simp add: pos_imp_zdiv_nonneg_iff)
  ultimately have high: "uint (ucast (drop_bit 96 n) :: u64) = uint n div 79228162514264337593543950336"
    by (simp add: uint_cast uint_shiftr mod_pos_pos_trivial)
  have "uint (reduce n) = (uint n mod 18446744073709551616
      + (uint n div 18446744073709551616) mod 4294967296 * 2 ^ 64
      + uint n div 79228162514264337593543950336 * 2 ^ 96) mod P"
    unfolding reduce_def by (subst uint_reduce_159)
      (use \<open>uint n div _ < _\<close> in \<open>simp_all add: low mid high\<close>)
  also have "uint n mod 18446744073709551616 + (uint n div 18446744073709551616) mod 4294967296 * 2 ^ 64
      + uint n div 79228162514264337593543950336 * 2 ^ 96 = uint n"
    using split_base3 [of 4294967296 "uint n" 18446744073709551616] by simp
  finally show ?thesis .
qed

lemma based_reduce [belt_hom]: "based (reduce n)"
  by (simp add: uint_reduce)

lemma fp_of_reduce [belt_hom]: "fp_of (reduce n) = of_int (uint n)"
  by (rule fp_of_eqI) (simp add: uint_reduce)

lemma uint_mul_u64: "uint (ucast a * ucast b :: u128) = uint a * uint b" for a b :: u64
proof -
  have a: "uint (ucast a :: u128) = uint a" and b: "uint (ucast b :: u128) = uint b"
    using uint_u64_bound [of a] uint_u64_bound [of b]
    by (simp_all add: uint_cast mod_pos_pos_trivial)
  have "uint a * uint b \<le> 18446744073709551615 * 18446744073709551615"
    using uint_u64_bound [of a] uint_u64_bound [of b] by (intro mult_mono) simp_all
  then show ?thesis
    by (subst uint_times_small) (simp_all add: a b)
qed

lemma based_bmul [belt_hom]: "based (bmul a b)"
  by (simp add: bmul_def uint_reduce)

lemma uint_bmul: "uint (bmul a b) = uint a * uint b mod P"
  by (simp add: bmul_def uint_reduce uint_mul_u64)

lemma fp_of_bmul [belt_hom]: "fp_of (bmul a b) = fp_of a * fp_of b"
  by (simp add: bmul_def fp_of_reduce uint_mul_u64) (simp add: fp_of_def)

lemma based_bsub [belt_hom]: "based a \<Longrightarrow> based b \<Longrightarrow> based (bsub a b)"
  by (simp add: uint_bsub) (use uint_u64_bound [of b] in linarith)

lemma fp_of_bsub [belt_hom]: "based a \<Longrightarrow> based b \<Longrightarrow> fp_of (bsub a b) = fp_of a - fp_of b"
  using of_int_fp_P by (simp add: fp_of_def uint_bsub)

lemma uint_bneg: "based a \<Longrightarrow> uint (bneg a) = (if a = 0 then 0 else P - uint a)"
  by (simp add: bneg_def uint_minus_ge word_le_def)

lemma based_bneg [belt_hom]: "based a \<Longrightarrow> based (bneg a)"
  using uint_u64_bound [of a] unsigned_eq_0_iff [of a] by (auto simp: uint_bneg order_less_le)

lemma fp_of_bneg [belt_hom]: "based a \<Longrightarrow> fp_of (bneg a) = - fp_of a"
  using of_int_fp_P by (simp add: fp_of_def uint_bneg)

lemma badd_bsub: "badd a b = bsub a (PRIME - b)"
  by (simp add: badd_def bsub_def Let_def)

lemma uint_PRIME_minus: "based b \<Longrightarrow> uint (PRIME - b) = P - uint b"
  by (simp add: uint_minus_ge word_le_def)

lemma uint_badd:
  "based a \<Longrightarrow> based b \<Longrightarrow>
    uint (badd a b) = (if uint a + uint b < P then uint a + uint b else uint a + uint b - P)"
  using uint_u64_bound [of b] by (auto simp: badd_bsub uint_bsub uint_PRIME_minus)

lemma based_badd [belt_hom]: "based a \<Longrightarrow> based b \<Longrightarrow> based (badd a b)"
  using uint_u64_bound [of b] by (auto simp: uint_badd)

lemma fp_of_badd [belt_hom]: "based a \<Longrightarrow> based b \<Longrightarrow> fp_of (badd a b) = fp_of a + fp_of b"
  using of_int_fp_P by (simp add: fp_of_def uint_badd)


subsection \<open>Montgomery form\<close>

lemma uint_RP [simp]: "uint RP = 2 ^ 64 * P"
  by (simp add: RP_def)

lemma uint_and_low32: "uint (a AND 0xffffffff) = uint a mod 4294967296" for a :: u128
proof -
  have "(0xffffffff :: u128) = mask 32" by (simp add: mask_eq_exp_minus_1)
  then have "a AND 0xffffffff = take_bit 32 a" by (simp only: take_bit_eq_mask)
  then show ?thesis by (simp only: unsigned_take_bit_eq) (simp add: take_bit_eq_mod)
qed

lemma uint_mont_reduction:
  assumes "a < RP"
  shows "uint (mont_reduction a) < P \<and> (\<exists>k. uint (mont_reduction a) * 2 ^ 64 = uint a + P * k)"
proof -
  define x0 x1 x2 where "x0 = uint a mod 4294967296"
    and "x1 = uint a div 4294967296 mod 4294967296" and "x2 = uint a div 18446744073709551616"
  note x_def = x0_def x1_def x2_def
  have a: "uint a = x0 + x1 * 4294967296 + x2 * 18446744073709551616"
    using split_base3 [of 4294967296 "uint a" 4294967296] by (simp add: x_def)
  have b0: "0 \<le> x0" "x0 < 4294967296" and b1: "0 \<le> x1" "x1 < 4294967296"
    by (simp_all add: x_def)
  have "uint a < 2 ^ 64 * P" using assms by (simp add: word_less_def)
  then have b2: "0 \<le> x2" "x2 < P"
    by (simp_all add: x2_def pos_imp_zdiv_nonneg_iff div_less_iff_less_mult)
  have w0: "uint (a AND 0xffffffff) = x0" and w1: "uint (drop_bit 32 a AND 0xffffffff) = x1"
    and w2: "uint (drop_bit 64 a) = x2"
    by (simp_all add: uint_and_low32 uint_shiftr x_def)
  have w01: "uint ((a AND 0xffffffff) + (drop_bit 32 a AND 0xffffffff)) = x0 + x1"
    using b0 b1 by (subst uint_plus_small) (simp_all add: w0 w1)
  define c where "c = push_bit 32 ((a AND 0xffffffff) + (drop_bit 32 a AND 0xffffffff))"
  have c: "uint c = (x0 + x1) * 4294967296"
    using b0 b1 unfolding c_def by (subst uint_shiftl_small) (simp_all add: w01)
  define f where "f = (if x0 + x1 < 4294967296 then 0 else 1 :: int)"
  have f: "uint (drop_bit 64 c) = f"
    unfolding uint_shiftr c
    using b0 b1
    by (intro int_div_pos_eq [where r = "(x0 + x1 - f * 4294967296) * 4294967296"])
       (auto simp: f_def algebra_simps)
  define d where "d = (x0 + x1) * 4294967296 - x1 - f * P"
  have db: "0 \<le> d" "d < P"
    using b0 b1 by (simp_all add: d_def f_def)
  have fP: "uint (drop_bit 64 c * PRIME_128) = f * P"
    by (subst uint_times_small) (simp_all add: f f_def PRIME_128_def uint_cast)
  have s: "uint ((drop_bit 32 a AND 0xffffffff) + drop_bit 64 c * PRIME_128) = x1 + f * P"
    using b1 by (subst uint_plus_small) (simp_all add: w1 fP f_def)
  define D where "D = c - ((drop_bit 32 a AND 0xffffffff) + drop_bit 64 c * PRIME_128)"
  have D: "uint D = d"
    unfolding D_def using db by (subst uint_minus_ge) (simp_all add: word_le_def c s d_def)
  have eq: "mont_reduction a = (if D \<le> drop_bit 64 a then ucast (drop_bit 64 a - D)
      else ucast (drop_bit 64 a + PRIME_128 - D))"
    by (simp add: mont_reduction_def Let_def c_def D_def)
  have res: "uint (mont_reduction a) = (if d \<le> x2 then x2 - d else x2 + P - d)"
  proof (cases "d \<le> x2")
    case True
    then have "uint (drop_bit 64 a - D) = x2 - d"
      by (subst uint_minus_ge) (simp_all add: word_le_def D w2)
    with True show ?thesis
      using db b2 by (simp add: eq word_le_def D w2 uint_cast mod_pos_pos_trivial)
  next
    case False
    have P128: "uint PRIME_128 = P" by (simp add: PRIME_128_def uint_cast)
    have "uint (drop_bit 64 a + PRIME_128) = x2 + P"
      using b2 by (subst uint_plus_small) (simp_all add: w2 P128)
    then have "uint (drop_bit 64 a + PRIME_128 - D) = x2 + P - d"
      using db b2 by (subst uint_minus_ge) (simp_all add: word_le_def D)
    with False show ?thesis
      using db b2 by (simp add: eq word_le_def D w2 uint_cast mod_pos_pos_trivial)
  qed
  have "\<exists>k. (x2 - d) * 18446744073709551616 = uint a + P * k"
    by (rule exI [of _ "f * 18446744073709551616 - (x0 + x1) * 4294967297
        + x1"]) (simp add: a d_def algebra_simps)
  then obtain k where k: "(x2 - d) * 18446744073709551616 = uint a + P * k" ..
  then have "(x2 + P - d) * 18446744073709551616 = uint a + P * (k + 18446744073709551616)"
    by (simp add: algebra_simps)
  with k have "\<exists>k. uint (mont_reduction a) * 18446744073709551616 = uint a + P * k"
    unfolding res by (cases "d \<le> x2") (simp_all only: if_True if_False, blast+)
  then show ?thesis using db b2 res by simp
qed

text \<open>
  \<open>R = 2 ^ 64\<close> is the Montgomery radix, and \<open>mont_val m\<close> is the field element that the Montgomery
  form \<open>m\<close> stands for.
\<close>

definition mont_R :: fp where
  "mont_R = of_int (2 ^ 64)"

definition mont_val :: "u64 \<Rightarrow> fp" where
  "mont_val m = fp_of m / mont_R"

lemma mont_R_nonzero [simp]: "mont_R \<noteq> 0"
  unfolding mont_R_def of_int_fp_eq_0_iff by simp

lemma based_mont_reduction [belt_hom]: "a < RP \<Longrightarrow> based (mont_reduction a)"
  using uint_mont_reduction by blast

lemma fp_of_mont_reduction: "a < RP \<Longrightarrow> fp_of (mont_reduction a) = of_int (uint a) / mont_R"
proof -
  assume "a < RP"
  then obtain k where "uint (mont_reduction a) * 2 ^ 64 = uint a + P * k"
    using uint_mont_reduction by blast
  then have "(of_int (uint (mont_reduction a) * 2 ^ 64) :: fp) = of_int (uint a + P * k)"
    by (simp only:)
  also have "\<dots> = of_int (uint a)"
    by (simp only: of_int_add of_int_mult of_int_fp_P mult_zero_left add_0_right)
  finally have "fp_of (mont_reduction a) * mont_R = of_int (uint a)"
    by (simp only: of_int_mult fp_of_def mont_R_def)
  then show ?thesis by (metis mont_R_nonzero nonzero_mult_div_cancel_right)
qed

lemma uint_mul_lt_RP: "based (a :: u64) \<Longrightarrow> ucast a * ucast b < RP" for a b :: u64
proof -
  assume "based a"
  then have "uint a * uint b \<le> uint a * 18446744073709551615"
    using uint_u64_bound [of a] uint_u64_bound [of b] by (intro mult_left_mono) auto
  also have "\<dots> < 2 ^ 64 * P" using \<open>based a\<close> by simp
  finally show ?thesis by (simp only: word_less_def uint_mul_u64 uint_RP)
qed

lemma based_montiply [belt_hom]: "based a \<Longrightarrow> based (montiply a b)"
  by (simp add: montiply_def based_mont_reduction uint_mul_lt_RP)

lemma mont_val_montiply [belt_hom]: "based a \<Longrightarrow> mont_val (montiply a b) = mont_val a * mont_val b"
  by (simp add: mont_val_def montiply_def fp_of_mont_reduction uint_mul_lt_RP uint_mul_u64)
     (simp add: fp_of_def)

lemma montify_montiply: "montify a = montiply 18446744065119617025 a"
  by (simp add: montify_def montiply_def R2_def mult.commute)

lemma based_montify [belt_hom]: "based (montify a)"
  by (simp add: montify_montiply based_montiply)

lemma mont_val_montify [belt_hom]: "mont_val (montify a) = fp_of a"
proof -
  have "fp_of 18446744065119617025 = mont_R * mont_R"
    unfolding fp_of_def mont_R_def of_int_mult [symmetric] of_int_fp_eq_iff by simp
  then have "mont_val 18446744065119617025 = mont_R"
    by (simp add: mont_val_def)
  then show ?thesis
    by (simp add: montify_montiply mont_val_montiply) (simp add: mont_val_def)
qed

lemma montwopow_hom [belt_hom]:
  assumes "based a"
  shows "based (montwopow a n)" and "mont_val (montwopow a n) = mont_val a ^ (2 ^ n)"
proof -
  have "based (montwopow a n) \<and> mont_val (montwopow a n) = mont_val a ^ (2 ^ n)"
    by (induction n) (simp_all add: montwopow_def assms belt_hom power_mult power2_eq_square
        flip: power_mult_distrib)
  then show "based (montwopow a n)" "mont_val (montwopow a n) = mont_val a ^ (2 ^ n)" by simp_all
qed

text \<open>
  The addition chain of \<open>binv\<close>: \<open>mont_pow x n m\<close> says that \<open>m\<close> is the canonical Montgomery form of
  \<open>x ^ n\<close>; the two rules follow the two operations the chain is built from.
\<close>

definition mont_pow :: "fp \<Rightarrow> nat \<Rightarrow> u64 \<Rightarrow> bool" where
  "mont_pow x n m \<longleftrightarrow> based m \<and> mont_val m = x ^ n"

lemma mont_pow_montiply: "mont_pow x m a \<Longrightarrow> mont_pow x n b \<Longrightarrow> k = m + n \<Longrightarrow> mont_pow x k (montiply a b)"
  by (simp add: mont_pow_def belt_hom power_add)

lemma mont_pow_montwopow: "mont_pow x m a \<Longrightarrow> k = m * 2 ^ b \<Longrightarrow> mont_pow x k (montwopow a b)"
  by (simp add: mont_pow_def belt_hom power_mult)

lemma mont_pow_out: "mont_pow x n m \<Longrightarrow> based (mont_reduction (ucast m)) \<and> fp_of (mont_reduction (ucast m)) = x ^ n"
proof -
  assume m: "mont_pow x n m"
  have u: "uint (ucast m :: u128) = uint m"
    using uint_u64_bound [of m] by (simp add: uint_cast mod_pos_pos_trivial)
  then have "ucast m < RP"
    using uint_u64_bound [of m] by (simp add: word_less_def)
  moreover have "fp_of (mont_reduction (ucast m)) = of_int (uint m) / mont_R"
    using fp_of_mont_reduction [OF \<open>ucast m < RP\<close>] by (simp only: u)
  ultimately show ?thesis
    using m by (simp only: based_mont_reduction mont_pow_def mont_val_def fp_of_def)
qed

lemma binv_chain: "based (binv a) \<and> fp_of (binv a) = fp_of a ^ 18446744069414584319"
proof -
  let ?M = "mont_pow (fp_of a)"
  define y where "y = montify a"
  define y2 where "y2 = montiply y (montiply y y)"
  define y3 where "y3 = montiply y (montiply y2 y2)"
  define y5 where "y5 = montiply y2 (montwopow y3 2)"
  define y10 where "y10 = montiply y5 (montwopow y5 5)"
  define y20 where "y20 = montiply y10 (montwopow y10 10)"
  define y30 where "y30 = montiply y10 (montwopow y20 10)"
  define y31 where "y31 = montiply y (montiply y30 y30)"
  define dup where "dup = montiply (montwopow y31 32) y31"
  note chain = mont_pow_montiply mont_pow_montwopow refl
  have y: "?M 1 y" by (simp add: mont_pow_def y_def belt_hom)
  have y2: "?M (2 ^ 2 - 1) y2" unfolding y2_def by (rule chain y)+ simp
  have y3: "?M (2 ^ 3 - 1) y3" unfolding y3_def by (rule chain y y2)+ simp
  have y5: "?M (2 ^ 5 - 1) y5" unfolding y5_def by (rule chain y2 y3)+ simp
  have y10: "?M (2 ^ 10 - 1) y10" unfolding y10_def by (rule chain y5)+ simp
  have y20: "?M (2 ^ 20 - 1) y20" unfolding y20_def by (rule chain y10)+ simp
  have y30: "?M (2 ^ 30 - 1) y30" unfolding y30_def by (rule chain y10 y20)+ simp
  have y31: "?M (2 ^ 31 - 1) y31" unfolding y31_def by (rule chain y y30)+ simp
  have dup: "?M ((2 ^ 31 - 1) * (2 ^ 32 + 1)) dup" unfolding dup_def by (rule chain y31)+ simp
  have "?M 18446744069414584319 (montiply y (montiply dup dup))" by (rule chain y dup)+ simp
  then show ?thesis
    unfolding binv_def Let_def
    unfolding y_def [symmetric] y2_def [symmetric] y3_def [symmetric] y5_def [symmetric]
      y10_def [symmetric] y20_def [symmetric] y30_def [symmetric] y31_def [symmetric] dup_def [symmetric]
    by (rule mont_pow_out)
qed

lemma based_binv [belt_hom]: "based (binv a)"
  using binv_chain by blast

lemma fp_of_binv [belt_hom]: "fp_of (binv a) = inverse (fp_of a)"
  using binv_chain [of a] by (simp add: inverse_fp_def group_order_eq)

lemma binv_correct: "based a \<Longrightarrow> a \<noteq> 0 \<Longrightarrow> bmul a (binv a) = 1"
  by (rule fp_of_inject [THEN iffD1]) (simp_all add: belt_hom fp_of_eq_0_iff)


subsection \<open>Powers\<close>

lemma bpow_loop_bmul:
  "bpow_loop a b c =
     (if 1 < b then if b AND 1 = 0 then bpow_loop (bmul a a) (b div 2) c
        else bpow_loop (bmul a a) ((b - 1) div 2) (bmul c a)
      else (a, c))"
  by (subst bpow_loop.simps) (simp add: bmul_def)

lemma unat_halves:
  fixes b :: u64
  assumes "1 < b"
  shows "b AND 1 = 0 \<Longrightarrow> unat b = 2 * unat (b div 2) \<and> 0 < b div 2"
    and "b AND 1 \<noteq> 0 \<Longrightarrow> unat b = Suc (2 * unat ((b - 1) div 2)) \<and> 0 < (b - 1) div 2"
proof -
  have b: "1 < unat b" using assms by (simp add: word_less_nat_alt)
  have m: "unat (b - 1) = unat b - 1"
    using b by (metis less_nat_zero_code unat_0 unat_minus_one)
  have odd: "b AND 1 = 0 \<longleftrightarrow> even (unat b)"
  proof -
    have "bit b 0 \<longleftrightarrow> bit (unat b) 0" by (simp only: bit_unsigned_iff) simp
    then show ?thesis by (simp add: and_one_eq mod_2_eq_odd bit_0)
  qed
  show "unat b = 2 * unat (b div 2) \<and> 0 < b div 2" if "b AND 1 = 0"
    using that b unfolding odd by (auto simp: unat_div word_less_nat_alt elim!: evenE)
  show "unat b = Suc (2 * unat ((b - 1) div 2)) \<and> 0 < (b - 1) div 2" if "b AND 1 \<noteq> 0"
    using that b unfolding odd by (auto simp: unat_div word_less_nat_alt m elim!: oddE)
qed

lemma bpow_loop_hom:
  "0 < b \<Longrightarrow> (case bpow_loop a b c of (a', c') \<Rightarrow> fp_of (bmul c' a')) = fp_of c * fp_of a ^ unat b"
proof (induction a b c rule: bpow_loop.induct)
  case (1 a b c)
  note IH = 1(1,2) [folded bmul_def]
  show ?case
  proof (cases "1 < b")
    case False
    with \<open>0 < b\<close> have "b = 1"
      by (metis antisym_conv3 word_less_1 word_not_simps(1))
    then show ?thesis by (simp add: bpow_loop_bmul fp_of_bmul)
  next
    case True
    note half = unat_halves [OF True]
    show ?thesis
    proof (cases "b AND 1 = 0")
      case even: True
      from IH(1) [OF True even] half(1) [OF even] show ?thesis
        by (subst bpow_loop_bmul)
           (simp add: True even fp_of_bmul power_mult power2_eq_square)
    next
      case odd: False
      from IH(2) [OF True odd] half(2) [OF odd] show ?thesis
        by (subst bpow_loop_bmul)
           (simp add: True odd fp_of_bmul power_mult power2_eq_square mult.assoc)
    qed
  qed
qed

lemma fp_of_bpow [belt_hom]: "fp_of (bpow a b) = fp_of a ^ unat b"
  using bpow_loop_hom [of b a 1]
  by (auto simp: bpow_def bmul_def word_gt_0 split: prod.splits)

lemma based_bpow [belt_hom]: "based (bpow a b)"
  by (simp add: bpow_def based_reduce split: prod.splits)


subsection \<open>Properties\<close>

text \<open>On canonical words the four ring operations give canonical words, and compute addition,
  subtraction, negation and multiplication of the prime field.\<close>

theorem belt_ring_ops:
  assumes "based a" "based b"
  shows "based (badd a b) \<and> fp_of (badd a b) = fp_of a + fp_of b \<and>
    based (bsub a b) \<and> fp_of (bsub a b) = fp_of a - fp_of b \<and>
    based (bneg a) \<and> fp_of (bneg a) = - fp_of a \<and>
    based (bmul a b) \<and> fp_of (bmul a b) = fp_of a * fp_of b"
  using assms by (simp add: belt_hom)

theorem belt_ring_ops_witness:
  "fp_of (badd 18446744069414584320 5) = fp_of 18446744069414584320 + fp_of 5 \<and>
   badd 18446744069414584320 5 = 4"
proof -
  have "based 18446744069414584320" "based 5" by simp_all
  moreover have "badd 18446744069414584320 5 = 4" by code_simp
  ultimately show ?thesis using belt_ring_ops by blast
qed

text \<open>\<open>reduce\<close> is the remainder modulo the prime for every 128-bit word: none of its wrapping
  steps loses a carry.\<close>

theorem reduce_exact: "uint (reduce n) = uint n mod P"
  by (rule uint_reduce)

text \<open>Montgomery arithmetic agrees with the plain one: lifting two words, multiplying them in
  Montgomery form and reducing the product gives \<open>bmul\<close>, on all 64-bit words.\<close>

theorem montgomery_equivalence: "mont_reduction (ucast (montiply (montify a) (montify b))) = bmul a b"
proof -
  let ?m = "montiply (montify a) (montify b)"
  have r: "ucast ?m < RP"
    using uint_u64_bound [of ?m] by (simp add: word_less_def uint_cast)
  have u: "uint (ucast ?m :: u128) = uint ?m"
    using uint_u64_bound [of ?m] by (simp add: uint_cast)
  have "fp_of (mont_reduction (ucast ?m)) = mont_val ?m"
    by (subst fp_of_mont_reduction [OF r]) (simp only: u mont_val_def fp_of_def)
  also have "\<dots> = fp_of (bmul a b)" by (simp add: belt_hom)
  finally show ?thesis
    using fp_of_inject [OF based_mont_reduction [OF r] based_bmul] by simp
qed

text \<open>\<open>binv\<close> is the multiplicative inverse: the fixed addition chain computes the power
  \<open>p - 2\<close>, so a nonzero canonical word times its inverse is one.\<close>

theorem binv_inverse:
  assumes "based a" "a \<noteq> 0"
  shows "based (binv a) \<and> bmul a (binv a) = 1"
  using binv_correct [OF assms] based_binv by simp

theorem binv_inverse_witness: "bmul 7 (binv 7) = 1"
proof -
  have "based 7" "(7 :: u64) \<noteq> 0" by simp_all
  from binv_inverse [OF this] show ?thesis by simp
qed

text \<open>\<open>bpow\<close> is exponentiation in the field for every 64-bit exponent, zero included, and its
  square-and-multiply loop ends.\<close>

theorem bpow_power: "based (bpow a b) \<and> fp_of (bpow a b) = fp_of a ^ unat b"
  by (simp add: belt_hom)

end
