(* ===== verification/Sextic.thy ===== *)
theory Sextic
  imports Goldilocks
begin

text \<open>
  The field the Cheetah curve lives over, as a tower: \<open>f2\<close> adjoins a square root \<open>s\<close> of 7 to \<open>fp\<close>, and
  \<open>f6\<close> adjoins a cube root \<open>X\<close> of \<open>s\<close>, so that \<open>X ^ 6 = 7\<close>.  Both steps give a field because 7 is a
  generator of the multiplicative group of \<open>fp\<close>, hence neither a square nor (up to sign) a cube.
\<close>

subsection \<open>7 is neither a square nor a cube\<close>

lemma gen_eq_7: "gen = 7"
  by (simp add: gen_def)

lemma seven_nonzero: "(7 :: fp) \<noteq> 0"
  using gen_pow_unit [of 1] unfolding gen_eq_7 [symmetric]
  by (cases "gen = 0") (simp_all add: group_order_eq)

lemma seven_not_square: "(7 :: fp) \<noteq> x * x"
proof
  assume sq: "(7 :: fp) = x * x"
  then have "x \<noteq> 0" using seven_nonzero by auto
  have "gen ^ (group_order div 2) = x ^ (2 * (group_order div 2))"
    by (simp only: gen_eq_7 sq power_mult power2_eq_square)
  also have "2 * (group_order div 2) = group_order" by (simp add: group_order_eq)
  finally show False
    using fermat_fp [OF \<open>x \<noteq> 0\<close>] gen_pow_ne_1 [of "group_order div 2"] by (simp add: group_order_eq)
qed

lemma seven_not_cube: "(7 :: fp) \<noteq> x * x * x"
proof
  assume cube: "(7 :: fp) = x * x * x"
  then have "x \<noteq> 0" using seven_nonzero by auto
  have "gen ^ (group_order div 3) = x ^ (3 * (group_order div 3))"
    by (simp only: gen_eq_7 cube power_mult power3_eq_cube)
  also have "3 * (group_order div 3) = group_order" by (simp add: group_order_eq)
  finally show False
    using fermat_fp [OF \<open>x \<noteq> 0\<close>] gen_pow_ne_1 [of "group_order div 3"] by (simp add: group_order_eq)
qed


subsection \<open>The quadratic step\<close>

datatype f2 = F2 (re2: fp) (im2: fp)

lemma f2_eq_iff: "z = w \<longleftrightarrow> re2 z = re2 w \<and> im2 z = im2 w"
  by (cases z; cases w) auto

instantiation f2 :: comm_ring_1
begin

definition zero_f2 :: f2 where "zero_f2 = F2 0 0"
definition one_f2 :: f2 where "one_f2 = F2 1 0"
definition plus_f2 :: "f2 \<Rightarrow> f2 \<Rightarrow> f2" where "plus_f2 z w = F2 (re2 z + re2 w) (im2 z + im2 w)"
definition minus_f2 :: "f2 \<Rightarrow> f2 \<Rightarrow> f2" where "minus_f2 z w = F2 (re2 z - re2 w) (im2 z - im2 w)"
definition uminus_f2 :: "f2 \<Rightarrow> f2" where "uminus_f2 z = F2 (- re2 z) (- im2 z)"
definition times_f2 :: "f2 \<Rightarrow> f2 \<Rightarrow> f2" where
  "times_f2 z w = F2 (re2 z * re2 w + 7 * (im2 z * im2 w)) (re2 z * im2 w + im2 z * re2 w)"

instance
  by standard (simp_all add: f2_eq_iff zero_f2_def one_f2_def plus_f2_def minus_f2_def
      uminus_f2_def times_f2_def algebra_simps)

end

lemma f2_sel [simp]:
  "re2 0 = 0" "im2 0 = 0" "re2 1 = 1" "im2 1 = 0"
  "re2 (z + w) = re2 z + re2 w" "im2 (z + w) = im2 z + im2 w"
  "re2 (z - w) = re2 z - re2 w" "im2 (z - w) = im2 z - im2 w"
  "re2 (- z) = - re2 z" "im2 (- z) = - im2 z"
  "re2 (z * w) = re2 z * re2 w + 7 * (im2 z * im2 w)" "im2 (z * w) = re2 z * im2 w + im2 z * re2 w"
  by (simp_all add: zero_f2_def one_f2_def plus_f2_def minus_f2_def uminus_f2_def times_f2_def)

definition norm2 :: "f2 \<Rightarrow> fp" where
  "norm2 z = re2 z * re2 z - 7 * (im2 z * im2 z)"

lemma norm2_mult: "norm2 (z * w) = norm2 z * norm2 w"
  by (simp add: norm2_def algebra_simps)

lemma norm2_nonzero: "z \<noteq> 0 \<Longrightarrow> norm2 z \<noteq> 0"
proof
  assume "z \<noteq> 0" and n: "norm2 z = 0"
  show False
  proof (cases "im2 z = 0")
    case True
    with n \<open>z \<noteq> 0\<close> show False by (simp add: norm2_def f2_eq_iff)
  next
    case False
    with n have "7 = (re2 z / im2 z) * (re2 z / im2 z)"
      by (simp add: norm2_def field_simps)
    with seven_not_square show False by blast
  qed
qed

instantiation f2 :: field
begin

definition inverse_f2 :: "f2 \<Rightarrow> f2" where
  "inverse_f2 z = F2 (re2 z / norm2 z) (- im2 z / norm2 z)"

definition divide_f2 :: "f2 \<Rightarrow> f2 \<Rightarrow> f2" where
  "divide_f2 z w = z * inverse w"

instance
proof
  fix z w :: f2
  show "inverse z * z = 1" if "z \<noteq> 0"
  proof -
    have "re2 z * re2 z / norm2 z - 7 * (im2 z * im2 z) / norm2 z = norm2 z / norm2 z"
      by (simp add: norm2_def flip: diff_divide_distrib)
    then show ?thesis
      using norm2_nonzero [OF that] by (simp add: inverse_f2_def f2_eq_iff)
  qed
  show "z div w = z * inverse w" by (rule divide_f2_def)
  show "inverse (0 :: f2) = 0" by (simp add: inverse_f2_def f2_eq_iff)
qed

end

definition s7 :: f2 where
  "s7 = F2 0 1"

lemma s7_sel [simp]: "re2 s7 = 0" "im2 s7 = 1"
  by (simp_all add: s7_def)

lemma s7_not_cube: "s7 \<noteq> z * z * z"
proof
  assume "s7 = z * z * z"
  then have "norm2 s7 = norm2 (z * z * z)" by (rule arg_cong)
  then have "norm2 s7 = norm2 z * norm2 z * norm2 z" by (simp only: norm2_mult)
  then have "7 = (- norm2 z) * (- norm2 z) * (- norm2 z)" by (simp add: norm2_def [of s7])
  with seven_not_cube show False by blast
qed


subsection \<open>The cubic step\<close>

text \<open>The norm form of a cube root that is not in the field has no non-trivial zero.\<close>

lemma cubic_norm_zero:
  fixes a b c s :: "'a::field"
  assumes ncube: "\<And>z. s \<noteq> z * z * z"
    and n: "a * a * a + s * (b * b * b) + s * s * (c * c * c) - 3 * (s * (a * b * c)) = 0"
  shows "a = 0 \<and> b = 0 \<and> c = 0"
proof (cases "c = 0")
  case True
  have "b = 0"
  proof (rule ccontr)
    assume "b \<noteq> 0"
    with n True have "s = (- a / b) * (- a / b) * (- a / b)"
      by (simp add: field_simps) (simp add: add_eq_0_iff)
    with ncube show False by blast
  qed
  with n True show ?thesis by simp
next
  case False
  define u v where "u = a / c" and "v = b / c"
  have a: "a = u * c" and b: "b = v * c" using False by (simp_all add: u_def v_def)
  have "(u * u * u + s * (v * v * v) + s * s - 3 * (s * (u * v))) * (c * c * c) = 0"
    using n unfolding a b by (simp add: algebra_simps)
  then have uv: "u * u * u + s * (v * v * v) + s * s - 3 * (s * (u * v)) = 0"
    using False by simp
  show ?thesis
  proof (cases "v * v = u")
    case True
    have "(s - v * v * v) * (s - v * v * v) = u * u * u + s * (v * v * v) + s * s - 3 * (s * (u * v))"
      unfolding True [symmetric] by (simp add: algebra_simps)
    with uv have "s = v * v * v" by simp
    with ncube show ?thesis by blast
  next
    case False
    define w where "w = (s - u * v) / (v * v - u)"
    have "(s - u * v) * (s - u * v) * (s - u * v) - s * ((v * v - u) * (v * v - u) * (v * v - u))
        = (s - v * v * v) * (u * u * u + s * (v * v * v) + s * s - 3 * (s * (u * v)))"
      by (simp add: algebra_simps)
    with uv have "(s - u * v) * (s - u * v) * (s - u * v) = s * ((v * v - u) * (v * v - u) * (v * v - u))"
      by simp
    then have "w * w * w = s"
      using False by (simp add: w_def)
    with ncube show ?thesis by blast
  qed
qed

datatype f6 = F6 (c0: f2) (c1: f2) (c2: f2)

lemma f6_eq_iff: "z = w \<longleftrightarrow> c0 z = c0 w \<and> c1 z = c1 w \<and> c2 z = c2 w"
  by (cases z; cases w) auto

instantiation f6 :: comm_ring_1
begin

definition zero_f6 :: f6 where "zero_f6 = F6 0 0 0"
definition one_f6 :: f6 where "one_f6 = F6 1 0 0"
definition plus_f6 :: "f6 \<Rightarrow> f6 \<Rightarrow> f6" where
  "plus_f6 z w = F6 (c0 z + c0 w) (c1 z + c1 w) (c2 z + c2 w)"
definition minus_f6 :: "f6 \<Rightarrow> f6 \<Rightarrow> f6" where
  "minus_f6 z w = F6 (c0 z - c0 w) (c1 z - c1 w) (c2 z - c2 w)"
definition uminus_f6 :: "f6 \<Rightarrow> f6" where "uminus_f6 z = F6 (- c0 z) (- c1 z) (- c2 z)"
definition times_f6 :: "f6 \<Rightarrow> f6 \<Rightarrow> f6" where
  "times_f6 z w =
     F6 (c0 z * c0 w + s7 * (c1 z * c2 w + c2 z * c1 w))
        (c0 z * c1 w + c1 z * c0 w + s7 * (c2 z * c2 w))
        (c0 z * c2 w + c1 z * c1 w + c2 z * c0 w)"

instance
  by standard (simp_all add: f6_eq_iff zero_f6_def one_f6_def plus_f6_def minus_f6_def
      uminus_f6_def times_f6_def algebra_simps)

end

lemma f6_sel [simp]:
  "c0 0 = 0" "c1 0 = 0" "c2 0 = 0" "c0 1 = 1" "c1 1 = 0" "c2 1 = 0"
  "c0 (z + w) = c0 z + c0 w" "c1 (z + w) = c1 z + c1 w" "c2 (z + w) = c2 z + c2 w"
  "c0 (z - w) = c0 z - c0 w" "c1 (z - w) = c1 z - c1 w" "c2 (z - w) = c2 z - c2 w"
  "c0 (- z) = - c0 z" "c1 (- z) = - c1 z" "c2 (- z) = - c2 z"
  "c0 (z * w) = c0 z * c0 w + s7 * (c1 z * c2 w + c2 z * c1 w)"
  "c1 (z * w) = c0 z * c1 w + c1 z * c0 w + s7 * (c2 z * c2 w)"
  "c2 (z * w) = c0 z * c2 w + c1 z * c1 w + c2 z * c0 w"
  by (simp_all add: zero_f6_def one_f6_def plus_f6_def minus_f6_def uminus_f6_def times_f6_def)

definition norm6 :: "f6 \<Rightarrow> f2" where
  "norm6 z = c0 z * c0 z * c0 z + s7 * (c1 z * c1 z * c1 z) + s7 * s7 * (c2 z * c2 z * c2 z)
     - 3 * (s7 * (c0 z * c1 z * c2 z))"

definition adj6 :: "f6 \<Rightarrow> f6" where
  "adj6 z = F6 (c0 z * c0 z - s7 * (c1 z * c2 z)) (s7 * (c2 z * c2 z) - c0 z * c1 z)
     (c1 z * c1 z - c0 z * c2 z)"

lemma norm6_nonzero: "z \<noteq> 0 \<Longrightarrow> norm6 z \<noteq> 0"
proof (rule ccontr)
  assume "z \<noteq> 0" and "\<not> norm6 z \<noteq> 0"
  then have "c0 z = 0 \<and> c1 z = 0 \<and> c2 z = 0"
    unfolding norm6_def by (intro cubic_norm_zero [OF s7_not_cube]) blast
  then have "z = 0" by (simp add: f6_eq_iff)
  with \<open>z \<noteq> 0\<close> show False ..
qed

instantiation f6 :: field
begin

definition inverse_f6 :: "f6 \<Rightarrow> f6" where
  "inverse_f6 z = F6 (inverse (norm6 z)) 0 0 * adj6 z"

definition divide_f6 :: "f6 \<Rightarrow> f6 \<Rightarrow> f6" where
  "divide_f6 z w = z * inverse w"

instance
proof
  fix z w :: f6
  have "adj6 z * z = F6 (norm6 z) 0 0"
    by (simp add: f6_eq_iff adj6_def norm6_def algebra_simps)
  then have "inverse z * z = F6 (inverse (norm6 z)) 0 0 * F6 (norm6 z) 0 0"
    by (simp only: inverse_f6_def mult.assoc)
  then show "inverse z * z = 1" if "z \<noteq> 0"
    using norm6_nonzero [OF that] by (simp add: f6_eq_iff)
  show "z div w = z * inverse w" by (rule divide_f6_def)
  show "inverse (0 :: f6) = 0" by (simp add: inverse_f6_def adj6_def f6_eq_iff)
qed

end

definition X6 :: f6 where
  "X6 = F6 0 1 0"

definition emb :: "fp \<Rightarrow> f6" where
  "emb a = F6 (F2 a 0) 0 0"

lemma X6_pow6: "X6 ^ 6 = emb 7"
  by (simp add: X6_def emb_def eval_nat_numeral f6_eq_iff f2_eq_iff)

lemma emb_simps [simp]:
  "emb 0 = 0" "emb 1 = 1" "emb (a + b) = emb a + emb b" "emb (a - b) = emb a - emb b"
  "emb (- a) = - emb a" "emb (a * b) = emb a * emb b"
  by (simp_all add: emb_def f6_eq_iff f2_eq_iff)

lemma emb_eq_0_iff [simp]: "emb a = 0 \<longleftrightarrow> a = 0"
  by (simp add: emb_def f6_eq_iff f2_eq_iff)

end
