(* ===== verification/Bpoly.thy ===== *)
theory Bpoly
  imports Belt Sextic
begin

text \<open>
  Polynomials over the base field, \<^verbatim>\<open>crates/vesl-signing/src/math/bpoly.rs\<close>: coefficient lists, lowest
  degree first.  The source writes into caller-supplied slices; here the slice is passed in and the
  written slice is returned, \<open>None\<close> standing for an index panic, the divide-by-zero assertion or the
  underflow of \<open>i -= 1\<close>.
\<close>

subsection \<open>Degree and zero test\<close>

definition degree :: "u64 list \<Rightarrow> nat" where
  "degree p = (case rposition (\<lambda>x. x \<noteq> 0) p of None \<Rightarrow> 0 | Some i \<Rightarrow> i)"

definition is_zero :: "u64 list \<Rightarrow> bool" where
  "is_zero p = list_all (\<lambda>x. x = 0) p"

definition fill_zero :: "u64 list \<Rightarrow> u64 list" where
  "fill_zero p = map (\<lambda>_. 0) p"


subsection \<open>Product, difference, scaling\<close>

fun bpmul_inner :: "nat \<Rightarrow> u64 \<Rightarrow> u64 list \<Rightarrow> u64 list \<Rightarrow> u64 list option" where
  "bpmul_inner k a [] res = Some res"
| "bpmul_inner k a (b # bs) res =
     (if k < length res then bpmul_inner (Suc k) a bs (res[k := badd (res ! k) (bmul a b)]) else None)"

fun bpmul_outer :: "nat \<Rightarrow> u64 list \<Rightarrow> u64 list \<Rightarrow> u64 list \<Rightarrow> u64 list option" where
  "bpmul_outer i [] b res = Some res"
| "bpmul_outer i (a # as) b res =
     (if a = 0 then bpmul_outer (Suc i) as b res
      else case bpmul_inner i a b res of
             None \<Rightarrow> None
           | Some res \<Rightarrow> bpmul_outer (Suc i) as b res)"

definition bpmul :: "u64 list \<Rightarrow> u64 list \<Rightarrow> u64 list \<Rightarrow> u64 list option" where
  "bpmul a b res =
     (if is_zero a \<or> is_zero b then Some (fill_zero res)
      else bpmul_outer 0 a b (fill_zero res))"

definition bpsub :: "u64 list \<Rightarrow> u64 list \<Rightarrow> u64 list \<Rightarrow> u64 list option" where
  "bpsub a b res =
     (let res_len = max (length a) (length b)
      in if length res < res_len then None
         else Some (map (\<lambda>i. if i < length a \<and> i < length b then bsub (a ! i) (b ! i)
                             else if i < length a then a ! i
                             else bneg (b ! i)) [0..<res_len] @ drop res_len res))"

definition bpscal :: "u64 \<Rightarrow> u64 list \<Rightarrow> u64 list \<Rightarrow> u64 list" where
  "bpscal s b res = map (\<lambda>bp. bmul s bp) (take (length res) b) @ drop (length b) res"


subsection \<open>Division with remainder\<close>

text \<open>
  The inner loop \<open>for k in 0..=deg_b\<close> on the remainder, and the outer loop with its variables; \<open>i\<close> is
  the running index, whose decrement from 0 panics.
\<close>

definition bpdvr_sub :: "nat \<Rightarrow> nat \<Rightarrow> u64 list \<Rightarrow> u64 \<Rightarrow> nat \<Rightarrow> nat \<Rightarrow> u64 list \<Rightarrow> u64 list" where
  "bpdvr_sub a_end deg_b b coeff i k r =
     (if k \<le> a_end \<and> k < length b \<and> k \<le> i
      then r[i - k := bsub (r ! (i - k)) (bmul coeff (b ! (deg_b - k)))] else r)"

fun bpdvr_loop ::
  "nat \<Rightarrow> nat \<Rightarrow> u64 list \<Rightarrow> u64 list \<Rightarrow> u64 list \<Rightarrow> nat \<Rightarrow> nat \<Rightarrow> nat \<Rightarrow> (u64 list \<times> u64 list \<times> nat) option"
  where
  "bpdvr_loop a_end deg_b b r q deg_r q_index i =
     (if deg_b \<le> deg_r then
        if length r \<le> i \<or> length b \<le> deg_b \<or> length q \<le> q_index then None
        else
          let coeff = bmul (r ! i) (binv (b ! deg_b));
              q = q[q_index := coeff];
              r = fold (bpdvr_sub a_end deg_b b coeff i) [0..<Suc deg_b] r;
              deg_r = deg_r - 1;
              q_index = q_index - 1
          in if deg_r = 0 \<and> r ! 0 = 0 then Some (r, q, deg_r)
             else (case i of 0 \<Rightarrow> None | Suc i \<Rightarrow> bpdvr_loop a_end deg_b b r q deg_r q_index i)
      else Some (r, q, deg_r))"

declare bpdvr_loop.simps [simp del]

definition bpdvr :: "u64 list \<Rightarrow> u64 list \<Rightarrow> u64 list \<Rightarrow> u64 list \<Rightarrow> (u64 list \<times> u64 list) option" where
  "bpdvr a b q res =
     (if is_zero a then Some (fill_zero q, fill_zero res)
      else if is_zero b then None
      else
        let q = fill_zero q; res = fill_zero res;
            a_end = degree a; r = take (Suc a_end) a; deg_b = degree b
        in case bpdvr_loop a_end deg_b b r q a_end (a_end - deg_b) a_end of
             None \<Rightarrow> None
           | Some (r, q, deg_r) \<Rightarrow>
               (if length res < Suc deg_r \<or> length r < Suc deg_r then None
                else Some (q, take (Suc deg_r) r @ drop (Suc deg_r) res)))"


subsection \<open>A remainder is smaller than the divisor\<close>

lemma is_zero_iff: "is_zero p \<longleftrightarrow> (\<forall>x\<in>set p. x = 0)"
  by (simp add: is_zero_def list_all_iff)

lemma is_zero_fill_zero [simp]: "is_zero (fill_zero p)"
  by (auto simp: is_zero_iff fill_zero_def)

lemma length_fill_zero [simp]: "length (fill_zero p) = length p"
  by (simp add: fill_zero_def)

lemma nth_fill_zero [simp]: "i < length p \<Longrightarrow> fill_zero p ! i = 0"
  by (simp add: fill_zero_def)

lemma degree_nonzero: "\<not> is_zero p \<Longrightarrow> degree p < length p \<and> p ! degree p \<noteq> 0"
  using rposition_Some [of "\<lambda>x. x \<noteq> 0" p] rposition_None [of "\<lambda>x. x \<noteq> 0" p]
  by (auto simp: degree_def is_zero_iff split: option.splits)

lemma above_degree: "degree p < j \<Longrightarrow> j < length p \<Longrightarrow> p ! j = 0"
  using rposition_Some [of "\<lambda>x. x \<noteq> 0" p] rposition_None [of "\<lambda>x. x \<noteq> 0" p]
  by (auto simp: degree_def split: option.splits)

lemma degree_le: "(\<And>j. n < j \<Longrightarrow> j < length p \<Longrightarrow> p ! j = 0) \<Longrightarrow> degree p \<le> n"
proof (rule ccontr)
  assume z: "\<And>j. n < j \<Longrightarrow> j < length p \<Longrightarrow> p ! j = 0" and "\<not> degree p \<le> n"
  then have "n < degree p" by simp
  then obtain i where "rposition (\<lambda>x. x \<noteq> 0) p = Some i" "i = degree p"
    by (auto simp: degree_def split: option.splits)
  with rposition_Some [OF this(1)] z \<open>n < degree p\<close> show False by auto
qed

lemma length_bpdvr_sub [simp]: "length (bpdvr_sub e d b c i k r) = length r"
  by (simp add: bpdvr_sub_def)

lemma length_fold_bpdvr_sub [simp]: "length (fold (bpdvr_sub e d b c i) ks r) = length r"
  by (induction ks arbitrary: r) simp_all

lemma bpdvr_loop_shape:
  "bpdvr_loop a_end deg_b b r q deg_r q_index i = Some (r', q', deg_r') \<Longrightarrow>
    length r' = length r \<and> length q' = length q \<and>
    (deg_r' < deg_b \<or> deg_r' = 0 \<and> r' ! 0 = 0)"
proof (induction a_end deg_b b r q deg_r q_index i rule: bpdvr_loop.induct)
  case (1 a_end deg_b b r q deg_r q_index i)
  from "1.prems" show ?case
    by (subst (asm) bpdvr_loop.simps)
       (auto simp: Let_def split: if_splits nat.splits dest!: "1.IH")
qed

lemma bpdvr_shrinks:
  assumes "bpdvr a b q res = Some (q', r)" and "\<not> is_zero b" and "length res = Suc (degree b)"
  shows "length q' = length q \<and> length r = length res \<and> (is_zero r \<or> degree r < degree b)"
proof (cases "is_zero a")
  case True
  with assms show ?thesis by (auto simp: bpdvr_def)
next
  case False
  let ?z = "fill_zero res"
  from False assms(1,2) obtain r1 q1 d where
    loop: "bpdvr_loop (degree a) (degree b) b (take (Suc (degree a)) a) (fill_zero q) (degree a)
      (degree a - degree b) (degree a) = Some (r1, q1, d)"
    and le: "Suc d \<le> length res" "Suc d \<le> length r1"
    and q': "q' = q1" and r: "r = take (Suc d) r1 @ drop (Suc d) ?z"
    by (auto simp: bpdvr_def Let_def split: option.splits if_splits)
  note shape = bpdvr_loop_shape [OF loop]
  have len: "length r = length res" using le by (simp add: r)
  have z: "r ! j = 0" if "d < j" "j < length r" for j
    using that le len by (simp add: r nth_append)
  have "is_zero r \<or> degree r < degree b"
  proof (cases "d < degree b")
    case True
    have "degree r \<le> d" by (rule degree_le) (rule z)
    with True show ?thesis by simp
  next
    case False
    with shape have d: "d = 0" "r1 ! 0 = 0" by auto
    then have "r ! 0 = 0" using le by (simp add: r nth_append)
    with d z have "is_zero r"
      unfolding is_zero_iff by (metis gr0I in_set_conv_nth)
    then show ?thesis ..
  qed
  with shape len q' show ?thesis by simp
qed


subsection \<open>Extended Euclid\<close>

definition bp_step :: "u64 list \<Rightarrow> u64 list \<Rightarrow> u64 list \<Rightarrow> u64 list option" where
  "bp_step q m1 m2 =
     (case bpmul q m1 (replicate (length q + length m1 - 1) 0) of
        None \<Rightarrow> None
      | Some res1 \<Rightarrow> bpsub m2 res1 (replicate (max (length m2) (length res1)) 0))"

function bpegcd_loop ::
  "u64 list \<Rightarrow> u64 list \<Rightarrow> u64 list \<Rightarrow> u64 list \<Rightarrow> u64 list \<Rightarrow> u64 list \<Rightarrow>
    (u64 list \<times> u64 list \<times> u64 list) option"
  where
  "bpegcd_loop a b m1_u m2_u m1_v m2_v =
     (if is_zero b then Some (a, m2_u, m2_v)
      else
        let len_q = Suc (degree a - degree b); len_r = Suc (degree b)
        in case bpdvr a b (replicate len_q 0) (replicate len_r 0) of
             None \<Rightarrow> None
           | Some (q, r) \<Rightarrow>
               (case bp_step q m1_u m2_u of
                  None \<Rightarrow> None
                | Some res2 \<Rightarrow>
                    (case bp_step q m1_v m2_v of
                       None \<Rightarrow> None
                     | Some res3 \<Rightarrow> bpegcd_loop b r res2 m1_u res3 m1_v)))"
  by pat_completeness auto
termination
proof (relation "measure (\<lambda>(a, b, _). if is_zero b then 0 else Suc (degree b))", goal_cases)
  case 1
  show ?case by simp
next
  case (2 a b m1_u m2_u m1_v m2_v len_q len_r qr q r res2 res3)
  then have "bpdvr a b (replicate len_q 0) (replicate len_r 0) = Some (q, r)" by simp
  from bpdvr_shrinks [OF this] 2 show ?case by auto
qed

declare bpegcd_loop.simps [simp del]

definition copy_prefix :: "u64 list \<Rightarrow> u64 list \<Rightarrow> u64 list" where
  "copy_prefix src dst = take (length dst) src @ drop (length src) dst"

definition bpegcd ::
  "u64 list \<Rightarrow> u64 list \<Rightarrow> u64 list \<Rightarrow> u64 list \<Rightarrow> u64 list \<Rightarrow> (u64 list \<times> u64 list \<times> u64 list) option"
  where
  "bpegcd a b d u v =
     (case bpegcd_loop a b [0] [1] [1] [0] of
        None \<Rightarrow> None
      | Some (a, m2_u, m2_v) \<Rightarrow>
          Some (copy_prefix a (fill_zero d), copy_prefix m2_u (fill_zero u), copy_prefix m2_v (fill_zero v)))"


subsection \<open>Coefficients and evaluation\<close>

text \<open>
  \<open>cf p\<close> is the coefficient function of a list and \<open>pev p\<close> the value of the polynomial at \<open>X6\<close>, the root
  of \<open>x ^ 6 - 7\<close> in the extension field.
\<close>

abbreviation canon :: "u64 list \<Rightarrow> bool" where
  "canon p \<equiv> \<forall>x\<in>set p. based x"

definition cf :: "u64 list \<Rightarrow> nat \<Rightarrow> fp" where
  "cf p i = (if i < length p then fp_of (p ! i) else 0)"

primrec pev :: "u64 list \<Rightarrow> f6" where
  "pev [] = 0"
| "pev (x # xs) = emb (fp_of x) + X6 * pev xs"

definition deg_is :: "u64 list \<Rightarrow> nat \<Rightarrow> bool" where
  "deg_is p d \<longleftrightarrow> cf p d \<noteq> 0 \<and> (\<forall>j>d. cf p j = 0)"

lemma cf_Nil [simp]: "cf [] i = 0"
  by (simp add: cf_def)

lemma cf_Cons: "cf (x # xs) i = (case i of 0 \<Rightarrow> fp_of x | Suc j \<Rightarrow> cf xs j)"
  by (simp add: cf_def split: nat.splits)

lemma cf_beyond: "length p \<le> i \<Longrightarrow> cf p i = 0"
  by (simp add: cf_def)

lemma cf_update: "k < length p \<Longrightarrow> cf (p[k := v]) i = (if i = k then fp_of v else cf p i)"
  by (simp add: cf_def)

lemma cf_fill_zero [simp]: "cf (fill_zero p) i = 0"
  by (simp add: cf_def)

lemma cf_replicate [simp]: "cf (replicate n 0) i = 0"
  by (simp add: cf_def)

lemma pev_cf: "length p \<le> N \<Longrightarrow> pev p = (\<Sum>i<N. emb (cf p i) * X6 ^ i)"
proof (induction p arbitrary: N)
  case (Cons x xs)
  then obtain M where N: "N = Suc M" and "length xs \<le> M" by (cases N) auto
  then show ?case
    using Cons.IH [of M]
    by (simp add: cf_Cons sum.lessThan_Suc_shift sum_distrib_left mult.left_commute del: sum.lessThan_Suc)
qed simp

lemma pev_cong: "(\<And>i. cf p i = cf q i) \<Longrightarrow> pev p = pev q"
  using pev_cf [of p "max (length p) (length q)"] pev_cf [of q "max (length p) (length q)"] by simp

lemma pev_zero: "(\<And>i. cf p i = 0) \<Longrightarrow> pev p = 0"
  using pev_cong [of p "[]"] by simp

lemma pev_diff: "(\<And>i. cf r i = cf p i - cf q i) \<Longrightarrow> pev r = pev p - pev q"
proof -
  assume r: "\<And>i. cf r i = cf p i - cf q i"
  let ?N = "max (length r) (max (length p) (length q))"
  show ?thesis
    using pev_cf [of r ?N] pev_cf [of p ?N] pev_cf [of q ?N]
    by (simp add: r left_diff_distrib sum_subtractf)
qed

lemma pev_update: "k < length p \<Longrightarrow> pev (p[k := v]) = pev p + emb (fp_of v - fp_of (p ! k)) * X6 ^ k"
proof (induction p arbitrary: k)
  case (Cons x xs)
  from Cons.prems show ?case by (cases k) (simp_all add: Cons.IH algebra_simps)
qed simp

lemma canon_update: "canon p \<Longrightarrow> based v \<Longrightarrow> canon (p[k := v])"
  by (auto dest!: in_set_conv_nth [THEN iffD1] set_update_subset_insert [THEN subsetD])

lemma canon_nth: "canon p \<Longrightarrow> i < length p \<Longrightarrow> based (p ! i)"
  by simp


subsection \<open>The loops compute the polynomial operations\<close>

lemma bpmul_inner_correct:
  "k + length b \<le> length res \<Longrightarrow> canon res \<Longrightarrow>
    \<exists>res'. bpmul_inner k a b res = Some res' \<and> length res' = length res \<and> canon res' \<and>
      pev res' = pev res + emb (fp_of a) * X6 ^ k * pev b \<and>
      (\<forall>n. cf res' n = cf res n + (if k \<le> n then fp_of a * cf b (n - k) else 0))"
proof (induction k a b res rule: bpmul_inner.induct)
  case (2 k a b bs res)
  let ?res = "res[k := badd (res ! k) (bmul a b)]"
  have k: "k < length res" using 2 by simp
  then have b: "based (res ! k)" using 2 by simp
  have "canon ?res" using 2 b by (intro canon_update) (simp_all add: belt_hom)
  with 2 obtain res' where IH: "bpmul_inner (Suc k) a bs ?res = Some res'" "length res' = length res"
      "canon res'" "pev res' = pev ?res + emb (fp_of a) * X6 ^ Suc k * pev bs"
      "\<forall>n. cf res' n = cf ?res n + (if Suc k \<le> n then fp_of a * cf bs (n - Suc k) else 0)"
    by auto
  have "pev ?res = pev res + emb (fp_of a * fp_of b) * X6 ^ k"
    using k b by (simp add: pev_update belt_hom)
  with IH have "pev res' = pev res + emb (fp_of a) * X6 ^ k * pev (b # bs)"
    by (simp add: algebra_simps)
  moreover have "cf res' n = cf res n + (if k \<le> n then fp_of a * cf (b # bs) (n - k) else 0)" for n
  proof (cases "n \<le> k")
    case True
    then show ?thesis
      using IH(5) k b by (auto simp: cf_update cf_Cons belt_hom cf_def [of res])
  next
    case False
    then obtain m where "n = Suc (k + m)" by (metis less_iff_Suc_add not_le)
    then show ?thesis
      using IH(5) k by (simp add: cf_update cf_Cons)
  qed
  ultimately show ?case using IH k by simp
qed simp

lemma bpmul_outer_correct:
  "i + length as + length b \<le> Suc (length res) \<Longrightarrow> canon res \<Longrightarrow>
    \<exists>res'. bpmul_outer i as b res = Some res' \<and> length res' = length res \<and> canon res' \<and>
      pev res' = pev res + X6 ^ i * pev as * pev b \<and>
      (\<forall>n. cf res' n = cf res n +
        (\<Sum>j<length as. if i + j \<le> n then cf as j * cf b (n - (i + j)) else 0))"
proof (induction i as b res rule: bpmul_outer.induct)
  case (2 i a as b res)
  obtain res1 where r1: "(if a = 0 then Some res else bpmul_inner i a b res) = Some res1"
      "length res1 = length res" "canon res1"
      "pev res1 = pev res + emb (fp_of a) * X6 ^ i * pev b"
      "\<forall>n. cf res1 n = cf res n + (if i \<le> n then fp_of a * cf b (n - i) else 0)"
  proof (cases "a = 0")
    case False
    moreover have "i + length b \<le> length res" using 2 by simp
    ultimately show ?thesis using bpmul_inner_correct [of i b res a] 2 that by auto
  qed (use 2 that in auto)
  have step: "bpmul_outer i (a # as) b res = bpmul_outer (Suc i) as b res1"
    using r1(1) by (simp split: if_splits)
  have "\<exists>res'. bpmul_outer (Suc i) as b res1 = Some res' \<and> length res' = length res1 \<and> canon res' \<and>
      pev res' = pev res1 + X6 ^ Suc i * pev as * pev b \<and>
      (\<forall>n. cf res' n = cf res1 n +
        (\<Sum>j<length as. if Suc i + j \<le> n then cf as j * cf b (n - (Suc i + j)) else 0))"
    using 2 r1 by (cases "a = 0") auto
  then obtain res' where r2: "bpmul_outer (Suc i) as b res1 = Some res'" "length res' = length res1"
      "canon res'" "pev res' = pev res1 + X6 ^ Suc i * pev as * pev b"
      "\<forall>n. cf res' n = cf res1 n +
        (\<Sum>j<length as. if Suc i + j \<le> n then cf as j * cf b (n - (Suc i + j)) else 0)"
    by blast
  have "pev res' = pev res + X6 ^ i * pev (a # as) * pev b"
    by (simp add: r2(4) r1(4) algebra_simps)
  moreover have "cf res' n = cf res n +
      (\<Sum>j<length (a # as). if i + j \<le> n then cf (a # as) j * cf b (n - (i + j)) else 0)" for n
    by (auto simp: r2(5) r1(5) sum.lessThan_Suc_shift cf_Cons add.assoc simp del: sum.lessThan_Suc
        intro!: sum.cong)
  ultimately show ?case using r2 r1 step by simp
qed simp

lemma is_zero_cf: "is_zero p \<Longrightarrow> cf p i = 0"
  by (metis cf_def fp_of_0 is_zero_iff nth_mem)

lemma is_zero_pev: "is_zero p \<Longrightarrow> pev p = 0"
  by (rule pev_zero) (rule is_zero_cf)

lemma bpmul_correct:
  assumes "length a + length b \<le> Suc (length res)"
  obtains r where "bpmul a b res = Some r" "length r = length res" "canon r" "pev r = pev a * pev b"
    "\<And>n. cf r n = (\<Sum>j<length a. if j \<le> n then cf a j * cf b (n - j) else 0)"
proof (cases "is_zero a \<or> is_zero b")
  case True
  have "canon (fill_zero res)" by (simp add: fill_zero_def)
  moreover have "pev (fill_zero res) = pev a * pev b"
    using True pev_zero [of "fill_zero res"] by (auto simp: is_zero_pev)
  moreover have "cf (fill_zero res) n = (\<Sum>j<length a. if j \<le> n then cf a j * cf b (n - j) else 0)" for n
    using True by (auto simp: is_zero_cf intro!: sum.neutral)
  ultimately show ?thesis using True that by (simp add: bpmul_def)
next
  case False
  have "canon (fill_zero res)" by (simp add: fill_zero_def)
  then show ?thesis
    using bpmul_outer_correct [of 0 a b "fill_zero res", unfolded add_0] assms False that
    by (auto simp: bpmul_def pev_zero)
qed

lemma bpsub_correct:
  assumes "max (length a) (length b) \<le> length res" "length res = max (length a) (length b)"
    and "canon a" "canon b"
  obtains r where "bpsub a b res = Some r" "length r = length res" "canon r" "pev r = pev a - pev b"
    "\<And>n. cf r n = cf a n - cf b n"
proof -
  let ?f = "\<lambda>i. if i < length a \<and> i < length b then bsub (a ! i) (b ! i)
      else if i < length a then a ! i else bneg (b ! i)"
  let ?r = "map ?f [0..<length res]"
  have eq: "bpsub a b res = Some ?r"
    using assms(2) by (simp add: bpsub_def Let_def)
  have "cf ?r n = cf a n - cf b n" for n
    using assms by (auto simp: cf_def belt_hom)
  moreover have "canon ?r"
    using assms by (auto simp: belt_hom)
  ultimately show ?thesis using that eq pev_diff [of ?r a b] by simp
qed


subsection \<open>Degrees\<close>

lemma deg_is_mul:
  assumes "deg_is a da" "deg_is b db"
    and "\<And>n. cf r n = (\<Sum>j<length a. if j \<le> n then cf a j * cf b (n - j) else 0)"
  shows "deg_is r (da + db)"
proof -
  have da: "da < length a"
    using assms(1) by (auto simp: deg_is_def cf_def split: if_splits)
  have "cf r (da + db) = (\<Sum>j<length a. if j = da then cf a da * cf b db else 0)"
    unfolding assms(3)
  proof (rule sum.cong [OF refl])
    fix j
    show "(if j \<le> da + db then cf a j * cf b (da + db - j) else 0) = (if j = da then cf a da * cf b db else 0)"
      using assms(1,2) by (cases j da rule: linorder_cases) (auto simp: deg_is_def)
  qed
  also have "\<dots> = cf a da * cf b db" using da by simp
  finally have "cf r (da + db) \<noteq> 0" using assms(1,2) by (simp add: deg_is_def)
  moreover have "cf r n = 0" if "da + db < n" for n
    unfolding assms(3)
  proof (rule sum.neutral, rule ballI)
    fix j
    show "(if j \<le> n then cf a j * cf b (n - j) else 0) = 0"
      using assms(1,2) that by (cases "j \<le> da") (auto simp: deg_is_def)
  qed
  ultimately show ?thesis by (simp add: deg_is_def)
qed

lemma deg_is_sub:
  assumes "deg_is b d" "\<forall>j\<ge>d. cf a j = 0" "\<And>n. cf r n = cf a n - cf b n"
  shows "deg_is r d"
  using assms by (auto simp: deg_is_def)

lemma deg_is_degree: "canon p \<Longrightarrow> \<not> is_zero p \<Longrightarrow> deg_is p (degree p)"
  using degree_nonzero [of p] above_degree [of p]
  by (auto simp: deg_is_def cf_def fp_of_eq_0_iff)

lemma deg_is_unique: "deg_is p d \<Longrightarrow> deg_is p e \<Longrightarrow> d = e"
  unfolding deg_is_def by (metis linorder_neqE_nat)

lemma pev_low: "\<forall>j\<ge>6. cf p j = 0 \<Longrightarrow>
    pev p = F6 (F2 (cf p 0) (cf p 3)) (F2 (cf p 1) (cf p 4)) (F2 (cf p 2) (cf p 5))"
proof -
  assume z: "\<forall>j\<ge>6. cf p j = 0"
  let ?q = "map (\<lambda>i. if i < length p then p ! i else 0) [0..<6]"
  have "cf ?q i = cf p i" for i
    using z [rule_format, of i]
    by (cases "i < 6") (simp_all add: cf_def [of ?q] cf_def [of p i] del: upt_rec_numeral)
  then have "pev p = pev ?q" by (intro pev_cong) simp
  also have "\<dots> = (\<Sum>i<6. emb (cf p i) * X6 ^ i)"
    using \<open>\<And>i. cf ?q i = cf p i\<close> pev_cf [of ?q 6] by (simp del: upt_rec_numeral)
  also have "\<dots> = F6 (F2 (cf p 0) (cf p 3)) (F2 (cf p 1) (cf p 4)) (F2 (cf p 2) (cf p 5))"
    by (simp add: eval_nat_numeral emb_def X6_def f6_eq_iff f2_eq_iff)
  finally show ?thesis .
qed

lemma pev_nonzero: "deg_is p d \<Longrightarrow> d < 6 \<Longrightarrow> pev p \<noteq> 0"
proof
  assume d: "deg_is p d" "d < 6" and "pev p = 0"
  then have "cf p 0 = 0 \<and> cf p 1 = 0 \<and> cf p 2 = 0 \<and> cf p 3 = 0 \<and> cf p 4 = 0 \<and> cf p 5 = 0"
    using pev_low [of p] by (simp add: deg_is_def f6_eq_iff f2_eq_iff)
  moreover from d(2) have "d = 0 \<or> d = 1 \<or> d = 2 \<or> d = 3 \<or> d = 4 \<or> d = 5" by auto
  ultimately show False using d(1) by (auto simp: deg_is_def)
qed


subsection \<open>Division\<close>

lemma bpdvr_sub_nth:
  "k \<le> i \<Longrightarrow> i < length r \<Longrightarrow> i \<le> a_end \<Longrightarrow> k < length b \<Longrightarrow>
    bpdvr_sub a_end d b c i k r = r[i - k := bsub (r ! (i - k)) (bmul c (b ! (d - k)))]"
  by (simp add: bpdvr_sub_def)

lemma bpdvr_fold:
  assumes "d \<le> i" "i < length r" "i \<le> a_end" "d < length b" "m \<le> Suc d" "canon r"
  shows "canon (fold (bpdvr_sub a_end d b c i) [0..<m] r) \<and>
    (\<forall>n. cf (fold (bpdvr_sub a_end d b c i) [0..<m] r) n =
      cf r n - (if i < n + m \<and> n \<le> i then fp_of c * fp_of (b ! (d - (i - n))) else 0))"
  using assms(5)
proof (induction m)
  case 0
  then show ?case using assms by (auto simp: canon_nth)
next
  case (Suc m)
  define r' where "r' = fold (bpdvr_sub a_end d b c i) [0..<m] r"
  have IH: "canon r'" "cf r' n = cf r n - (if i < n + m \<and> n \<le> i then fp_of c * fp_of (b ! (d - (i - n))) else 0)" for n
    using Suc by (auto simp: r'_def)
  have len: "length r' = length r" by (simp add: r'_def)
  have eq: "fold (bpdvr_sub a_end d b c i) [0..<Suc m] r =
      r'[i - m := bsub (r' ! (i - m)) (bmul c (b ! (d - m)))]"
    using assms Suc.prems by (simp add: r'_def [symmetric] bpdvr_sub_nth len)
  have lt: "i - m < length r'" using assms len by simp
  have b: "based (r' ! (i - m))" using IH(1) lt by simp
  have "cf (r'[i - m := bsub (r' ! (i - m)) (bmul c (b ! (d - m)))]) n =
      cf r n - (if i < n + Suc m \<and> n \<le> i then fp_of c * fp_of (b ! (d - (i - n))) else 0)" for n
  proof (cases "n = i - m")
    case True
    then have "cf r' n = cf r n"
      using IH(2) Suc.prems assms by simp
    moreover have "fp_of (r' ! n) = cf r' n" using True lt by (simp add: cf_def)
    moreover have "m \<le> i" using Suc.prems assms by simp
    ultimately show ?thesis
      using True b lt by (simp add: cf_update belt_hom)
  next
    case False
    then have "i < n + Suc m \<and> n \<le> i \<longleftrightarrow> i < n + m \<and> n \<le> i" by auto
    with False show ?thesis using IH(2) lt by (simp add: cf_update)
  qed
  moreover have "canon (r'[i - m := bsub (r' ! (i - m)) (bmul c (b ! (d - m)))])"
    using IH(1) b by (intro canon_update) (simp_all add: belt_hom)
  ultimately show ?case unfolding eq by blast
qed

lemma pev_replicate_append: "pev (replicate k 0 @ p) = X6 ^ k * pev p"
  by (induction k) simp_all

lemma pev_map_bmul: "pev (map (bmul c) p) = emb (fp_of c) * pev p"
  by (induction p) (simp_all add: belt_hom algebra_simps)

lemma pev_monomial_sub:
  assumes d: "\<forall>j>d. cf b j = 0" "d \<le> i" "d < length b"
    and r: "\<And>n. cf r' n = cf r n - (if i < n + Suc d \<and> n \<le> i then fp_of c * fp_of (b ! (d - (i - n))) else 0)"
  shows "pev r' = pev r - emb (fp_of c) * X6 ^ (i - d) * pev b"
proof -
  let ?b = "take (Suc d) b"
  let ?s = "replicate (i - d) 0 @ map (bmul c) ?b"
  have "cf ?b n = cf b n" for n
    using d by (cases "n \<le> d") (auto simp: cf_def)
  then have "pev ?b = pev b" by (rule pev_cong)
  then have s: "pev ?s = emb (fp_of c) * X6 ^ (i - d) * pev b"
    by (simp add: pev_replicate_append pev_map_bmul algebra_simps)
  have "cf ?s n = (if i < n + Suc d \<and> n \<le> i then fp_of c * fp_of (b ! (d - (i - n))) else 0)" for n
  proof (cases "i - d \<le> n \<and> n \<le> i")
    case True
    then obtain m where n: "n = i - d + m" and m: "m \<le> d"
      using d(2) by (metis add_le_cancel_left le_Suc_ex le_add_diff_inverse2)
    have "d - (i - n) = m" using n m d(2) by simp
    then show ?thesis
      using True n m d(2,3) by (simp add: cf_def nth_append belt_hom)
  next
    case False
    then show ?thesis using d by (auto simp: cf_def nth_append)
  qed
  then have "pev r' = pev r - pev ?s"
    using r by (intro pev_diff) simp
  then show ?thesis by (simp only: s)
qed

lemma bpdvr_step:
  assumes b: "canon b" "deg_is b d" "d < length b"
    and r: "d \<le> i" "i < length r" "i \<le> a_end" "canon r" "\<forall>j>i. cf r j = 0"
    and q: "canon q" "i - d < length q" "cf q (i - d) = 0"
  defines "coeff \<equiv> bmul (r ! i) (binv (b ! d))"
  defines "r1 \<equiv> fold (bpdvr_sub a_end d b coeff i) [0..<Suc d] r"
  defines "q1 \<equiv> q[i - d := coeff]"
  shows "canon r1" "length r1 = length r" "\<forall>j\<ge>i. cf r1 j = 0"
    and "canon q1" "length q1 = length q" "\<forall>j. j \<noteq> i - d \<longrightarrow> cf q1 j = cf q j" "cf q1 (i - d) = cf r i / cf b d"
    and "pev q1 * pev b + pev r1 = pev q * pev b + pev r"
proof -
  have coeff: "fp_of coeff = cf r i / cf b d"
    using b r by (simp add: coeff_def belt_hom cf_def divide_inverse)
  have fold: "canon r1" and cf1: "\<And>n. cf r1 n = cf r n -
      (if i < n + Suc d \<and> n \<le> i then fp_of coeff * fp_of (b ! (d - (i - n))) else 0)"
    using bpdvr_fold [OF r(1,2,3) b(3) order_refl r(4), of coeff] by (auto simp: r1_def)
  show "canon r1" "length r1 = length r" by (fact fold) (simp add: r1_def)
  have "cf b d \<noteq> 0" using b(2) by (simp add: deg_is_def)
  then have "cf r1 i = 0"
    using b(3) by (simp add: cf1 coeff cf_def [of b])
  moreover have "cf r1 j = 0" if "i < j" for j
    using that r(5) by (simp add: cf1)
  ultimately show "\<forall>j\<ge>i. cf r1 j = 0" by (metis le_neq_implies_less)
  show "canon q1" unfolding q1_def
    using q by (intro canon_update) (simp_all add: coeff_def belt_hom)
  show "length q1 = length q" by (simp add: q1_def)
  show "\<forall>j. j \<noteq> i - d \<longrightarrow> cf q1 j = cf q j" "cf q1 (i - d) = cf r i / cf b d"
    using q by (simp_all add: q1_def cf_update coeff)
  have "pev r1 = pev r - emb (fp_of coeff) * X6 ^ (i - d) * pev b"
    using b(2) r(1) b(3) cf1 by (intro pev_monomial_sub) (auto simp: deg_is_def)
  moreover have "pev q1 = pev q + emb (fp_of coeff) * X6 ^ (i - d)"
    using q by (simp add: q1_def pev_update cf_def)
  ultimately show "pev q1 * pev b + pev r1 = pev q * pev b + pev r"
    by (simp add: algebra_simps)
qed

lemma bpdvr_loop_unfold:
  assumes "deg_b \<le> deg_r" "i < length r" "deg_b < length b" "q_index < length q"
    and "r1 = fold (bpdvr_sub a_end deg_b b (bmul (r ! i) (binv (b ! deg_b))) i) [0..<Suc deg_b] r"
    and "q1 = q[q_index := bmul (r ! i) (binv (b ! deg_b))]"
  shows "bpdvr_loop a_end deg_b b r q deg_r q_index i =
    (if deg_r - 1 = 0 \<and> r1 ! 0 = 0 then Some (r1, q1, deg_r - 1)
     else case i of 0 \<Rightarrow> None | Suc i \<Rightarrow> bpdvr_loop a_end deg_b b r1 q1 (deg_r - 1) (q_index - 1) i)"
  unfolding assms(5,6) using assms(1-4) by (subst bpdvr_loop.simps) (simp only: Let_def if_True if_False not_le [symmetric] simp_thms)

lemma bpdvr_loop_correct:
  assumes b: "canon b" "deg_is b d" "d < length b"
  shows "i < length r \<Longrightarrow> i \<le> a_end \<Longrightarrow> canon r \<Longrightarrow> canon q \<Longrightarrow> \<forall>j>i. cf r j = 0 \<Longrightarrow>
    (d \<le> i \<Longrightarrow> q_index = i - d \<and> i - d < length q \<and> (\<forall>j\<le>i - d. cf q j = 0)) \<Longrightarrow>
    \<exists>r' q' e. bpdvr_loop a_end d b r q i q_index i = Some (r', q', e) \<and>
      canon r' \<and> canon q' \<and> length r' = length r \<and> length q' = length q \<and>
      e < length r \<and> (\<forall>j>e. cf r' j = 0) \<and>
      pev q' * pev b + pev r' = pev q * pev b + pev r \<and>
      (d \<le> i \<longrightarrow> cf q' (i - d) = cf r i / cf b d) \<and>
      (\<forall>j. (d \<le> i \<longrightarrow> i - d < j) \<longrightarrow> cf q' j = cf q j)"
proof (induction i arbitrary: r q q_index)
  case (0 r q q_index)
  show ?case
  proof (cases "d = 0")
    case False
    with 0 show ?thesis by (auto simp: bpdvr_loop.simps)
  next
    case True
    have pre: "d \<le> 0" "0 < length r" "0 \<le> a_end" "canon r" "\<forall>j>0. cf r j = 0"
      "canon q" "0 - d < length q" "cf q (0 - d) = 0"
      using 0(1,3,4,5) 0(6) True by blast+
    let ?c = "bmul (r ! 0) (binv (b ! d))"
    define r1 where "r1 = fold (bpdvr_sub a_end d b ?c 0) [0..<Suc d] r"
    define q1 where "q1 = q[0 - d := ?c]"
    have s: "canon r1" "length r1 = length r" "\<forall>j\<ge>0. cf r1 j = 0" "canon q1" "length q1 = length q"
      "\<forall>j. j \<noteq> 0 - d \<longrightarrow> cf q1 j = cf q j" "cf q1 (0 - d) = cf r 0 / cf b d"
      "pev q1 * pev b + pev r1 = pev q * pev b + pev r"
      unfolding r1_def q1_def by (rule bpdvr_step [OF b pre])+
    have "based (r1 ! 0)" using s(1,2) 0(1) by (metis nth_mem)
    then have "r1 ! 0 = 0"
      using s(2,3) 0(1) by (metis cf_def fp_of_eq_0_iff le0)
    then have "bpdvr_loop a_end d b r q 0 q_index 0 = Some (r1, q1, 0)"
      using bpdvr_loop_unfold [OF pre(1,2) b(3), of q_index q, OF _ r1_def] 0(6) True
      by (simp add: q1_def)
    with s True 0(1) show ?thesis by auto
  qed
next
  case (Suc i r q q_index)
  show ?case
  proof (cases "d \<le> Suc i")
    case False
    with Suc.prems show ?thesis by (subst bpdvr_loop.simps) auto
  next
    case True
    have pre: "d \<le> Suc i" "Suc i < length r" "Suc i \<le> a_end" "canon r" "\<forall>j>Suc i. cf r j = 0"
      "canon q" "Suc i - d < length q" "cf q (Suc i - d) = 0"
      using Suc.prems(1-5) Suc.prems(6) True by blast+
    let ?c = "bmul (r ! Suc i) (binv (b ! d))"
    define r1 where "r1 = fold (bpdvr_sub a_end d b ?c (Suc i)) [0..<Suc d] r"
    define q1 where "q1 = q[Suc i - d := ?c]"
    have s: "canon r1" "length r1 = length r" "\<forall>j\<ge>Suc i. cf r1 j = 0" "canon q1" "length q1 = length q"
      "\<forall>j. j \<noteq> Suc i - d \<longrightarrow> cf q1 j = cf q j" "cf q1 (Suc i - d) = cf r (Suc i) / cf b d"
      "pev q1 * pev b + pev r1 = pev q * pev b + pev r"
      unfolding r1_def q1_def by (rule bpdvr_step [OF b pre])+
    have unf: "bpdvr_loop a_end d b r q (Suc i) q_index (Suc i) =
        (if i = 0 \<and> r1 ! 0 = 0 then Some (r1, q1, 0) else bpdvr_loop a_end d b r1 q1 i (q_index - 1) i)"
      using bpdvr_loop_unfold [OF pre(1,2) b(3), of q_index q, OF _ r1_def] Suc.prems(6) True
      by (simp add: q1_def)
    show ?thesis
    proof (cases "i = 0 \<and> r1 ! 0 = 0")
      case zero: True
      then have "\<forall>j>0. cf r1 j = 0" using s(3) by auto
      with unf zero s Suc.prems(1) True show ?thesis by auto
    next
      case False
      have "\<exists>r' q' e. bpdvr_loop a_end d b r1 q1 i (q_index - 1) i = Some (r', q', e) \<and>
        canon r' \<and> canon q' \<and> length r' = length r1 \<and> length q' = length q1 \<and>
        e < length r1 \<and> (\<forall>j>e. cf r' j = 0) \<and>
        pev q' * pev b + pev r' = pev q1 * pev b + pev r1 \<and>
        (d \<le> i \<longrightarrow> cf q' (i - d) = cf r1 i / cf b d) \<and>
        (\<forall>j. (d \<le> i \<longrightarrow> i - d < j) \<longrightarrow> cf q' j = cf q1 j)"
      proof (rule Suc.IH)
        show "q_index - 1 = i - d \<and> i - d < length q1 \<and> (\<forall>j\<le>i - d. cf q1 j = 0)" if "d \<le> i"
          using that Suc.prems(6) s(5,6) by auto
      qed (use Suc.prems s in auto)
      then obtain r' q' e where l: "bpdvr_loop a_end d b r1 q1 i (q_index - 1) i = Some (r', q', e)"
        "canon r'" "canon q'" "length r' = length r1" "length q' = length q1"
        "e < length r1" "\<forall>j>e. cf r' j = 0" "pev q' * pev b + pev r' = pev q1 * pev b + pev r1"
        "\<forall>j. (d \<le> i \<longrightarrow> i - d < j) \<longrightarrow> cf q' j = cf q1 j" by blast
      have "cf q' (Suc i - d) = cf q1 (Suc i - d)" using l(9) [THEN spec, of "Suc i - d"] True by auto
      moreover have "\<forall>j>Suc i - d. cf q' j = cf q j"
      proof (intro allI impI)
        fix j assume "Suc i - d < j"
        with l(9) [THEN spec, of j] s(6) True show "cf q' j = cf q j" by auto
      qed
      ultimately show ?thesis
        using unf False l(1-8) s(2,5,7,8) True by (simp only: if_False) (intro exI conjI; simp)
    qed
  qed
qed

lemma bpdvr_correct:
  assumes "canon a" "canon b" "\<not> is_zero a" "\<not> is_zero b"
    and "length q = Suc (degree a - degree b)" "length res = Suc (degree b)"
  obtains q' r where "bpdvr a b q res = Some (q', r)" "canon q'" "canon r"
    "length q' = length q" "length r = length res"
    "pev a = pev q' * pev b + pev r" "is_zero r \<or> degree r < degree b"
    "degree b \<le> degree a \<Longrightarrow> deg_is q' (degree a - degree b)"
    "degree a < degree b \<Longrightarrow> pev q' = 0 \<and> is_zero q'"
proof -
  define d where "d = degree b"
  define e where "e = degree a"
  have da: "deg_is a e" and db: "deg_is b d" "d < length b" and ea: "e < length a"
    using assms deg_is_degree degree_nonzero by (auto simp: d_def e_def)
  let ?r0 = "take (Suc e) a"
  let ?q0 = "fill_zero q"
  have r0: "length ?r0 = Suc e" "canon ?r0" using ea assms(1) by (auto dest: in_set_takeD)
  have cf_r0: "cf ?r0 j = cf a j" for j
    using da ea by (cases "j \<le> e") (auto simp: cf_def deg_is_def)
  have q0: "canon ?q0" by (simp add: fill_zero_def)
  have lenq: "length q = Suc (e - d)" using assms(5) by (simp add: d_def e_def)
  obtain r1 q1 n where loop: "bpdvr_loop e d b ?r0 ?q0 e (e - d) e = Some (r1, q1, n)"
    and l: "canon r1" "canon q1" "length r1 = length ?r0" "length q1 = length ?q0"
      "n < length ?r0" "\<forall>j>n. cf r1 j = 0" "pev q1 * pev b + pev r1 = pev ?q0 * pev b + pev ?r0"
      "d \<le> e \<longrightarrow> cf q1 (e - d) = cf ?r0 e / cf b d"
      "\<forall>j. (d \<le> e \<longrightarrow> e - d < j) \<longrightarrow> cf q1 j = cf ?q0 j"
    using bpdvr_loop_correct [OF assms(2) db, of e ?r0 e ?q0 "e - d"] r0 q0 lenq da
    by (fastforce simp: cf_r0 deg_is_def)
  have "n < Suc d" using bpdvr_loop_shape [OF loop] by auto
  then have nlen: "Suc n \<le> length res" "Suc n \<le> length r1"
    using assms(6) l(3,5) by (simp_all add: d_def)
  define r where "r = take (Suc n) r1 @ drop (Suc n) (fill_zero res)"
  have eq: "bpdvr a b q res = Some (q1, r)"
    using loop assms(3,4) nlen
    by (simp add: bpdvr_def Let_def d_def e_def r_def not_less split: if_splits)
  have cf_r: "cf r j = cf r1 j" for j
  proof (cases "j < Suc n")
    case True
    moreover from this have "j < length r" "j < length r1" using nlen by (simp_all add: r_def)
    ultimately show ?thesis by (simp add: cf_def) (simp add: r_def nth_append)
  next
    case False
    then show ?thesis using nlen l(6) by (auto simp: cf_def r_def nth_append)
  qed
  have "pev r = pev r1" by (rule pev_cong) (rule cf_r)
  moreover have "pev ?q0 = 0" by (rule pev_zero) simp
  moreover have "pev ?r0 = pev a" by (rule pev_cong) (rule cf_r0)
  ultimately have "pev a = pev q1 * pev b + pev r" using l(7) by simp
  moreover have "canon r"
    using l(1) by (auto simp: r_def fill_zero_def drop_map dest: in_set_takeD)
  moreover have "is_zero r \<or> degree r < degree b" "length r = length res"
    using bpdvr_shrinks [OF eq assms(4,6)] by simp_all
  moreover have "deg_is q1 (degree a - degree b)" if "degree b \<le> degree a"
    using that l(8,9) da db unfolding deg_is_def d_def [symmetric] e_def [symmetric] cf_r0 by auto
  moreover have "is_zero q1" if "degree a < degree b"
  proof -
    have "cf q1 j = 0" for j using that l(9) by (simp add: d_def e_def)
    then show ?thesis
      using deg_is_degree [OF l(2)] by (auto simp: deg_is_def)
  qed
  ultimately show ?thesis
    using that [OF eq l(2)] l(4) is_zero_pev [of q1] by simp
qed


subsection \<open>Extended Euclid inverts in the extension field\<close>

lemma bp_step_correct:
  assumes "canon q" "canon m1" "canon m2" "q \<noteq> []" "m1 \<noteq> []"
  obtains r where "bp_step q m1 m2 = Some r" "canon r" "r \<noteq> []" "pev r = pev m2 - pev q * pev m1"
    "\<And>dq dm. deg_is q dq \<Longrightarrow> deg_is m1 dm \<Longrightarrow> \<forall>j\<ge>dq + dm. cf m2 j = 0 \<Longrightarrow> deg_is r (dq + dm)"
    "is_zero q \<Longrightarrow> \<forall>j. cf r j = cf m2 j"
proof -
  let ?res = "replicate (length q + length m1 - 1) (0 :: u64)"
  have ne: "0 < length q" "0 < length m1" using assms(4,5) by simp_all
  then have "length q + length m1 \<le> Suc (length ?res)" by simp
  then obtain p where p: "bpmul q m1 ?res = Some p" "length p = length ?res" "canon p"
    "pev p = pev q * pev m1"
    "\<And>n. cf p n = (\<Sum>j<length q. if j \<le> n then cf q j * cf m1 (n - j) else 0)"
    using bpmul_correct by blast
  let ?z = "replicate (max (length m2) (length p)) (0 :: u64)"
  obtain r where r: "bpsub m2 p ?z = Some r" "length r = length ?z" "canon r" "pev r = pev m2 - pev p"
    "\<And>n. cf r n = cf m2 n - cf p n"
    using bpsub_correct [of m2 p ?z] assms(3) p(3) by auto
  show ?thesis
  proof (rule that)
    show "bp_step q m1 m2 = Some r" using p(1) r(1) by (simp add: bp_step_def)
    have "length p = length q + length m1 - 1" using p(2) by simp
    with ne have "0 < length p" by linarith
    then show "r \<noteq> []" using r(2) by auto
    show "pev r = pev m2 - pev q * pev m1" using r(4) p(4) by simp
    show "deg_is r (dq + dm)" if "deg_is q dq" "deg_is m1 dm" "\<forall>j\<ge>dq + dm. cf m2 j = 0" for dq dm
      by (rule deg_is_sub [OF deg_is_mul [OF that(1,2) p(5)] that(3) r(5)])
    show "\<forall>j. cf r j = cf m2 j" if "is_zero q"
    proof -
      have "cf p n = 0" for n
        unfolding p(5) by (rule sum.neutral) (simp add: is_zero_cf [OF that])
      with r(5) show ?thesis by simp
    qed
  qed (fact r(3))
qed

definition egcd_inv ::
  "f6 \<Rightarrow> u64 list \<Rightarrow> u64 list \<Rightarrow> u64 list \<Rightarrow> u64 list \<Rightarrow> u64 list \<Rightarrow> u64 list \<Rightarrow> bool" where
  "egcd_inv F a b m1_u m2_u m1_v m2_v \<longleftrightarrow>
     canon a \<and> canon b \<and> canon m1_u \<and> canon m2_u \<and> canon m1_v \<and> canon m2_v \<and>
     m1_u \<noteq> [] \<and> m1_v \<noteq> [] \<and> \<not> is_zero a \<and> degree a \<le> 6 \<and>
     deg_is m1_u (6 - degree a) \<and> (\<forall>j\<ge>6 - degree a. cf m2_u j = 0) \<and>
     (is_zero b \<or> degree b < degree a) \<and>
     pev a = pev m2_u * F \<and> pev b = pev m1_u * F"

lemma egcd_inv_step:
  assumes inv: "egcd_inv F a b m1_u m2_u m1_v m2_v" and b: "\<not> is_zero b"
  obtains q r u v where
    "bpdvr a b (replicate (Suc (degree a - degree b)) 0) (replicate (Suc (degree b)) 0) = Some (q, r)"
    "bp_step q m1_u m2_u = Some u" "bp_step q m1_v m2_v = Some v" "egcd_inv F b r u m1_u v m1_v"
proof -
  note i = inv [unfolded egcd_inv_def]
  have lt: "degree b < degree a" using i b by simp
  obtain q r where d: "bpdvr a b (replicate (Suc (degree a - degree b)) 0) (replicate (Suc (degree b)) 0) = Some (q, r)"
    "canon q" "canon r" "length q = Suc (degree a - degree b)" "pev a = pev q * pev b + pev r"
    "is_zero r \<or> degree r < degree b" "deg_is q (degree a - degree b)"
    by (rule bpdvr_correct [of a b "replicate (Suc (degree a - degree b)) 0" "replicate (Suc (degree b)) 0"])
       (use i b lt in simp_all)
  have "q \<noteq> []" using d(4) by auto
  obtain u where u: "bp_step q m1_u m2_u = Some u" "canon u" "u \<noteq> []" "pev u = pev m2_u - pev q * pev m1_u"
    "\<And>dq dm. deg_is q dq \<Longrightarrow> deg_is m1_u dm \<Longrightarrow> \<forall>j\<ge>dq + dm. cf m2_u j = 0 \<Longrightarrow> deg_is u (dq + dm)"
    by (rule bp_step_correct [of q m1_u m2_u]) (use d(2) \<open>q \<noteq> []\<close> i in simp_all)
  obtain v where v: "bp_step q m1_v m2_v = Some v" "canon v" "v \<noteq> []"
    by (rule bp_step_correct [of q m1_v m2_v]) (use d(2) \<open>q \<noteq> []\<close> i in simp_all)
  have sum: "degree a - degree b + (6 - degree a) = 6 - degree b" using lt i by simp
  have "deg_is u (6 - degree b)"
    using u(5) [OF d(7), of "6 - degree a"] i lt unfolding sum by simp
  moreover have "cf m1_u j = 0" if "6 - degree b \<le> j" for j
  proof -
    have "degree a \<le> 6" using i by simp
    with that lt have "6 - degree a < j" by linarith
    then show ?thesis using i by (simp add: deg_is_def)
  qed
  moreover have "pev r = pev u * F"
  proof -
    have A: "pev a = pev m2_u * F" and B: "pev b = pev m1_u * F" using i by blast+
    from d(5) have "pev r = pev a - pev q * pev b" by simp
    then show ?thesis unfolding A B u(4) by (simp add: left_diff_distrib mult.assoc)
  qed
  ultimately have "egcd_inv F b r u m1_u v m1_v"
    unfolding egcd_inv_def using i d u v b lt by simp
  with d(1) u(1) v(1) that show ?thesis by blast
qed

lemma bpegcd_loop_correct:
  "egcd_inv F a b m1_u m2_u m1_v m2_v \<Longrightarrow> F \<noteq> 0 \<Longrightarrow>
    \<exists>d u v. bpegcd_loop a b m1_u m2_u m1_v m2_v = Some (d, u, v) \<and>
      canon d \<and> canon u \<and> deg_is d 0 \<and> (\<forall>j\<ge>6. cf u j = 0) \<and> pev d = pev u * F"
proof (induction a b m1_u m2_u m1_v m2_v rule: bpegcd_loop.induct)
  case (1 a b m1_u m2_u m1_v m2_v)
  note i = "1.prems"(1) [unfolded egcd_inv_def]
  show ?case
  proof (cases "is_zero b")
    case True
    then have "pev m1_u = 0" using i "1.prems"(2) is_zero_pev by auto
    then have "\<not> 6 - degree a < 6" using i pev_nonzero by blast
    then have "degree a = 0" using i by simp
    then have "deg_is a 0" using deg_is_degree [of a] i by simp
    with True i \<open>degree a = 0\<close> show ?thesis
      by (subst bpegcd_loop.simps) simp
  next
    case False
    obtain q r u v where
      d: "bpdvr a b (replicate (Suc (degree a - degree b)) 0) (replicate (Suc (degree b)) 0) = Some (q, r)"
      "bp_step q m1_u m2_u = Some u" "bp_step q m1_v m2_v = Some v" "egcd_inv F b r u m1_u v m1_v"
      using egcd_inv_step [OF "1.prems"(1) False] .
    have "bpegcd_loop a b m1_u m2_u m1_v m2_v = bpegcd_loop b r u m1_u v m1_v"
      using False d by (subst bpegcd_loop.simps) simp
    then show ?thesis
      using "1.IH" [OF False refl refl d(1) refl d(2,3,4) "1.prems"(2)] by simp
  qed
qed

text \<open>The first division only swaps the operands, because the modulus has the higher degree.\<close>

definition modulus :: "u64 list" where
  "modulus = [bneg 7, 0, 0, 0, 0, 0, 1]"

lemma pev_modulus: "pev modulus = 0"
proof -
  have "fp_of (bneg 7) = - 7"
    by (subst fp_of_bneg) (simp_all add: fp_of_def)
  then show ?thesis
    using X6_pow6 by (simp add: modulus_def eval_nat_numeral)
qed

lemma modulus_facts: "canon modulus" "length modulus = 7" "\<not> is_zero modulus" "degree modulus = 6"
proof -
  have "based (bneg 7)" by (rule based_bneg) simp
  then show "canon modulus" by (simp add: modulus_def)
  show "length modulus = 7" "\<not> is_zero modulus" "degree modulus = 6"
    by (simp_all add: modulus_def is_zero_def degree_def)
qed

lemma egcd_first_step:
  assumes f: "canon f" "length f = 6" "\<not> is_zero f"
  obtains q r u v where
    "bpdvr f modulus (replicate (Suc (degree f - degree modulus)) 0) (replicate (Suc (degree modulus)) 0) = Some (q, r)"
    "bp_step q [0] [1] = Some u" "bp_step q [1] [0] = Some v" "egcd_inv (pev f) modulus r u [0] v [1]"
proof -
  have lt: "degree f < degree modulus"
    using degree_nonzero [OF f(3)] f(2) by (simp add: modulus_facts)
  obtain q r where d:
    "bpdvr f modulus (replicate (Suc (degree f - degree modulus)) 0) (replicate (Suc (degree modulus)) 0) = Some (q, r)"
    "canon q" "canon r" "length q = Suc (degree f - degree modulus)" "pev f = pev q * pev modulus + pev r"
    "is_zero r \<or> degree r < degree modulus" "is_zero q"
    by (rule bpdvr_correct [of f modulus "replicate (Suc (degree f - degree modulus)) 0" "replicate (Suc (degree modulus)) 0"])
       (use f modulus_facts lt in simp_all)
  have "q \<noteq> []" using d(4) by auto
  obtain u where u: "bp_step q [0] [1] = Some u" "canon u" "u \<noteq> []" "\<forall>j. cf u j = cf [1] j"
    by (rule bp_step_correct [of q "[0]" "[1]"]) (use d \<open>q \<noteq> []\<close> in simp_all)
  obtain v where v: "bp_step q [1] [0] = Some v" "canon v" "v \<noteq> []"
    by (rule bp_step_correct [of q "[1]" "[0]"]) (use d \<open>q \<noteq> []\<close> in simp_all)
  have "pev u = 1" using pev_cong [of u "[1]"] u(4) by simp
  moreover have "deg_is u 0" by (simp add: deg_is_def u(4) cf_Cons split: nat.splits)
  moreover have "cf [0] j = 0" for j by (simp add: cf_Cons split: nat.splits)
  ultimately have "egcd_inv (pev f) modulus r u [0] v [1]"
    using d u v by (simp add: egcd_inv_def modulus_facts pev_modulus)
  with d(1) u(1) v(1) that show ?thesis by blast
qed

lemma bpegcd_inverse:
  assumes f: "canon f" "length f = 6" "\<not> is_zero f"
  obtains d u v where "bpegcd f modulus (replicate 7 0) (replicate 7 0) (replicate 6 0) = Some (d, u, v)"
    "based (d ! 0)" "d ! 0 \<noteq> 0" "canon u" "length u = 7" "u ! 6 = 0"
    "pev u * pev f = emb (fp_of (d ! 0))"
proof -
  have f0: "pev f \<noteq> 0"
    using pev_nonzero [OF deg_is_degree [OF f(1,3)]] degree_nonzero [OF f(3)] f(2) by simp
  obtain q r u v where s:
    "bpdvr f modulus (replicate (Suc (degree f - degree modulus)) 0) (replicate (Suc (degree modulus)) 0) = Some (q, r)"
    "bp_step q [0] [1] = Some u" "bp_step q [1] [0] = Some v" "egcd_inv (pev f) modulus r u [0] v [1]"
    by (rule egcd_first_step [OF f])
  obtain a m n where l: "bpegcd_loop modulus r u [0] v [1] = Some (a, m, n)"
    "canon a" "canon m" "deg_is a 0" "\<forall>j\<ge>6. cf m j = 0" "pev a = pev m * pev f"
    using bpegcd_loop_correct [OF s(4) f0] by blast
  have loop: "bpegcd_loop f modulus [0] [1] [1] [0] = Some (a, m, n)"
    using s(1-3) l(1) modulus_facts(3) by (subst bpegcd_loop.simps) simp
  let ?z = "replicate 7 (0 :: u64)"
  define d where "d = copy_prefix a (fill_zero ?z)"
  define w where "w = copy_prefix m (fill_zero ?z)"
  have eq: "bpegcd f modulus ?z ?z (replicate 6 0) = Some (d, w, copy_prefix n (fill_zero (replicate 6 0)))"
    using loop by (simp add: bpegcd_def d_def w_def)
  have a0: "0 < length a" "cf a 0 \<noteq> 0"
    using l(4) by (auto simp: deg_is_def cf_def split: if_splits)
  have d0: "d ! 0 = a ! 0"
    using a0 by (cases a) (simp_all add: d_def copy_prefix_def)
  have "pev a = pev [a ! 0]"
    using l(4) a0 by (intro pev_cong) (auto simp: deg_is_def cf_Cons cf_def split: nat.splits)
  then have "pev a = emb (fp_of (d ! 0))" by (simp add: d0)
  moreover have cf_w: "cf w j = cf m j" for j
  proof (cases "j < 6")
    case True
    then show ?thesis by (auto simp: cf_def w_def copy_prefix_def nth_append)
  next
    case False
    then have "cf m j = 0" using l(5) by simp
    then show ?thesis using False by (auto simp: cf_def w_def copy_prefix_def nth_append fill_zero_def)
  qed
  then have "pev w = pev m" by (rule pev_cong)
  ultimately have "pev w * pev f = emb (fp_of (d ! 0))" using l(6) by simp
  moreover have "canon w"
    using l(3) by (auto simp: w_def copy_prefix_def fill_zero_def dest: in_set_takeD in_set_dropD)
  moreover have "length w = 7" by (simp add: w_def copy_prefix_def)
  moreover have "w ! 6 = 0"
  proof -
    have "cf w 6 = 0" using cf_w l(5) by simp
    with \<open>canon w\<close> \<open>length w = 7\<close> show ?thesis by (simp add: cf_def fp_of_eq_0_iff)
  qed
  moreover have "based (d ! 0)" "d ! 0 \<noteq> 0"
    using a0 l(2) by (auto simp: d0 cf_def)
  ultimately show ?thesis using that [OF eq] by blast
qed


subsection \<open>Properties\<close>

text \<open>C7: the extended Euclidean loop ends without an out-of-range access on every nonzero canonical
  polynomial of six coefficients against the field modulus, and returns a nonzero constant \<open>d\<close> with a
  cofactor \<open>u\<close> such that \<open>u * f = d\<close> in the extension field.\<close>

theorem bpegcd_bezout:
  assumes "canon f" "length f = 6" "\<not> is_zero f"
  shows "\<exists>d u v. bpegcd f modulus (replicate 7 0) (replicate 7 0) (replicate 6 0) = Some (d, u, v) \<and>
    based (d ! 0) \<and> d ! 0 \<noteq> 0 \<and> canon u \<and> length u = 7 \<and> u ! 6 = 0 \<and>
    pev u * pev f = emb (fp_of (d ! 0))"
  by (rule bpegcd_inverse [OF assms]) blast

theorem bpegcd_bezout_witness:
  "\<exists>d u v. bpegcd [5, 1, 0, 0, 0, 2] modulus (replicate 7 0) (replicate 7 0) (replicate 6 0) = Some (d, u, v) \<and>
    d ! 0 \<noteq> 0 \<and> pev u * pev [5, 1, 0, 0, 0, 2] = emb (fp_of (d ! 0))"
proof -
  have "canon [5, 1, 0, 0, 0, 2]" "length [5, 1, 0, 0, 0, 2 :: u64] = 6" "\<not> is_zero [5, 1, 0, 0, 0, 2]"
    by (simp_all add: is_zero_def)
  from bpegcd_bezout [OF this] show ?thesis by blast
qed

end
