(* ===== verification/Cheetah.thy ===== *)
theory Cheetah
  imports Bpoly
begin

text \<open>
  The Cheetah curve \<open>y^2 = x^3 + x + b\<close> over the sextic extension \<open>F_p[x] / (x^6 - 7)\<close>,
  \<^verbatim>\<open>crates/vesl-signing/src/math/cheetah.rs\<close>, in affine coordinates.  Errors of the source are
  \<open>cheetah_error\<close> values.  The base58 codec (crate \<open>bs58\<close>) is a parameter.
\<close>

subsection \<open>The extension field\<close>

datatype f6lt = F6lt u64 u64 u64 u64 u64 u64

datatype cheetah_error =
    Base58
  | InvalidLength nat
  | ArrayConversion
  | NotOnCurve
  | DivByZero

definition F6_ZERO :: f6lt where
  "F6_ZERO = F6lt 0 0 0 0 0 0"

definition F6_ONE :: f6lt where
  "F6_ONE = F6lt 1 0 0 0 0 0"

fun karat3 :: "u64 \<times> u64 \<times> u64 \<Rightarrow> u64 \<times> u64 \<times> u64 \<Rightarrow> u64 \<times> u64 \<times> u64 \<times> u64 \<times> u64" where
  "karat3 (a0, a1, a2) (b0, b1, b2) =
     (let m0 = bmul a0 b0; m1 = bmul a1 b1; m2 = bmul a2 b2
      in (m0,
          bsub (bmul (badd a0 a1) (badd b0 b1)) (badd m0 m1),
          badd (bsub (bmul (badd a0 a2) (badd b0 b2)) (badd m0 m2)) m1,
          bsub (bmul (badd a1 a2) (badd b1 b2)) (badd m1 m2),
          m2))"

fun f6_mul :: "f6lt \<Rightarrow> f6lt \<Rightarrow> f6lt" where
  "f6_mul (F6lt f0 f1 f2 f3 f4 f5) (F6lt g0 g1 g2 g3 g4 g5) =
     (let (l0, l1, l2, l3, l4) = karat3 (f0, f1, f2) (g0, g1, g2);
          (h0, h1, h2, h3, h4) = karat3 (f3, f4, f5) (g3, g4, g5);
          (x0, x1, x2, x3, x4) =
            karat3 (badd f0 f3, badd f1 f4, badd f2 f5) (badd g0 g3, badd g1 g4, badd g2 g5);
          c0 = bsub x0 (badd l0 h0);
          c1 = bsub x1 (badd l1 h1);
          c2 = bsub x2 (badd l2 h2);
          c3 = bsub x3 (badd l3 h3);
          c4 = bsub x4 (badd l4 h4)
      in F6lt
           (badd l0 (bmul 7 (badd c3 h0)))
           (badd l1 (bmul 7 (badd c4 h1)))
           (badd l2 (bmul 7 h2))
           (badd (badd l3 c0) (bmul 7 h3))
           (badd (badd l4 c1) (bmul 7 h4))
           c2)"

fun f6_coeffs :: "f6lt \<Rightarrow> u64 list" where
  "f6_coeffs (F6lt a b c d e f) = [a, b, c, d, e, f]"

definition f6_of_list :: "u64 list \<Rightarrow> f6lt" where
  "f6_of_list xs = F6lt (xs ! 0) (xs ! 1) (xs ! 2) (xs ! 3) (xs ! 4) (xs ! 5)"

definition f6_inv :: "f6lt \<Rightarrow> (cheetah_error, f6lt) outcome" where
  "f6_inv f =
     (if f = F6_ZERO then Err DivByZero
      else case bpegcd (f6_coeffs f) [bneg 7, 0, 0, 0, 0, 0, 1]
                  (replicate 7 0) (replicate 7 0) (replicate 6 0) of
             None \<Rightarrow> Panic
           | Some (d, u, v) \<Rightarrow>
               let inv = binv (d ! 0)
               in Ok (f6_of_list (bpscal inv u (replicate 6 0))))"

definition f6_div :: "f6lt \<Rightarrow> f6lt \<Rightarrow> (cheetah_error, f6lt) outcome" where
  "f6_div f1 f2 = and_then (f6_inv f2) (\<lambda>i. Ok (f6_mul f1 i))"

fun f6_add :: "f6lt \<Rightarrow> f6lt \<Rightarrow> f6lt" where
  "f6_add (F6lt a0 a1 a2 a3 a4 a5) (F6lt b0 b1 b2 b3 b4 b5) =
     F6lt (badd a0 b0) (badd a1 b1) (badd a2 b2) (badd a3 b3) (badd a4 b4) (badd a5 b5)"

fun f6_scal :: "u64 \<Rightarrow> f6lt \<Rightarrow> f6lt" where
  "f6_scal s (F6lt a0 a1 a2 a3 a4 a5) =
     F6lt (bmul a0 s) (bmul a1 s) (bmul a2 s) (bmul a3 s) (bmul a4 s) (bmul a5 s)"

definition f6_square :: "f6lt \<Rightarrow> f6lt" where
  "f6_square f = f6_mul f f"

fun f6_neg :: "f6lt \<Rightarrow> f6lt" where
  "f6_neg (F6lt a0 a1 a2 a3 a4 a5) =
     F6lt (bneg a0) (bneg a1) (bneg a2) (bneg a3) (bneg a4) (bneg a5)"

definition f6_sub :: "f6lt \<Rightarrow> f6lt \<Rightarrow> f6lt" where
  "f6_sub f1 f2 = f6_add f1 (f6_neg f2)"


subsection \<open>The curve\<close>

record cheetah_point =
  px :: f6lt
  py :: f6lt
  inf :: bool

definition G_ORDER :: nat where
  "G_ORDER = 0x7af2599b3b3f22d0563fbf0f990a37b5327aa72330157722d443623eaed4accf"

definition P_BIG :: nat where
  "P_BIG = unat PRIME"

definition A_GEN :: cheetah_point where
  "A_GEN =
     \<lparr>px = F6lt 2754611494552410273 8599518745794843693 10526511002404673680
              4830863958577994148 375185138577093320 12938930721685970739,
      py = F6lt 15384029202802550068 2774812795997841935 14375303400746062753
              10708493419890101954 13187678623570541764 9990732138772505951,
      inf = False\<rparr>"

definition A_ID :: cheetah_point where
  "A_ID = \<lparr>px = F6_ZERO, py = F6_ONE, inf = True\<rparr>"

definition ch_double_unsafe :: "f6lt \<Rightarrow> f6lt \<Rightarrow> (cheetah_error, cheetah_point) outcome" where
  "ch_double_unsafe x y =
     and_then (f6_div (f6_add (f6_scal 3 (f6_square x)) F6_ONE) (f6_scal 2 y)) (\<lambda>slope.
       let x_out = f6_sub (f6_square slope) (f6_scal 2 x);
           y_out = f6_sub (f6_mul slope (f6_sub x x_out)) y
       in Ok \<lparr>px = x_out, py = y_out, inf = False\<rparr>)"

definition ch_double :: "cheetah_point \<Rightarrow> (cheetah_error, cheetah_point) outcome" where
  "ch_double p =
     (if inf p then Ok A_ID
      else if py p = F6_ZERO then Ok A_ID
      else ch_double_unsafe (px p) (py p))"

definition ch_add_unsafe :: "cheetah_point \<Rightarrow> cheetah_point \<Rightarrow> (cheetah_error, cheetah_point) outcome" where
  "ch_add_unsafe p q =
     and_then (f6_div (f6_sub (py p) (py q)) (f6_sub (px p) (px q))) (\<lambda>slope.
       let x_out = f6_sub (f6_square slope) (f6_add (px p) (px q));
           y_out = f6_sub (f6_mul slope (f6_sub (px p) x_out)) (py p)
       in Ok \<lparr>px = x_out, py = y_out, inf = False\<rparr>)"

definition ch_neg :: "cheetah_point \<Rightarrow> cheetah_point" where
  "ch_neg p = \<lparr>px = px p, py = f6_neg (py p), inf = inf p\<rparr>"

definition ch_add :: "cheetah_point \<Rightarrow> cheetah_point \<Rightarrow> (cheetah_error, cheetah_point) outcome" where
  "ch_add p q =
     (if inf p then Ok q
      else if inf q then Ok p
      else if p = ch_neg q then Ok A_ID
      else if p = q then ch_double p
      else ch_add_unsafe p q)"

text \<open>
  The double-and-add loops: \<open>ch_scal\<close> over a machine word, \<open>ch_scal_big\<close> over a big integer.
\<close>

function ch_scal_loop ::
  "u64 \<Rightarrow> cheetah_point \<Rightarrow> cheetah_point \<Rightarrow> (cheetah_error, cheetah_point) outcome" where
  "ch_scal_loop n p_copy acc =
     (if 0 < n then
        and_then (if n AND 1 = 1 then ch_add acc p_copy else Ok acc) (\<lambda>acc.
          and_then (ch_double p_copy) (\<lambda>p_copy. ch_scal_loop (drop_bit 1 n) p_copy acc))
      else Ok acc)"
  by pat_completeness auto
termination
proof (relation "measure (\<lambda>(n, _). unat n)", goal_cases)
  case (2 n p_copy acc acc' p_copy')
  then have "0 < unat n" by (simp add: word_less_nat_alt)
  then show ?case by (simp add: unsigned_drop_bit_eq drop_bit_eq_div unat_div)
qed simp

declare ch_scal_loop.simps [simp del]

definition ch_scal :: "u64 \<Rightarrow> cheetah_point \<Rightarrow> (cheetah_error, cheetah_point) outcome" where
  "ch_scal n p = ch_scal_loop n p A_ID"

fun ch_scal_big_loop ::
  "nat \<Rightarrow> cheetah_point \<Rightarrow> cheetah_point \<Rightarrow> (cheetah_error, cheetah_point) outcome" where
  "ch_scal_big_loop n p_copy acc =
     (if 0 < n then
        and_then (if odd n then ch_add acc p_copy else Ok acc) (\<lambda>acc.
          and_then (ch_double p_copy) (\<lambda>p_copy. ch_scal_big_loop (n div 2) p_copy acc))
      else Ok acc)"

declare ch_scal_big_loop.simps [simp del]

definition ch_scal_big :: "nat \<Rightarrow> cheetah_point \<Rightarrow> (cheetah_error, cheetah_point) outcome" where
  "ch_scal_big n p = ch_scal_big_loop n p A_ID"

definition in_curve :: "cheetah_point \<Rightarrow> (cheetah_error, bool) outcome" where
  "in_curve p =
     (if p = A_ID then Ok True
      else case ch_scal_big G_ORDER p of
             Ok scaled \<Rightarrow> Ok (scaled = A_ID)
           | Err _ \<Rightarrow> Ok False
           | Panic \<Rightarrow> Panic)"

definition trunc_g_order :: "u64 list \<Rightarrow> nat option" where
  "trunc_g_order a =
     (if length a < 4 then None
      else Some ((unat (a ! 0) + P_BIG * unat (a ! 1) + P_BIG * P_BIG * unat (a ! 2)
                  + P_BIG * P_BIG * P_BIG * unat (a ! 3)) mod G_ORDER))"


subsection \<open>Encodings\<close>

definition BYTES :: nat where "BYTES = 97"
definition MAX_B58_LEN :: nat where "MAX_B58_LEN = 256"

definition to_bytes :: "cheetah_point \<Rightarrow> cheetah_error + bytes" where
  "to_bytes p =
     (if inf p then Inl NotOnCurve
      else Inr (1 # concat (map to_be_bytes (rev (f6_coeffs (py p)) @ rev (f6_coeffs (px p))))))"

definition into_base58 :: "(bytes \<Rightarrow> ustr) \<Rightarrow> cheetah_point \<Rightarrow> cheetah_error + ustr" where
  "into_base58 b58_encode p =
     (case to_bytes p of Inl e \<Rightarrow> Inl e | Inr bs \<Rightarrow> Inr (b58_encode bs))"

definition from_base58 ::
  "(ustr \<Rightarrow> bytes option) \<Rightarrow> ustr \<Rightarrow> (cheetah_error, cheetah_point) outcome" where
  "from_base58 b58_decode b58 =
     (if MAX_B58_LEN < length (utf8 b58) then Err (InvalidLength (length (utf8 b58)))
      else case b58_decode b58 of
             None \<Rightarrow> Err Base58
           | Some v \<Rightarrow>
               if length v \<noteq> BYTES then Err (InvalidLength (length v))
               else
                 let v64 = rev (map from_be_bytes (chunks 8 (drop 1 v)));
                     c_pt = \<lparr>px = f6_of_list (take 6 v64), py = f6_of_list (drop 6 v64), inf = False\<rparr>
                 in and_then (in_curve c_pt) (\<lambda>on_curve.
                      if on_curve then Ok c_pt else Err NotOnCurve))"


subsection \<open>Extension-field arithmetic is correct\<close>

definition canon_f6 :: "f6lt \<Rightarrow> bool" where
  "canon_f6 f \<longleftrightarrow> canon (f6_coeffs f)"

fun to_f6 :: "f6lt \<Rightarrow> f6" where
  "to_f6 (F6lt a0 a1 a2 a3 a4 a5) =
     F6 (F2 (fp_of a0) (fp_of a3)) (F2 (fp_of a1) (fp_of a4)) (F2 (fp_of a2) (fp_of a5))"

named_theorems f6_hom \<open>canonical results and values of the extension-field operations\<close>

lemma fp_of_7 [simp]: "fp_of 7 = 7"
  by (simp add: fp_of_def)

lemma to_f6_pev: "to_f6 f = pev (f6_coeffs f)"
  by (cases f) (simp add: pev_low cf_def nth_Cons' del: pev.simps)

lemma canon_F6lt [simp]:
  "canon_f6 (F6lt a0 a1 a2 a3 a4 a5) \<longleftrightarrow> based a0 \<and> based a1 \<and> based a2 \<and> based a3 \<and> based a4 \<and> based a5"
  by (simp only: canon_f6_def f6_coeffs.simps list.set ball_simps simp_thms)

lemma to_f6_inject: "canon_f6 f \<Longrightarrow> canon_f6 g \<Longrightarrow> to_f6 f = to_f6 g \<longleftrightarrow> f = g"
  by (cases f; cases g) (simp only: canon_F6lt to_f6.simps f6.inject f2.inject f6lt.inject fp_of_inject; blast)

text \<open>The operations compute componentwise, on canonical words.\<close>

lemmas componentwise = canon_F6lt to_f6.simps f6_eq_iff f2_eq_iff f6_sel f2_sel f6.sel f2.sel

lemma canon_f6_add [f6_hom]: "canon_f6 f \<Longrightarrow> canon_f6 g \<Longrightarrow> canon_f6 (f6_add f g)"
  by (cases f; cases g) (simp only: f6_add.simps canon_F6lt based_badd simp_thms)

lemma to_f6_add [f6_hom]: "canon_f6 f \<Longrightarrow> canon_f6 g \<Longrightarrow> to_f6 (f6_add f g) = to_f6 f + to_f6 g"
  by (cases f; cases g) (simp only: f6_add.simps componentwise fp_of_badd simp_thms)

lemma canon_f6_neg [f6_hom]: "canon_f6 f \<Longrightarrow> canon_f6 (f6_neg f)"
  by (cases f) (simp only: f6_neg.simps canon_F6lt based_bneg simp_thms)

lemma to_f6_neg [f6_hom]: "canon_f6 f \<Longrightarrow> to_f6 (f6_neg f) = - to_f6 f"
  by (cases f) (simp only: f6_neg.simps componentwise fp_of_bneg simp_thms)

lemma canon_f6_sub [f6_hom]: "canon_f6 f \<Longrightarrow> canon_f6 g \<Longrightarrow> canon_f6 (f6_sub f g)"
  by (simp only: f6_sub_def f6_hom)

lemma to_f6_sub [f6_hom]: "canon_f6 f \<Longrightarrow> canon_f6 g \<Longrightarrow> to_f6 (f6_sub f g) = to_f6 f - to_f6 g"
  by (simp only: f6_sub_def f6_hom add_uminus_conv_diff)

lemma canon_f6_scal [f6_hom]: "canon_f6 (f6_scal s f)"
  by (cases f) (simp only: f6_scal.simps canon_F6lt based_bmul simp_thms)

lemma to_f6_scal [f6_hom]: "to_f6 (f6_scal s f) = emb (fp_of s) * to_f6 f"
  by (cases f) (simp add: fp_of_bmul f6_eq_iff f2_eq_iff emb_def)

lemma karat3_correct:
  assumes "based a0" "based a1" "based a2" "based b0" "based b1" "based b2"
    and "karat3 (a0, a1, a2) (b0, b1, b2) = (l0, l1, l2, l3, l4)"
  shows "based l0 \<and> based l1 \<and> based l2 \<and> based l3 \<and> based l4 \<and>
    fp_of l0 = fp_of a0 * fp_of b0 \<and>
    fp_of l1 = fp_of a0 * fp_of b1 + fp_of a1 * fp_of b0 \<and>
    fp_of l2 = fp_of a0 * fp_of b2 + fp_of a1 * fp_of b1 + fp_of a2 * fp_of b0 \<and>
    fp_of l3 = fp_of a1 * fp_of b2 + fp_of a2 * fp_of b1 \<and>
    fp_of l4 = fp_of a2 * fp_of b2"
proof -
  from assms(7) have l: "l0 = bmul a0 b0" "l4 = bmul a2 b2"
    "l1 = bsub (bmul (badd a0 a1) (badd b0 b1)) (badd (bmul a0 b0) (bmul a1 b1))"
    "l2 = badd (bsub (bmul (badd a0 a2) (badd b0 b2)) (badd (bmul a0 b0) (bmul a2 b2))) (bmul a1 b1)"
    "l3 = bsub (bmul (badd a1 a2) (badd b1 b2)) (badd (bmul a1 b1) (bmul a2 b2))"
    by (auto simp only: karat3.simps Let_def prod.inject)
  show ?thesis
    unfolding l using assms(1-6)
    by (simp only: belt_hom simp_thms) (simp add: algebra_simps)
qed

lemma f6_mul_correct:
  assumes "canon_f6 f" "canon_f6 g"
  shows "canon_f6 (f6_mul f g) \<and> to_f6 (f6_mul f g) = to_f6 f * to_f6 g"
proof -
  obtain f0 f1 f2 f3 f4 f5 where f: "f = F6lt f0 f1 f2 f3 f4 f5" by (cases f)
  obtain g0 g1 g2 g3 g4 g5 where g: "g = F6lt g0 g1 g2 g3 g4 g5" by (cases g)
  have bf: "based f0" "based f1" "based f2" "based f3" "based f4" "based f5"
    and bg: "based g0" "based g1" "based g2" "based g3" "based g4" "based g5"
    using assms unfolding f g canon_F6lt by blast+
  obtain l0 l1 l2 l3 l4 where l: "karat3 (f0, f1, f2) (g0, g1, g2) = (l0, l1, l2, l3, l4)"
    by (metis prod_cases5)
  obtain h0 h1 h2 h3 h4 where h: "karat3 (f3, f4, f5) (g3, g4, g5) = (h0, h1, h2, h3, h4)"
    by (metis prod_cases5)
  obtain x0 x1 x2 x3 x4 where x: "karat3 (badd f0 f3, badd f1 f4, badd f2 f5)
      (badd g0 g3, badd g1 g4, badd g2 g5) = (x0, x1, x2, x3, x4)"
    by (metis prod_cases5)
  note K = karat3_correct [OF bf(1-3) bg(1-3) l] karat3_correct [OF bf(4-6) bg(4-6) h]
    karat3_correct [OF based_badd [OF bf(1,4)] based_badd [OF bf(2,5)] based_badd [OF bf(3,6)]
      based_badd [OF bg(1,4)] based_badd [OF bg(2,5)] based_badd [OF bg(3,6)] x]
  have eq: "f6_mul f g = F6lt
      (badd l0 (bmul 7 (badd (bsub x3 (badd l3 h3)) h0)))
      (badd l1 (bmul 7 (badd (bsub x4 (badd l4 h4)) h1)))
      (badd l2 (bmul 7 h2))
      (badd (badd l3 (bsub x0 (badd l0 h0))) (bmul 7 h3))
      (badd (badd l4 (bsub x1 (badd l1 h1))) (bmul 7 h4))
      (bsub x2 (badd l2 h2))"
    by (simp only: f g f6_mul.simps l h x Let_def prod.case)
  note hom = belt_hom bf bg fp_of_7 simp_thms
  show ?thesis
    unfolding eq unfolding f g componentwise using K
    by (simp only: hom s7_sel) (simp add: algebra_simps)
qed

lemma canon_f6_mul [f6_hom]: "canon_f6 f \<Longrightarrow> canon_f6 g \<Longrightarrow> canon_f6 (f6_mul f g)"
  using f6_mul_correct by blast

lemma to_f6_mul [f6_hom]: "canon_f6 f \<Longrightarrow> canon_f6 g \<Longrightarrow> to_f6 (f6_mul f g) = to_f6 f * to_f6 g"
  using f6_mul_correct by blast

lemma canon_f6_square [f6_hom]: "canon_f6 f \<Longrightarrow> canon_f6 (f6_square f)"
  by (simp add: f6_square_def f6_hom)

lemma to_f6_square [f6_hom]: "canon_f6 f \<Longrightarrow> to_f6 (f6_square f) = to_f6 f * to_f6 f"
  by (simp add: f6_square_def f6_hom)

lemma canon_f6_consts [f6_hom]: "canon_f6 F6_ZERO" "canon_f6 F6_ONE"
  by (simp_all add: F6_ZERO_def F6_ONE_def)

lemma to_f6_consts [f6_hom]: "to_f6 F6_ZERO = 0" "to_f6 F6_ONE = 1"
  by (simp_all add: F6_ZERO_def F6_ONE_def f6_eq_iff f2_eq_iff)

lemma to_f6_eq_0_iff: "canon_f6 f \<Longrightarrow> to_f6 f = 0 \<longleftrightarrow> f = F6_ZERO"
  using to_f6_inject [of f F6_ZERO] by (simp add: f6_hom)

lemma f6_coeffs_of_list [simp]: "length xs = 6 \<Longrightarrow> f6_coeffs (f6_of_list xs) = xs"
  by (auto simp: f6_of_list_def numeral_eq_Suc length_Suc_conv)

lemma f6_inv_correct:
  assumes "canon_f6 f" "f \<noteq> F6_ZERO"
  obtains g where "f6_inv f = Ok g" "canon_f6 g" "to_f6 g = inverse (to_f6 f)"
proof -
  have len: "length (f6_coeffs f) = 6" by (cases f) simp
  have nz: "\<not> is_zero (f6_coeffs f)"
    using assms(2) by (cases f) (auto simp: is_zero_def F6_ZERO_def)
  obtain d u v where e: "bpegcd (f6_coeffs f) modulus (replicate 7 0) (replicate 7 0) (replicate 6 0) = Some (d, u, v)"
    "based (d ! 0)" "d ! 0 \<noteq> 0" "canon u" "length u = 7" "u ! 6 = 0"
    "pev u * pev (f6_coeffs f) = emb (fp_of (d ! 0))"
    by (rule bpegcd_inverse [OF assms(1) [unfolded canon_f6_def] len nz])
  let ?c = "binv (d ! 0)"
  let ?l = "map (bmul ?c) (take 6 u)"
  let ?g = "f6_of_list (bpscal ?c u (replicate 6 0))"
  have l: "bpscal ?c u (replicate 6 0) = ?l" using e(5) by (simp add: bpscal_def)
  have "length ?l = 6" using e(5) by simp
  then have cg: "f6_coeffs ?g = ?l"
    unfolding l by (rule f6_coeffs_of_list)
  have inv: "f6_inv f = Ok ?g"
    using e(1) assms(2) by (simp add: f6_inv_def modulus_def)
  have "cf (take 6 u) j = cf u j" for j
    using e(5,6) by (cases "j < 6"; cases "j = 6") (auto simp: cf_def)
  then have "pev (take 6 u) = pev u" by (rule pev_cong)
  then have "to_f6 ?g = emb (inverse (fp_of (d ! 0))) * pev u"
    by (simp add: to_f6_pev cg pev_map_bmul belt_hom)
  then have "to_f6 ?g * to_f6 f = emb (inverse (fp_of (d ! 0)) * fp_of (d ! 0))"
    by (simp only: to_f6_pev [of f] mult.assoc e(7) emb_simps)
  also have "inverse (fp_of (d ! 0)) * fp_of (d ! 0) = 1"
    using e(2,3) by (simp add: fp_of_eq_0_iff)
  finally have "to_f6 ?g * to_f6 f = 1" by simp
  then have "to_f6 ?g = inverse (to_f6 f)"
    by (metis inverse_unique mult.commute)
  moreover have "canon_f6 ?g" unfolding canon_f6_def cg by (auto simp: belt_hom)
  ultimately show ?thesis using that inv by blast
qed

lemma f6_inv_zero: "f6_inv F6_ZERO = Err DivByZero"
  by (simp add: f6_inv_def)

lemma f6_div_correct:
  assumes "canon_f6 f" "canon_f6 g" "g \<noteq> F6_ZERO"
  obtains h where "f6_div f g = Ok h" "canon_f6 h" "to_f6 h = to_f6 f / to_f6 g"
proof -
  obtain i where "f6_inv g = Ok i" "canon_f6 i" "to_f6 i = inverse (to_f6 g)"
    by (rule f6_inv_correct [OF assms(2,3)])
  with assms(1) that show ?thesis
    by (simp add: f6_div_def f6_hom divide_inverse)
qed


subsection \<open>The curve operations stay on the curve and never fail\<close>

text \<open>
  \<open>on_curve b p\<close>: canonical coordinates, and either the point at infinity or a solution of
  \<open>y^2 = x^3 + x + b\<close>.  The constant \<open>b\<close> does not occur in the affine formulas, so the lemmas hold for
  every \<open>b\<close>.
\<close>

definition canon_point :: "cheetah_point \<Rightarrow> bool" where
  "canon_point p \<longleftrightarrow> canon_f6 (px p) \<and> canon_f6 (py p)"

definition on_curve :: "f6 \<Rightarrow> cheetah_point \<Rightarrow> bool" where
  "on_curve b p \<longleftrightarrow> canon_point p \<and>
     (\<not> inf p \<longrightarrow> to_f6 (py p) * to_f6 (py p) = to_f6 (px p) * to_f6 (px p) * to_f6 (px p) + to_f6 (px p) + b)"

lemma on_curve_A_ID [simp]: "on_curve b A_ID"
  by (simp add: on_curve_def canon_point_def A_ID_def f6_hom)

text \<open>The two chord-and-tangent identities.\<close>

lemma tangent_identity:
  fixes x y b m :: "'a::field"
  assumes "y * y = x * x * x + x + b" and "m * (2 * y) = 3 * (x * x) + 1"
  defines "X \<equiv> m * m - 2 * x"
  defines "Y \<equiv> m * (x - X) - y"
  shows "Y * Y = X * X * X + X + b"
  using assms(1,2) unfolding X_def Y_def by algebra

lemma chord_identity:
  fixes x1 y1 x2 y2 b m :: "'a::field"
  assumes "y1 * y1 = x1 * x1 * x1 + x1 + b" and "y2 * y2 = x2 * x2 * x2 + x2 + b"
    and "m * (x1 - x2) = y1 - y2" and "x1 \<noteq> x2"
  defines "X \<equiv> m * m - (x1 + x2)"
  defines "Y \<equiv> m * (x1 - X) - y1"
  shows "Y * Y = X * X * X + X + b"
proof -
  have "(Y * Y - (X * X * X + X + b)) * (x1 - x2) = 0"
    using assms(1-3) unfolding X_def Y_def by algebra
  with assms(4) show ?thesis by simp
qed

lemma emb_small [simp]: "emb 2 = 2" "emb 3 = 3"
proof -
  show "emb 2 = 2" using emb_simps(3) [of 1 1] by simp
  then show "emb 3 = 3" using emb_simps(3) [of 2 1] by simp
qed

lemma fp_of_small [simp]: "fp_of 2 = 2" "fp_of 3 = 3"
  by (simp_all add: fp_of_def)

lemma two_nonzero_f6: "(2 :: f6) \<noteq> 0"
proof -
  have "(of_int 2 :: fp) \<noteq> 0" unfolding of_int_fp_eq_0_iff by simp
  then have "emb 2 \<noteq> 0" by (simp only: emb_eq_0_iff of_int_numeral not_False_eq_True)
  then show ?thesis by (simp only: emb_small not_False_eq_True)
qed

lemma ch_double_on_curve:
  assumes "on_curve b p"
  obtains r where "ch_double p = Ok r" "on_curve b r"
proof (cases "inf p \<or> py p = F6_ZERO")
  case True
  then show ?thesis using that [of A_ID] by (auto simp: ch_double_def)
next
  case False
  let ?x = "px p" and ?y = "py p"
  have c: "canon_f6 ?x" "canon_f6 ?y"
    and curve: "to_f6 ?y * to_f6 ?y = to_f6 ?x * to_f6 ?x * to_f6 ?x + to_f6 ?x + b"
    using assms False by (auto simp: on_curve_def canon_point_def)
  let ?n = "f6_add (f6_scal 3 (f6_square ?x)) F6_ONE" and ?d = "f6_scal 2 ?y"
  have y0: "to_f6 ?y \<noteq> 0" using False c by (simp add: to_f6_eq_0_iff)
  have d: "to_f6 ?d = 2 * to_f6 ?y" by (simp add: f6_hom)
  then have "to_f6 ?d \<noteq> 0" using y0 two_nonzero_f6 by simp
  then have "?d \<noteq> F6_ZERO" by (metis to_f6_consts(1))
  moreover have "canon_f6 ?n" "canon_f6 ?d" using c by (simp_all add: f6_hom)
  ultimately obtain m where m: "f6_div ?n ?d = Ok m" "canon_f6 m" "to_f6 m = to_f6 ?n / to_f6 ?d"
    using f6_div_correct by blast
  have "to_f6 ?n = 3 * (to_f6 ?x * to_f6 ?x) + 1" using c by (simp add: f6_hom)
  with m(3) \<open>to_f6 ?d \<noteq> 0\<close> d have slope: "to_f6 m * (2 * to_f6 ?y) = 3 * (to_f6 ?x * to_f6 ?x) + 1"
    by (metis nonzero_eq_divide_eq)
  let ?X = "f6_sub (f6_square m) (f6_scal 2 ?x)"
  let ?Y = "f6_sub (f6_mul m (f6_sub ?x ?X)) ?y"
  have X: "canon_f6 ?X" "to_f6 ?X = to_f6 m * to_f6 m - 2 * to_f6 ?x"
    using c m(2) by (simp_all add: f6_hom)
  then have Y: "canon_f6 ?Y"
    "to_f6 ?Y = to_f6 m * (to_f6 ?x - (to_f6 m * to_f6 m - 2 * to_f6 ?x)) - to_f6 ?y"
    using c m(2) by (simp_all add: f6_hom)
  have "on_curve b \<lparr>px = ?X, py = ?Y, inf = False\<rparr>"
    using tangent_identity [OF curve slope] X Y by (simp add: on_curve_def canon_point_def)
  moreover have "ch_double p = Ok \<lparr>px = ?X, py = ?Y, inf = False\<rparr>"
    using m(1) False by (simp add: ch_double_def ch_double_unsafe_def Let_def)
  ultimately show ?thesis using that by blast
qed

lemma ch_neg_on_curve: "on_curve b p \<Longrightarrow> on_curve b (ch_neg p)"
  by (simp add: on_curve_def canon_point_def ch_neg_def f6_hom)

lemma ch_add_on_curve:
  assumes p: "on_curve b p" and q: "on_curve b q"
  obtains r where "ch_add p q = Ok r" "on_curve b r"
proof (cases "inf p \<or> inf q \<or> p = ch_neg q \<or> p = q")
  case True
  then consider "inf p" | "\<not> inf p" "inf q" | "\<not> inf p" "\<not> inf q" "p = ch_neg q"
    | "\<not> inf p" "\<not> inf q" "p \<noteq> ch_neg q" "p = q" by blast
  then show ?thesis
  proof cases
    case 4
    obtain r where "ch_double p = Ok r" "on_curve b r" by (rule ch_double_on_curve [OF p])
    with 4 that show ?thesis by (simp add: ch_add_def)
  qed (use that p q in \<open>simp_all add: ch_add_def\<close>)
next
  case False
  let ?x1 = "px p" and ?y1 = "py p" and ?x2 = "px q" and ?y2 = "py q"
  have c: "canon_f6 ?x1" "canon_f6 ?y1" "canon_f6 ?x2" "canon_f6 ?y2"
    and curve: "to_f6 ?y1 * to_f6 ?y1 = to_f6 ?x1 * to_f6 ?x1 * to_f6 ?x1 + to_f6 ?x1 + b"
      "to_f6 ?y2 * to_f6 ?y2 = to_f6 ?x2 * to_f6 ?x2 * to_f6 ?x2 + to_f6 ?x2 + b"
    using p q False by (auto simp: on_curve_def canon_point_def)
  have ne: "to_f6 ?x1 \<noteq> to_f6 ?x2"
  proof
    assume eq: "to_f6 ?x1 = to_f6 ?x2"
    with curve have "(to_f6 ?y1 - to_f6 ?y2) * (to_f6 ?y1 + to_f6 ?y2) = 0"
      by (simp add: algebra_simps)
    then have "to_f6 ?y1 = to_f6 ?y2 \<or> to_f6 ?y1 = to_f6 (f6_neg ?y2)"
      using c by (auto simp: f6_hom eq_neg_iff_add_eq_0)
    then have "?y1 = ?y2 \<or> ?y1 = f6_neg ?y2"
      using to_f6_inject c canon_f6_neg by blast
    moreover have "?x1 = ?x2" using eq c by (simp add: to_f6_inject)
    ultimately show False using False by (auto simp: ch_neg_def)
  qed
  let ?n = "f6_sub ?y1 ?y2" and ?d = "f6_sub ?x1 ?x2"
  have nd: "canon_f6 ?n" "canon_f6 ?d" "to_f6 ?n = to_f6 ?y1 - to_f6 ?y2" "to_f6 ?d = to_f6 ?x1 - to_f6 ?x2"
    using c by (simp_all add: f6_hom)
  then have d0: "to_f6 ?d \<noteq> 0" using ne by simp
  then have "?d \<noteq> F6_ZERO" by (metis to_f6_consts(1))
  then obtain m where m: "f6_div ?n ?d = Ok m" "canon_f6 m" "to_f6 m = to_f6 ?n / to_f6 ?d"
    using f6_div_correct nd by blast
  then have slope: "to_f6 m * (to_f6 ?x1 - to_f6 ?x2) = to_f6 ?y1 - to_f6 ?y2"
    using d0 nd by simp
  let ?X = "f6_sub (f6_square m) (f6_add ?x1 ?x2)"
  let ?Y = "f6_sub (f6_mul m (f6_sub ?x1 ?X)) ?y1"
  have X: "canon_f6 ?X" "to_f6 ?X = to_f6 m * to_f6 m - (to_f6 ?x1 + to_f6 ?x2)"
    using c m(2) by (simp_all add: f6_hom)
  then have Y: "canon_f6 ?Y"
    "to_f6 ?Y = to_f6 m * (to_f6 ?x1 - (to_f6 m * to_f6 m - (to_f6 ?x1 + to_f6 ?x2))) - to_f6 ?y1"
    using c m(2) by (simp_all add: f6_hom)
  have "on_curve b \<lparr>px = ?X, py = ?Y, inf = False\<rparr>"
    using chord_identity [OF curve slope ne] X Y by (simp add: on_curve_def canon_point_def)
  moreover have "ch_add p q = Ok \<lparr>px = ?X, py = ?Y, inf = False\<rparr>"
    using m(1) False by (simp add: ch_add_def ch_add_unsafe_def Let_def)
  ultimately show ?thesis using that by blast
qed

lemma ch_scal_big_loop_on_curve:
  "on_curve b p \<Longrightarrow> on_curve b acc \<Longrightarrow> \<exists>r. ch_scal_big_loop n p acc = Ok r \<and> on_curve b r"
proof (induction n arbitrary: p acc rule: less_induct)
  case (less n)
  show ?case
  proof (cases "n = 0")
    case True
    then show ?thesis using less by (subst ch_scal_big_loop.simps) simp
  next
    case False
    obtain acc' where a: "(if odd n then ch_add acc p else Ok acc) = Ok acc'" "on_curve b acc'"
    proof (cases "odd n")
      case True
      then show ?thesis using that by (auto intro: ch_add_on_curve [OF less.prems(2,1)])
    qed (use that less.prems in auto)
    obtain p' where p: "ch_double p = Ok p'" "on_curve b p'"
      by (rule ch_double_on_curve [OF less.prems(1)])
    have "n div 2 < n" using False by simp
    from less.IH [OF this p(2) a(2)] show ?thesis
      using False a p by (subst ch_scal_big_loop.simps) simp
  qed
qed

lemma ch_scal_big_on_curve:
  assumes "on_curve b p"
  obtains r where "ch_scal_big n p = Ok r" "on_curve b r"
  using ch_scal_big_loop_on_curve [OF assms on_curve_A_ID, of n] by (auto simp: ch_scal_big_def)

lemma canon_point_on_curve: "canon_point p \<Longrightarrow> \<exists>b. on_curve b p"
  by (rule exI [of _ "to_f6 (py p) * to_f6 (py p) - to_f6 (px p) * to_f6 (px p) * to_f6 (px p) - to_f6 (px p)"])
     (simp add: on_curve_def)

lemma canon_A_GEN: "canon_point A_GEN"
  by (simp add: canon_point_def A_GEN_def)

lemma in_curve_total: "canon_point p \<Longrightarrow> \<exists>v. in_curve p = Ok v"
proof -
  assume "canon_point p"
  then obtain b where "on_curve b p" using canon_point_on_curve by blast
  then obtain r where "ch_scal_big G_ORDER p = Ok r" by (rule ch_scal_big_on_curve)
  then show ?thesis unfolding in_curve_def by (cases "p = A_ID") auto
qed

lemma ch_scal_loop_big: "ch_scal_loop n p acc = ch_scal_big_loop (unat n) p acc"
proof (induction n p acc rule: ch_scal_loop.induct)
  case (1 n p acc)
  have half: "unat (drop_bit 1 n) = unat n div 2"
    by (simp add: unsigned_drop_bit_eq drop_bit_eq_div unat_div)
  have odd: "n AND 1 = 1 \<longleftrightarrow> odd (unat n)"
  proof -
    have "bit n 0 \<longleftrightarrow> bit (unat n) 0" by (simp only: bit_unsigned_iff) simp
    then show ?thesis by (simp add: and_one_eq mod_2_eq_odd bit_0)
  qed
  have pos: "0 < n \<longleftrightarrow> 0 < unat n" by (simp add: word_less_nat_alt)
  show ?case
    by (subst ch_scal_loop.simps, subst ch_scal_big_loop.simps)
       (auto simp: half [simplified] odd pos "1.IH" [simplified] intro!: and_then_cong)
qed


subsection \<open>Encodings\<close>

lemma G_ORDER_pos [simp]: "0 < G_ORDER"
  by (simp add: G_ORDER_def)

lemma trunc_g_order_lt: "trunc_g_order a = Some n \<Longrightarrow> n < G_ORDER"
  by (auto simp: trunc_g_order_def split: if_splits)

lemma length_f6_coeffs [simp]: "length (f6_coeffs f) = 6"
  by (cases f) simp

lemma f6_of_list_coeffs [simp]: "f6_of_list (f6_coeffs f) = f"
  by (cases f) (simp add: f6_of_list_def)

lemma chunks_concat:
  "0 < n \<Longrightarrow> \<forall>c\<in>set cs. length c = n \<Longrightarrow> chunks n (concat cs) = cs"
  by (induction cs) (simp_all add: chunks_append)

lemma decode_belts:
  "map from_be_bytes (chunks 8 (concat (map to_be_bytes ws))) = (ws :: u64 list)"
proof -
  have "chunks 8 (concat (map to_be_bytes ws)) = map to_be_bytes ws"
    by (rule chunks_concat) (auto simp: to_be_bytes_def codec)
  then show ?thesis by (simp add: codec comp_def)
qed

lemma length_concat_belts: "length (concat (map to_be_bytes (ws :: u64 list))) = 8 * length ws"
  by (induction ws) (simp_all add: to_be_bytes_def codec)

lemma to_bytes_length: "to_bytes p = Inr bs \<Longrightarrow> length bs = BYTES"
  by (auto simp: to_bytes_def BYTES_def length_concat_belts simp del: map_append concat_append split: if_splits)

lemma decode_to_bytes:
  "to_bytes p = Inr bs \<Longrightarrow> rev (map from_be_bytes (chunks 8 (drop 1 bs))) = f6_coeffs (px p) @ f6_coeffs (py p)"
  by (auto simp: to_bytes_def decode_belts simp del: map_append concat_append split: if_splits)

lemma from_base58_into_base58:
  assumes "\<And>bs. b58_decode (b58_encode bs) = Some bs"
    and "into_base58 b58_encode p = Inr s" and "length (utf8 s) \<le> MAX_B58_LEN"
  shows "from_base58 b58_decode s = and_then (in_curve p) (\<lambda>v. if v then Ok p else Err NotOnCurve)"
proof -
  obtain bs where bs: "to_bytes p = Inr bs" "s = b58_encode bs"
    using assms(2) by (auto simp: into_base58_def split: sum.splits)
  then have "\<not> inf p" by (auto simp: to_bytes_def split: if_splits)
  then have p: "\<lparr>px = px p, py = py p, inf = False\<rparr> = p" by simp
  let ?v64 = "rev (map from_be_bytes (chunks 8 (drop 1 bs)))"
  have "f6_of_list (take 6 ?v64) = px p" "f6_of_list (drop 6 ?v64) = py p"
    unfolding decode_to_bytes [OF bs(1)] by simp_all
  then have pt: "\<lparr>px = f6_of_list (take 6 ?v64), py = f6_of_list (drop 6 ?v64), inf = False\<rparr> = p"
    using p by (simp only:)
  have "b58_decode s = Some bs" "\<not> MAX_B58_LEN < length (utf8 s)" "\<not> length bs \<noteq> BYTES"
    using assms(1,3) bs to_bytes_length [OF bs(1)] by simp_all
  then show ?thesis
    unfolding from_base58_def Let_def by (simp only: pt if_False option.case)
qed

lemma from_base58_sound:
  "from_base58 b58_decode s = Ok p \<Longrightarrow> in_curve p = Ok True \<and> \<not> inf p"
  by (auto simp: from_base58_def Let_def split: if_splits option.splits)


subsection \<open>Properties\<close>

text \<open>The Karatsuba multiplication of the extension field is the field product, on canonical
  elements.\<close>

theorem f6_mul_is_product:
  assumes "canon_f6 f" "canon_f6 g"
  shows "canon_f6 (f6_mul f g) \<and> to_f6 (f6_mul f g) = to_f6 f * to_f6 g"
  by (rule f6_mul_correct [OF assms])

theorem f6_mul_is_product_witness:
  "to_f6 (f6_mul (F6lt 1 2 3 4 5 6) (F6lt 6 5 4 3 2 1)) = to_f6 (F6lt 1 2 3 4 5 6) * to_f6 (F6lt 6 5 4 3 2 1)"
proof -
  have "canon_f6 (F6lt 1 2 3 4 5 6)" "canon_f6 (F6lt 6 5 4 3 2 1)" by simp_all
  from f6_mul_is_product [OF this] show ?thesis by blast
qed

text \<open>Inversion in the extension field returns the inverse of every nonzero canonical element and
  the division-by-zero error on zero; it never panics.\<close>

theorem f6_inv_total:
  assumes "canon_f6 f"
  shows "if f = F6_ZERO then f6_inv f = Err DivByZero
    else \<exists>g. f6_inv f = Ok g \<and> canon_f6 g \<and> to_f6 g * to_f6 f = 1"
proof (cases "f = F6_ZERO")
  case False
  obtain g where "f6_inv f = Ok g" "canon_f6 g" "to_f6 g = inverse (to_f6 f)"
    by (rule f6_inv_correct [OF assms False])
  moreover have "to_f6 f \<noteq> 0" using False assms to_f6_eq_0_iff by blast
  ultimately show ?thesis using False by simp
qed (simp add: f6_inv_zero)

theorem f6_inv_total_witness: "\<exists>g. f6_inv (F6lt 1 2 3 4 5 6) = Ok g \<and> to_f6 g * to_f6 (F6lt 1 2 3 4 5 6) = 1"
proof -
  have "canon_f6 (F6lt 1 2 3 4 5 6)" by simp
  from f6_inv_total [OF this] show ?thesis by (simp only: F6_ZERO_def f6lt.inject) auto
qed

text \<open>C15: point addition is total and closed on the curve: on two points of one curve it neither
  fails nor panics, in each of its cases (infinity, opposite points, doubling, chord).\<close>

theorem ch_add_closed:
  assumes "on_curve b p" "on_curve b q"
  shows "\<exists>r. ch_add p q = Ok r \<and> on_curve b r"
  by (rule ch_add_on_curve [OF assms]) blast

theorem ch_add_closed_witness: "\<exists>r. ch_add A_GEN A_GEN = Ok r"
proof -
  obtain b where "on_curve b A_GEN" using canon_point_on_curve canon_A_GEN by blast
  from ch_add_closed [OF this this] show ?thesis by blast
qed

text \<open>Scalar multiplication by any natural number is total and closed on the curve, the loop on
  64-bit scalars is the same function, and the curve test of a canonical point always gives an answer.\<close>

theorem ch_scal_closed:
  assumes "on_curve b p"
  shows "(\<exists>r. ch_scal_big n p = Ok r \<and> on_curve b r) \<and> ch_scal w p = ch_scal_big (unat w) p \<and>
    (\<exists>v. in_curve p = Ok v)"
proof -
  obtain r where "ch_scal_big n p = Ok r" "on_curve b r" by (rule ch_scal_big_on_curve [OF assms])
  moreover have "canon_point p" using assms by (simp add: on_curve_def)
  ultimately show ?thesis
    using in_curve_total by (simp add: ch_scal_def ch_scal_big_def ch_scal_loop_big)
qed

theorem ch_scal_closed_witness: "\<exists>r. ch_scal_big (2 * G_ORDER + 1) A_GEN = Ok r"
proof -
  obtain b where "on_curve b A_GEN" using canon_point_on_curve canon_A_GEN by blast
  from ch_scal_closed [OF this] show ?thesis by blast
qed

text \<open>Decoding the base58 form of a point gives that point when it passes the curve test, and the
  not-on-curve error when it does not; the base58 codec is a parameter that round-trips.\<close>

theorem base58_round_trip:
  assumes "\<And>bs. b58_decode (b58_encode bs) = Some bs"
    and "into_base58 b58_encode p = Inr s" and "length (utf8 s) \<le> MAX_B58_LEN"
  shows "from_base58 b58_decode s = and_then (in_curve p) (\<lambda>v. if v then Ok p else Err NotOnCurve)"
  by (rule from_base58_into_base58 [OF assms])

definition raw_encode :: "bytes \<Rightarrow> ustr" where
  "raw_encode bs = map (\<lambda>b. 33 + unat b div 16) bs @ map (\<lambda>b. 33 + unat b mod 16) bs"

definition raw_decode :: "ustr \<Rightarrow> bytes option" where
  "raw_decode s = (let n = length s div 2
     in Some (map (\<lambda>(h, l). word_of_nat (16 * (h - 33) + (l - 33))) (zip (take n s) (drop n s))))"

lemma raw_codec: "raw_decode (raw_encode bs) = Some bs"
proof -
  have "word_of_nat (16 * (unat b div 16) + unat b mod 16) = b" for b :: u8
    by (simp only: mult_div_mod_eq) simp
  then have "map (\<lambda>b. word_of_nat (16 * (unat b div 16) + unat b mod 16)) bs = bs"
    by (simp only: map_ident)
  then show ?thesis
    by (simp add: raw_decode_def raw_encode_def Let_def zip_map_map zip_same_conv_map comp_def
        del: of_nat_add of_nat_mult)
qed

theorem base58_round_trip_witness:
  "\<exists>s. from_base58 raw_decode s = and_then (in_curve A_GEN) (\<lambda>v. if v then Ok A_GEN else Err NotOnCurve)"
proof -
  have "\<exists>bs. to_bytes A_GEN = Inr bs" by (simp add: to_bytes_def A_GEN_def)
  then obtain bs where bs: "to_bytes A_GEN = Inr bs" by blast
  then have s: "into_base58 raw_encode A_GEN = Inr (raw_encode bs)" by (simp add: into_base58_def)
  have "length bs = 97" using to_bytes_length [OF bs] by (simp add: BYTES_def)
  moreover have "utf8 (map f xs) = map (\<lambda>b. word_of_nat (f b)) xs" if "\<forall>b. f b < 128" for f :: "u8 \<Rightarrow> nat" and xs
    using that by (induction xs) simp_all
  moreover have "33 + unat b div 16 < 128" "33 + unat b mod 16 < 128" for b :: u8
    using unat_u8_bound [of b] by auto
  ultimately have len: "length (utf8 (raw_encode bs)) \<le> MAX_B58_LEN"
    by (simp add: raw_encode_def MAX_B58_LEN_def)
  show ?thesis by (rule exI, rule base58_round_trip [OF raw_codec s len])
qed

text \<open>The decoder only returns points that pass the curve test and are not the point at infinity.\<close>

theorem base58_decode_sound:
  "case from_base58 b58_decode s of Ok p \<Rightarrow> in_curve p = Ok True \<and> inf p = False | Err e \<Rightarrow> True | Panic \<Rightarrow> True"
  using from_base58_sound [of b58_decode s] by (cases "from_base58 b58_decode s") auto

end
