(* ===== verification/Scalar.thy ===== *)
theory Scalar
  imports Cheetah "HOL-Library.List_Lexorder"
begin

text \<open>
  256-bit scalars as eight little-endian 32-bit limbs, \<^verbatim>\<open>crates/vesl-signing/src/scalar.rs\<close>.  The
  fixed-size array is a list, and \<open>wf_scalar\<close> says it has eight limbs; the big integers of the source
  (\<open>UBig\<close>) are natural numbers.
\<close>

subsection \<open>The type and its numeric order\<close>

datatype scalar = Scalar (limbs: "u32 list")

definition wf_scalar :: "scalar \<Rightarrow> bool" where
  "wf_scalar s \<longleftrightarrow> length (limbs s) = 8"

text \<open>\<open>Ord\<close> compares the limbs from the most significant one.\<close>

definition scalar_at_most :: "scalar \<Rightarrow> scalar \<Rightarrow> bool" where
  "scalar_at_most s t \<longleftrightarrow> rev (limbs s) \<le> rev (limbs t)"

definition scalar_below :: "scalar \<Rightarrow> scalar \<Rightarrow> bool" where
  "scalar_below s t \<longleftrightarrow> rev (limbs s) < rev (limbs t)"

instantiation scalar :: linorder
begin

definition less_eq_scalar :: "scalar \<Rightarrow> scalar \<Rightarrow> bool" where
  "less_eq_scalar = scalar_at_most"

definition less_scalar :: "scalar \<Rightarrow> scalar \<Rightarrow> bool" where
  "less_scalar = scalar_below"

instance
proof
  fix s t u :: scalar
  show "s < t \<longleftrightarrow> s \<le> t \<and> \<not> t \<le> s"
    by (simp add: less_scalar_def less_eq_scalar_def scalar_at_most_def scalar_below_def less_le_not_le)
  show "s \<le> s" by (simp add: less_eq_scalar_def scalar_at_most_def)
  show "s \<le> t \<Longrightarrow> t \<le> u \<Longrightarrow> s \<le> u" by (simp add: less_eq_scalar_def scalar_at_most_def)
  show "s \<le> t \<Longrightarrow> t \<le> s \<Longrightarrow> s = t"
    by (simp add: less_eq_scalar_def scalar_at_most_def) (metis antisym rev_is_rev_conv scalar.expand)
  show "s \<le> t \<or> t \<le> s" by (simp add: less_eq_scalar_def scalar_at_most_def linear)
qed

end


subsection \<open>Constants and conversions\<close>

definition SCALAR_G_ORDER :: scalar where
  "SCALAR_G_ORDER =
     Scalar [0xaed4accf, 0xd443623e, 0x30157722, 0x327aa723, 0x990a37b5, 0x563fbf0f, 0x3b3f22d0,
             0x7af2599b]"

definition SCALAR_ZERO :: scalar where
  "SCALAR_ZERO = Scalar (replicate 8 0)"

definition from_t8 :: "u32 list \<Rightarrow> scalar" where
  "from_t8 xs = Scalar xs"

definition to_t8 :: "scalar \<Rightarrow> u32 list" where
  "to_t8 s = limbs s"

definition from_u64 :: "u64 \<Rightarrow> scalar" where
  "from_u64 n = Scalar [ucast n, ucast (drop_bit 32 n), 0, 0, 0, 0, 0, 0]"

definition from_belts :: "u64 list \<Rightarrow> scalar" where
  "from_belts belts = Scalar (map (\<lambda>i. ucast (belts ! i)) [0..<8])"

definition to_belts :: "scalar \<Rightarrow> u64 list" where
  "to_belts s = map ucast (limbs s)"

definition scalar_from_be_bytes :: "bytes \<Rightarrow> scalar" where
  "scalar_from_be_bytes bs =
     Scalar (map (\<lambda>i. let pos = 32 - 4 * (i + 1)
                     in from_be_bytes [bs ! pos, bs ! (pos + 1), bs ! (pos + 2), bs ! (pos + 3)]) [0..<8])"

definition scalar_to_be_bytes :: "scalar \<Rightarrow> bytes" where
  "scalar_to_be_bytes s =
     fold (\<lambda>(i, limb) out. let pos = 32 - 4 * (i + 1)
                           in take pos out @ to_be_bytes limb @ drop (pos + 4) out)
       (zip [0..<8] (limbs s)) (replicate 32 0)"

definition scalar_is_zero :: "scalar \<Rightarrow> bool" where
  "scalar_is_zero s \<longleftrightarrow> limbs s = replicate 8 0"

definition to_ubig :: "scalar \<Rightarrow> nat" where
  "to_ubig s = fold (\<lambda>(i, c) n. n + unat c * 2 ^ (32 * i)) (zip [0..<8] (limbs s)) 0"

definition from_ubig :: "nat \<Rightarrow> scalar" where
  "from_ubig n = Scalar (map (\<lambda>i. word_of_nat ((n div 2 ^ (32 * i)) mod 2 ^ 32)) [0..<8])"

definition add_mod_order :: "scalar \<Rightarrow> scalar \<Rightarrow> scalar" where
  "add_mod_order s rhs = from_ubig ((to_ubig s + to_ubig rhs) mod G_ORDER)"


subsection \<open>Values\<close>

lemma wf_scalarE:
  assumes "wf_scalar s"
  obtains a b c d e f g h where "s = Scalar [a, b, c, d, e, f, g, h]"
  using assms by (cases s) (auto simp: wf_scalar_def numeral_eq_Suc length_Suc_conv)

lemma upt_8: "[0..<8] = [0, 1, 2, 3, 4, 5, 6, 7 :: nat]"
  by code_simp

primrec limbs_value :: "u32 list \<Rightarrow> nat" where
  "limbs_value [] = 0"
| "limbs_value (x # xs) = unat x + 4294967296 * limbs_value xs"

lemma unat_u32_bound: "unat x < 4294967296" for x :: u32
  using unsigned_less [of x] by simp

lemma to_ubig_value: "wf_scalar s \<Longrightarrow> to_ubig s = limbs_value (limbs s)"
  by (erule wf_scalarE) (simp add: to_ubig_def upt_8)

lemma limbs_value_bound: "limbs_value xs < 4294967296 ^ length xs"
proof (induction xs)
  case (Cons x xs)
  have "unat x + 4294967296 * limbs_value xs < 4294967296 * (limbs_value xs + 1)"
    using unat_u32_bound [of x] by simp
  also have "\<dots> \<le> 4294967296 * 4294967296 ^ length xs"
    using Cons.IH by (intro mult_le_mono2) simp
  finally show ?case by simp
qed simp

lemma limbs_value_append: "limbs_value (xs @ ys) = limbs_value xs + 4294967296 ^ length xs * limbs_value ys"
  by (induction xs) (simp_all add: algebra_simps)

lemma limbs_value_less:
  "length xs = length ys \<Longrightarrow> limbs_value (rev xs) < limbs_value (rev ys) \<longleftrightarrow> xs < ys"
proof (induction xs ys rule: list_induct2)
  case (Cons x xs y ys)
  let ?B = "(4294967296 :: nat) ^ length xs"
  have b: "limbs_value (rev xs) < ?B" "limbs_value (rev ys) < ?B"
    using limbs_value_bound [of "rev xs"] limbs_value_bound [of "rev ys"] Cons by simp_all
  have "limbs_value (rev (x # xs)) < limbs_value (rev (y # ys)) \<longleftrightarrow>
      limbs_value (rev xs) + ?B * unat x < limbs_value (rev ys) + ?B * unat y"
    using Cons.hyps by (simp add: limbs_value_append)
  also have "\<dots> \<longleftrightarrow> unat x < unat y \<or> unat x = unat y \<and> limbs_value (rev xs) < limbs_value (rev ys)"
  proof (cases "unat x" "unat y" rule: linorder_cases)
    case less
    then have "?B * (unat x + 1) \<le> ?B * unat y" by (intro mult_le_mono2) simp
    with less b show ?thesis by (simp add: algebra_simps)
  next
    case greater
    then have "?B * (unat y + 1) \<le> ?B * unat x" by (intro mult_le_mono2) simp
    with greater b show ?thesis by (simp add: algebra_simps)
  qed simp
  also have "\<dots> \<longleftrightarrow> x # xs < y # ys"
    using Cons.IH word_unat_eq_iff [of x y] by (simp add: word_less_nat_alt)
  finally show ?case .
qed simp

lemma scalar_less_value: "wf_scalar s \<Longrightarrow> wf_scalar t \<Longrightarrow> s < t \<longleftrightarrow> to_ubig s < to_ubig t"
  using limbs_value_less [of "rev (limbs s)" "rev (limbs t)"]
  by (simp add: less_scalar_def scalar_below_def to_ubig_value wf_scalar_def)

lemma wf_from_ubig [simp]: "wf_scalar (from_ubig n)"
  by (simp add: wf_scalar_def from_ubig_def)

fun nat_limbs :: "nat \<Rightarrow> nat \<Rightarrow> u32 list" where
  "nat_limbs 0 n = []"
| "nat_limbs (Suc k) n = word_of_nat (n mod 4294967296) # nat_limbs k (n div 4294967296)"

lemma from_ubig_limbs: "limbs (from_ubig n) = nat_limbs 8 n"
proof -
  have "map (\<lambda>i. word_of_nat ((n div 2 ^ (32 * i)) mod 2 ^ 32)) [0..<k] = nat_limbs k n" for k
  proof (induction k arbitrary: n)
    case (Suc k)
    have "n div 2 ^ (32 * Suc i) = (n div 4294967296) div 2 ^ (32 * i)" for i
      by (simp add: power_add div_mult2_eq)
    then have "map (\<lambda>i. word_of_nat ((n div 2 ^ (32 * i)) mod 2 ^ 32)) (map Suc [0..<k]) =
        nat_limbs k (n div 4294967296)"
      using Suc.IH [of "n div 4294967296"] by (simp add: comp_def)
    then show ?case
      by (simp add: upt_conv_Cons map_Suc_upt [symmetric] del: upt_Suc)
  qed simp
  then show ?thesis by (simp add: from_ubig_def)
qed

lemma limbs_value_nat_limbs: "limbs_value (nat_limbs k n) = n mod 4294967296 ^ k"
proof (induction k n rule: nat_limbs.induct)
  case (2 k n)
  then show ?case by (simp add: unat_of_nat mod_mult2_eq)
qed simp

lemma nat_limbs_value: "nat_limbs (length xs) (limbs_value xs) = xs"
proof (induction xs)
  case (Cons x xs)
  have "(unat x + 4294967296 * limbs_value xs) mod 4294967296 = unat x"
    "(unat x + 4294967296 * limbs_value xs) div 4294967296 = limbs_value xs"
    using unat_u32_bound [of x] by simp_all
  with Cons show ?case by simp
qed simp

lemma to_ubig_from_ubig: "to_ubig (from_ubig n) = n mod 2 ^ 256"
  by (simp add: to_ubig_value from_ubig_limbs limbs_value_nat_limbs)

lemma from_ubig_to_ubig: "wf_scalar s \<Longrightarrow> from_ubig (to_ubig s) = s"
  using nat_limbs_value [of "limbs s"]
  by (intro scalar.expand) (simp add: from_ubig_limbs to_ubig_value wf_scalar_def)

lemma to_ubig_lt: "wf_scalar s \<Longrightarrow> to_ubig s < 2 ^ 256"
  using limbs_value_bound [of "limbs s"] by (simp add: to_ubig_value wf_scalar_def)

lemma to_ubig_inject: "wf_scalar s \<Longrightarrow> wf_scalar t \<Longrightarrow> to_ubig s = to_ubig t \<longleftrightarrow> s = t"
  by (metis from_ubig_to_ubig)

lemma G_ORDER_lt_2_256: "G_ORDER < 2 ^ 256"
  by (simp add: G_ORDER_def)

lemma to_ubig_from_ubig_small [simp]: "n < G_ORDER \<Longrightarrow> to_ubig (from_ubig n) = n"
  using G_ORDER_lt_2_256 by (simp add: to_ubig_from_ubig)

lemma wf_SCALAR_G_ORDER: "wf_scalar SCALAR_G_ORDER"
  by (simp add: wf_scalar_def SCALAR_G_ORDER_def)

lemma to_ubig_SCALAR_G_ORDER: "to_ubig SCALAR_G_ORDER = G_ORDER"
  by (simp add: to_ubig_value wf_SCALAR_G_ORDER) (simp add: SCALAR_G_ORDER_def G_ORDER_def)

lemma less_G_ORDER: "wf_scalar s \<Longrightarrow> s < SCALAR_G_ORDER \<longleftrightarrow> to_ubig s < G_ORDER"
  by (simp add: scalar_less_value wf_SCALAR_G_ORDER to_ubig_SCALAR_G_ORDER)

lemma scalar_is_zero_value: "wf_scalar s \<Longrightarrow> scalar_is_zero s \<longleftrightarrow> to_ubig s = 0"
proof -
  assume wf: "wf_scalar s"
  have zero: "wf_scalar SCALAR_ZERO" by (simp add: wf_scalar_def SCALAR_ZERO_def)
  have "limbs_value (replicate n 0) = 0" for n by (induction n) simp_all
  then have "to_ubig SCALAR_ZERO = 0" using zero by (simp add: to_ubig_value) (simp add: SCALAR_ZERO_def)
  with zero have "to_ubig s = 0 \<longleftrightarrow> s = SCALAR_ZERO"
    using to_ubig_inject wf by metis
  then show ?thesis by (cases s) (simp add: scalar_is_zero_def SCALAR_ZERO_def)
qed

lemma add_mod_order_value: "to_ubig (add_mod_order s t) = (to_ubig s + to_ubig t) mod G_ORDER"
  by (simp add: add_mod_order_def)

lemma from_u64_value: "to_ubig (from_u64 n) = unat n"
proof -
  have "wf_scalar (from_u64 n)" by (simp add: wf_scalar_def from_u64_def)
  then have "to_ubig (from_u64 n) = unat (ucast n :: u32) + 4294967296 * unat (ucast (drop_bit 32 n) :: u32)"
    by (simp add: to_ubig_value) (simp add: from_u64_def)
  also have "unat (ucast n :: u32) = unat n mod 4294967296"
    by (simp add: unsigned_ucast_eq take_bit_eq_mod)
  also have "unat (ucast (drop_bit 32 n) :: u32) = unat n div 4294967296"
  proof -
    have "unat n < 2 ^ LENGTH(64)" by (rule unsigned_less)
    then have "unat n < 4294967296 * 4294967296" by simp
    then have "unat n div 4294967296 < 4294967296" by (rule less_mult_imp_div_less)
    then show ?thesis
      by (simp add: unsigned_ucast_eq take_bit_eq_mod unsigned_drop_bit_eq drop_bit_eq_div unat_div)
  qed
  finally show ?thesis by simp
qed

lemma ucast_u32_u64 [simp]: "ucast (ucast a :: u64) = a" for a :: u32
proof (rule word_uint_eqI)
  have "uint a < 4294967296" using uint_lt2p [of a] by simp
  then show "uint (ucast (ucast a :: u64) :: u32) = uint a"
    by (simp add: uint_cast mod_pos_pos_trivial)
qed

lemma from_belts_to_belts: "wf_scalar s \<Longrightarrow> from_belts (to_belts s) = s"
  by (erule wf_scalarE) (simp add: from_belts_def to_belts_def upt_8)


subsection \<open>Big-endian bytes\<close>

lemma length_to_be_bytes [simp]: "length (to_be_bytes (w :: u32)) = 4"
  by (simp add: to_be_bytes_def codec)

lemma to_be_fold:
  "k + length ls \<le> 8 \<Longrightarrow>
    fold (\<lambda>(i, limb) out. let pos = 32 - 4 * (i + 1)
                         in take pos out @ to_be_bytes limb @ drop (pos + 4) out)
      (zip [k..<k + length ls] ls) (replicate (32 - 4 * k) 0 @ rest) =
    replicate (32 - 4 * (k + length ls)) 0 @ concat (map to_be_bytes (rev ls)) @ rest"
proof (induction ls arbitrary: k rest)
  case (Cons l ls)
  have pos: "32 - 4 * (k + 1) + 4 = 32 - 4 * k" "32 - 4 * (k + 1) \<le> 32 - 4 * k"
    using Cons.prems by simp_all
  have "[k..<k + length (l # ls)] = k # [Suc k..<Suc k + length ls]"
    by (subst upt_conv_Cons) simp_all
  then show ?case
    using Cons.IH [of "Suc k" "to_be_bytes l @ rest"] Cons.prems pos by (simp add: Let_def)
qed simp

lemma scalar_to_be_bytes_concat:
  "wf_scalar s \<Longrightarrow> scalar_to_be_bytes s = concat (map to_be_bytes (rev (limbs s)))"
  using to_be_fold [of 0 "limbs s" "[]"] by (simp add: scalar_to_be_bytes_def wf_scalar_def)

lemma le_value_concat_limbs: "le_value (concat (map to_le_bytes ls)) = limbs_value ls"
  by (induction ls) (simp_all add: le_value_append codec)

lemma scalar_to_be_bytes_value:
  "wf_scalar s \<Longrightarrow> length (scalar_to_be_bytes s) = 32 \<and> le_value (rev (scalar_to_be_bytes s)) = to_ubig s"
proof -
  assume wf: "wf_scalar s"
  have "rev (concat (map to_be_bytes (rev ls))) = concat (map to_le_bytes ls)" for ls :: "u32 list"
    by (induction ls) (simp_all add: to_be_bytes_def)
  moreover have "length (concat (map to_be_bytes (ls :: u32 list))) = 4 * length ls" for ls
    by (induction ls) simp_all
  ultimately show ?thesis
    using wf by (simp add: scalar_to_be_bytes_concat le_value_concat_limbs to_ubig_value wf_scalar_def)
qed

lemma nth_quad: "[xs ! i, xs ! (i + 1), xs ! (i + 2), xs ! (i + 3)] = take 4 (drop i xs)" if "i + 4 \<le> length xs"
  using that by (auto simp: list_eq_iff_nth_eq nth_Cons' numeral_eq_Suc less_Suc_eq)

lemma scalar_be_round_trip: "wf_scalar s \<Longrightarrow> scalar_from_be_bytes (scalar_to_be_bytes s) = s"
proof -
  assume wf: "wf_scalar s"
  let ?bs = "scalar_to_be_bytes s"
  have len: "length ?bs = 32" using scalar_to_be_bytes_value wf by blast
  obtain a b c d e f g h where s: "s = Scalar [a, b, c, d, e, f, g, h]"
    using wf by (rule wf_scalarE)
  have bs: "?bs = to_be_bytes h @ to_be_bytes g @ to_be_bytes f @ to_be_bytes e
      @ to_be_bytes d @ to_be_bytes c @ to_be_bytes b @ to_be_bytes a"
    using scalar_to_be_bytes_concat [OF wf] by (simp add: s)
  have "map (\<lambda>i. let pos = 32 - 4 * (i + 1)
      in from_be_bytes [?bs ! pos, ?bs ! (pos + 1), ?bs ! (pos + 2), ?bs ! (pos + 3)]) [0..<8]
      = map (\<lambda>i. from_be_bytes (take 4 (drop (32 - 4 * (i + 1)) ?bs))) [0..<8]"
    unfolding Let_def by (rule map_cong [OF refl]) (subst nth_quad, auto simp: len)
  also have "\<dots> = [a, b, c, d, e, f, g, h]"
    unfolding upt_8 bs by (simp add: codec)
  finally show ?thesis by (simp add: scalar_from_be_bytes_def s)
qed


subsection \<open>Properties\<close>

text \<open>Eight limbs and natural numbers below \<open>2 ^ 256\<close> correspond one to one, and the order of
  scalars (compared from the top limb) is the order of their values.\<close>

theorem scalar_value_order:
  assumes "wf_scalar s" "wf_scalar t"
  shows "from_ubig (to_ubig s) = s \<and> to_ubig (from_ubig n) = n mod 2 ^ 256 \<and> (s < t \<longleftrightarrow> to_ubig s < to_ubig t)"
  using assms by (simp add: from_ubig_to_ubig to_ubig_from_ubig scalar_less_value)

theorem scalar_value_order_witness:
  "Scalar [9, 0, 0, 0, 0, 0, 0, 0] < Scalar [0, 1, 0, 0, 0, 0, 0, 0] \<longleftrightarrow>
   to_ubig (Scalar [9, 0, 0, 0, 0, 0, 0, 0]) < to_ubig (Scalar [0, 1, 0, 0, 0, 0, 0, 0])"
proof -
  have "wf_scalar (Scalar [9, 0, 0, 0, 0, 0, 0, 0])" "wf_scalar (Scalar [0, 1, 0, 0, 0, 0, 0, 0])"
    by (simp_all add: wf_scalar_def)
  from scalar_value_order [OF this] show ?thesis by blast
qed

text \<open>\<open>add_mod_order\<close> is addition modulo the group order, also when a summand or the sum exceeds it.\<close>

theorem add_mod_order_correct:
  "to_ubig (add_mod_order s t) = (to_ubig s + to_ubig t) mod G_ORDER \<and> add_mod_order s t < SCALAR_G_ORDER"
proof -
  have "wf_scalar (add_mod_order s t)" by (simp add: add_mod_order_def)
  then show ?thesis by (simp add: add_mod_order_value less_G_ORDER)
qed

text \<open>The 32 big-endian bytes of a scalar are its value in base 256, most significant byte first,
  and reading them back gives the scalar.\<close>

theorem scalar_bytes_round_trip:
  assumes "wf_scalar s"
  shows "length (scalar_to_be_bytes s) = 32 \<and> le_value (rev (scalar_to_be_bytes s)) = to_ubig s \<and>
    scalar_from_be_bytes (scalar_to_be_bytes s) = s"
  using scalar_to_be_bytes_value [OF assms] scalar_be_round_trip [OF assms] by simp

theorem scalar_bytes_round_trip_witness:
  "scalar_from_be_bytes (scalar_to_be_bytes SCALAR_G_ORDER) = SCALAR_G_ORDER"
  using scalar_bytes_round_trip [OF wf_SCALAR_G_ORDER] by blast

end
