(* ===== verification/Tip5.thy ===== *)
theory Tip5
  imports Belt
begin

text \<open>
  The Tip5 permutation and sponge of \<^verbatim>\<open>crates/vesl-signing/src/math/tip5.rs\<close>.  The 16-limb state is a
  list of words; tables are the source's.  \<open>hash_varlen\<close> returns the digest; the panic of
  \<open>split_at\<close>/\<open>assert_eq!\<close> is \<open>None\<close>, and is proved unreachable.
\<close>

subsection \<open>Constants\<close>

definition DIGEST_LENGTH :: nat where "DIGEST_LENGTH = 5"
definition STATE_SIZE :: nat where "STATE_SIZE = 16"
definition NUM_SPLIT_AND_LOOKUP :: nat where "NUM_SPLIT_AND_LOOKUP = 4"
definition RATE :: nat where "RATE = 10"
definition NUM_ROUNDS :: nat where "NUM_ROUNDS = 7"

definition R_128 :: u128 where
  "R_128 = 18446744073709551616"

definition LOOKUP_TABLE :: "u8 list" where
  "LOOKUP_TABLE = [
     0, 7, 26, 63, 124, 215, 85, 254, 214, 228, 45, 185, 140, 173, 33, 240, 29, 177, 176, 32,
     8, 110, 87, 202, 204, 99, 150, 106, 230, 14, 235, 128, 213, 239, 212, 138, 23, 130, 208,
     6, 44, 71, 93, 116, 146, 189, 251, 81, 199, 97, 38, 28, 73, 179, 95, 84, 152, 48, 35, 119,
     49, 88, 242, 3, 148, 169, 72, 120, 62, 161, 166, 83, 175, 191, 137, 19, 100, 129, 112, 55,
     221, 102, 218, 61, 151, 237, 68, 164, 17, 147, 46, 234, 203, 216, 22, 141, 65, 57, 123,
     12, 244, 54, 219, 231, 96, 77, 180, 154, 5, 253, 133, 165, 98, 195, 205, 134, 245, 30, 9,
     188, 59, 142, 186, 197, 181, 144, 92, 31, 224, 163, 111, 74, 58, 69, 113, 196, 67, 246,
     225, 10, 121, 50, 60, 157, 90, 122, 2, 250, 101, 75, 178, 159, 24, 36, 201, 11, 243, 132,
     198, 190, 114, 233, 39, 52, 21, 209, 108, 238, 91, 187, 18, 104, 194, 37, 153, 34, 200,
     143, 126, 155, 236, 118, 64, 80, 172, 89, 94, 193, 135, 183, 86, 107, 252, 13, 167, 206,
     136, 220, 207, 103, 171, 160, 76, 182, 227, 217, 158, 56, 174, 4, 66, 109, 139, 162, 184,
     211, 249, 47, 125, 232, 117, 43, 16, 42, 127, 20, 241, 25, 149, 105, 156, 51, 53, 168,
     145, 247, 223, 79, 78, 226, 15, 222, 82, 115, 70, 210, 27, 41, 1, 170, 40, 131, 192, 229,
     248, 255]"

definition ROUND_CONSTANTS :: "u64 list" where
  "ROUND_CONSTANTS = [
     1332676891236936200, 16607633045354064669, 12746538998793080786, 15240351333789289931,
     10333439796058208418, 986873372968378050, 153505017314310505, 703086547770691416,
     8522628845961587962, 1727254290898686320, 199492491401196126, 2969174933639985366,
     1607536590362293391, 16971515075282501568, 15401316942841283351, 14178982151025681389,
     2916963588744282587, 5474267501391258599, 5350367839445462659, 7436373192934779388,
     12563531800071493891, 12265318129758141428, 6524649031155262053, 1388069597090660214,
     3049665785814990091, 5225141380721656276, 10399487208361035835, 6576713996114457203,
     12913805829885867278, 10299910245954679423, 12980779960345402499, 593670858850716490,
     12184128243723146967, 1315341360419235257, 9107195871057030023, 4354141752578294067,
     8824457881527486794, 14811586928506712910, 7768837314956434138, 2807636171572954860,
     9487703495117094125, 13452575580428891895, 14689488045617615844, 16144091782672017853,
     15471922440568867245, 17295382518415944107, 15054306047726632486, 5708955503115886019,
     9596017237020520842, 16520851172964236909, 8513472793890943175, 8503326067026609602,
     9402483918549940854, 8614816312698982446, 7744830563717871780, 14419404818700162041,
     8090742384565069824, 15547662568163517559, 17314710073626307254, 10008393716631058961,
     14480243402290327574, 13569194973291808551, 10573516815088946209, 15120483436559336219,
     3515151310595301563, 1095382462248757907, 5323307938514209350, 14204542692543834582,
     12448773944668684656, 13967843398310696452, 14838288394107326806, 13718313940616442191,
     15032565440414177483, 13769903572116157488, 17074377440395071208, 16931086385239297738,
     8723550055169003617, 590842605971518043, 16642348030861036090, 10708719298241282592,
     12766914315707517909, 11780889552403245587, 113183285481780712, 9019899125655375514,
     3300264967390964820, 12802381622653377935, 891063765000023873, 15939045541699412539,
     3240223189948727743, 4087221142360949772, 10980466041788253952, 18199914337033135244,
     7168108392363190150, 16860278046098150740, 13088202265571714855, 4712275036097525581,
     16338034078141228133, 1455012125527134274, 5024057780895012002, 9289161311673217186,
     9401110072402537104, 11919498251456187748, 4173156070774045271, 15647643457869530627,
     15642078237964257476, 1405048341078324037, 3059193199283698832, 1605012781983592984,
     7134876918849821827, 5796994175286958720, 7251651436095127661, 4565856221886323991]"

definition MDS_MATRIX :: "u64 list list" where
  "MDS_MATRIX = [
     [61402, 17845, 26798, 59689, 12021, 40901, 41351, 27521, 56951, 12034, 53865, 43244, 7454, 33823, 28750, 1108],
     [1108, 61402, 17845, 26798, 59689, 12021, 40901, 41351, 27521, 56951, 12034, 53865, 43244, 7454, 33823, 28750],
     [28750, 1108, 61402, 17845, 26798, 59689, 12021, 40901, 41351, 27521, 56951, 12034, 53865, 43244, 7454, 33823],
     [33823, 28750, 1108, 61402, 17845, 26798, 59689, 12021, 40901, 41351, 27521, 56951, 12034, 53865, 43244, 7454],
     [7454, 33823, 28750, 1108, 61402, 17845, 26798, 59689, 12021, 40901, 41351, 27521, 56951, 12034, 53865, 43244],
     [43244, 7454, 33823, 28750, 1108, 61402, 17845, 26798, 59689, 12021, 40901, 41351, 27521, 56951, 12034, 53865],
     [53865, 43244, 7454, 33823, 28750, 1108, 61402, 17845, 26798, 59689, 12021, 40901, 41351, 27521, 56951, 12034],
     [12034, 53865, 43244, 7454, 33823, 28750, 1108, 61402, 17845, 26798, 59689, 12021, 40901, 41351, 27521, 56951],
     [56951, 12034, 53865, 43244, 7454, 33823, 28750, 1108, 61402, 17845, 26798, 59689, 12021, 40901, 41351, 27521],
     [27521, 56951, 12034, 53865, 43244, 7454, 33823, 28750, 1108, 61402, 17845, 26798, 59689, 12021, 40901, 41351],
     [41351, 27521, 56951, 12034, 53865, 43244, 7454, 33823, 28750, 1108, 61402, 17845, 26798, 59689, 12021, 40901],
     [40901, 41351, 27521, 56951, 12034, 53865, 43244, 7454, 33823, 28750, 1108, 61402, 17845, 26798, 59689, 12021],
     [12021, 40901, 41351, 27521, 56951, 12034, 53865, 43244, 7454, 33823, 28750, 1108, 61402, 17845, 26798, 59689],
     [59689, 12021, 40901, 41351, 27521, 56951, 12034, 53865, 43244, 7454, 33823, 28750, 1108, 61402, 17845, 26798],
     [26798, 59689, 12021, 40901, 41351, 27521, 56951, 12034, 53865, 43244, 7454, 33823, 28750, 1108, 61402, 17845],
     [17845, 26798, 59689, 12021, 40901, 41351, 27521, 56951, 12034, 53865, 43244, 7454, 33823, 28750, 1108, 61402]]"

lemmas tip5_sizes = DIGEST_LENGTH_def STATE_SIZE_def NUM_SPLIT_AND_LOOKUP_def RATE_def NUM_ROUNDS_def


subsection \<open>The permutation\<close>

definition lookup_word :: "u64 \<Rightarrow> u64" where
  "lookup_word w = from_le_bytes (map (\<lambda>b. LOOKUP_TABLE ! unat b) (to_le_bytes w))"

definition sbox_layer :: "u64 list \<Rightarrow> u64 list" where
  "sbox_layer state =
     map (\<lambda>i. lookup_word (state ! i)) [0..<NUM_SPLIT_AND_LOOKUP]
     @ map (\<lambda>j. bpow (state ! j) 7) [NUM_SPLIT_AND_LOOKUP..<STATE_SIZE]"

definition linear_row :: "u64 list \<Rightarrow> nat \<Rightarrow> u64" where
  "linear_row state i =
     fold (\<lambda>j acc. badd acc (bmul (MDS_MATRIX ! i ! j) (state ! j))) [0..<STATE_SIZE] 0"

definition linear_layer :: "u64 list \<Rightarrow> u64 list" where
  "linear_layer state = map (linear_row state) [0..<STATE_SIZE]"

definition round_constant :: "nat \<Rightarrow> nat \<Rightarrow> u64" where
  "round_constant i j =
     ucast ((ucast (ROUND_CONSTANTS ! (i * STATE_SIZE + j)) * R_128) mod PRIME_128)"

definition tip5_round :: "nat \<Rightarrow> u64 list \<Rightarrow> u64 list" where
  "tip5_round i sponge =
     (let b = linear_layer (sbox_layer sponge)
      in map (\<lambda>j. badd (round_constant i j) (b ! j)) [0..<STATE_SIZE])"

definition permute :: "u64 list \<Rightarrow> u64 list" where
  "permute sponge = fold tip5_round [0..<NUM_ROUNDS] sponge"


subsection \<open>The sponge\<close>

definition calc_q_r :: "u64 list \<Rightarrow> nat \<times> nat" where
  "calc_q_r input = (length input div RATE, length input mod RATE)"

definition pad :: "u64 list \<Rightarrow> nat \<Rightarrow> u64 list" where
  "pad input r = input @ [1] @ replicate (RATE - r - 1) 0"

definition montify_vec :: "u64 list \<Rightarrow> u64 list" where
  "montify_vec input = map montify input"

definition absorb_rate :: "u64 list \<Rightarrow> u64 list \<Rightarrow> u64 list option" where
  "absorb_rate sponge input =
     (if length input = RATE then Some (permute (input @ drop RATE sponge)) else None)"

fun absorb_all :: "u64 list \<Rightarrow> u64 list \<Rightarrow> nat \<Rightarrow> u64 list option" where
  "absorb_all cursor sponge remaining =
     (if length cursor < RATE then None
      else case absorb_rate sponge (take RATE cursor) of
             None \<Rightarrow> None
           | Some sponge \<Rightarrow>
               (case remaining of 0 \<Rightarrow> Some sponge
                | Suc remaining \<Rightarrow> absorb_all (drop RATE cursor) sponge remaining))"

definition calc_digest :: "u64 list \<Rightarrow> u64 list" where
  "calc_digest sponge = map (\<lambda>i. mont_reduction (ucast (sponge ! i))) [0..<DIGEST_LENGTH]"

definition normalize_belts :: "u64 list \<Rightarrow> u64 list" where
  "normalize_belts input = map (\<lambda>b. if PRIME \<le> b then b mod PRIME else b) input"

definition hash_varlen :: "u64 list \<Rightarrow> u64 list option" where
  "hash_varlen input =
     (let input = normalize_belts input;
          (q, r) = calc_q_r input;
          input = montify_vec (pad input r)
      in map_option calc_digest (absorb_all input (replicate STATE_SIZE 0) q))"


subsection \<open>The lookup table\<close>

text \<open>
  The table is the cube map \<open>x \<mapsto> (x + 1) ^ 3 - 1\<close> on \<open>GF(257)\<close> restricted to bytes; its inverse is the
  171st power, because \<open>3 * 171 = 1\<close> modulo 256.
\<close>

definition cube_byte :: "int \<Rightarrow> int" where
  "cube_byte x = ((x + 1) * (x + 1) * (x + 1) + 256) mod 257"

primrec pow257 :: "bool list \<Rightarrow> int \<Rightarrow> int \<Rightarrow> int" where
  "pow257 [] y acc = acc"
| "pow257 (b # bs) y acc = pow257 bs y (if b then acc * acc * y mod 257 else acc * acc mod 257)"

definition cube_root_byte :: "int \<Rightarrow> int" where
  "cube_root_byte y =
     (pow257 [True, False, True, False, True, False, True, True] (y + 1) 1 + 256) mod 257"

fun cube_table :: "int \<Rightarrow> u8 list \<Rightarrow> bool" where
  "cube_table i [] = True"
| "cube_table i (t # ts) =
     (if uint t = cube_byte i then
        if cube_root_byte (cube_byte i) = i then cube_table (i + 1) ts else False
      else False)"

lemma cube_table_nth:
  "cube_table i ts \<Longrightarrow> k < length ts \<Longrightarrow>
    uint (ts ! k) = cube_byte (i + int k) \<and> cube_root_byte (cube_byte (i + int k)) = i + int k"
proof (induction i ts arbitrary: k rule: cube_table.induct)
  case (2 i t ts)
  then show ?case by (cases k) (auto split: if_splits simp: algebra_simps)
qed simp

lemma LOOKUP_TABLE_cube: "cube_table 0 LOOKUP_TABLE"
  by code_simp

lemma length_LOOKUP_TABLE: "length LOOKUP_TABLE = 256"
  by (simp add: LOOKUP_TABLE_def)

definition lookup_byte :: "u8 \<Rightarrow> u8" where
  "lookup_byte b = LOOKUP_TABLE ! unat b"

lemma lookup_byte_cube: "uint (lookup_byte b) = cube_byte (uint b) \<and> cube_root_byte (uint (lookup_byte b)) = uint b"
  using cube_table_nth [OF LOOKUP_TABLE_cube, of "unat b"] unat_u8_bound [of b]
  by (simp add: lookup_byte_def length_LOOKUP_TABLE)

lemma lookup_byte_inject [simp]: "lookup_byte a = lookup_byte b \<longleftrightarrow> a = b"
  using lookup_byte_cube [of a] lookup_byte_cube [of b] by (metis word_uint_eqI)

lemma lookup_byte_0 [simp]: "lookup_byte 0 = 0"
  by (simp add: lookup_byte_def LOOKUP_TABLE_def)

lemma lookup_byte_255 [simp]: "lookup_byte 255 = 255"
proof -
  have "uint (lookup_byte 255) = 255"
    using lookup_byte_cube [of 255] by (simp add: cube_byte_def)
  then show ?thesis by (metis uint_word_of_int_eq word_of_int_uint word_of_int_numeral)
qed

lemma lookup_byte_eq_0_iff [simp]: "lookup_byte b = 0 \<longleftrightarrow> b = 0"
  using lookup_byte_inject [of b 0] by simp

lemma lookup_byte_eq_255_iff [simp]: "lookup_byte b = 255 \<longleftrightarrow> b = 255"
  using lookup_byte_inject [of b 255] by simp


subsection \<open>The S-box keeps canonical form and is injective\<close>

lemma length8E:
  assumes "length xs = 8"
  obtains a b c d e f g h where "xs = [a, b, c, d, e, f, g, h]"
  using assms by (auto simp: numeral_eq_Suc length_Suc_conv)

text \<open>
  A word is canonical when its four high bytes are not all 255, or its four low bytes are all 0.
\<close>

lemma le_value_canonical:
  "int (le_value [a, b, c, d, e, f, g, h]) < P \<longleftrightarrow>
    \<not> (e = 255 \<and> f = 255 \<and> g = 255 \<and> h = 255) \<or> (a = 0 \<and> b = 0 \<and> c = 0 \<and> d = 0)"
proof -
  have m: "x = 255 \<longleftrightarrow> unat x = 255" "x = 0 \<longleftrightarrow> unat x = 0" for x :: u8
    by (simp_all add: word_unat_eq_iff)
  note bounds = unat_u8_bound [of a] unat_u8_bound [of b] unat_u8_bound [of c] unat_u8_bound [of d]
    unat_u8_bound [of e] unat_u8_bound [of f] unat_u8_bound [of g] unat_u8_bound [of h]
  define H where "H = unat e + 256 * unat f + 65536 * unat g + 16777216 * unat h"
  define L where "L = unat a + 256 * unat b + 65536 * unat c + 16777216 * unat d"
  have "le_value [a, b, c, d, e, f, g, h] = L + 4294967296 * H"
    by (simp add: H_def L_def)
  moreover have "L < 4294967296" "H < 4294967296"
    using bounds unfolding H_def L_def by linarith+
  moreover have "H = 4294967295 \<longleftrightarrow> unat e = 255 \<and> unat f = 255 \<and> unat g = 255 \<and> unat h = 255"
    using bounds unfolding H_def by (intro iffI conjI; (elim conjE)?; linarith)
  moreover have "L = 0 \<longleftrightarrow> unat a = 0 \<and> unat b = 0 \<and> unat c = 0 \<and> unat d = 0"
    by (simp add: L_def)
  ultimately have "int (le_value [a, b, c, d, e, f, g, h]) < P \<longleftrightarrow> H \<noteq> 4294967295 \<or> L = 0"
    by linarith
  with \<open>H = _ \<longleftrightarrow> _\<close> \<open>L = 0 \<longleftrightarrow> _\<close> show ?thesis unfolding m by blast
qed

lemma lookup_word_bytes: "to_le_bytes (lookup_word w) = map lookup_byte (to_le_bytes w)"
  by (simp add: lookup_word_def lookup_byte_def [abs_def] codec)

lemma uint_le_value: "uint w = int (le_value (to_le_bytes w))" for w :: u64
  by (simp add: codec)

lemma based_lookup_word [belt_hom]: "based (lookup_word w) \<longleftrightarrow> based w"
proof -
  obtain a b c d e f g h where w: "to_le_bytes w = [a, b, c, d, e, f, g, h]"
    by (rule length8E [of "to_le_bytes w"]) (simp add: codec)
  show ?thesis
    by (simp only: uint_le_value lookup_word_bytes w list.map le_value_canonical
        lookup_byte_eq_0_iff lookup_byte_eq_255_iff)
qed

lemma lookup_word_inject: "lookup_word v = lookup_word w \<longleftrightarrow> v = w"
proof
  assume "lookup_word v = lookup_word w"
  then have "map lookup_byte (to_le_bytes v) = map lookup_byte (to_le_bytes w)"
    by (simp flip: lookup_word_bytes)
  then have "to_le_bytes v = to_le_bytes w"
    by (auto simp: list_eq_iff_nth_eq)
  then have "from_le_bytes (to_le_bytes v) = (from_le_bytes (to_le_bytes w) :: u64)" by simp
  then show "v = w" by (simp add: codec)
qed simp

text \<open>
  The other twelve limbs go through the 7th power, which is a bijection of the field: 7 is prime to
  \<open>P - 1\<close>, with \<open>7 * 10540996611094048183 = 4 * (P - 1) + 1\<close>.
\<close>

lemma pow7_root: "(x ^ 7) ^ 10540996611094048183 = x" for x :: fp
proof (cases "x = 0")
  case False
  have "(x ^ 7) ^ 10540996611094048183 = x ^ Suc (4 * group_order)"
    by (simp only: power_mult [symmetric] group_order_eq) (rule arg_cong [where f = "\<lambda>n. x ^ n"], simp)
  also have "\<dots> = x * (x ^ group_order) ^ 4"
    by (simp only: power_Suc power_mult [symmetric] mult.commute)
  finally show ?thesis using fermat_fp [OF False] by simp
qed simp

lemma pow7_inject: "x ^ 7 = y ^ 7 \<longleftrightarrow> x = y" for x y :: fp
  by (metis pow7_root)

lemma unat_7: "unat (7 :: u64) = 7"
  by simp

lemma length_sbox_layer [simp]: "length (sbox_layer s) = 16"
  by (simp add: sbox_layer_def tip5_sizes)

lemma sbox_layer_nth:
  "i < 16 \<Longrightarrow> sbox_layer s ! i = (if i < 4 then lookup_word (s ! i) else bpow (s ! i) 7)"
  by (auto simp: sbox_layer_def tip5_sizes nth_append simp del: upt_rec_numeral)

lemma based_sbox_layer:
  "i < 16 \<Longrightarrow> based (s ! i) \<Longrightarrow> based (sbox_layer s ! i)"
  by (simp add: sbox_layer_nth belt_hom)

lemma sbox_layer_inject:
  assumes "length s = 16" "length t = 16" "\<forall>w\<in>set s \<union> set t. based w"
    and "sbox_layer s = sbox_layer t"
  shows "s = t"
proof (rule nth_equalityI)
  fix i assume i: "i < length s"
  with assms have eq: "sbox_layer s ! i = sbox_layer t ! i" and b: "based (s ! i)" "based (t ! i)"
    by simp_all
  show "s ! i = t ! i"
  proof (cases "i < 4")
    case True
    with eq i assms(1) show ?thesis by (simp add: sbox_layer_nth lookup_word_inject)
  next
    case False
    with eq i assms(1) have "bpow (s ! i) 7 = bpow (t ! i) 7" by (simp add: sbox_layer_nth)
    then have "fp_of (s ! i) ^ 7 = fp_of (t ! i) ^ 7"
      using fp_of_bpow [of _ 7] by (metis unat_7)
    then show ?thesis using b by (simp add: pow7_inject fp_of_inject)
  qed
qed (use assms in simp)


subsection \<open>The linear layer is the matrix product\<close>

definition row_sum :: "nat \<Rightarrow> u64 list \<Rightarrow> nat list \<Rightarrow> fp" where
  "row_sum i s js = (\<Sum>j\<leftarrow>js. fp_of (MDS_MATRIX ! i ! j) * fp_of (s ! j))"

lemma linear_row_fold:
  "based acc \<Longrightarrow>
    based (fold (\<lambda>j acc. badd acc (bmul (MDS_MATRIX ! i ! j) (s ! j))) js acc) \<and>
    fp_of (fold (\<lambda>j acc. badd acc (bmul (MDS_MATRIX ! i ! j) (s ! j))) js acc) = fp_of acc + row_sum i s js"
  by (induction js arbitrary: acc) (simp_all add: row_sum_def belt_hom)

lemma based_linear_row [belt_hom]: "based (linear_row s i)"
  and fp_of_linear_row: "fp_of (linear_row s i) = row_sum i s [0..<16]"
  using linear_row_fold [of 0 i s "[0..<16]"] by (simp_all add: linear_row_def tip5_sizes)

lemma length_linear_layer [simp]: "length (linear_layer s) = 16"
  by (simp add: linear_layer_def tip5_sizes)

lemma linear_layer_nth: "i < 16 \<Longrightarrow> linear_layer s ! i = linear_row s i"
  by (simp add: linear_layer_def tip5_sizes)


subsection \<open>The permutation keeps canonical form\<close>

definition canonical_state :: "u64 list \<Rightarrow> bool" where
  "canonical_state s \<longleftrightarrow> length s = 16 \<and> (\<forall>w\<in>set s. based w)"

lemma based_round_constant [belt_hom]: "based (round_constant i j)"
proof -
  have "uint (PRIME_128) = P" by (simp add: PRIME_128_def uint_cast)
  then have lt: "uint (x mod PRIME_128) < P" for x
    by (simp add: uint_mod)
  then have "uint (round_constant i j) = uint ((ucast (ROUND_CONSTANTS ! (i * STATE_SIZE + j)) * R_128) mod PRIME_128)"
    unfolding round_constant_def uint_cast
    by (intro mod_pos_pos_trivial unsigned_greater_eq order_less_trans [OF lt]) simp
  with lt show ?thesis by simp
qed

lemma canonical_tip5_round: "canonical_state (tip5_round i s)"
  by (auto simp: canonical_state_def tip5_round_def Let_def tip5_sizes linear_layer_nth belt_hom
      simp del: upt_rec_numeral)

lemma canonical_permute: "canonical_state (permute s)"
proof -
  have "permute s = tip5_round 6 (fold tip5_round [0..<6] s)"
    by (simp add: permute_def tip5_sizes eval_nat_numeral)
  then show ?thesis by (simp add: canonical_tip5_round)
qed


subsection \<open>The sponge never panics and absorbs the whole padded message\<close>

text \<open>
  Reference sponge: fold the permutation over the 10-limb blocks, each overwriting the rate part.
\<close>

definition absorb_block :: "u64 list \<Rightarrow> u64 list \<Rightarrow> u64 list" where
  "absorb_block sponge block = permute (block @ drop 10 sponge)"

definition sponge_input :: "u64 list \<Rightarrow> u64 list" where
  "sponge_input xs = montify_vec (pad (normalize_belts xs) (length xs mod 10))"

definition sponge_digest :: "u64 list \<Rightarrow> u64 list" where
  "sponge_digest xs = calc_digest (foldl absorb_block (replicate 16 0) (chunks 10 (sponge_input xs)))"

declare absorb_all.simps [simp del]

lemma absorb_all_chunks:
  "length input = 10 * Suc q \<Longrightarrow> absorb_all input s q = Some (foldl absorb_block s (chunks 10 input))"
proof (induction q arbitrary: input s)
  case 0
  then have "chunks 10 input = [input]" by (subst chunks_step) auto
  with 0 show ?case
    by (simp add: absorb_all.simps absorb_rate_def absorb_block_def tip5_sizes)
next
  case (Suc q)
  then have "chunks 10 input = take 10 input # chunks 10 (drop 10 input)"
    by (intro chunks_step) auto
  with Suc show ?case
    by (subst absorb_all.simps) (simp add: absorb_rate_def tip5_sizes flip: absorb_block_def)
qed

lemma length_normalize_belts [simp]: "length (normalize_belts xs) = length xs"
  by (simp add: normalize_belts_def)

lemma padded_length: "r < 10 \<Longrightarrow> n = 10 * q + r \<Longrightarrow> n + 1 + (10 - r - 1) = 10 * Suc q" for n q r :: nat
  by simp

lemma length_sponge_input: "length (sponge_input xs) = 10 * Suc (length xs div 10)"
proof -
  have "length xs mod 10 < 10" by simp
  moreover have "length xs = 10 * (length xs div 10) + length xs mod 10" by simp
  ultimately have "length xs + 1 + (10 - length xs mod 10 - 1) = 10 * Suc (length xs div 10)"
    by (rule padded_length)
  then show ?thesis
    by (simp only: sponge_input_def montify_vec_def pad_def RATE_def length_map length_append
        length_replicate length_normalize_belts list.size add_0 One_nat_def add.assoc)
qed

lemma hash_varlen_sponge: "hash_varlen xs = Some (sponge_digest xs)"
proof -
  have "absorb_all (sponge_input xs) (replicate 16 0) (length xs div 10) =
      Some (foldl absorb_block (replicate 16 0) (chunks 10 (sponge_input xs)))"
    by (rule absorb_all_chunks [OF length_sponge_input])
  then show ?thesis
    by (simp add: hash_varlen_def calc_q_r_def sponge_digest_def sponge_input_def tip5_sizes)
qed

lemma canonical_foldl_absorb:
  "canonical_state s \<or> bs \<noteq> [] \<Longrightarrow> canonical_state (foldl absorb_block s bs)"
  by (induction bs arbitrary: s) (simp_all add: absorb_block_def canonical_permute)

lemma uint_ucast_128: "uint (ucast m :: u128) = uint m" for m :: u64
  using uint_u64_bound [of m] by (simp add: uint_cast mod_pos_pos_trivial)

lemma ucast_lt_RP: "ucast m < RP" for m :: u64
  using uint_u64_bound [of m] by (simp add: word_less_def uint_ucast_128)

lemma based_calc_digest: "length (calc_digest s) = 5 \<and> (\<forall>w\<in>set (calc_digest s). based w)"
  by (auto simp: calc_digest_def tip5_sizes intro!: based_mont_reduction ucast_lt_RP simp del: upt_rec_numeral)

lemma sponge_digest_canonical: "length (sponge_digest xs) = 5 \<and> (\<forall>w\<in>set (sponge_digest xs). based w)"
  unfolding sponge_digest_def by (rule based_calc_digest)


subsection \<open>Normalization and padding\<close>

lemma uint_normalize: "uint (if PRIME \<le> b then b mod PRIME else b) = uint b mod P"
  using uint_u64_bound [of b]
  by (auto simp: uint_mod word_le_def mod_pos_pos_trivial)

lemma normalize_belts_based: "\<forall>w\<in>set (normalize_belts xs). based w"
  unfolding normalize_belts_def set_map ball_simps uint_normalize by simp

lemma normalize_belts_id: "\<forall>w\<in>set xs. based w \<Longrightarrow> normalize_belts xs = xs"
  unfolding normalize_belts_def by (rule map_idI) (auto simp: word_le_def)

lemma normalize_belts_cong:
  "map (\<lambda>w. uint w mod P) xs = map (\<lambda>w. uint w mod P) ys \<Longrightarrow> normalize_belts xs = normalize_belts ys"
  unfolding normalize_belts_def
  by (auto simp: list_eq_iff_nth_eq word_uint_eq_iff uint_normalize simp del: word_eq_iff_unsigned)

lemma dropWhile_replicate_append:
  "dropWhile (\<lambda>w. w = 0) (replicate n (0 :: 'a::zero) @ ys) = dropWhile (\<lambda>w. w = 0) ys"
  by (induction n) simp_all

lemma pad_inject:
  assumes "pad xs r = pad ys r'"
  shows "xs = ys"
proof -
  have drop: "dropWhile (\<lambda>w. w = 0) (rev (pad zs r)) = 1 # rev zs" for zs r
    by (simp add: pad_def dropWhile_replicate_append)
  from assms have "dropWhile (\<lambda>w. w = 0) (rev (pad xs r)) = dropWhile (\<lambda>w. w = 0) (rev (pad ys r'))"
    by (simp only:)
  then have "1 # rev xs = 1 # rev ys" by (simp only: drop)
  then show ?thesis by simp
qed

lemma fp_of_montify: "fp_of (montify a) = fp_of a * mont_R"
proof -
  have "mont_val (montify a) = fp_of a" by (rule mont_val_montify)
  then show ?thesis by (simp add: mont_val_def field_simps)
qed

lemma montify_inject: "based a \<Longrightarrow> based b \<Longrightarrow> montify a = montify b \<longleftrightarrow> a = b"
proof
  assume b: "based a" "based b" and "montify a = montify b"
  then have "fp_of a * mont_R = fp_of b * mont_R"
    by (simp flip: fp_of_montify)
  with b show "a = b" by (simp add: fp_of_inject)
qed simp

lemma pad_based: "\<forall>w\<in>set xs. based w \<Longrightarrow> \<forall>w\<in>set (pad xs r). based w"
  by (auto simp: pad_def)

lemma map_montify_inject:
  "\<forall>w\<in>set xs. based w \<Longrightarrow> \<forall>w\<in>set ys. based w \<Longrightarrow> map montify xs = map montify ys \<Longrightarrow> xs = ys"
  by (erule map_inj_on) (auto simp: inj_on_def montify_inject)

lemma sponge_input_inject:
  assumes "sponge_input xs = sponge_input ys"
  shows "normalize_belts xs = normalize_belts ys"
proof -
  have "pad (normalize_belts xs) (length xs mod 10) = pad (normalize_belts ys) (length ys mod 10)"
    using assms unfolding sponge_input_def montify_vec_def
    by (rule map_montify_inject [OF pad_based [OF normalize_belts_based] pad_based [OF normalize_belts_based]])
  then show ?thesis by (rule pad_inject)
qed


subsection \<open>Properties\<close>

text \<open>C36: the variable-length hash never panics, equals the reference sponge (pad, absorb block after
  block, squeeze), and gives five canonical field elements, on every input.\<close>

theorem hash_varlen_reference:
  "\<exists>d. hash_varlen xs = Some d \<and> d = sponge_digest xs \<and> length d = 5 \<and> (\<forall>w\<in>set d. based w)"
  using hash_varlen_sponge sponge_digest_canonical by simp

theorem hash_varlen_reference_witness:
  "\<exists>d. hash_varlen [1, 18446744073709551615] = Some d \<and> length d = 5 \<and> (\<forall>w\<in>set d. based w)"
  using hash_varlen_reference [of "[1, 18446744073709551615]"] by blast

text \<open>Padding and Montgomery form lose nothing: two inputs are absorbed as the same blocks exactly
  when they are equal word by word modulo the prime.\<close>

theorem sponge_input_injective:
  "sponge_input xs = sponge_input ys \<longleftrightarrow> map (\<lambda>w. uint w mod P) xs = map (\<lambda>w. uint w mod P) ys"
proof
  assume "sponge_input xs = sponge_input ys"
  then have "normalize_belts xs = normalize_belts ys" by (rule sponge_input_inject)
  then have "map uint (normalize_belts xs) = map uint (normalize_belts ys)" by simp
  then show "map (\<lambda>w. uint w mod P) xs = map (\<lambda>w. uint w mod P) ys"
    by (simp add: normalize_belts_def comp_def uint_normalize cong: if_cong)
next
  assume eq: "map (\<lambda>w. uint w mod P) xs = map (\<lambda>w. uint w mod P) ys"
  then have "length xs = length ys" by (metis length_map)
  with normalize_belts_cong [OF eq] show "sponge_input xs = sponge_input ys"
    by (simp add: sponge_input_def)
qed

text \<open>The S-box layer (byte table on four words, seventh power on twelve) is injective on canonical
  states and keeps them canonical.\<close>

theorem sbox_layer_permutes:
  assumes "canonical_state s" "canonical_state t"
  shows "canonical_state (sbox_layer s) \<and> (sbox_layer s = sbox_layer t \<longleftrightarrow> s = t)"
proof -
  have st: "length s = 16" "length t = 16" "\<forall>w\<in>set s \<union> set t. based w"
    using assms by (auto simp: canonical_state_def)
  then have "canonical_state (sbox_layer s)"
    using based_sbox_layer [of _ s] by (simp add: canonical_state_def all_set_conv_all_nth)
  with sbox_layer_inject [OF st] show ?thesis by blast
qed

theorem sbox_layer_permutes_witness:
  "canonical_state (sbox_layer (replicate 16 3)) \<and> sbox_layer (replicate 16 3) \<noteq> sbox_layer (replicate 16 4)"
proof -
  have "canonical_state (replicate 16 3)" "canonical_state (replicate 16 4)"
    by (simp_all add: canonical_state_def)
  from sbox_layer_permutes [OF this] show ?thesis by simp
qed

end
