(* ===== verification/Domain.thy ===== *)
theory Domain
  imports Tip5
begin

text \<open>
  Domain-separated hashing, \<^verbatim>\<open>crates/vesl-signing/src/domain.rs\<close>: the reserved separators, the packing
  of bytes into field elements and \<open>tip5_with_domain\<close>.  The lemmas show that two reserved separators
  never produce the same sponge input, and exactly when two messages do.
\<close>

subsection \<open>Reserved separators\<close>

definition X402 :: ustr where "X402 = lit ''x402-nockchain-v2''"
definition SIWN :: ustr where "SIWN = lit ''siwn-v1''"
definition VESL_INTENT :: ustr where "VESL_INTENT = lit ''vesl-intent-v1''"
definition VESL_RECEIPT :: ustr where "VESL_RECEIPT = lit ''vesl-receipt-v1''"
definition VESL_AUTHORITY :: ustr where "VESL_AUTHORITY = lit ''vesl-authority-v1''"
definition VESL_HD :: ustr where "VESL_HD = lit ''vesl-hd-v1''"

definition ALL_SEPARATORS :: "ustr list" where
  "ALL_SEPARATORS = [X402, SIWN, VESL_INTENT, VESL_RECEIPT, VESL_AUTHORITY, VESL_HD]"

definition is_reserved :: "ustr \<Rightarrow> bool" where
  "is_reserved s = List.member ALL_SEPARATORS s"

lemmas separators = X402_def SIWN_def VESL_INTENT_def VESL_RECEIPT_def VESL_AUTHORITY_def VESL_HD_def


subsection \<open>Packing and hashing\<close>

definition pack_chunk :: "bytes \<Rightarrow> u64" where
  "pack_chunk chunk = from_le_bytes (chunk @ replicate (8 - length chunk) 0)"

definition bytes_to_belts :: "bytes \<Rightarrow> u64 list" where
  "bytes_to_belts bs =
     map pack_chunk (chunks 7 bs) @ (if length bs mod 7 = 0 then [0] else [])"

definition domain_input :: "ustr \<Rightarrow> bytes \<Rightarrow> u64 list" where
  "domain_input domain bs = bytes_to_belts (utf8 domain) @ bytes_to_belts bs"

definition tip5_with_domain :: "ustr \<Rightarrow> bytes \<Rightarrow> u64 list option" where
  "tip5_with_domain domain bs = hash_varlen (domain_input domain bs)"


subsection \<open>Packing\<close>

lemma to_le_bytes_concat_inject:
  "length xs = length ys \<Longrightarrow> concat (map to_le_bytes xs) = concat (map to_le_bytes ys) \<longleftrightarrow> xs = (ys :: u64 list)"
proof (induction xs ys rule: list_induct2)
  case (Cons x xs y ys)
  have "from_le_bytes (to_le_bytes z) = z" for z :: u64 by (simp add: codec)
  then have "to_le_bytes x = to_le_bytes y \<longleftrightarrow> x = y" by metis
  with Cons show ?case by (simp add: append_eq_append_conv codec)
qed simp

lemma to_le_bytes_pack_chunk:
  "length c \<le> 7 \<Longrightarrow> to_le_bytes (pack_chunk c) = c @ replicate (8 - length c) 0"
  unfolding pack_chunk_def by (rule to_le_bytes_from_le_bytes) simp_all

lemma uint_pack_chunk: "length c \<le> 7 \<Longrightarrow> uint (pack_chunk c) < 2 ^ 56"
proof -
  assume c: "length c \<le> 7"
  have "le_value (replicate n 0) = 0" for n
    by (induction n) simp_all
  then have "le_value (c @ replicate n 0) = le_value c" for n
    by (simp add: le_value_append)
  then have "uint (pack_chunk c) = int (le_value c)"
    using c by (simp add: uint_le_value to_le_bytes_pack_chunk)
  also have "le_value c < 256 ^ length c" by (rule le_value_bound)
  also have "(256 :: nat) ^ length c \<le> 256 ^ 7" using c by (intro power_increasing) simp_all
  finally show ?thesis by simp
qed

lemma chunks_length: "0 < n \<Longrightarrow> c \<in> set (chunks n xs) \<Longrightarrow> length c \<le> n"
  by (induction n xs rule: chunks.induct) (subst (asm) (2) chunks.simps, auto split: if_splits)

lemma bytes_to_belts_bound: "w \<in> set (bytes_to_belts bs) \<Longrightarrow> uint w < 2 ^ 56"
  using uint_pack_chunk chunks_length [of 7 _ bs]
  by (fastforce simp: bytes_to_belts_def split: if_splits)

text \<open>The packed words read back as the bytes, with zero bytes after them.\<close>

definition unpack :: "u64 list \<Rightarrow> bytes" where
  "unpack ws = concat (map (\<lambda>w. take 7 (to_le_bytes w)) ws)"

lemma unpack_append: "unpack (vs @ ws) = unpack vs @ unpack ws"
  by (simp add: unpack_def)

lemma unpack_pack_chunks: "\<exists>k. unpack (map pack_chunk (chunks 7 bs)) = bs @ replicate k 0"
proof (induction "7 :: nat" bs rule: chunks.induct)
  case (1 bs)
  show ?case
  proof (cases "bs = []")
    case False
    then obtain k where IH: "unpack (map pack_chunk (chunks 7 (drop 7 bs))) = drop 7 bs @ replicate k 0"
      using 1 by auto
    have step: "unpack (map pack_chunk (chunks 7 bs)) =
        take 7 (to_le_bytes (pack_chunk (take 7 bs))) @ drop 7 bs @ replicate k 0"
      using False IH by (subst chunks_step) (simp_all add: unpack_def)
    show ?thesis
    proof (cases "7 \<le> length bs")
      case True
      then have "unpack (map pack_chunk (chunks 7 bs)) = bs @ replicate k 0"
        by (simp add: step to_le_bytes_pack_chunk flip: append_assoc)
      then show ?thesis by blast
    next
      case False
      then have "unpack (map pack_chunk (chunks 7 bs)) = bs @ replicate (7 - length bs) 0 @ replicate k 0"
        by (simp add: step to_le_bytes_pack_chunk)
      then show ?thesis by (metis replicate_add)
    qed
  qed (simp add: unpack_def)
qed

lemma unpack_bytes_to_belts: "\<exists>k. unpack (bytes_to_belts bs) = bs @ replicate k 0"
proof -
  obtain k where "unpack (map pack_chunk (chunks 7 bs)) = bs @ replicate k 0"
    using unpack_pack_chunks by blast
  moreover have "unpack [0] = replicate 7 0"
    by code_simp
  ultimately have "unpack (bytes_to_belts bs) = bs @ replicate (k + (if length bs mod 7 = 0 then 7 else 0)) 0"
    by (simp add: bytes_to_belts_def unpack_append replicate_add) (simp add: unpack_def)
  then show ?thesis by blast
qed

lemma strip_zeros: "xs = [] \<or> last xs \<noteq> 0 \<Longrightarrow> dropWhile (\<lambda>b. b = 0) (rev (xs @ replicate k (0 :: u8))) = rev xs"
  by (cases xs rule: rev_cases) (auto simp: dropWhile_replicate_append)

definition no_trailing_nul :: "bytes \<Rightarrow> bool" where
  "no_trailing_nul bs \<longleftrightarrow> bs = [] \<or> last bs \<noteq> 0"

lemma bytes_to_belts_inject:
  assumes "no_trailing_nul xs" "no_trailing_nul ys" and "bytes_to_belts xs = bytes_to_belts ys"
  shows "xs = ys"
proof -
  obtain j k where "unpack (bytes_to_belts xs) = xs @ replicate j 0"
    and "unpack (bytes_to_belts ys) = ys @ replicate k 0"
    using unpack_bytes_to_belts by metis
  with assms(3) have "xs @ replicate j 0 = ys @ replicate k 0" by simp
  then have "rev xs = rev ys"
    using strip_zeros [of xs j] strip_zeros [of ys k] assms(1,2) by (simp add: no_trailing_nul_def)
  then show ?thesis by simp
qed


subsection \<open>Domain separation\<close>

lemma bytes_to_belts_based: "\<forall>w\<in>set (bytes_to_belts bs). based w"
  using bytes_to_belts_bound by force

lemma domain_input_based: "\<forall>w\<in>set (domain_input d bs). based w"
  using bytes_to_belts_based by (auto simp: domain_input_def)

lemma domain_input_sponge:
  "sponge_input (domain_input d bs) = sponge_input (domain_input e cs) \<longleftrightarrow> domain_input d bs = domain_input e cs"
  using sponge_input_inject [of "domain_input d bs" "domain_input e cs"]
  by (auto simp: normalize_belts_id domain_input_based)

lemma hd_domain_input: "7 \<le> length (utf8 d) \<Longrightarrow> hd (domain_input d bs) = pack_chunk (take 7 (utf8 d))"
  unfolding domain_input_def bytes_to_belts_def by (subst chunks_step) auto

lemma pack_chunk_inject: "length c = 7 \<Longrightarrow> length d = 7 \<Longrightarrow> pack_chunk c = pack_chunk d \<longleftrightarrow> c = d"
  by (metis append_same_eq order_refl to_le_bytes_pack_chunk)

lemma separators_distinct: "distinct (map (take 7 \<circ> utf8) ALL_SEPARATORS)"
  by code_simp

lemma separators_long: "d \<in> set ALL_SEPARATORS \<Longrightarrow> 7 \<le> length (utf8 d)"
  by (auto simp: ALL_SEPARATORS_def separators)

lemma separators_input_differ:
  assumes "d \<in> set ALL_SEPARATORS" "e \<in> set ALL_SEPARATORS" "d \<noteq> e"
  shows "domain_input d bs \<noteq> domain_input e cs"
proof
  assume "domain_input d bs = domain_input e cs"
  then have "pack_chunk (take 7 (utf8 d)) = pack_chunk (take 7 (utf8 e))"
    using assms separators_long hd_domain_input by metis
  then have "take 7 (utf8 d) = take 7 (utf8 e)"
    using assms separators_long by (simp add: pack_chunk_inject)
  then have "(take 7 \<circ> utf8) d = (take 7 \<circ> utf8) e" by simp
  with separators_distinct assms show False
    by (auto simp: distinct_map inj_on_def)
qed


subsection \<open>Properties\<close>

text \<open>Two reserved separators are never hashed as the same sponge input, whatever the two messages.\<close>

theorem separators_never_collide:
  assumes "is_reserved d" "is_reserved e" "d \<noteq> e"
  shows "sponge_input (domain_input d bs) \<noteq> sponge_input (domain_input e cs)"
  using assms separators_input_differ [of d e bs cs]
  by (simp add: is_reserved_def domain_input_sponge)

theorem separators_never_collide_witness:
  "sponge_input (domain_input SIWN [1, 2, 3]) \<noteq> sponge_input (domain_input VESL_HD [9])"
proof -
  have "is_reserved SIWN" "is_reserved VESL_HD" "SIWN \<noteq> VESL_HD" by code_simp+
  from separators_never_collide [OF this] show ?thesis by blast
qed

text \<open>Under one separator, two messages that do not end in a zero byte are hashed as the same sponge
  input only when they are equal.\<close>

theorem messages_without_trailing_nul_bind:
  assumes "no_trailing_nul xs" "no_trailing_nul ys"
  shows "sponge_input (domain_input d xs) = sponge_input (domain_input d ys) \<longleftrightarrow> xs = ys"
  using bytes_to_belts_inject [OF assms] by (auto simp: domain_input_sponge) (simp add: domain_input_def)

theorem messages_without_trailing_nul_bind_witness:
  "sponge_input (domain_input SIWN [0, 1]) \<noteq> sponge_input (domain_input SIWN [1])"
proof -
  have "no_trailing_nul [0, 1]" "no_trailing_nul [1]" by (simp_all add: no_trailing_nul_def)
  from messages_without_trailing_nul_bind [OF this] show ?thesis by simp
qed

text \<open>A trailing zero byte is not hashed: the messages \<open>[1]\<close> and \<open>[1, 0]\<close> have one digest under
  every separator, so the length of a message is not implicit in its packing.\<close>

theorem trailing_nul_collides: "tip5_with_domain d [1] = tip5_with_domain d [1, 0]"
proof -
  have "bytes_to_belts [1] = bytes_to_belts [1, 0]" by code_simp
  then show ?thesis by (simp add: tip5_with_domain_def domain_input_def)
qed

end
