(* ===== verification/Schnorr.thy ===== *)
theory Schnorr
  imports Scalar Tip5 Domain
begin

text \<open>
  Schnorr signatures over the Cheetah curve, \<^verbatim>\<open>crates/vesl-signing/src/schnorr.rs\<close>: keys, the wire form,
  signing and verification.  An outcome is \<open>Ok\<close>, an \<open>Err\<close> of the source's error type, or \<open>Panic\<close>; the
  theorems show that \<open>Panic\<close> does not occur.
\<close>

subsection \<open>Errors, keys and signatures\<close>

datatype schnorr_error =
    BadPrivateKey
  | OutOfRange
  | BadSignature
  | Curve cheetah_error
  | ChunkOverflow u64
  | BadChunk nat
  | BadPubkey cheetah_error

datatype private_key = SchnorrPrivateKey (key_scalar: nat)

record schnorr_sig =
  chal :: scalar
  sig :: scalar

primrec curve_err :: "(cheetah_error, 'a) outcome \<Rightarrow> (schnorr_error, 'a) outcome" where
  "curve_err (Ok x) = Ok x"
| "curve_err (Err e) = Err (Curve e)"
| "curve_err Panic = Panic"

definition private_key_new :: "scalar \<Rightarrow> schnorr_error + private_key" where
  "private_key_new s =
     (if scalar_is_zero s \<or> SCALAR_G_ORDER \<le> s then Inl BadPrivateKey
      else Inr (SchnorrPrivateKey (to_ubig s)))"

definition private_key_from_t8 :: "u32 list \<Rightarrow> schnorr_error + private_key" where
  "private_key_from_t8 cs = private_key_new (from_t8 cs)"

definition private_key_from_belts :: "u64 list \<Rightarrow> schnorr_error + private_key" where
  "private_key_from_belts belts = private_key_new (from_belts belts)"

definition private_key_to_t8 :: "private_key \<Rightarrow> u32 list" where
  "private_key_to_t8 sk = to_t8 (from_ubig (key_scalar sk))"

definition private_key_to_belts :: "private_key \<Rightarrow> u64 list" where
  "private_key_to_belts sk = to_belts (from_ubig (key_scalar sk))"

definition public_key :: "private_key \<Rightarrow> (schnorr_error, cheetah_point) outcome" where
  "public_key sk = curve_err (ch_scal_big (key_scalar sk) A_GEN)"

definition trunc_scalar :: "u64 list \<Rightarrow> scalar option" where
  "trunc_scalar a = map_option from_ubig (trunc_g_order a)"


subsection \<open>The wire form\<close>

record signature_json =
  pubkey :: ustr
  json_chal :: "ustr list"
  json_sig :: "ustr list"

text \<open>\<open>str::parse::<u64>\<close> and \<open>u32::to_string\<close> of the standard library.\<close>

primrec digits_value :: "ustr \<Rightarrow> nat \<Rightarrow> nat option" where
  "digits_value [] acc = Some acc"
| "digits_value (c # cs) acc = (if 48 \<le> c \<and> c \<le> 57 then digits_value cs (10 * acc + (c - 48)) else None)"

definition parse_u64 :: "ustr \<Rightarrow> u64 option" where
  "parse_u64 s =
     (let ds = (case s of [] \<Rightarrow> [] | c # cs \<Rightarrow> if c = 43 then cs else s)
      in if ds = [] then None
         else case digits_value ds 0 of
                None \<Rightarrow> None
              | Some n \<Rightarrow> if n < 2 ^ 64 then Some (word_of_nat n) else None)"

fun decimal :: "nat \<Rightarrow> ustr" where
  "decimal n = (if n < 10 then [48 + n] else decimal (n div 10) @ [48 + n mod 10])"

declare decimal.simps [simp del]

fun t8_chunks :: "nat \<Rightarrow> ustr list \<Rightarrow> schnorr_error + u32 list" where
  "t8_chunks i [] = Inr []"
| "t8_chunks i (s # ss) =
     (case parse_u64 s of
        None \<Rightarrow> Inl (BadChunk i)
      | Some v \<Rightarrow>
          if unat v < 2 ^ 32 then
            (case t8_chunks (Suc i) ss of Inl e \<Rightarrow> Inl e | Inr ls \<Rightarrow> Inr (ucast v # ls))
          else Inl (ChunkOverflow v))"

definition t8_to_scalar :: "ustr list \<Rightarrow> schnorr_error + scalar" where
  "t8_to_scalar cs = (case t8_chunks 0 cs of Inl e \<Rightarrow> Inl e | Inr ls \<Rightarrow> Inr (from_t8 ls))"

definition t8_chunks_to_decimal :: "u32 list \<Rightarrow> ustr list" where
  "t8_chunks_to_decimal cs = map (\<lambda>c. decimal (unat c)) cs"

definition decode_signature ::
  "(ustr \<Rightarrow> bytes option) \<Rightarrow> signature_json \<Rightarrow> (schnorr_error, cheetah_point \<times> schnorr_sig) outcome" where
  "decode_signature b58_decode j =
     (case from_base58 b58_decode (pubkey j) of
        Panic \<Rightarrow> Panic
      | Err e \<Rightarrow> Err (BadPubkey e)
      | Ok pk \<Rightarrow>
          (case t8_to_scalar (json_chal j) of
             Inl e \<Rightarrow> Err e
           | Inr c \<Rightarrow>
               (case t8_to_scalar (json_sig j) of
                  Inl e \<Rightarrow> Err e
                | Inr s \<Rightarrow> Ok (pk, \<lparr>chal = c, sig = s\<rparr>))))"

definition encode_signature ::
  "(bytes \<Rightarrow> ustr) \<Rightarrow> cheetah_point \<Rightarrow> schnorr_sig \<Rightarrow> schnorr_error + signature_json" where
  "encode_signature b58_encode pk s =
     (case into_base58 b58_encode pk of
        Inl e \<Rightarrow> Inl (BadPubkey e)
      | Inr b58 \<Rightarrow>
          Inr \<lparr>pubkey = b58, json_chal = t8_chunks_to_decimal (to_t8 (chal s)),
               json_sig = t8_chunks_to_decimal (to_t8 (sig s))\<rparr>)"


subsection \<open>Signing and verification\<close>

definition hash_to_scalar :: "u64 list \<Rightarrow> (schnorr_error, nat) outcome" where
  "hash_to_scalar input =
     (case hash_varlen input of
        None \<Rightarrow> Panic
      | Some digest \<Rightarrow> (case trunc_g_order digest of None \<Rightarrow> Panic | Some n \<Rightarrow> Ok n))"

definition challenge_preimage :: "cheetah_point \<Rightarrow> cheetah_point \<Rightarrow> u64 list \<Rightarrow> u64 list" where
  "challenge_preimage r pk m =
     f6_coeffs (px r) @ f6_coeffs (py r) @ f6_coeffs (px pk) @ f6_coeffs (py pk) @ m"

definition nonce_transcript :: "cheetah_point \<Rightarrow> u64 list \<Rightarrow> private_key \<Rightarrow> u64 list" where
  "nonce_transcript pk m sk =
     f6_coeffs (px pk) @ f6_coeffs (py pk) @ m @ map ucast (private_key_to_t8 sk)"

definition schnorr_sign :: "private_key \<Rightarrow> u64 list \<Rightarrow> (schnorr_error, schnorr_sig) outcome" where
  "schnorr_sign sk m =
     and_then (public_key sk) (\<lambda>pk.
     and_then (hash_to_scalar (nonce_transcript pk m sk)) (\<lambda>nonce.
       if nonce = 0 then Err BadPrivateKey
       else
         and_then (curve_err (ch_scal_big nonce A_GEN)) (\<lambda>scalar_point.
         and_then (hash_to_scalar (challenge_preimage scalar_point pk m)) (\<lambda>c.
           if c = 0 then Err BadSignature
           else
             let s = (nonce + c * key_scalar sk) mod G_ORDER
             in if s = 0 then Err BadSignature
                else Ok \<lparr>chal = from_ubig c, sig = from_ubig s\<rparr>))))"

definition schnorr_verify ::
  "cheetah_point \<Rightarrow> u64 list \<Rightarrow> schnorr_sig \<Rightarrow> (schnorr_error, unit) outcome" where
  "schnorr_verify pk m signature =
     and_then (curve_err (in_curve pk)) (\<lambda>on_curve.
       if \<not> on_curve then Err BadSignature
       else
         let c = to_ubig (chal signature); s = to_ubig (sig signature)
         in if c \<le> 0 \<or> G_ORDER \<le> c then Err OutOfRange
            else if s \<le> 0 \<or> G_ORDER \<le> s then Err OutOfRange
            else
              and_then (curve_err (ch_scal_big s A_GEN)) (\<lambda>left.
              and_then (curve_err (ch_scal_big c pk)) (\<lambda>cp.
              and_then (curve_err (ch_add left (ch_neg cp))) (\<lambda>scalar.
                if px scalar = F6_ZERO then Err BadSignature
                else
                  and_then (hash_to_scalar (challenge_preimage scalar pk m)) (\<lambda>expected.
                    if expected = c then Ok () else Err BadSignature)))))"


subsection \<open>Keys\<close>

lemma private_key_new_range:
  "wf_scalar s \<Longrightarrow> private_key_new s =
    (if 0 < to_ubig s \<and> to_ubig s < G_ORDER then Inr (SchnorrPrivateKey (to_ubig s)) else Inl BadPrivateKey)"
  using less_G_ORDER [of s] by (auto simp: private_key_new_def scalar_is_zero_value not_less)

lemma private_key_t8_round_trip:
  "length xs = 8 \<Longrightarrow> private_key_from_t8 xs = Inr sk \<Longrightarrow> private_key_to_t8 sk = xs"
  by (auto simp: private_key_from_t8_def private_key_new_def private_key_to_t8_def to_t8_def from_t8_def
      from_ubig_to_ubig wf_scalar_def split: if_splits)

lemma private_key_belts_round_trip:
  "0 < key_scalar sk \<Longrightarrow> key_scalar sk < G_ORDER \<Longrightarrow> private_key_from_belts (private_key_to_belts sk) = Inr sk"
  by (simp add: private_key_from_belts_def private_key_to_belts_def from_belts_to_belts private_key_new_range)


subsection \<open>Hashing to scalars\<close>

lemma hash_to_scalar_total: "\<exists>n. hash_to_scalar xs = Ok n \<and> n < G_ORDER"
proof -
  have "length (sponge_digest xs) = 5" using sponge_digest_canonical by blast
  then have "\<exists>n. trunc_g_order (sponge_digest xs) = Some n" by (simp add: trunc_g_order_def)
  then show ?thesis
    using trunc_g_order_lt by (auto simp: hash_to_scalar_def hash_varlen_sponge)
qed

lemma hash_to_scalar_cong: "sponge_input xs = sponge_input ys \<Longrightarrow> hash_to_scalar xs = hash_to_scalar ys"
  by (simp add: hash_to_scalar_def hash_varlen_sponge sponge_digest_def)


subsection \<open>Decimal limbs\<close>

lemma decimal_ne [simp]: "decimal n \<noteq> []"
  by (subst decimal.simps) simp

lemma decimal_no_plus: "c \<in> set (decimal n) \<Longrightarrow> 48 \<le> c \<and> c \<le> 57"
  by (induction n rule: decimal.induct) (subst (asm) (2) decimal.simps, auto split: if_splits)

lemma digits_value_append: "digits_value (xs @ ys) acc =
    (case digits_value xs acc of None \<Rightarrow> None | Some n \<Rightarrow> digits_value ys n)"
  by (induction xs arbitrary: acc) auto

lemma digits_value_decimal: "digits_value (decimal n) 0 = Some n"
proof (induction n rule: decimal.induct)
  case (1 n)
  then show ?case
    by (subst decimal.simps) (auto simp: digits_value_append)
qed

lemma parse_decimal: "n < 2 ^ 64 \<Longrightarrow> parse_u64 (decimal n) = Some (word_of_nat n)"
proof -
  assume n: "n < 2 ^ 64"
  obtain c cs where d: "decimal n = c # cs" by (cases "decimal n") auto
  then have "c \<noteq> 43" using decimal_no_plus [of c n] by auto
  then show ?thesis
    using n digits_value_decimal [of n] by (simp add: parse_u64_def d del: digits_value.simps)
qed

lemma t8_chunks_decimal: "t8_chunks i (map (\<lambda>c. decimal (unat c)) xs) = Inr xs"
proof (induction xs arbitrary: i)
  case (Cons x xs)
  have x: "unat x < 2 ^ 32" using unat_u32_bound [of x] by simp
  then have "unat (word_of_nat (unat x) :: u64) = unat x"
    by (simp add: unsigned_ucast_eq take_bit_eq_mod)
  moreover have "ucast (word_of_nat (unat x) :: u64) = x"
    by (metis of_nat_unat ucast_u32_u64)
  ultimately show ?case
    using x Cons parse_decimal [of "unat x"] by simp
qed simp

lemma t8_wire_round_trip: "t8_to_scalar (t8_chunks_to_decimal (to_t8 s)) = Inr s"
  by (simp add: t8_to_scalar_def t8_chunks_to_decimal_def t8_chunks_decimal to_t8_def from_t8_def)


subsection \<open>Signing and verification\<close>

lemma gen_mul:
  obtains b r where "on_curve b A_GEN" "ch_scal_big n A_GEN = Ok r" "on_curve b r"
proof -
  obtain b where b: "on_curve b A_GEN" using canon_point_on_curve canon_A_GEN by blast
  obtain r where "ch_scal_big n A_GEN = Ok r" "on_curve b r" by (rule ch_scal_big_on_curve [OF b])
  with b that show ?thesis by blast
qed

lemma gen_mul_total: "\<exists>r. ch_scal_big n A_GEN = Ok r"
  by (rule gen_mul [of n]) blast

text \<open>Signing never panics and never reports a curve error.\<close>

lemma schnorr_sign_outcomes:
  "(\<exists>s. schnorr_sign sk m = Ok s) \<or> schnorr_sign sk m = Err BadPrivateKey \<or> schnorr_sign sk m = Err BadSignature"
proof -
  obtain pk where pk: "public_key sk = Ok pk"
    using gen_mul_total [of "key_scalar sk"] by (auto simp: public_key_def)
  obtain k where k: "hash_to_scalar (nonce_transcript pk m sk) = Ok k"
    using hash_to_scalar_total by blast
  obtain r where r: "ch_scal_big k A_GEN = Ok r" using gen_mul_total by blast
  obtain c where c: "hash_to_scalar (challenge_preimage r pk m) = Ok c"
    using hash_to_scalar_total by blast
  show ?thesis by (simp add: schnorr_sign_def pk k r c Let_def)
qed

lemma schnorr_sign_range:
  assumes "schnorr_sign sk m = Ok s"
  shows "wf_scalar (chal s) \<and> 0 < to_ubig (chal s) \<and> to_ubig (chal s) < G_ORDER \<and>
    wf_scalar (sig s) \<and> 0 < to_ubig (sig s) \<and> to_ubig (sig s) < G_ORDER"
proof -
  from assms obtain pk k r c where "hash_to_scalar (challenge_preimage r pk m) = Ok c" "c \<noteq> 0"
    "(k + c * key_scalar sk) mod G_ORDER \<noteq> 0"
    "s = \<lparr>chal = from_ubig c, sig = from_ubig ((k + c * key_scalar sk) mod G_ORDER)\<rparr>"
    by (auto simp: schnorr_sign_def Let_def split: if_splits)
  moreover from this have "c < G_ORDER" using hash_to_scalar_total by (metis outcome.inject(1))
  ultimately show ?thesis by simp
qed

text \<open>Verification of a canonical public key never panics and never reports a curve error.\<close>

lemma f6_div_no_panic:
  assumes "canon_f6 f" "canon_f6 g"
  shows "f6_div f g = Err DivByZero \<or> (\<exists>h. f6_div f g = Ok h \<and> canon_f6 h)"
proof (cases "g = F6_ZERO")
  case True
  then show ?thesis by (simp add: f6_div_def f6_inv_zero)
next
  case False
  obtain h where "f6_div f g = Ok h" "canon_f6 h" by (rule f6_div_correct [OF assms False])
  then show ?thesis by blast
qed

lemma ch_add_no_panic:
  assumes p: "canon_point p" and q: "canon_point q"
  shows "ch_add p q = Err DivByZero \<or> (\<exists>r. ch_add p q = Ok r \<and> canon_point r)"
proof (cases "inf p \<or> inf q \<or> p = ch_neg q \<or> p = q")
  case True
  obtain b where "on_curve b p" using canon_point_on_curve [OF p] by blast
  then obtain r where r: "ch_double p = Ok r" "on_curve b r" by (rule ch_double_on_curve)
  have "canon_point A_ID" by (simp add: canon_point_def A_ID_def f6_hom)
  with True p q r show ?thesis by (auto simp: ch_add_def on_curve_def)
next
  case False
  have c: "canon_f6 (px p)" "canon_f6 (py p)" "canon_f6 (px q)" "canon_f6 (py q)"
    using p q by (simp_all add: canon_point_def)
  have "f6_div (f6_sub (py p) (py q)) (f6_sub (px p) (px q)) = Err DivByZero \<or>
      (\<exists>h. f6_div (f6_sub (py p) (py q)) (f6_sub (px p) (px q)) = Ok h \<and> canon_f6 h)"
    using c by (intro f6_div_no_panic) (simp_all add: f6_hom)
  then show ?thesis
    using False c by (auto simp: ch_add_def ch_add_unsafe_def Let_def canon_point_def f6_hom)
qed

lemma canon_ch_scal_big: "canon_point p \<Longrightarrow> \<exists>r. ch_scal_big n p = Ok r \<and> canon_point r"
proof -
  assume "canon_point p"
  then obtain b where "on_curve b p" using canon_point_on_curve by blast
  then obtain r where "ch_scal_big n p = Ok r" "on_curve b r" by (rule ch_scal_big_on_curve)
  then show ?thesis by (auto simp: on_curve_def)
qed

lemma schnorr_verify_no_panic:
  assumes "canon_point pk"
  shows "schnorr_verify pk m s \<noteq> Panic"
proof -
  obtain v where v: "in_curve pk = Ok v" using in_curve_total [OF assms] by blast
  obtain l where l: "ch_scal_big (to_ubig (sig s)) A_GEN = Ok l" "canon_point l"
    using canon_ch_scal_big canon_A_GEN by blast
  obtain r where r: "ch_scal_big (to_ubig (chal s)) pk = Ok r" "canon_point r"
    using canon_ch_scal_big assms by blast
  have "canon_point (ch_neg r)" using r(2) by (simp add: canon_point_def ch_neg_def f6_hom)
  with l(2) have add: "ch_add l (ch_neg r) = Err DivByZero \<or> (\<exists>x. ch_add l (ch_neg r) = Ok x)"
    using ch_add_no_panic by blast
  have hash: "\<exists>n. hash_to_scalar xs = Ok n" for xs using hash_to_scalar_total by blast
  show ?thesis
  proof (cases "ch_add l (ch_neg r)")
    case (Ok x)
    obtain n where "hash_to_scalar (challenge_preimage x pk m) = Ok n" using hash by blast
    with Ok v l r show ?thesis by (simp add: schnorr_verify_def Let_def)
  qed (use v l r add in \<open>simp_all add: schnorr_verify_def Let_def\<close>)
qed

text \<open>The commitment that verification recomputes depends on the key and the signature only.\<close>

definition recomputed :: "cheetah_point \<Rightarrow> schnorr_sig \<Rightarrow> cheetah_point \<Rightarrow> bool" where
  "recomputed pk s r \<longleftrightarrow>
     (\<exists>l cp. ch_scal_big (to_ubig (sig s)) A_GEN = Ok l \<and> ch_scal_big (to_ubig (chal s)) pk = Ok cp \<and>
             ch_add l (ch_neg cp) = Ok r)"

lemma recomputed_unique: "recomputed pk s r \<Longrightarrow> recomputed pk s r' \<Longrightarrow> r = r'"
  by (auto simp: recomputed_def)

lemma curve_err_eq_Ok [simp]: "curve_err x = Ok y \<longleftrightarrow> x = Ok y"
  by (cases x) auto

lemma schnorr_verify_sound:
  "schnorr_verify pk m s = Ok () \<longleftrightarrow>
    in_curve pk = Ok True \<and>
    0 < to_ubig (chal s) \<and> to_ubig (chal s) < G_ORDER \<and> 0 < to_ubig (sig s) \<and> to_ubig (sig s) < G_ORDER \<and>
    (\<exists>r. recomputed pk s r \<and> px r \<noteq> F6_ZERO \<and>
         hash_to_scalar (challenge_preimage r pk m) = Ok (to_ubig (chal s)))"
  by (auto simp: schnorr_verify_def Let_def recomputed_def not_le split: if_splits)

text \<open>Two different canonical digests under one key and signature give colliding challenge inputs.\<close>

lemma challenge_preimage_sponge_inject:
  assumes "\<forall>w\<in>set m. based w" "\<forall>w\<in>set m'. based w"
    and "sponge_input (challenge_preimage r pk m) = sponge_input (challenge_preimage r pk m')"
  shows "m = m'"
proof -
  have "normalize_belts (challenge_preimage r pk m) = normalize_belts (challenge_preimage r pk m')"
    using assms(3) by (rule sponge_input_inject)
  then have "normalize_belts m = normalize_belts m'"
    by (simp add: challenge_preimage_def normalize_belts_def)
  then show ?thesis using assms(1,2) by (simp add: normalize_belts_id)
qed

text \<open>The challenge inputs of two verifications of one signature: different, with one hash.\<close>

definition challenges_collide ::
  "cheetah_point \<Rightarrow> u64 list \<Rightarrow> cheetah_point \<Rightarrow> u64 list \<Rightarrow> schnorr_sig \<Rightarrow> bool" where
  "challenges_collide pk m pk' m' s \<longleftrightarrow>
     (\<exists>r r'. recomputed pk s r \<and> recomputed pk' s r' \<and>
        sponge_input (challenge_preimage r pk m) \<noteq> sponge_input (challenge_preimage r' pk' m') \<and>
        hash_to_scalar (challenge_preimage r pk m) = hash_to_scalar (challenge_preimage r' pk' m'))"

definition canonical_message :: "u64 list \<Rightarrow> bool" where
  "canonical_message m \<longleftrightarrow> canon m"

lemma challenge_input_inject:
  assumes "canon_point pk" "canon_point pk'" "canonical_message m" "canonical_message m'"
    and "sponge_input (challenge_preimage r pk m) = sponge_input (challenge_preimage r' pk' m')"
  shows "(px pk, py pk, m) = (px pk', py pk', m')"
proof -
  have "normalize_belts (challenge_preimage r pk m) = normalize_belts (challenge_preimage r' pk' m')"
    using assms(5) by (rule sponge_input_inject)
  then have "normalize_belts (f6_coeffs (px pk)) = normalize_belts (f6_coeffs (px pk'))"
    "normalize_belts (f6_coeffs (py pk)) = normalize_belts (f6_coeffs (py pk'))"
    "normalize_belts m = normalize_belts m'"
    by (simp_all add: challenge_preimage_def normalize_belts_def)
  moreover have "normalize_belts xs = xs" if "canon xs" for xs
    using that by (intro normalize_belts_id) simp
  ultimately have "f6_coeffs (px pk) = f6_coeffs (px pk')" "f6_coeffs (py pk) = f6_coeffs (py pk')" "m = m'"
    using assms(1-4) by (simp_all add: canon_point_def canon_f6_def canonical_message_def)
  then show ?thesis by (metis f6_of_list_coeffs)
qed

lemma verified_twice:
  "\<not> (schnorr_verify pk m s = Ok () \<and> schnorr_verify pk' m' s = Ok () \<and>
      canon_point pk \<and> canon_point pk' \<and> canonical_message m \<and> canonical_message m' \<and>
      (px pk, py pk, m) \<noteq> (px pk', py pk', m') \<and> \<not> challenges_collide pk m pk' m' s)"
  using challenge_input_inject [of pk pk' m m'] unfolding schnorr_verify_sound challenges_collide_def by metis

text \<open>The neutral element as a key: the commitment is that of the response alone.\<close>

lemma ch_scal_big_A_ID: "ch_scal_big n A_ID = Ok A_ID"
proof -
  have id: "inf A_ID" by (simp add: A_ID_def)
  have "ch_scal_big_loop n A_ID A_ID = Ok A_ID"
  proof (induction n rule: less_induct)
    case (less n)
    then show ?case by (subst ch_scal_big_loop.simps) (simp add: ch_add_def ch_double_def id)
  qed
  then show ?thesis by (simp add: ch_scal_big_def)
qed

lemma finite_or_neutral:
  "(inf p \<longrightarrow> p = A_ID) \<Longrightarrow> (inf a \<longrightarrow> a = A_ID) \<Longrightarrow> ch_scal_big_loop n p a = Ok r \<Longrightarrow> inf r \<longrightarrow> r = A_ID"
proof (induction n p a rule: ch_scal_big_loop.induct)
  case (1 n p a)
  have add: "inf z \<longrightarrow> z = A_ID" if "ch_add x y = Ok z" "inf x \<longrightarrow> x = A_ID" "inf y \<longrightarrow> y = A_ID" for x y z
    using that by (auto simp: ch_add_def ch_double_def ch_double_unsafe_def ch_add_unsafe_def Let_def and_then_eq_Ok split: if_splits)
  have double: "inf z \<longrightarrow> z = A_ID" if "ch_double x = Ok z" for x z
    using that by (auto simp: ch_double_def ch_double_unsafe_def Let_def and_then_eq_Ok split: if_splits)
  show ?case
  proof (cases "0 < n")
    case True
    with "1.prems"(3) obtain a' p' where step: "(if odd n then ch_add a p else Ok a) = Ok a'" "ch_double p = Ok p'"
      "ch_scal_big_loop (n div 2) p' a' = Ok r"
      by (subst (asm) ch_scal_big_loop.simps) (auto simp: and_then_eq_Ok)
    have "inf a' \<longrightarrow> a' = A_ID"
      using step(1) "1.prems"(1,2) add by (auto split: if_splits)
    with "1.IH" [OF True _ _ step(3)] double [OF step(2)] show ?thesis by blast
  next
    case False
    with "1.prems" show ?thesis by (subst (asm) ch_scal_big_loop.simps) simp
  qed
qed

lemma recomputed_A_ID:
  "(\<exists>r. recomputed A_ID \<lparr>chal = c, sig = s\<rparr> r \<and> px r \<noteq> F6_ZERO \<and> Q r) \<longleftrightarrow>
   (\<exists>r. ch_scal_big (to_ubig s) A_GEN = Ok r \<and> px r \<noteq> F6_ZERO \<and> Q r)"
proof -
  have id: "inf A_ID" "px A_ID = F6_ZERO" by (simp_all add: A_ID_def)
  have neg: "inf (ch_neg A_ID)" "px (ch_neg A_ID) = F6_ZERO" by (simp_all add: ch_neg_def id)
  have neutral: "inf l \<longrightarrow> px l = F6_ZERO" if "ch_scal_big (to_ubig s) A_GEN = Ok l" for l
    using finite_or_neutral [of A_GEN A_ID "to_ubig s" l] that by (auto simp: ch_scal_big_def A_GEN_def A_ID_def)
  show ?thesis
    using neg neutral by (auto simp: recomputed_def ch_scal_big_A_ID ch_add_def)
qed


subsection \<open>Properties\<close>

text \<open>C1: a signature binds the key and the message it verifies for. If one signature verifies for two keys, or for
  two messages, then the two challenge inputs (recomputed commitment, key and message, as the sponge reads them) are
  different and have the same hash: a collision, exhibited by the two verifications themselves. Keys and messages are in
  canonical field elements.\<close>

theorem signature_binds_key_and_message:
  "\<not> (schnorr_verify pk m s = Ok () \<and> schnorr_verify pk' m' s = Ok () \<and>
      canon_point pk \<and> canon_point pk' \<and> canonical_message m \<and> canonical_message m' \<and>
      (px pk, py pk, m) \<noteq> (px pk', py pk', m') \<and> \<not> challenges_collide pk m pk' m' s)"
  by (rule verified_twice)

text \<open>C39: the neutral element passes as a public key, and then anyone can sign for it: a response \<open>s\<close> in range and
  the hash of \<open>s * G\<close>, the coordinates of the key and the message, taken as the challenge, verify, exactly when that hash
  is in range; no secret enters.\<close>

theorem neutral_key_needs_no_secret:
  "schnorr_verify A_ID m \<lparr>chal = c, sig = s\<rparr> = Ok () \<longleftrightarrow>
    0 < to_ubig c \<and> to_ubig c < G_ORDER \<and> 0 < to_ubig s \<and> to_ubig s < G_ORDER \<and>
    (\<exists>r. ch_scal_big (to_ubig s) A_GEN = Ok r \<and> px r \<noteq> F6_ZERO \<and>
      hash_to_scalar (f6_coeffs (px r) @ f6_coeffs (py r) @ [0, 0, 0, 0, 0, 0] @ [1, 0, 0, 0, 0, 0] @ m) = Ok (to_ubig c))"
proof -
  have pre: "challenge_preimage r A_ID m =
      f6_coeffs (px r) @ f6_coeffs (py r) @ [0, 0, 0, 0, 0, 0] @ [1, 0, 0, 0, 0, 0] @ m" for r
    by (simp add: challenge_preimage_def A_ID_def F6_ZERO_def F6_ONE_def)
  show ?thesis
    unfolding schnorr_verify_sound recomputed_A_ID pre by (auto simp: in_curve_def)
qed

text \<open>C37: signing is total: it returns a signature whose two scalars are in \<open>[1, order)\<close>, or one of the
  two errors for a vanishing nonce, challenge or response; it never panics.\<close>

theorem schnorr_sign_total:
  "case schnorr_sign sk m of
     Ok s \<Rightarrow> wf_scalar (chal s) \<and> 0 < to_ubig (chal s) \<and> to_ubig (chal s) < G_ORDER \<and>
             wf_scalar (sig s) \<and> 0 < to_ubig (sig s) \<and> to_ubig (sig s) < G_ORDER
   | Err e \<Rightarrow> e \<in> {BadPrivateKey, BadSignature}
   | Panic \<Rightarrow> False"
  using schnorr_sign_outcomes [of sk m] schnorr_sign_range [of sk m] by (cases "schnorr_sign sk m") auto

text \<open>Verification never panics on a key with canonical coordinates, whatever the message and the
  signature.\<close>

theorem schnorr_verify_total:
  assumes "canon_point pk"
  shows "schnorr_verify pk m s \<noteq> Panic"
  by (rule schnorr_verify_no_panic [OF assms])

theorem schnorr_verify_total_witness: "schnorr_verify A_GEN [1, 2, 3, 4, 5] \<lparr>chal = SCALAR_ZERO, sig = SCALAR_G_ORDER\<rparr> \<noteq> Panic"
  by (rule schnorr_verify_total [OF canon_A_GEN])

text \<open>The challenge binds the message: with one commitment and one key, two canonical messages give
  the same sponge input only when they are equal.\<close>

theorem challenge_binds_message:
  assumes "\<forall>w\<in>set m. based w" "\<forall>w\<in>set m'. based w"
  shows "sponge_input (challenge_preimage r pk m) = sponge_input (challenge_preimage r pk m') \<longleftrightarrow> m = m'"
  using challenge_preimage_sponge_inject [OF assms] by blast

theorem challenge_binds_message_witness:
  "sponge_input (challenge_preimage A_GEN A_GEN [1, 2, 3, 4, 5]) \<noteq>
   sponge_input (challenge_preimage A_GEN A_GEN [1, 2, 3, 4, 6])"
proof -
  have "\<forall>w\<in>set [1, 2, 3, 4, 5]. based w" "\<forall>w\<in>set [1, 2, 3, 4, 6]. based w" by simp_all
  from challenge_binds_message [OF this] show ?thesis by simp
qed

text \<open>A private key is accepted exactly when its value is in \<open>[1, order)\<close>, and the accepted key
  writes back the limbs it was read from.\<close>

theorem private_key_accepts:
  assumes "length xs = 8"
  shows "case private_key_from_t8 xs of
      Inr sk \<Rightarrow> 0 < limbs_value xs \<and> limbs_value xs < G_ORDER \<and> key_scalar sk = limbs_value xs \<and> private_key_to_t8 sk = xs
    | Inl e \<Rightarrow> e = BadPrivateKey \<and> (limbs_value xs = 0 \<or> G_ORDER \<le> limbs_value xs)"
proof -
  have wf: "wf_scalar (from_t8 xs)" using assms by (simp add: from_t8_def wf_scalar_def)
  have v: "to_ubig (from_t8 xs) = limbs_value xs" using to_ubig_value [OF wf] by (simp add: from_t8_def)
  show ?thesis
    using private_key_new_range [OF wf] private_key_t8_round_trip [OF assms]
    by (auto simp: private_key_from_t8_def v split: sum.splits if_splits)
qed

theorem private_key_accepts_witness:
  "case private_key_from_t8 [1, 0, 0, 0, 0, 0, 0, 0] of Inr sk \<Rightarrow> key_scalar sk = 1 | Inl e \<Rightarrow> False"
proof -
  have "length [1, 0, 0, 0, 0, 0, 0, 0 :: u32] = 8" by simp
  from private_key_accepts [OF this] show ?thesis by (auto simp: G_ORDER_def split: sum.splits)
qed

text \<open>The decimal wire form of a scalar decodes to that scalar: the strings are written without
  sign or leading zeros and every 32-bit limb is accepted.\<close>

theorem wire_scalar_round_trip: "t8_to_scalar (t8_chunks_to_decimal (to_t8 s)) = Inr s"
  by (rule t8_wire_round_trip)

end
