(* ===== verification/Replay.thy ===== *)
theory Replay
  imports Prelude
begin

text \<open>
  The replay cache, \<^verbatim>\<open>crates/vesl-signing/src/replay_cache.rs\<close>: the trait as a locale, the in-memory
  implementation as a map from keys to insertion instants, and the domain-prefixed keys.  Instants and
  durations are natural numbers (nanoseconds); \<open>duration_since\<close> saturates at 0, like subtraction on
  naturals.
\<close>

subsection \<open>Domain-prefixed keys\<close>

definition REPLAY_SIWN :: ustr where "REPLAY_SIWN = lit ''siwn''"
definition REPLAY_AUTHORIZATION :: ustr where "REPLAY_AUTHORIZATION = lit ''x402-auth''"

definition prefixed :: "ustr \<Rightarrow> bytes \<Rightarrow> bytes" where
  "prefixed domain nonce = utf8 domain @ [58] @ nonce"

lemma prefixed_inject:
  assumes "58 \<notin> set (utf8 d)" "58 \<notin> set (utf8 e)" and "prefixed d m = prefixed e n"
  shows "utf8 d = utf8 e \<and> m = n"
proof -
  have split: "takeWhile (\<lambda>b. b \<noteq> 58) (prefixed d m) = utf8 d \<and> dropWhile (\<lambda>b. b \<noteq> 58) (prefixed d m) = 58 # m"
    if "58 \<notin> set (utf8 d)" for d m
  proof -
    have "\<forall>b\<in>set (utf8 d). b \<noteq> 58" using that by auto
    then show ?thesis by (simp add: prefixed_def takeWhile_append2 dropWhile_append2)
  qed
  from split [OF assms(1), of m] split [OF assms(2), of n] assms(3) show ?thesis by auto
qed


subsection \<open>The trait\<close>

text \<open>
  What a client relies on: a key reported as fresh is recorded, so that asking again within the window
  reports it as seen; and a key reported as seen leaves the cache usable in the same way.
\<close>

locale replay_cache =
  fixes seen :: "'c \<Rightarrow> bytes \<Rightarrow> nat \<Rightarrow> nat \<Rightarrow> bool \<times> 'c"
  assumes recorded: "seen c k ttl t = (False, c') \<Longrightarrow> t' - t \<le> ttl' \<Longrightarrow> fst (seen c' k ttl' t')"
begin

lemma no_immediate_replay: "seen c k ttl t = (False, c') \<Longrightarrow> fst (seen c' k ttl t)"
  using recorded [of c k ttl t c' t ttl] by auto

lemma fresh_then_stale: "seen c k ttl t = (False, c') \<Longrightarrow> \<not> fst (seen c' k ttl t') \<Longrightarrow> ttl < t' - t"
  using recorded [of c k ttl t c' t' ttl] by (cases "t' - t \<le> ttl") auto

end


subsection \<open>The in-memory cache\<close>

type_synonym cache = "bytes \<Rightarrow> nat option"

definition empty_cache :: cache where
  "empty_cache = (\<lambda>_. None)"

definition sweep :: "cache \<Rightarrow> nat \<Rightarrow> nat \<Rightarrow> cache" where
  "sweep c now ttl =
     (\<lambda>k. case c k of None \<Rightarrow> None | Some inserted \<Rightarrow> if now - inserted \<le> ttl then Some inserted else None)"

definition seen :: "cache \<Rightarrow> bytes \<Rightarrow> nat \<Rightarrow> nat \<Rightarrow> bool \<times> cache" where
  "seen c nonce ttl now =
     (let c = sweep c now ttl
      in case c nonce of
           Some inserted \<Rightarrow> if now - inserted \<le> ttl then (True, c) else (False, c(nonce \<mapsto> now))
         | None \<Rightarrow> (False, c(nonce \<mapsto> now)))"

lemma seen_iff: "fst (seen c k ttl now) \<longleftrightarrow> (\<exists>i. c k = Some i \<and> now - i \<le> ttl)"
  by (auto simp: seen_def sweep_def Let_def split: option.splits)

lemma seen_state: "snd (seen c k ttl now) =
    (if fst (seen c k ttl now) then sweep c now ttl else (sweep c now ttl)(k \<mapsto> now))"
  by (simp add: seen_def sweep_def Let_def split: option.splits)

interpretation mem: replay_cache seen
proof
  fix c :: cache and k ttl t c' t' ttl'
  assume "seen c k ttl t = (False, c')" and "t' - t \<le> ttl'"
  then show "fst (seen c' k ttl' t')"
    using seen_state [of c k ttl t] by (auto simp: seen_iff)
qed


subsection \<open>Histories of calls\<close>

text \<open>
  A history is the list of calls \<open>(key, ttl, instant)\<close>; \<open>answers\<close> are the results in order.  With one
  time-to-live and a clock that does not go back, the accepted calls of a key are more than that
  time-to-live apart, which is what the trait documents.
\<close>

fun answers :: "cache \<Rightarrow> (bytes \<times> nat \<times> nat) list \<Rightarrow> bool list" where
  "answers c [] = []"
| "answers c ((k, ttl, t) # calls) =
     (let (b, c') = seen c k ttl t in b # answers c' calls)"

fun final_cache :: "cache \<Rightarrow> (bytes \<times> nat \<times> nat) list \<Rightarrow> cache" where
  "final_cache c [] = c"
| "final_cache c ((k, ttl, t) # calls) = final_cache (snd (seen c k ttl t)) calls"

definition accepted_at :: "cache \<Rightarrow> (bytes \<times> nat \<times> nat) list \<Rightarrow> nat \<Rightarrow> bool" where
  "accepted_at c calls i \<longleftrightarrow> i < length calls \<and> \<not> answers c calls ! i"

lemma length_answers [simp]: "length (answers c calls) = length calls"
  by (induction c calls rule: answers.induct) (auto simp: Let_def split: prod.splits)

text \<open>An entry inserted at \<open>i\<close> survives calls with the same time-to-live while it is in its window.\<close>

lemma entry_kept:
  assumes "\<forall>(k', ttl', t')\<in>set calls. ttl' = ttl \<and> t' - i \<le> ttl" and "c k = Some i"
  shows "final_cache c calls k = Some i"
  using assms
proof (induction c calls rule: final_cache.induct)
  case (2 c k' ttl' t' calls)
  have "snd (seen c k' ttl' t') k = Some i"
    using "2.prems" seen_iff [of c k' ttl' t'] by (auto simp: seen_state sweep_def)
  with 2 show ?case by auto
qed simp

lemma answers_append: "answers c (xs @ ys) = answers c xs @ answers (final_cache c xs) ys"
  by (induction c xs rule: answers.induct) (auto simp: Let_def split: prod.splits)

lemma final_cache_append: "final_cache c (xs @ ys) = final_cache (final_cache c xs) ys"
  by (induction c xs rule: final_cache.induct) auto

text \<open>
  One time-to-live: a call in the window of an accepted call of the same key is refused, whatever
  happens in between.
\<close>

lemma replay_refused:
  assumes ttl: "\<forall>(k', ttl', t')\<in>set between. ttl' = ttl \<and> t' - t \<le> ttl"
    and acc: "seen c k ttl t = (False, c')" and win: "t'' - t \<le> ttl"
  shows "fst (seen (final_cache c' between) k ttl t'')"
proof -
  have "c' k = Some t"
    using acc seen_state [of c k ttl t] by auto
  then have "final_cache c' between k = Some t"
    using ttl by (intro entry_kept)
  with win show ?thesis by (auto simp: seen_iff)
qed

text \<open>
  With mixed times-to-live the sweep of one call, which uses its own \<open>ttl\<close> for every entry, drops
  entries that are still in the window they were inserted with.
\<close>

lemma mixed_ttl_forgets:
  assumes acc: "seen c k ttl t = (False, c')" and other: "k' \<noteq> k"
    and later: "ttl' < t' - t"
  shows "\<not> fst (seen (snd (seen c' k' ttl' t')) k ttl t')"
proof -
  have "c' k = Some t" using acc seen_state [of c k ttl t] by auto
  then have "snd (seen c' k' ttl' t') k = None"
    using other later by (auto simp: seen_state sweep_def)
  then show ?thesis by (simp add: seen_iff)
qed


subsection \<open>Properties\<close>

text \<open>With one time-to-live, a key accepted at \<open>t\<close> is refused at every call within that time,
  whatever calls on other keys come in between.\<close>

theorem replay_within_window_refused:
  assumes "\<forall>(k', ttl', t')\<in>set between. ttl' = ttl \<and> t' - t \<le> ttl"
    and "seen c k ttl t = (False, c')" and "t'' - t \<le> ttl"
  shows "fst (seen (final_cache c' between) k ttl t'')"
  by (rule replay_refused [OF assms])

theorem replay_within_window_refused_witness:
  "fst (seen (final_cache (empty_cache([1] \<mapsto> 5)) [([2], 10, 7), ([3], 10, 9)]) [1] 10 15)"
proof (rule replay_within_window_refused)
  show "\<forall>(k', ttl', t')\<in>set [([2], 10, 7), ([3], 10, 9)]. ttl' = 10 \<and> t' - 5 \<le> (10 :: nat)" by simp
  show "seen empty_cache [1] 10 5 = (False, empty_cache([1] \<mapsto> 5))"
    by (auto simp: seen_def sweep_def empty_cache_def Let_def)
qed simp

text \<open>With two different times-to-live the cache forgets: the sweep of a call with a shorter one
  drops an accepted key that is still inside its own window, and the key is accepted again.\<close>

theorem short_ttl_evicts:
  assumes "seen c k ttl t = (False, c')" "k' \<noteq> k" "ttl' < t' - t" "t' - t \<le> ttl"
  shows "fst (seen c' k ttl t') \<and> \<not> fst (seen (snd (seen c' k' ttl' t')) k ttl t')"
  using mixed_ttl_forgets [OF assms(1-3)] mem.recorded [OF assms(1,4)] by simp

theorem short_ttl_evicts_witness:
  "\<not> fst (seen (snd (seen (empty_cache([1] \<mapsto> 0)) [2] 10 50)) [1] 100 50)"
proof -
  have "seen empty_cache [1] 100 0 = (False, empty_cache([1] \<mapsto> 0))"
    by (auto simp: seen_def sweep_def empty_cache_def Let_def)
  from short_ttl_evicts [OF this, of "[2]" 10 50] show ?thesis by simp
qed

text \<open>Keys prefixed with the two cache domains never meet, and a prefixed key determines the nonce.\<close>

theorem prefixed_domains_disjoint:
  "prefixed REPLAY_SIWN m \<noteq> prefixed REPLAY_AUTHORIZATION n \<and>
   (prefixed REPLAY_SIWN m = prefixed REPLAY_SIWN n \<longleftrightarrow> m = n)"
proof -
  have "58 \<notin> set (utf8 REPLAY_SIWN)" "58 \<notin> set (utf8 REPLAY_AUTHORIZATION)" "utf8 REPLAY_SIWN \<noteq> utf8 REPLAY_AUTHORIZATION"
    by code_simp+
  then show ?thesis using prefixed_inject by blast
qed

end
