(* ===== verification/Siwn.thy ===== *)
theory Siwn
  imports Schnorr Replay
begin

text \<open>
  Sign-In-With-Nockchain, \<^verbatim>\<open>crates/vesl-signing/src/caip122.rs\<close>: the message body and its strict parser,
  the signer, and the verifier with its replay cache.  Time stamps are integers (nanoseconds).  The
  third-party codecs are parameters: \<open>fmt_ts\<close>/\<open>parse_ts\<close> (RFC 3339, crate \<open>chrono\<close>), base58, base64 and
  the JSON reader and writer.
\<close>

subsection \<open>Parameters and errors\<close>

record siwn_params =
  domain :: ustr
  address :: ustr
  uri :: ustr
  version :: ustr
  chain_id :: ustr
  nonce :: ustr
  issued_at :: int
  expiration_time :: int

record siwn_header =
  message :: ustr
  signature :: signature_json

record verified_identity =
  id_address :: ustr
  id_nonce :: ustr
  id_issued_at :: int
  id_expiration_time :: int

datatype siwn_error =
    MissingField string
  | BadTimestamp ustr
  | FieldControlChar string
  | MalformedBody string
  | DomainMismatch ustr ustr
  | ChainIdMismatch ustr ustr
  | UriMismatch ustr ustr
  | VersionMismatch ustr ustr
  | Expired
  | NotYetValid
  | Replay
  | SiwnBadSignature
  | Base64
  | Json
  | Other string


subsection \<open>Building the message\<close>

definition is_control :: "nat \<Rightarrow> bool" where
  "is_control c \<longleftrightarrow> c < 32 \<or> 127 \<le> c \<and> c \<le> 159"

definition validate_field :: "string \<Rightarrow> ustr \<Rightarrow> siwn_error + unit" where
  "validate_field name value = (if list_ex is_control value then Inl (FieldControlChar name) else Inr ())"

definition newline :: ustr where
  "newline = [10]"

definition sign_in_suffix :: ustr where
  "sign_in_suffix = lit '' wants you to sign in with your Nockchain account:''"

definition field_line :: "string \<Rightarrow> ustr \<Rightarrow> ustr" where
  "field_line label value = lit label @ lit '': '' @ value"

definition body_lines :: "(int \<Rightarrow> ustr) \<Rightarrow> siwn_params \<Rightarrow> ustr list" where
  "body_lines fmt_ts p =
     [domain p @ sign_in_suffix, address p, [],
      field_line ''URI'' (uri p), field_line ''Version'' (version p), field_line ''Chain ID'' (chain_id p),
      field_line ''Nonce'' (nonce p), field_line ''Issued At'' (fmt_ts (issued_at p)),
      field_line ''Expiration Time'' (fmt_ts (expiration_time p))]"

primrec join_lines :: "ustr list \<Rightarrow> ustr" where
  "join_lines [] = []"
| "join_lines (l # ls) = (if ls = [] then l else l @ newline @ join_lines ls)"

definition build_caip122_message :: "(int \<Rightarrow> ustr) \<Rightarrow> siwn_params \<Rightarrow> siwn_error + ustr" where
  "build_caip122_message fmt_ts p =
     (case validate_field ''domain'' (domain p) of Inl e \<Rightarrow> Inl e | Inr _ \<Rightarrow>
     (case validate_field ''address'' (address p) of Inl e \<Rightarrow> Inl e | Inr _ \<Rightarrow>
     (case validate_field ''uri'' (uri p) of Inl e \<Rightarrow> Inl e | Inr _ \<Rightarrow>
     (case validate_field ''version'' (version p) of Inl e \<Rightarrow> Inl e | Inr _ \<Rightarrow>
     (case validate_field ''chain_id'' (chain_id p) of Inl e \<Rightarrow> Inl e | Inr _ \<Rightarrow>
     (case validate_field ''nonce'' (nonce p) of Inl e \<Rightarrow> Inl e | Inr _ \<Rightarrow>
       Inr (join_lines (body_lines fmt_ts p))))))))"


subsection \<open>Parsing the message\<close>

fun split_newlines :: "ustr \<Rightarrow> ustr list" where
  "split_newlines [] = [[]]"
| "split_newlines (c # cs) =
     (if c = 10 then [] # split_newlines cs
      else case split_newlines cs of [] \<Rightarrow> [[c]] | l # ls \<Rightarrow> (c # l) # ls)"

text \<open>\<open>str::lines\<close>: a final empty piece is not a line (there is no carriage return to strip).\<close>

definition str_lines :: "ustr \<Rightarrow> ustr list" where
  "str_lines s = (let ls = split_newlines s in if last ls = [] then butlast ls else ls)"

definition strip_prefix :: "ustr \<Rightarrow> ustr \<Rightarrow> ustr option" where
  "strip_prefix p s = (if take (length p) s = p then Some (drop (length p) s) else None)"

definition strip_suffix :: "ustr \<Rightarrow> ustr \<Rightarrow> ustr option" where
  "strip_suffix p s = map_option rev (strip_prefix (rev p) (rev s))"

definition pop_field :: "ustr list \<Rightarrow> string \<Rightarrow> siwn_error + (ustr \<times> ustr list)" where
  "pop_field it label =
     (case it of
        [] \<Rightarrow> Inl (MissingField label)
      | line # it \<Rightarrow>
          (case strip_prefix (lit label @ lit '': '') line of
             None \<Rightarrow> Inl (MissingField label)
           | Some v \<Rightarrow> Inr (v, it)))"

definition parse_timestamp :: "(ustr \<Rightarrow> int option) \<Rightarrow> ustr \<Rightarrow> siwn_error + int" where
  "parse_timestamp parse_ts s = (case parse_ts s of None \<Rightarrow> Inl (BadTimestamp s) | Some t \<Rightarrow> Inr t)"

text \<open>The six fields after the separator line, then the time stamps.\<close>

definition parse_fields ::
  "(ustr \<Rightarrow> int option) \<Rightarrow> ustr \<Rightarrow> ustr \<Rightarrow> ustr list \<Rightarrow> siwn_error + siwn_params" where
  "parse_fields parse_ts host addr it =
     (case pop_field it ''URI'' of Inl e \<Rightarrow> Inl e | Inr (u, it) \<Rightarrow>
     (case pop_field it ''Version'' of Inl e \<Rightarrow> Inl e | Inr (ver, it) \<Rightarrow>
     (case pop_field it ''Chain ID'' of Inl e \<Rightarrow> Inl e | Inr (chain, it) \<Rightarrow>
     (case pop_field it ''Nonce'' of Inl e \<Rightarrow> Inl e | Inr (n, it) \<Rightarrow>
     (case pop_field it ''Issued At'' of Inl e \<Rightarrow> Inl e | Inr (issued, it) \<Rightarrow>
     (case pop_field it ''Expiration Time'' of Inl e \<Rightarrow> Inl e | Inr (expiration, it) \<Rightarrow>
       if it \<noteq> [] then Inl (MalformedBody ''trailing content past last field'')
       else
         (case parse_timestamp parse_ts issued of Inl e \<Rightarrow> Inl e | Inr issued \<Rightarrow>
         (case parse_timestamp parse_ts expiration of Inl e \<Rightarrow> Inl e | Inr expiration \<Rightarrow>
           Inr \<lparr>domain = host, address = addr, uri = u, version = ver, chain_id = chain, nonce = n,
                issued_at = issued, expiration_time = expiration\<rparr>))))))))"

definition parse_caip122_message :: "(ustr \<Rightarrow> int option) \<Rightarrow> ustr \<Rightarrow> siwn_error + siwn_params" where
  "parse_caip122_message parse_ts body =
     (if list_ex (\<lambda>c. c = 13) body then Inl (MalformedBody ''carriage return in body'')
      else
        (case str_lines body of
           [] \<Rightarrow> Inl (MissingField ''domain header'')
         | first # it \<Rightarrow>
             (case strip_suffix sign_in_suffix first of
                None \<Rightarrow> Inl (MissingField ''domain header'')
              | Some host \<Rightarrow>
                  (case it of
                     [] \<Rightarrow> Inl (MissingField ''address'')
                   | addr # it \<Rightarrow>
                       (case it of
                          [] \<Rightarrow> Inl (MissingField ''blank separator'')
                        | blank # it \<Rightarrow>
                            if blank \<noteq> [] then Inl (MalformedBody ''non-empty separator line'')
                            else parse_fields parse_ts host addr it)))))"


subsection \<open>Signing\<close>

record siwn_signer =
  signer_sk :: private_key
  signer_pk :: cheetah_point

definition siwn_signer_new :: "private_key \<Rightarrow> (schnorr_error, siwn_signer) outcome" where
  "siwn_signer_new sk = and_then (public_key sk) (\<lambda>pk. Ok \<lparr>signer_sk = sk, signer_pk = pk\<rparr>)"

definition siwn_sign ::
  "(int \<Rightarrow> ustr) \<Rightarrow> (bytes \<Rightarrow> ustr) \<Rightarrow> siwn_signer \<Rightarrow> siwn_params \<Rightarrow> (siwn_error, siwn_header) outcome" where
  "siwn_sign fmt_ts b58_encode signer p =
     (case build_caip122_message fmt_ts p of
        Inl e \<Rightarrow> Err e
      | Inr body \<Rightarrow>
          (case tip5_with_domain SIWN (utf8 body) of
             None \<Rightarrow> Panic
           | Some digest \<Rightarrow>
               (case schnorr_sign (signer_sk signer) digest of
                  Panic \<Rightarrow> Panic
                | Err _ \<Rightarrow> Err (Other ''siwn sign'')
                | Ok s \<Rightarrow>
                    (case encode_signature b58_encode (signer_pk signer) s of
                       Inl _ \<Rightarrow> Err (Other ''encode signature'')
                     | Inr j \<Rightarrow> Ok \<lparr>message = body, signature = j\<rparr>))))"


subsection \<open>Verification\<close>

record siwn_context =
  expected_domain :: ustr
  expected_chain_id :: ustr
  expected_uri :: ustr
  expected_version :: ustr

record siwn_codecs =
  b64_decode :: "bytes \<Rightarrow> bytes option"
  json_header :: "bytes \<Rightarrow> siwn_header option"
  parse_time :: "ustr \<Rightarrow> int option"
  b58_enc :: "bytes \<Rightarrow> ustr"
  b58_dec :: "ustr \<Rightarrow> bytes option"

definition MAX_SIWN_HEADER_LEN :: nat where "MAX_SIWN_HEADER_LEN = 16 * 1024"
definition MAX_SIWN_BODY_LEN :: nat where "MAX_SIWN_BODY_LEN = 4 * 1024"
definition MAX_SIWN_WINDOW :: nat where "MAX_SIWN_WINDOW = 3600 * 1000000000"

text \<open>The checks of \<open>verify\<close> against the context and the clock, in the order of the source.\<close>

definition check_context :: "siwn_context \<Rightarrow> int \<Rightarrow> siwn_params \<Rightarrow> siwn_error option" where
  "check_context ctx now p =
     (if domain p \<noteq> expected_domain ctx then Some (DomainMismatch (expected_domain ctx) (domain p))
      else if chain_id p \<noteq> expected_chain_id ctx then Some (ChainIdMismatch (expected_chain_id ctx) (chain_id p))
      else if uri p \<noteq> expected_uri ctx then Some (UriMismatch (expected_uri ctx) (uri p))
      else if version p \<noteq> expected_version ctx then Some (VersionMismatch (expected_version ctx) (version p))
      else if now < issued_at p then Some NotYetValid
      else if expiration_time p \<le> now then Some Expired
      else None)"

text \<open>The signature part: the recovered digest, when the signature is good.\<close>

definition check_signature ::
  "siwn_codecs \<Rightarrow> siwn_header \<Rightarrow> siwn_params \<Rightarrow> (siwn_error, u64 list) outcome" where
  "check_signature cd bdl p =
     (case decode_signature (b58_dec cd) (signature bdl) of
        Panic \<Rightarrow> Panic
      | Err _ \<Rightarrow> Err (Other ''signature decode'')
      | Ok (pk, s) \<Rightarrow>
          (case into_base58 (b58_enc cd) pk of
             Inl _ \<Rightarrow> Err (Other ''base58'')
           | Inr b58 \<Rightarrow>
               if b58 \<noteq> address p then Err (Other ''signature pubkey does not match CAIP-122 address'')
               else
                 (case tip5_with_domain SIWN (utf8 (message bdl)) of
                    None \<Rightarrow> Panic
                  | Some digest \<Rightarrow>
                      (case schnorr_verify pk digest s of
                         Panic \<Rightarrow> Panic
                       | Err _ \<Rightarrow> Err SiwnBadSignature
                       | Ok _ \<Rightarrow> Ok digest))))"

definition replay_window :: "siwn_params \<Rightarrow> nat" where
  "replay_window p =
     (let span = expiration_time p - issued_at p
      in min (if span < 0 then MAX_SIWN_WINDOW else nat span) MAX_SIWN_WINDOW)"

definition replay_key :: "u64 list \<Rightarrow> bytes" where
  "replay_key digest = prefixed REPLAY_SIWN (concat (map to_le_bytes digest))"

definition siwn_verify ::
  "siwn_codecs \<Rightarrow> ('c \<Rightarrow> bytes \<Rightarrow> nat \<Rightarrow> nat \<Rightarrow> bool \<times> 'c) \<Rightarrow> ustr \<Rightarrow> siwn_context \<Rightarrow> 'c \<Rightarrow> int \<Rightarrow> nat \<Rightarrow>
    (siwn_error, verified_identity) outcome \<times> 'c" where
  "siwn_verify cd cache_seen header_b64 ctx cache now clock =
     (if MAX_SIWN_HEADER_LEN < length (utf8 header_b64)
      then (Err (MalformedBody ''header exceeds maximum length''), cache)
      else
        (case b64_decode cd (utf8 header_b64) of None \<Rightarrow> (Err Base64, cache) | Some json \<Rightarrow>
        (case json_header cd json of None \<Rightarrow> (Err Json, cache) | Some bdl \<Rightarrow>
          if MAX_SIWN_BODY_LEN < length (utf8 (message bdl))
          then (Err (MalformedBody ''body exceeds maximum length''), cache)
          else
            (case parse_caip122_message (parse_time cd) (message bdl) of Inl e \<Rightarrow> (Err e, cache) | Inr p \<Rightarrow>
            (case check_context ctx now p of Some e \<Rightarrow> (Err e, cache) | None \<Rightarrow>
            (case check_signature cd bdl p of Panic \<Rightarrow> (Panic, cache) | Err e \<Rightarrow> (Err e, cache) | Ok digest \<Rightarrow>
               let (hit, cache) = cache_seen cache (replay_key digest) (replay_window p) clock
               in if hit then (Err Replay, cache)
                  else (Ok \<lparr>id_address = address p, id_nonce = nonce p, id_issued_at = issued_at p,
                            id_expiration_time = expiration_time p\<rparr>, cache)))))))"


subsection \<open>Round trip of the message\<close>

lemma split_newlines_append:
  "10 \<notin> set l \<Longrightarrow> split_newlines (l @ 10 # rest) = l # split_newlines rest"
  by (induction l) simp_all

lemma split_newlines_single: "10 \<notin> set l \<Longrightarrow> split_newlines l = [l]"
  by (induction l) simp_all

lemma split_join_lines:
  "ls \<noteq> [] \<Longrightarrow> \<forall>l\<in>set ls. 10 \<notin> set l \<Longrightarrow> split_newlines (join_lines ls) = ls"
  by (induction ls) (auto simp: newline_def split_newlines_append split_newlines_single)

lemma str_lines_join:
  "ls \<noteq> [] \<Longrightarrow> \<forall>l\<in>set ls. 10 \<notin> set l \<Longrightarrow> last ls \<noteq> [] \<Longrightarrow> str_lines (join_lines ls) = ls"
  by (simp add: str_lines_def split_join_lines)

lemma strip_prefix_append [simp]: "strip_prefix p (p @ s) = Some s"
  by (simp add: strip_prefix_def)

lemma strip_suffix_append [simp]: "strip_suffix p (s @ p) = Some s"
  by (simp add: strip_suffix_def)

lemma strip_prefix_Some: "strip_prefix p s = Some r \<longleftrightarrow> s = p @ r"
  by (auto simp: strip_prefix_def split: if_splits) (metis append_take_drop_id)

lemma strip_suffix_Some: "strip_suffix p s = Some r \<longleftrightarrow> s = r @ p"
  by (auto simp: strip_suffix_def strip_prefix_Some) (metis rev_append rev_rev_ident)+

definition clean :: "ustr \<Rightarrow> bool" where
  "clean s \<longleftrightarrow> \<not> list_ex is_control s"

lemma clean_no_breaks: "clean s \<Longrightarrow> 10 \<notin> set s \<and> 13 \<notin> set s"
  by (auto simp: clean_def list_ex_iff is_control_def)

lemma build_Inr_iff: "build_caip122_message fmt_ts p = Inr body \<longleftrightarrow>
    clean (domain p) \<and> clean (address p) \<and> clean (uri p) \<and> clean (version p) \<and> clean (chain_id p) \<and>
    clean (nonce p) \<and> body = join_lines (body_lines fmt_ts p)"
  by (auto simp: build_caip122_message_def validate_field_def clean_def)

lemma literals_no_breaks:
  "10 \<notin> set sign_in_suffix" "13 \<notin> set sign_in_suffix"
  by (simp_all add: sign_in_suffix_def)

lemma body_lines_no_breaks:
  assumes "build_caip122_message fmt_ts p = Inr body"
    and "clean (fmt_ts (issued_at p))" "clean (fmt_ts (expiration_time p))"
  shows "\<forall>l\<in>set (body_lines fmt_ts p). 10 \<notin> set l \<and> 13 \<notin> set l"
  using assms clean_no_breaks literals_no_breaks
  by (simp add: build_Inr_iff body_lines_def field_line_def)

lemma join_lines_no_cr: "\<forall>l\<in>set ls. 13 \<notin> set l \<Longrightarrow> 13 \<notin> set (join_lines ls)"
  by (induction ls) (auto simp: newline_def)

lemma strip_prefix_None: "strip_prefix p s = None \<longleftrightarrow> (\<forall>r. s \<noteq> p @ r)"
  using strip_prefix_Some [of p s] by (cases "strip_prefix p s") auto

lemma pop_field_Inr [simp]: "pop_field it label = Inr (v, rest) \<longleftrightarrow> it = field_line label v # rest"
proof (cases it)
  case (Cons line ls)
  then show ?thesis
    by (auto simp: pop_field_def field_line_def strip_prefix_Some strip_prefix_None
        simp del: lit_Cons split: option.splits)
qed (simp add: pop_field_def)

lemma pop_field_line [simp]: "pop_field (field_line label v # rest) label = Inr (v, rest)"
  by simp

lemma parse_build:
  assumes "build_caip122_message fmt_ts p = Inr body"
    and "clean (fmt_ts (issued_at p))" "clean (fmt_ts (expiration_time p))"
    and "parse_ts (fmt_ts (issued_at p)) = Some (issued_at p)"
    and "parse_ts (fmt_ts (expiration_time p)) = Some (expiration_time p)"
  shows "parse_caip122_message parse_ts body = Inr p"
proof -
  note nb = body_lines_no_breaks [OF assms(1-3)]
  have body: "body = join_lines (body_lines fmt_ts p)" using assms(1) by (simp add: build_Inr_iff)
  have "last (body_lines fmt_ts p) \<noteq> []" "body_lines fmt_ts p \<noteq> []"
    by (simp_all add: body_lines_def field_line_def)
  then have lines: "str_lines body = body_lines fmt_ts p"
    unfolding body using nb by (intro str_lines_join) auto
  have cr: "\<not> list_ex (\<lambda>c. c = 13) body"
    using join_lines_no_cr [of "body_lines fmt_ts p"] nb by (auto simp: list_ex_iff body)
  have "parse_fields parse_ts (domain p) (address p) (drop 3 (body_lines fmt_ts p)) = Inr p"
    using assms(4,5) by (simp add: parse_fields_def body_lines_def parse_timestamp_def)
  then show ?thesis
    by (simp add: parse_caip122_message_def cr lines) (simp add: body_lines_def)
qed

text \<open>
  Strictness: a body that parses is the template around its fields, with at most one newline after it.
\<close>

lemma join_split_newlines: "join_lines (split_newlines s) = s"
proof (induction s)
  case (Cons c s)
  have ne: "split_newlines s \<noteq> []"
    by (cases s) (auto split: list.splits)
  show ?case
  proof (cases "c = 10")
    case True
    then show ?thesis using Cons ne by (simp add: newline_def)
  next
    case False
    then show ?thesis using Cons by (auto simp: newline_def split: list.splits if_splits)
  qed
qed simp

lemma join_lines_append: "ls \<noteq> [] \<Longrightarrow> join_lines (ls @ [l]) = join_lines ls @ newline @ l"
  by (induction ls) auto

lemma str_lines_body:
  "str_lines s = ls \<Longrightarrow> ls \<noteq> [] \<Longrightarrow> s = join_lines ls \<or> s = join_lines ls @ newline"
proof -
  assume ls: "str_lines s = ls" "ls \<noteq> []"
  let ?q = "split_newlines s"
  have s: "s = join_lines ?q" by (simp add: join_split_newlines)
  show ?thesis
  proof (cases "last ?q = []")
    case True
    then have "ls = butlast ?q" using ls(1) by (simp add: str_lines_def)
    moreover have "?q \<noteq> []" using ls(2) calculation by auto
    ultimately have "?q = ls @ [[]]" using True by (metis append_butlast_last_id)
    then show ?thesis using s ls(2) join_lines_append [of ls "[]"] by simp
  next
    case False
    then show ?thesis using s ls(1) by (simp add: str_lines_def)
  qed
qed

definition raw_body :: "siwn_params \<Rightarrow> ustr \<Rightarrow> ustr \<Rightarrow> ustr" where
  "raw_body p issued expiration =
     join_lines [domain p @ sign_in_suffix, address p, [], field_line ''URI'' (uri p),
       field_line ''Version'' (version p), field_line ''Chain ID'' (chain_id p),
       field_line ''Nonce'' (nonce p), field_line ''Issued At'' issued,
       field_line ''Expiration Time'' expiration]"

lemma parse_fields_Inr:
  "parse_fields parse_ts host addr it = Inr p \<Longrightarrow>
    \<exists>issued expiration. domain p = host \<and> address p = addr \<and>
      parse_ts issued = Some (issued_at p) \<and> parse_ts expiration = Some (expiration_time p) \<and>
      it = [field_line ''URI'' (uri p), field_line ''Version'' (version p), field_line ''Chain ID'' (chain_id p),
        field_line ''Nonce'' (nonce p), field_line ''Issued At'' issued, field_line ''Expiration Time'' expiration]"
  by (auto simp: parse_fields_def parse_timestamp_def split: sum.splits prod.splits if_splits option.splits)
     blast

lemma parse_strict:
  assumes "parse_caip122_message parse_ts body = Inr p"
  shows "\<exists>issued expiration. parse_ts issued = Some (issued_at p) \<and>
    parse_ts expiration = Some (expiration_time p) \<and>
    (body = raw_body p issued expiration \<or> body = raw_body p issued expiration @ newline)"
proof -
  from assms obtain host addr it where l: "str_lines body = (host @ sign_in_suffix) # addr # [] # it"
    and f: "parse_fields parse_ts host addr it = Inr p"
    by (auto simp: parse_caip122_message_def strip_suffix_Some split: if_splits list.splits option.splits)
  obtain issued expiration where "host = domain p" "addr = address p"
    "parse_ts issued = Some (issued_at p)" "parse_ts expiration = Some (expiration_time p)"
    "it = [field_line ''URI'' (uri p), field_line ''Version'' (version p), field_line ''Chain ID'' (chain_id p),
        field_line ''Nonce'' (nonce p), field_line ''Issued At'' issued, field_line ''Expiration Time'' expiration]"
    using parse_fields_Inr [OF f] by metis
  then show ?thesis using str_lines_body [OF l] unfolding raw_body_def by blast
qed


subsection \<open>Verification\<close>

definition header_bundle :: "siwn_codecs \<Rightarrow> ustr \<Rightarrow> siwn_header \<Rightarrow> siwn_params \<Rightarrow> bool" where
  "header_bundle cd header_b64 bdl p \<longleftrightarrow>
     length (utf8 header_b64) \<le> MAX_SIWN_HEADER_LEN \<and>
     (\<exists>json. b64_decode cd (utf8 header_b64) = Some json \<and> json_header cd json = Some bdl) \<and>
     length (utf8 (message bdl)) \<le> MAX_SIWN_BODY_LEN \<and>
     parse_caip122_message (parse_time cd) (message bdl) = Inr p"

lemma header_bundle_unique: "header_bundle cd h b p \<Longrightarrow> header_bundle cd h b' p' \<Longrightarrow> b = b' \<and> p = p'"
  by (auto simp: header_bundle_def)

definition identity_of :: "siwn_params \<Rightarrow> verified_identity" where
  "identity_of p = \<lparr>id_address = address p, id_nonce = nonce p, id_issued_at = issued_at p,
     id_expiration_time = expiration_time p\<rparr>"

lemma siwn_verify_bundle:
  assumes "header_bundle cd h bdl p"
  shows "siwn_verify cd sn h ctx c now t =
    (case check_context ctx now p of Some e \<Rightarrow> (Err e, c) | None \<Rightarrow>
    (case check_signature cd bdl p of Panic \<Rightarrow> (Panic, c) | Err e \<Rightarrow> (Err e, c) | Ok digest \<Rightarrow>
       let (hit, c') = sn c (replay_key digest) (replay_window p) t
       in if hit then (Err Replay, c') else (Ok (identity_of p), c')))"
  using assms unfolding identity_of_def by (auto simp: siwn_verify_def header_bundle_def not_less)

lemma siwn_verify_Ok:
  "siwn_verify cd sn h ctx c now t = (Ok i, c') \<longleftrightarrow>
    (\<exists>bdl p digest. header_bundle cd h bdl p \<and> check_context ctx now p = None \<and>
      check_signature cd bdl p = Ok digest \<and>
      sn c (replay_key digest) (replay_window p) t = (False, c') \<and> i = identity_of p)"
  (is "?L \<longleftrightarrow> ?R")
proof
  assume ?L
  then have "\<exists>bdl p. header_bundle cd h bdl p"
    by (auto simp: siwn_verify_def header_bundle_def not_less split: if_splits option.splits sum.splits)
  then obtain bdl p where b: "header_bundle cd h bdl p" by blast
  from \<open>?L\<close> show ?R
    unfolding siwn_verify_bundle [OF b] using b
    by (auto split: option.splits outcome.splits prod.splits if_splits)
next
  assume ?R
  then obtain bdl p digest where b: "header_bundle cd h bdl p" and
    "check_context ctx now p = None" "check_signature cd bdl p = Ok digest"
    "sn c (replay_key digest) (replay_window p) t = (False, c')" "i = identity_of p" by blast
  then show ?L unfolding siwn_verify_bundle [OF b] by simp
qed

lemma check_context_None: "check_context ctx now p = None \<longleftrightarrow>
    domain p = expected_domain ctx \<and> chain_id p = expected_chain_id ctx \<and> uri p = expected_uri ctx \<and>
    version p = expected_version ctx \<and> issued_at p \<le> now \<and> now < expiration_time p"
  by (auto simp: check_context_def)

lemma check_signature_Ok: "check_signature cd bdl p = Ok digest \<longleftrightarrow>
    (\<exists>pk s. decode_signature (b58_dec cd) (signature bdl) = Ok (pk, s) \<and>
      into_base58 (b58_enc cd) pk = Inr (address p) \<and>
      tip5_with_domain SIWN (utf8 (message bdl)) = Some digest \<and> schnorr_verify pk digest s = Ok ())"
  by (auto simp: check_signature_def split: outcome.splits prod.splits sum.splits option.splits if_splits)

context replay_cache begin

text \<open>An accepted header is refused while the cache window of its first use runs.\<close>

lemma siwn_refuses_replay:
  assumes "siwn_verify cd seen h ctx c now t = (Ok i, c')"
  shows "\<exists>bdl p. header_bundle cd h bdl p \<and>
    (\<forall>ctx' now' t' j c''. t' - t \<le> replay_window p \<longrightarrow> siwn_verify cd seen h ctx' c' now' t' \<noteq> (Ok j, c''))"
proof -
  obtain bdl p digest where b: "header_bundle cd h bdl p" "check_signature cd bdl p = Ok digest"
    and s: "seen c (replay_key digest) (replay_window p) t = (False, c')"
    using assms by (auto simp: siwn_verify_Ok)
  have "siwn_verify cd seen h ctx' c' now' t' \<noteq> (Ok j, c'')" if "t' - t \<le> replay_window p" for ctx' now' t' j c''
  proof
    assume "siwn_verify cd seen h ctx' c' now' t' = (Ok j, c'')"
    then obtain b' p' d' where "header_bundle cd h b' p'" "check_signature cd b' p' = Ok d'"
      "seen c' (replay_key d') (replay_window p') t' = (False, c'')"
      by (auto simp: siwn_verify_Ok)
    with b have "seen c' (replay_key digest) (replay_window p) t' = (False, c'')"
      using header_bundle_unique by fastforce
    with recorded [OF s that] show False by simp
  qed
  with b show ?thesis by blast
qed

end

text \<open>
  The window is capped at one hour while the validity of a message is not: a message valid for longer
  is accepted again once the hour is over.
\<close>

lemma siwn_replay_after_window:
  assumes first: "siwn_verify cd seen h ctx c now t = (Ok i, c')"
    and late: "header_bundle cd h bdl p" "replay_window p < t' - t"
    and valid: "now \<le> now'" "now' < expiration_time p"
  shows "fst (siwn_verify cd seen h ctx c' now' t') = Ok i"
proof -
  obtain digest where ok: "check_context ctx now p = None" "check_signature cd bdl p = Ok digest"
    "seen c (replay_key digest) (replay_window p) t = (False, c')" "i = identity_of p"
    using first late(1) header_bundle_unique by (fastforce simp: siwn_verify_Ok)
  have "check_context ctx now' p = None" using ok(1) valid by (simp add: check_context_None)
  moreover have "c' (replay_key digest) = Some t"
    using ok(3) seen_state [of c "replay_key digest" "replay_window p" t] by auto
  then have "\<not> fst (seen c' (replay_key digest) (replay_window p) t')"
    using late(2) by (auto simp: seen_iff)
  then obtain c'' where "seen c' (replay_key digest) (replay_window p) t' = (False, c'')"
    by (metis prod.collapse)
  ultimately show ?thesis
    using ok by (simp add: siwn_verify_bundle [OF late(1)])
qed

text \<open>How long an accepted message is remembered, in numbers: its validity, at most an hour.\<close>

definition sign_in_span :: "siwn_params \<Rightarrow> nat" where
  "sign_in_span p = nat (min (expiration_time p - issued_at p) (3600 * 1000000000))"

lemma sign_in_window: "check_context ctx now p = None \<Longrightarrow> replay_window p = sign_in_span p"
  by (auto simp: check_context_None replay_window_def sign_in_span_def MAX_SIWN_WINDOW_def Let_def)

lemma replay_key_inject: "replay_key d = replay_key e \<longleftrightarrow> d = (e :: u64 list)"
proof
  assume "replay_key d = replay_key e"
  then have eq: "concat (map to_le_bytes d) = concat (map to_le_bytes e)"
    using prefixed_domains_disjoint by (simp add: replay_key_def)
  have "length (concat (map to_le_bytes (x :: u64 list))) = 8 * length x" for x
    by (induction x) (simp_all add: codec)
  with eq have "length d = length e" by (metis mult_cancel1 zero_neq_numeral)
  with eq show "d = e" by (simp add: to_le_bytes_concat_inject)
qed simp

text \<open>What a call of the verifier does to the cache: nothing, or one call of the cache with the window of its message.\<close>

lemma siwn_verify_cache:
  assumes "siwn_verify cd seen h ctx c now t = (r, c')"
  shows "c' = c \<or> (\<exists>bdl p digest b. header_bundle cd h bdl p \<and> check_context ctx now p = None \<and>
    seen c (replay_key digest) (sign_in_span p) t = (b, c'))"
proof (cases "\<exists>bdl p. header_bundle cd h bdl p")
  case False
  with assms have "c' = c"
    by (auto simp: siwn_verify_def header_bundle_def not_less split: if_splits option.splits sum.splits)
  then show ?thesis by simp
next
  case True
  then obtain bdl p where b: "header_bundle cd h bdl p" by blast
  show ?thesis
    using assms unfolding siwn_verify_bundle [OF b]
    by (auto simp: Let_def sign_in_window b split: option.splits outcome.splits prod.splits if_splits intro!: exI [of _ bdl] exI [of _ p])
qed

lemma accepted_sign_in:
  assumes "siwn_verify cd seen h ctx c now t = (Ok i, c')" and b: "header_bundle cd h bdl p"
  obtains digest where "check_context ctx now p = None" "check_signature cd bdl p = Ok digest"
    "seen c (replay_key digest) (sign_in_span p) t = (False, c')" "i = identity_of p" "c' (replay_key digest) = Some t"
proof -
  obtain digest where ok: "check_context ctx now p = None" "check_signature cd bdl p = Ok digest"
    "seen c (replay_key digest) (replay_window p) t = (False, c')" "i = identity_of p"
    using assms header_bundle_unique by (fastforce simp: siwn_verify_Ok)
  moreover have "c' (replay_key digest) = Some t"
    using ok(3) seen_state [of c "replay_key digest" "replay_window p" t] by auto
  ultimately show ?thesis using that by (simp add: sign_in_window)
qed

text \<open>
  What may happen to the shared cache after an acceptance at \<open>t\<close> without undoing it: any number of sign-ins, accepted or
  not, by whatever header and context, and of calls of other users of the cache, each at an instant that its own window
  still reaches back from.
\<close>

inductive undisturbed :: "siwn_codecs \<Rightarrow> nat \<Rightarrow> cache \<Rightarrow> cache \<Rightarrow> bool" for cd :: siwn_codecs and t :: nat where
  Nothing: "undisturbed cd t c c"
| Sign_in: "undisturbed cd t c cA \<Longrightarrow> siwn_verify cd seen h ctx cA now t1 = (r, cB) \<Longrightarrow>
    (\<And>bdl p. header_bundle cd h bdl p \<Longrightarrow> t1 - t \<le> sign_in_span p) \<Longrightarrow> undisturbed cd t c cB"
| Other_use: "undisturbed cd t c cA \<Longrightarrow> seen cA key ttl t1 = (b, cB) \<Longrightarrow> t1 - t \<le> ttl \<Longrightarrow> undisturbed cd t c cB"

lemma seen_keeps: "c k = Some t \<Longrightarrow> seen c key ttl t1 = (b, c') \<Longrightarrow> t1 - t \<le> ttl \<Longrightarrow> c' k = Some t"
  using seen_state [of c key ttl t1] seen_iff [of c key ttl t1] by (auto simp: sweep_def)

lemma undisturbed_remembers: "undisturbed cd t c c' \<Longrightarrow> c k = Some t \<Longrightarrow> c' k = Some t"
proof (induction rule: undisturbed.induct)
  case (Sign_in c cA h ctx now t1 r cB)
  then have "cA k = Some t" by blast
  with Sign_in.hyps(2,3) show ?case by (blast dest: siwn_verify_cache intro: seen_keeps)
qed (auto intro: seen_keeps)

text \<open>The answer to an accepted header, shown again while its key is, or is no longer, in the cache.\<close>

lemma shown_again:
  assumes "header_bundle cd h bdl p" "check_signature cd bdl p = Ok digest" "check_context ctx now p = None"
  shows "fst (siwn_verify cd seen h ctx c now t) =
    (if \<exists>i. c (replay_key digest) = Some i \<and> t - i \<le> sign_in_span p then Err Replay else Ok (identity_of p))"
  using seen_iff [of c "replay_key digest" "sign_in_span p" t] assms(2,3)
  by (auto simp: siwn_verify_bundle [OF assms(1)] sign_in_window [OF assms(3)] Let_def split: prod.split)

lemma swept_by_another:
  assumes "c k = Some t" "k' \<noteq> k" "seen c k' ttl t1 = (b, c')"
  shows "c' k = (if t1 - t \<le> ttl then Some t else None)"
  using assms seen_state [of c k' ttl t1] by (auto simp: sweep_def)


subsection \<open>Properties\<close>

text \<open>C40: a message that builds parses back to its parameters, for every time-stamp codec that
  round-trips on the two instants and writes no control characters.\<close>

theorem siwn_message_round_trip:
  assumes "build_caip122_message fmt_ts p = Inr body"
    and "clean (fmt_ts (issued_at p))" "clean (fmt_ts (expiration_time p))"
    and "parse_ts (fmt_ts (issued_at p)) = Some (issued_at p)"
    and "parse_ts (fmt_ts (expiration_time p)) = Some (expiration_time p)"
  shows "parse_caip122_message parse_ts body = Inr p"
  by (rule parse_build [OF assms])

definition sample_params :: siwn_params where
  "sample_params = \<lparr>domain = lit ''a.io'', address = lit ''abc'', uri = lit ''u'', version = lit ''1'',
     chain_id = lit ''c'', nonce = lit ''n'', issued_at = 1, expiration_time = 2\<rparr>"

definition digit_ts :: "int \<Rightarrow> ustr" where
  "digit_ts t = [48 + nat t]"

definition digit_parse :: "ustr \<Rightarrow> int option" where
  "digit_parse s = Some (int (hd s) - 48)"

theorem siwn_message_round_trip_witness:
  "\<exists>body. build_caip122_message digit_ts sample_params = Inr body \<and>
    parse_caip122_message digit_parse body = Inr sample_params"
proof -
  let ?body = "join_lines (body_lines digit_ts sample_params)"
  have b: "build_caip122_message digit_ts sample_params = Inr ?body"
    by (simp add: build_Inr_iff clean_def sample_params_def is_control_def)
  have "parse_caip122_message digit_parse ?body = Inr sample_params"
    by (rule siwn_message_round_trip [OF b])
      (simp_all add: clean_def digit_ts_def digit_parse_def is_control_def sample_params_def)
  with b show ?thesis by blast
qed

text \<open>the parser is strict: a body that parses is the template around its fields, with at most one
  newline after the last one, and the two time stamps are the parsed values of its last two fields.\<close>

theorem siwn_parser_strict:
  assumes "parse_caip122_message parse_ts body = Inr p"
  shows "\<exists>issued expiration. parse_ts issued = Some (issued_at p) \<and>
    parse_ts expiration = Some (expiration_time p) \<and>
    (body = raw_body p issued expiration \<or> body = raw_body p issued expiration @ newline)"
  by (rule parse_strict [OF assms])

theorem siwn_parser_strict_witness:
  "\<exists>body p. parse_caip122_message digit_parse body = Inr p \<and>
    (\<exists>issued expiration. body = raw_body p issued expiration \<or> body = raw_body p issued expiration @ newline)"
proof -
  have b: "build_caip122_message digit_ts sample_params = Inr (join_lines (body_lines digit_ts sample_params))"
    by (simp add: build_Inr_iff clean_def sample_params_def is_control_def)
  have "parse_caip122_message digit_parse (join_lines (body_lines digit_ts sample_params)) = Inr sample_params"
    by (rule parse_build [OF b])
      (simp_all add: clean_def digit_ts_def digit_parse_def is_control_def sample_params_def)
  with siwn_parser_strict [OF this] show ?thesis by blast
qed

text \<open>C12: when an accepted sign-in is accepted a second time. Let a header be accepted at \<open>t\<close>, then another one, whose
  message has another digest, at \<open>t1\<close>. The first header, shown again in its context before its message expires, is
  accepted again exactly when the window of its message is over, or when the second message has a window that is shorter
  than the time from \<open>t\<close> to \<open>t1\<close>; in every other case it is refused as a replay. The window of a message is its validity,
  one hour at most.\<close>

theorem siwn_accepted_again_exactly:
  "\<not> (siwn_verify cd seen h ctx c now t = (Ok i, cA) \<and> header_bundle cd h bdl p \<and>
      siwn_verify cd seen h1 ctx1 cA now1 t1 = (Ok i1, cB) \<and> header_bundle cd h1 bdl1 p1 \<and>
      tip5_with_domain SIWN (utf8 (message bdl1)) \<noteq> tip5_with_domain SIWN (utf8 (message bdl)) \<and>
      now \<le> now' \<and> now' < expiration_time p \<and>
      fst (siwn_verify cd seen h ctx cB now' t') \<noteq>
        (if sign_in_span p < t' - t \<or> sign_in_span p1 < t1 - t then Ok i else Err Replay))"
proof
  assume a: "siwn_verify cd seen h ctx c now t = (Ok i, cA) \<and> header_bundle cd h bdl p \<and>
      siwn_verify cd seen h1 ctx1 cA now1 t1 = (Ok i1, cB) \<and> header_bundle cd h1 bdl1 p1 \<and>
      tip5_with_domain SIWN (utf8 (message bdl1)) \<noteq> tip5_with_domain SIWN (utf8 (message bdl)) \<and>
      now \<le> now' \<and> now' < expiration_time p \<and>
      fst (siwn_verify cd seen h ctx cB now' t') \<noteq>
        (if sign_in_span p < t' - t \<or> sign_in_span p1 < t1 - t then Ok i else Err Replay)"
  obtain d where d: "check_context ctx now p = None" "check_signature cd bdl p = Ok d" "i = identity_of p"
    "cA (replay_key d) = Some t"
    using a by (blast elim: accepted_sign_in)
  obtain e where e: "check_signature cd bdl1 p1 = Ok e" "seen cA (replay_key e) (sign_in_span p1) t1 = (False, cB)"
    using a by (blast elim: accepted_sign_in)
  have "d \<noteq> e" using a d(2) e(1) by (auto simp: check_signature_Ok)
  then have "cB (replay_key d) = (if t1 - t \<le> sign_in_span p1 then Some t else None)"
    using swept_by_another [OF d(4) _ e(2)] by (simp add: replay_key_inject)
  moreover have "check_context ctx now' p = None" using d(1) a by (simp add: check_context_None)
  ultimately show False
    using a d(3) shown_again [of cd h bdl p d ctx now' cB t'] d(2) by (auto split: if_splits)
qed

text \<open>C2: a message that signed in at \<open>t\<close> does not sign in again while its window runs, whatever happens in between to the
  cache it shares: any number of other sign-ins and cache calls, as long as none of them has a window too short to reach
  back to \<open>t\<close> (such a call forgets the message, and the replay succeeds). The second header need not be the first one:
  one with the same message and another signature or encoding, in any context and at any time, is refused too.\<close>

theorem siwn_no_replay_in_window:
  "\<not> (siwn_verify cd seen h ctx c now t = (Ok i, cA) \<and> header_bundle cd h bdl p \<and>
      undisturbed cd t cA cB \<and> t' - t \<le> sign_in_span p \<and>
      header_bundle cd h' bdl' p' \<and> message bdl' = message bdl \<and>
      siwn_verify cd seen h' ctx' cB now' t' = (Ok j, cC))"
proof
  assume a: "siwn_verify cd seen h ctx c now t = (Ok i, cA) \<and> header_bundle cd h bdl p \<and>
      undisturbed cd t cA cB \<and> t' - t \<le> sign_in_span p \<and>
      header_bundle cd h' bdl' p' \<and> message bdl' = message bdl \<and>
      siwn_verify cd seen h' ctx' cB now' t' = (Ok j, cC)"
  obtain d where d: "check_signature cd bdl p = Ok d" "cA (replay_key d) = Some t"
    using a by (blast elim: accepted_sign_in)
  obtain e where e: "check_signature cd bdl' p' = Ok e" "seen cB (replay_key e) (sign_in_span p') t' = (False, cC)"
    using a by (blast elim: accepted_sign_in)
  have same: "p' = p" "e = d"
    using a d(1) e(1) by (auto simp: header_bundle_def check_signature_Ok)
  have "cB (replay_key d) = Some t" using a d(2) undisturbed_remembers by blast
  with a e(2) show False
    unfolding same using seen_iff [of cB "replay_key d" "sign_in_span p" t'] by auto
qed

end
