(* ===== verification/Merkle.thy ===== *)
theory Merkle
  imports Domain
begin

text \<open>
  The Merkle tree crate \<^verbatim>\<open>crates/nockchain-tip5-rs/src/lib.rs\<close>.  Its two hash functions \<open>hash_varlen\<close> and
  \<open>hash_10\<close> come from the external crate \<open>nockchain-math\<close>: they are the parameters \<open>hv\<close> and \<open>h10\<close>.
  What the tree relies on is that a digest has five canonical limbs (\<open>digest_fn\<close>).  Soundness is stated
  with explicit collisions: the two colliding inputs are inputs that the two verifications hash.
\<close>

subsection \<open>Digests\<close>

type_synonym tip5_hash = "u64 list"

definition TIP5_ZERO :: tip5_hash where
  "TIP5_ZERO = replicate 5 0"

datatype field_range_error = FieldRangeError (bad_limb: u64)

fun check_tip5_limbs :: "tip5_hash \<Rightarrow> field_range_error + unit" where
  "check_tip5_limbs [] = Inr ()"
| "check_tip5_limbs (l # ls) = (if PRIME \<le> l then Inl (FieldRangeError l) else check_tip5_limbs ls)"

record proof_node =
  hash :: tip5_hash
  side :: bool

definition is_digest :: "tip5_hash \<Rightarrow> bool" where
  "is_digest h \<longleftrightarrow> length h = 5 \<and> (\<forall>l\<in>set h. based l)"

definition digest_fn :: "(u64 list \<Rightarrow> tip5_hash) \<Rightarrow> bool" where
  "digest_fn f \<longleftrightarrow> (\<forall>xs. is_digest (f xs))"

lemma check_tip5_limbs_iff: "check_tip5_limbs h = Inr () \<longleftrightarrow> (\<forall>l\<in>set h. based l)"
  by (induction h) (auto simp: word_le_def)


subsection \<open>The atom of a digest\<close>

text \<open>
  The byte loops of \<open>tip5_to_atom_le_bytes\<close>, on \<open>u128\<close> intermediate values: multiply the first
  \<open>result_len\<close> bytes by \<open>PRIME\<close>, push the carry, add a limb, extend the length.
\<close>

fun mul_bytes :: "bytes \<Rightarrow> u128 \<Rightarrow> bytes \<times> u128" where
  "mul_bytes [] carry = ([], carry)"
| "mul_bytes (b # bs) carry =
     (let prod = ucast b * PRIME_128 + carry;
          (rest, carry) = mul_bytes bs (drop_bit 8 prod)
      in (ucast prod # rest, carry))"

function push_carry :: "bytes \<Rightarrow> nat \<Rightarrow> u128 \<Rightarrow> bytes \<times> nat" where
  "push_carry result len carry =
     (if 0 < carry then
        if len < length result then push_carry (result[len := ucast carry]) (Suc len) (drop_bit 8 carry)
        else push_carry result len (drop_bit 8 carry)
      else (result, len))"
  by pat_completeness auto
termination
proof (relation "measure (\<lambda>(_, _, carry). unat carry)", goal_cases)
  case (2 result len carry)
  then have "0 < unat carry" by (simp add: word_less_nat_alt)
  then show ?case by (simp add: unsigned_drop_bit_eq drop_bit_eq_div unat_div)
next
  case (3 result len carry)
  then have "0 < unat carry" by (simp add: word_less_nat_alt)
  then show ?case by (simp add: unsigned_drop_bit_eq drop_bit_eq_div unat_div)
qed simp

declare push_carry.simps [simp del]

fun add_bytes :: "bytes \<Rightarrow> u128 \<Rightarrow> bytes" where
  "add_bytes [] carry = []"
| "add_bytes (b # bs) carry =
     (if carry = 0 then b # bs
      else let sum = ucast b + carry in ucast sum # add_bytes bs (drop_bit 8 sum))"

function extend_len :: "bytes \<Rightarrow> nat \<Rightarrow> nat" where
  "extend_len result len =
     (if len < length result \<and> result ! len \<noteq> 0 then extend_len result (Suc len) else len)"
  by pat_completeness auto
termination
  by (relation "measure (\<lambda>(result, len). length result - len)") auto

declare extend_len.simps [simp del]

definition horner_step :: "u64 \<Rightarrow> bytes \<times> nat \<Rightarrow> bytes \<times> nat" where
  "horner_step limb st =
     (let (result, len) = st;
          (low, carry) = mul_bytes (take len result) 0;
          (result, len) = push_carry (low @ drop len result) len carry;
          result = add_bytes result (ucast limb);
          len = (if len = 0 \<and> 0 < limb then 8 else len)
      in (result, extend_len result len))"

definition tip5_to_atom_le_bytes :: "tip5_hash \<Rightarrow> bytes" where
  "tip5_to_atom_le_bytes h =
     (let (result, _) = fold horner_step (rev h) (replicate 48 0, 0);
          len = (case rposition (\<lambda>b. b \<noteq> 0) result of None \<Rightarrow> 0 | Some p \<Rightarrow> p + 1)
      in take len result)"


subsection \<open>Hashing leaves and pairs\<close>

definition chunk_value :: "bytes \<Rightarrow> u64" where
  "chunk_value chunk = fold (\<lambda>(i, b) val. val OR push_bit (i * 8) (ucast b)) (enumerate 0 chunk) 0"

definition atom_bytes_to_belts :: "bytes \<Rightarrow> u64 list" where
  "atom_bytes_to_belts bs =
     (let len = (case rposition (\<lambda>b. b \<noteq> 0) bs of None \<Rightarrow> 0 | Some p \<Rightarrow> p + 1)
      in if len = 0 then [0] else map chunk_value (chunks 7 (take len bs)))"

definition leaf_input :: "bytes \<Rightarrow> u64 list" where
  "leaf_input data = (let belts = atom_bytes_to_belts data in word_of_nat (length belts) # belts)"

definition hash_leaf :: "(u64 list \<Rightarrow> tip5_hash) \<Rightarrow> bytes \<Rightarrow> tip5_hash" where
  "hash_leaf hv data = hv (leaf_input data)"

definition hash_pair :: "(u64 list \<Rightarrow> tip5_hash) \<Rightarrow> tip5_hash \<Rightarrow> tip5_hash \<Rightarrow> tip5_hash" where
  "hash_pair h10 l r = h10 (l @ r)"


subsection \<open>Verifying a proof\<close>

fun check_nodes :: "proof_node list \<Rightarrow> field_range_error + unit" where
  "check_nodes [] = Inr ()"
| "check_nodes (n # ns) =
     (case check_tip5_limbs (hash n) of Inl e \<Rightarrow> Inl e | Inr _ \<Rightarrow> check_nodes ns)"

definition proof_step :: "(u64 list \<Rightarrow> tip5_hash) \<Rightarrow> proof_node \<Rightarrow> tip5_hash \<Rightarrow> tip5_hash" where
  "proof_step h10 node cur =
     (if side node then hash_pair h10 (hash node) cur else hash_pair h10 cur (hash node))"

definition verify_proof ::
  "(u64 list \<Rightarrow> tip5_hash) \<Rightarrow> (u64 list \<Rightarrow> tip5_hash) \<Rightarrow> bytes \<Rightarrow> proof_node list \<Rightarrow> tip5_hash \<Rightarrow> bool" where
  "verify_proof hv h10 leaf_data pf expected_root =
     (if 64 < length pf then False
      else case check_tip5_limbs expected_root of
             Inl _ \<Rightarrow> False
           | Inr _ \<Rightarrow>
               (case check_nodes pf of
                  Inl _ \<Rightarrow> False
                | Inr _ \<Rightarrow>
                    let cur = fold (proof_step h10) pf (hash_leaf hv leaf_data)
                    in concat (map to_le_bytes cur) = concat (map to_le_bytes expected_root)))"


subsection \<open>Building a tree\<close>

datatype merkle_error =
    EmptyLeaves
  | IndexOutOfBounds nat nat

datatype merkle_tree = MerkleTree (levels: "tip5_hash list list")

definition pad_even :: "'a list \<Rightarrow> 'a list" where
  "pad_even xs = (if length xs mod 2 \<noteq> 0 then xs @ [last xs] else xs)"

definition next_level :: "(u64 list \<Rightarrow> tip5_hash) \<Rightarrow> tip5_hash list \<Rightarrow> tip5_hash list" where
  "next_level h10 current = map (\<lambda>pair. hash_pair h10 (pair ! 0) (pair ! 1)) (chunks 2 (pad_even current))"

lemma length_chunks2: "length (chunks 2 xs) = (length xs + 1) div 2"
proof (induction "2 :: nat" xs rule: chunks.induct)
  case (1 xs)
  show ?case
  proof (cases "xs = []")
    case False
    then have "length (chunks 2 xs) = Suc ((length (drop 2 xs) + 1) div 2)"
      using 1 by (subst chunks_step) simp_all
    moreover have "0 < m \<Longrightarrow> Suc ((m - 2 + 1) div 2) = (m + 1) div 2" for m :: nat by presburger
    ultimately show ?thesis using False by simp
  qed simp
qed

lemma length_next_level: "length (next_level h10 xs) = (length xs + 1) div 2"
  by (simp add: next_level_def length_chunks2 pad_even_def) presburger

function upper_levels :: "(u64 list \<Rightarrow> tip5_hash) \<Rightarrow> tip5_hash list \<Rightarrow> tip5_hash list list" where
  "upper_levels h10 current =
     (if 1 < length current
      then let nxt = next_level h10 current in nxt # upper_levels h10 nxt
      else [])"
  by pat_completeness auto
termination
  by (relation "measure (\<lambda>(_, current). length current)") (auto simp: length_next_level)

declare upper_levels.simps [simp del]

definition merkle_build ::
  "(u64 list \<Rightarrow> tip5_hash) \<Rightarrow> (u64 list \<Rightarrow> tip5_hash) \<Rightarrow> bytes list \<Rightarrow> merkle_error + merkle_tree" where
  "merkle_build hv h10 leaves =
     (if leaves = [] then Inl EmptyLeaves
      else let current = map (hash_leaf hv) leaves
           in Inr (MerkleTree (current # upper_levels h10 current)))"

definition merkle_root :: "merkle_tree \<Rightarrow> tip5_hash" where
  "merkle_root t = hd (last (levels t))"

definition merkle_leaf_count :: "merkle_tree \<Rightarrow> nat" where
  "merkle_leaf_count t = length (levels t ! 0)"

fun proof_path :: "tip5_hash list list \<Rightarrow> nat \<Rightarrow> proof_node list" where
  "proof_path [] idx = []"
| "proof_path (level # ls) idx =
     (let sibling_idx = (if idx mod 2 = 0 then idx + 1 else idx - 1);
          sibling_hash = (if sibling_idx < length level then level ! sibling_idx else level ! idx)
      in \<lparr>hash = sibling_hash, side = (idx mod 2 = 1)\<rparr> # proof_path ls (idx div 2))"

definition merkle_proof :: "merkle_tree \<Rightarrow> nat \<Rightarrow> merkle_error + proof_node list" where
  "merkle_proof t index =
     (let leaf_count = length (levels t ! 0)
      in if leaf_count \<le> index then Inl (IndexOutOfBounds index leaf_count)
         else Inr (proof_path (butlast (levels t)) index))"


subsection \<open>Completeness: every leaf of a built tree verifies\<close>

lemma chunks_nth: "0 < n \<Longrightarrow> i < length (chunks n xs) \<Longrightarrow> chunks n xs ! i = take n (drop (n * i) xs)"
proof (induction n xs arbitrary: i rule: chunks.induct)
  case (1 n xs)
  then have "xs \<noteq> []" by auto
  with 1 have step: "chunks n xs = take n xs # chunks n (drop n xs)" by (intro chunks_step)
  show ?case
  proof (cases i)
    case (Suc j)
    with 1 step \<open>xs \<noteq> []\<close> have "chunks n (drop n xs) ! j = take n (drop (n * j) (drop n xs))" by simp
    with Suc step show ?thesis by (simp add: add.commute)
  qed (simp add: step)
qed

lemma next_level_nth:
  assumes "j < length (next_level h10 xs)"
  shows "next_level h10 xs ! j =
    hash_pair h10 (xs ! (2 * j)) (if 2 * j + 1 < length xs then xs ! (2 * j + 1) else xs ! (2 * j))"
proof -
  let ?p = "pad_even xs"
  have j: "2 * j < length xs" using assms by (simp add: length_next_level)
  have jc: "j < length (chunks 2 ?p)" using assms by (simp add: next_level_def)
  have "next_level h10 xs ! j = hash_pair h10 (take 2 (drop (2 * j) ?p) ! 0) (take 2 (drop (2 * j) ?p) ! 1)"
    using jc by (simp add: next_level_def chunks_nth)
  also have "take 2 (drop (2 * j) ?p) ! 0 = xs ! (2 * j)"
    using j by (simp add: pad_even_def nth_append)
  also have "take 2 (drop (2 * j) ?p) ! 1 = (if 2 * j + 1 < length xs then xs ! (2 * j + 1) else xs ! (2 * j))"
  proof (cases "2 * j + 1 < length xs")
    case True
    then show ?thesis by (simp add: pad_even_def nth_append)
  next
    case False
    with j have len: "length xs = Suc (2 * j)" by simp
    then have "last xs = xs ! (2 * j)" by (simp add: last_conv_nth flip: length_greater_0_conv)
    then show ?thesis using len by (simp add: pad_even_def nth_append)
  qed
  finally show ?thesis .
qed

lemma proof_path_root:
  "idx < length cur \<Longrightarrow>
    fold (proof_step h10) (proof_path (butlast (cur # upper_levels h10 cur)) idx) (cur ! idx) =
    hd (last (cur # upper_levels h10 cur))"
proof (induction h10 cur arbitrary: idx rule: upper_levels.induct)
  case (1 h10 cur)
  show ?case
  proof (cases "1 < length cur")
    case False
    with "1.prems" have "length cur = 1" "idx = 0" by auto
    then show ?thesis by (auto simp: upper_levels.simps length_Suc_conv)
  next
    case True
    let ?nxt = "next_level h10 cur"
    let ?sib = "if idx mod 2 = 0 then idx + 1 else idx - 1"
    let ?node = "\<lparr>hash = (if ?sib < length cur then cur ! ?sib else cur ! idx), side = (idx mod 2 = 1)\<rparr>"
    have up: "upper_levels h10 cur = ?nxt # upper_levels h10 ?nxt"
      using True by (subst upper_levels.simps) (simp add: Let_def)
    have lt: "idx div 2 < length ?nxt"
      using "1.prems" by (simp add: length_next_level)
    have step: "proof_step h10 ?node (cur ! idx) = ?nxt ! (idx div 2)"
    proof (cases "idx mod 2 = 0")
      case True
      then have "2 * (idx div 2) = idx" by presburger
      with True show ?thesis by (simp add: proof_step_def next_level_nth [OF lt])
    next
      case False
      then have "2 * (idx div 2) = idx - 1" "Suc (2 * (idx div 2)) = idx" by presburger+
      moreover have "idx - 1 < length cur" using "1.prems" by simp
      ultimately show ?thesis using False "1.prems"
        by (simp add: proof_step_def next_level_nth [OF lt])
    qed
    show ?thesis
      using "1.IH" [OF True refl lt] step by (simp add: up Let_def)
  qed
qed

lemma length_upper_levels: "length cur \<le> 2 ^ k \<Longrightarrow> length (upper_levels h10 cur) \<le> k"
proof (induction h10 cur arbitrary: k rule: upper_levels.induct)
  case (1 h10 cur)
  show ?case
  proof (cases "1 < length cur")
    case True
    then obtain m where k: "k = Suc m" using "1.prems" by (cases k) auto
    then have "length (next_level h10 cur) \<le> 2 ^ m"
      using "1.prems" by (simp add: length_next_level)
    from "1.IH" [OF True refl this] k True show ?thesis
      by (subst upper_levels.simps) (simp add: Let_def)
  qed (simp add: upper_levels.simps)
qed

lemma length_proof_path [simp]: "length (proof_path ls idx) = length ls"
  by (induction ls arbitrary: idx) (simp_all add: Let_def)

lemma check_nodes_iff: "check_nodes ns = Inr () \<longleftrightarrow> (\<forall>n\<in>set ns. \<forall>l\<in>set (hash n). based l)"
  by (induction ns) (auto simp: check_tip5_limbs_iff [symmetric] split: sum.splits)

lemma proof_path_digests:
  "digest_fn h10 \<Longrightarrow> \<forall>h\<in>set cur. is_digest h \<Longrightarrow> idx < length cur \<Longrightarrow>
    (\<forall>n\<in>set (proof_path (butlast (cur # upper_levels h10 cur)) idx). is_digest (hash n)) \<and>
    is_digest (hd (last (cur # upper_levels h10 cur)))"
proof (induction h10 cur arbitrary: idx rule: upper_levels.induct)
  case (1 h10 cur)
  show ?case
  proof (cases "1 < length cur")
    case False
    with "1.prems" show ?thesis by (cases cur) (auto simp: upper_levels.simps)
  next
    case True
    let ?nxt = "next_level h10 cur"
    have "\<forall>h\<in>set ?nxt. is_digest h"
      using "1.prems"(1) by (auto simp: next_level_def hash_pair_def digest_fn_def)
    moreover have "idx div 2 < length ?nxt" using "1.prems" by (simp add: length_next_level)
    ultimately have IH: "(\<forall>n\<in>set (proof_path (butlast (?nxt # upper_levels h10 ?nxt)) (idx div 2)). is_digest (hash n)) \<and>
        is_digest (hd (last (?nxt # upper_levels h10 ?nxt)))"
      using "1.IH" [OF True refl "1.prems"(1)] by blast
    have up: "upper_levels h10 cur = ?nxt # upper_levels h10 ?nxt"
      using True by (subst upper_levels.simps) (simp add: Let_def)
    show ?thesis using IH "1.prems"(2,3) by (auto simp: up Let_def)
  qed
qed

lemma verify_proof_iff:
  assumes "digest_fn hv" "digest_fn h10" "length rt = 5"
  shows "verify_proof hv h10 data pf rt \<longleftrightarrow>
    length pf \<le> 64 \<and> (\<forall>l\<in>set rt. based l) \<and> (\<forall>n\<in>set pf. \<forall>l\<in>set (hash n). based l) \<and>
    fold (proof_step h10) pf (hash_leaf hv data) = rt"
proof -
  have "is_digest (fold (proof_step h10) pf c)" if "is_digest c" for c
    using that assms(2) by (induction pf arbitrary: c) (auto simp: proof_step_def hash_pair_def digest_fn_def)
  moreover have "is_digest (hash_leaf hv data)" using assms(1) by (simp add: hash_leaf_def digest_fn_def)
  ultimately have "length (fold (proof_step h10) pf (hash_leaf hv data)) = length rt"
    using assms(3) by (simp add: is_digest_def)
  note eq = to_le_bytes_concat_inject [OF this]
  show ?thesis
  proof (cases "check_tip5_limbs rt = Inr () \<and> check_nodes pf = Inr ()")
    case True
    moreover from True have "\<forall>l\<in>set rt. based l" "\<forall>n\<in>set pf. \<forall>l\<in>set (hash n). based l"
      by (simp_all only: check_tip5_limbs_iff check_nodes_iff) blast+
    ultimately show ?thesis by (simp add: verify_proof_def Let_def eq not_less)
  next
    case False
    then have "\<not> ((\<forall>l\<in>set rt. based l) \<and> (\<forall>n\<in>set pf. \<forall>l\<in>set (hash n). based l))"
      by (simp only: check_tip5_limbs_iff check_nodes_iff simp_thms)
    moreover have "\<not> verify_proof hv h10 data pf rt"
      using False by (cases "check_tip5_limbs rt"; cases "check_nodes pf") (auto simp: verify_proof_def)
    ultimately show ?thesis by blast
  qed
qed

lemma merkle_complete:
  assumes fns: "digest_fn hv" "digest_fn h10"
    and t: "merkle_build hv h10 leaves = Inr t" and i: "i < length leaves" and size: "length leaves \<le> 2 ^ 64"
  obtains path where "merkle_proof t i = Inr path" "verify_proof hv h10 (leaves ! i) path (merkle_root t)"
proof -
  let ?cur = "map (hash_leaf hv) leaves"
  have tl: "levels t = ?cur # upper_levels h10 ?cur"
    using t by (auto simp: merkle_build_def Let_def split: if_splits)
  let ?path = "proof_path (butlast (levels t)) i"
  have p: "merkle_proof t i = Inr ?path"
    using i by (simp add: merkle_proof_def tl)
  have cur: "\<forall>h\<in>set ?cur. is_digest h"
    using fns(1) by (auto simp: hash_leaf_def digest_fn_def)
  have i': "i < length ?cur" using i by simp
  note d = proof_path_digests [OF fns(2) cur i']
  have "fold (proof_step h10) ?path (hash_leaf hv (leaves ! i)) = merkle_root t"
    using proof_path_root [OF i', of h10] i by (simp add: merkle_root_def tl)
  moreover have "length ?path \<le> 64"
    using length_upper_levels [of ?cur 64 h10] size by (simp add: tl)
  moreover have "length (merkle_root t) = 5 \<and> (\<forall>l\<in>set (merkle_root t). based l)"
    using d by (simp add: merkle_root_def tl is_digest_def)
  moreover have "\<forall>n\<in>set ?path. \<forall>l\<in>set (hash n). based l"
    using d unfolding tl is_digest_def by blast
  ultimately have "verify_proof hv h10 (leaves ! i) ?path (merkle_root t)"
    using verify_proof_iff [OF fns] by blast
  with p that show ?thesis by blast
qed


subsection \<open>The sponge input of a leaf determines its atom\<close>

definition strip_nul :: "bytes \<Rightarrow> bytes" where
  "strip_nul bs = take (case rposition (\<lambda>b. b \<noteq> 0) bs of None \<Rightarrow> 0 | Some p \<Rightarrow> p + 1) bs"

lemma le_value_replicate [simp]: "le_value (replicate n 0) = 0"
  by (induction n) simp_all

lemma strip_nul_split: "\<exists>k. bs = strip_nul bs @ replicate k 0"
proof (cases "rposition (\<lambda>b. b \<noteq> 0) bs")
  case None
  then have "bs = replicate (length bs) 0" by (simp add: rposition_None replicate_eqI)
  with None show ?thesis by (auto simp: strip_nul_def)
next
  case (Some p)
  then have zero: "\<forall>j<length bs. p < j \<longrightarrow> bs ! j = 0" using rposition_Some by fastforce
  have "drop (p + 1) bs = replicate (length bs - (p + 1)) 0"
    by (rule nth_equalityI) (simp_all add: zero)
  then have "bs = take (p + 1) bs @ replicate (length bs - (p + 1)) 0" by (metis append_take_drop_id)
  with Some show ?thesis by (auto simp: strip_nul_def)
qed

lemma strip_nul_no_trailing: "no_trailing_nul (strip_nul bs)"
proof (cases "rposition (\<lambda>b. b \<noteq> 0) bs")
  case (Some p)
  then have "p < length bs \<and> bs ! p \<noteq> 0" using rposition_Some by fastforce
  with Some show ?thesis by (simp add: no_trailing_nul_def strip_nul_def take_Suc_conv_app_nth)
qed (simp add: no_trailing_nul_def strip_nul_def)

lemma le_value_strip_nul [simp]: "le_value (strip_nul bs) = le_value bs"
  using strip_nul_split [of bs] by (metis add.right_neutral le_value_append le_value_replicate mult_0_right)

lemma pad_zeros_inject: "no_trailing_nul xs \<Longrightarrow> no_trailing_nul ys \<Longrightarrow>
    xs @ replicate j 0 = ys @ replicate k 0 \<Longrightarrow> xs = ys"
  using strip_zeros [of xs j] strip_zeros [of ys k] by (simp add: no_trailing_nul_def)

lemma le_value_minimal_inject:
  assumes "no_trailing_nul xs" "no_trailing_nul ys" "le_value xs = le_value ys"
  shows "xs = ys"
proof (rule pad_zeros_inject [OF assms(1,2)])
  show "xs @ replicate (length ys) 0 = ys @ replicate (length xs) 0"
    using assms(3) by (intro le_value_inject [THEN iffD1]) (simp_all add: le_value_append)
qed

lemma strip_nul_eq_iff: "strip_nul xs = strip_nul ys \<longleftrightarrow> le_value xs = le_value ys"
  by (metis le_value_minimal_inject le_value_strip_nul strip_nul_no_trailing)

lemma unat_chunk_fold:
  fixes v :: u64
  shows "unat v < 256 ^ k \<Longrightarrow> k + length c \<le> 8 \<Longrightarrow>
    unat (fold (\<lambda>(i, b) val. val OR push_bit (i * 8) (ucast b)) (enumerate k c) v) = unat v + 256 ^ k * le_value c"
proof (induction c arbitrary: k v)
  case (Cons b c)
  have pow: "(256 :: nat) ^ k = 2 ^ (8 * k)" for k by (simp add: power_mult)
  let ?w = "push_bit (8 * k) (ucast b) :: u64"
  have b: "unat b < 256" by (rule unat_u8_bound)
  then have bc: "unat (ucast b :: u64) = unat b"
    by (simp add: unsigned_ucast_eq take_bit_nat_eq_self_iff)
  have "unat b * 2 ^ (8 * k) < 256 * 2 ^ (8 * k)" using b by simp
  also have "(256 :: nat) * 2 ^ (8 * k) = 2 ^ (8 * k + 8)" by (simp add: power_add)
  also have "(2 :: nat) ^ (8 * k + 8) \<le> 2 ^ 64" using Cons.prems(2) by (intro power_increasing) simp_all
  finally have "unat b * 2 ^ (8 * k) < 2 ^ 64" .
  then have w: "unat ?w = 256 ^ k * unat b"
    by (subst unsigned_push_bit_eq)
      (simp add: push_bit_eq_mult bc pow take_bit_nat_eq_self_iff mult.commute)
  have "take_bit (8 * k) v = v"
    using Cons.prems(1)
    by (intro unsigned_word_eqI [where 'a = nat]) (simp add: unsigned_take_bit_eq take_bit_nat_eq_self_iff pow)
  then have "v AND ?w = 0"
    by (metis (no_types, lifting) bit_and_iff bit_eqI bit_push_bit_iff bit_take_bit_iff bit_0_eq bot_apply bot_bool_def not_less)
  then have or: "v OR ?w = v + ?w" by (simp add: disjunctive_add_eq_or)
  have "unat v + 256 ^ k * unat b < 256 ^ k * (unat b + 1)" using Cons.prems(1) by simp
  also have "\<dots> \<le> 256 ^ k * 256" using b by (intro mult_le_mono2) simp
  finally have sum: "unat v + unat ?w < 256 ^ Suc k" by (simp only: w power_Suc2)
  also have "(256 :: nat) ^ Suc k \<le> 256 ^ 8" using Cons.prems(2) by (intro power_increasing) simp_all
  finally have "unat (v + ?w) = unat v + unat ?w" by (simp add: unat_word_ariths)
  then have "unat (fold (\<lambda>(i, b) val. val OR push_bit (i * 8) (ucast b)) (enumerate (Suc k) c) (v + ?w)) =
      unat v + unat ?w + 256 ^ Suc k * le_value c"
    using Cons.IH [of "v + ?w" "Suc k"] Cons.prems(2) sum by simp
  then show ?case
    by (simp only: enumerate_simps fold_simps prod.case mult.commute [of k 8] or)
      (simp add: w distrib_left)
qed simp

lemma chunk_value_pack_chunk: "length c \<le> 7 \<Longrightarrow> chunk_value c = pack_chunk c"
  using unat_chunk_fold [of 0 0 c] le_value_bound [of c] power_increasing [of "length c" 7 "256 :: nat"]
  by (intro unsigned_word_eqI [where 'a = nat])
    (simp add: chunk_value_def pack_chunk_def unat_from_le_bytes le_value_append)

lemma atom_bytes_to_belts_alt:
  "atom_bytes_to_belts bs = (if strip_nul bs = [] then [0] else map pack_chunk (chunks 7 (strip_nul bs)))"
proof -
  have "map chunk_value (chunks 7 xs) = map pack_chunk (chunks 7 xs)" for xs
    by (rule map_cong) (auto intro!: chunk_value_pack_chunk dest: chunks_length [rotated])
  moreover have "strip_nul bs = [] \<longleftrightarrow> (case rposition (\<lambda>b. b \<noteq> 0) bs of None \<Rightarrow> 0 | Some p \<Rightarrow> p + 1) = 0"
    by (cases "rposition (\<lambda>b. b \<noteq> 0) bs") (auto simp: strip_nul_def dest: rposition_Some)
  ultimately show ?thesis
    by (simp add: atom_bytes_to_belts_def Let_def flip: strip_nul_def)
qed

lemma unpack_atom_bytes_to_belts: "\<exists>k. unpack (atom_bytes_to_belts bs) = strip_nul bs @ replicate k 0"
proof (cases "strip_nul bs = []")
  case True
  moreover have "unpack [0] = replicate 7 0" by code_simp
  ultimately show ?thesis by (auto simp: atom_bytes_to_belts_alt)
qed (simp add: atom_bytes_to_belts_alt unpack_pack_chunks)

lemma leaf_input_eq_iff: "leaf_input xs = leaf_input ys \<longleftrightarrow> le_value xs = le_value ys"
proof
  assume "leaf_input xs = leaf_input ys"
  then have "unpack (atom_bytes_to_belts xs) = unpack (atom_bytes_to_belts ys)"
    by (simp add: leaf_input_def Let_def)
  then have "strip_nul xs = strip_nul ys"
    using unpack_atom_bytes_to_belts pad_zeros_inject strip_nul_no_trailing by metis
  then show "le_value xs = le_value ys" by (simp add: strip_nul_eq_iff)
next
  assume "le_value xs = le_value ys"
  then have "strip_nul xs = strip_nul ys" by (simp add: strip_nul_eq_iff)
  then show "leaf_input xs = leaf_input ys"
    by (simp add: leaf_input_def Let_def atom_bytes_to_belts_alt)
qed


subsection \<open>Soundness: two accepted proofs at one position\<close>

text \<open>The inputs that the fold of \<open>verify_proof\<close> gives to \<open>hash_10\<close>, in order.\<close>

fun path_inputs :: "(u64 list \<Rightarrow> tip5_hash) \<Rightarrow> proof_node list \<Rightarrow> tip5_hash \<Rightarrow> u64 list list" where
  "path_inputs h10 [] cur = []"
| "path_inputs h10 (n # ns) cur =
     (if side n then hash n @ cur else cur @ hash n) # path_inputs h10 ns (proof_step h10 n cur)"

lemma length_path_inputs [simp]: "length (path_inputs h10 ns cur) = length ns"
  by (induction ns arbitrary: cur) simp_all

lemma fold_proof_step_sound:
  assumes h10: "digest_fn h10"
  shows "map side ns = map side ms \<Longrightarrow> \<forall>n\<in>set (ns @ ms). length (hash n) = 5 \<Longrightarrow>
    length c = 5 \<Longrightarrow> length d = 5 \<Longrightarrow>
    fold (proof_step h10) ns c = fold (proof_step h10) ms d \<Longrightarrow>
    (ns = ms \<and> c = d) \<or>
    (\<exists>i<length ns. path_inputs h10 ns c ! i \<noteq> path_inputs h10 ms d ! i \<and>
      h10 (path_inputs h10 ns c ! i) = h10 (path_inputs h10 ms d ! i))"
proof (induction ns arbitrary: ms c d)
  case (Cons n ns)
  then obtain m ms' where ms: "ms = m # ms'" by (cases ms) auto
  let ?c = "proof_step h10 n c" and ?d = "proof_step h10 m d"
  have len: "length ?c = 5" "length ?d = 5"
    using h10 by (simp_all add: proof_step_def hash_pair_def digest_fn_def is_digest_def)
  have s: "side n = side m" using Cons.prems(1) ms by simp
  have IH: "(ns = ms' \<and> ?c = ?d) \<or>
    (\<exists>i<length ns. path_inputs h10 ns ?c ! i \<noteq> path_inputs h10 ms' ?d ! i \<and>
      h10 (path_inputs h10 ns ?c ! i) = h10 (path_inputs h10 ms' ?d ! i))"
    using Cons.prems ms by (intro Cons.IH len) simp_all
  then show ?case
  proof (elim disjE)
    assume eq: "ns = ms' \<and> ?c = ?d"
    have step: "proof_step h10 n c = h10 (path_inputs h10 (n # ns) c ! 0)"
      "proof_step h10 m d = h10 (path_inputs h10 (m # ms') d ! 0)"
      by (simp_all add: proof_step_def hash_pair_def)
    show ?thesis
    proof (cases "path_inputs h10 (n # ns) c ! 0 = path_inputs h10 (m # ms') d ! 0")
      case True
      then have "hash n = hash m \<and> c = d"
        using s Cons.prems(2-4) ms by (cases "side n") (simp_all add: append_eq_append_conv)
      with s eq ms show ?thesis by simp
    next
      case False
      moreover have "h10 (path_inputs h10 (n # ns) c ! 0) = h10 (path_inputs h10 (m # ms') d ! 0)"
        using eq step by metis
      ultimately show ?thesis unfolding ms by blast
    qed
  next
    assume "\<exists>i<length ns. path_inputs h10 ns ?c ! i \<noteq> path_inputs h10 ms' ?d ! i \<and>
      h10 (path_inputs h10 ns ?c ! i) = h10 (path_inputs h10 ms' ?d ! i)"
    then obtain i where "i < length ns" "path_inputs h10 ns ?c ! i \<noteq> path_inputs h10 ms' ?d ! i"
      "h10 (path_inputs h10 ns ?c ! i) = h10 (path_inputs h10 ms' ?d ! i)" by blast
    then show ?thesis using ms by (intro disjI2 exI [of _ "Suc i"]) simp
  qed
qed auto

lemma verify_proof_sound:
  assumes fns: "digest_fn hv" "digest_fn h10" and rt: "length rt = 5"
    and nodes: "\<forall>n\<in>set (pf @ pf'). length (hash n) = 5"
    and sides: "map side pf = map side pf'"
    and acc: "verify_proof hv h10 data pf rt" "verify_proof hv h10 data' pf' rt"
  shows "(le_value data = le_value data' \<and> pf = pf') \<or>
    (leaf_input data \<noteq> leaf_input data' \<and> hv (leaf_input data) = hv (leaf_input data')) \<or>
    (\<exists>i<length pf. path_inputs h10 pf (hash_leaf hv data) ! i \<noteq> path_inputs h10 pf' (hash_leaf hv data') ! i \<and>
      h10 (path_inputs h10 pf (hash_leaf hv data) ! i) = h10 (path_inputs h10 pf' (hash_leaf hv data') ! i))"
proof -
  have "length (hash_leaf hv x) = 5" for x
    using fns(1) by (simp add: hash_leaf_def digest_fn_def is_digest_def)
  moreover have "fold (proof_step h10) pf (hash_leaf hv data) = fold (proof_step h10) pf' (hash_leaf hv data')"
    using acc by (simp add: verify_proof_iff [OF fns rt])
  ultimately show ?thesis
    using fold_proof_step_sound [OF fns(2) sides nodes, of "hash_leaf hv data" "hash_leaf hv data'"]
    by (auto simp: hash_leaf_def leaf_input_eq_iff)
qed


subsection \<open>The atom of a digest is its base-\<open>PRIME\<close> value\<close>

primrec digest_value :: "u64 list \<Rightarrow> nat" where
  "digest_value [] = 0"
| "digest_value (l # ls) = unat l + 18446744069414584321 * digest_value ls"

lemma le_value_take_drop: "n \<le> length r \<Longrightarrow> le_value r = le_value (take n r) + 256 ^ n * le_value (drop n r)"
  using le_value_append [of "take n r" "drop n r"] by simp

lemma le_value_update: "n < length r \<Longrightarrow> le_value (r[n := b]) + 256 ^ n * unat (r ! n) = le_value r + 256 ^ n * unat b"
proof (induction r arbitrary: n)
  case (Cons a r)
  show ?case
  proof (cases n)
    case (Suc m)
    with Cons.prems have "256 * (le_value (r[m := b]) + 256 ^ m * unat (r ! m)) = 256 * (le_value r + 256 ^ m * unat b)"
      using Cons.IH [of m] by simp
    with Suc show ?thesis by (simp add: distrib_left)
  qed simp
qed simp

lemma unat_u8_cast: "unat (ucast c :: u8) = unat c mod 256" for c :: u128
  by (simp add: unsigned_ucast_eq take_bit_eq_mod)

lemma unat_cast_u8: "unat (ucast b :: u128) = unat b" for b :: u8
  using unat_u8_bound [of b] by (simp add: unsigned_ucast_eq take_bit_nat_eq_self_iff)

lemma unat_drop_8: "unat (drop_bit 8 c) = unat c div 256" for c :: u128
proof -
  have "unat c < 2 ^ LENGTH(128)" by (rule unsigned_less)
  then show ?thesis by (subst unsigned_drop_bit_eq) (simp add: drop_bit_eq_div take_bit_nat_eq_self)
qed

lemma unat_PRIME_128: "unat PRIME_128 = 18446744069414584321"
  by (simp add: PRIME_128_def PRIME_def)

lemma mul_bytes_value:
  "unat c < 18446744069414584321 \<Longrightarrow> mul_bytes bs c = (bs', c') \<Longrightarrow>
    length bs' = length bs \<and> unat c' < 18446744069414584321 \<and>
    le_value bs' + 256 ^ length bs * unat c' = le_value bs * 18446744069414584321 + unat c"
proof (induction bs c arbitrary: bs' c' rule: mul_bytes.induct)
  case (2 b bs carry)
  let ?prod = "ucast b * PRIME_128 + carry"
  have b: "unat b < 256" by (rule unat_u8_bound)
  have prod: "unat ?prod = unat b * 18446744069414584321 + unat carry"
    using b "2.prems"(1) by (simp add: unat_word_ariths unat_cast_u8 unat_PRIME_128)
  then have lt: "unat (drop_bit 8 ?prod) < 18446744069414584321"
    using b "2.prems"(1) by (simp add: unat_drop_8)
  obtain rest c2 where rec: "mul_bytes bs (drop_bit 8 ?prod) = (rest, c2)" by fastforce
  have IH: "length rest = length bs \<and> unat c2 < 18446744069414584321 \<and>
      le_value rest + 256 ^ length bs * unat c2 = le_value bs * 18446744069414584321 + unat (drop_bit 8 ?prod)"
    by (rule "2.IH" [OF refl lt rec])
  have "unat ?prod mod 256 + 256 * unat (drop_bit 8 ?prod) = unat ?prod"
    by (simp add: unat_drop_8)
  then show ?case
    using IH "2.prems"(2) rec prod by (auto simp: Let_def unat_u8_cast algebra_simps)
qed auto

lemma push_carry_value:
  "le_value (drop len r) = 0 \<Longrightarrow> len \<le> length r \<Longrightarrow> le_value r + 256 ^ len * unat c < 256 ^ length r \<Longrightarrow>
   push_carry r len c = (r', len') \<Longrightarrow>
    length r' = length r \<and> len \<le> len' \<and> len' \<le> length r \<and> le_value (drop len' r') = 0 \<and>
    le_value r' = le_value r + 256 ^ len * unat c \<and> (c = 0 \<longrightarrow> len' = len)"
proof (induction r len c arbitrary: r' len' rule: push_carry.induct)
  case (1 r len c)
  show ?case
  proof (cases "0 < c")
    case False
    then have "c = 0" by (simp add: word_greater_zero_iff)
    then have "push_carry r len c = (r, len)" by (subst push_carry.simps) simp
    with "1.prems" \<open>c = 0\<close> show ?thesis by simp
  next
    case True
    then have "1 \<le> unat c" by (simp add: word_less_nat_alt)
    then have "(256 :: nat) ^ len \<le> 256 ^ len * unat c" by simp
    then have "(256 :: nat) ^ len < 256 ^ length r" using "1.prems"(3) by linarith
    then have lt: "len < length r" by simp
    let ?r = "r[len := ucast c]"
    have d: "drop len r = r ! len # drop (Suc len) r" using lt by (simp add: Cons_nth_drop_Suc)
    then have z: "r ! len = 0" "le_value (drop (Suc len) r) = 0" using "1.prems"(1) by (simp_all add: unat_eq_zero)
    have val: "le_value ?r = le_value r + 256 ^ len * (unat c mod 256)"
      using le_value_update [OF lt, of "ucast c"] z by (simp add: unat_u8_cast)
    have split: "256 ^ len * (unat c mod 256) + 256 ^ Suc len * unat (drop_bit 8 c) = 256 ^ len * unat c"
    proof -
      have "256 ^ len * (unat c mod 256 + 256 * unat (drop_bit 8 c)) = 256 ^ len * unat c"
        by (simp add: unat_drop_8)
      then show ?thesis by (simp only: distrib_left power_Suc2 mult.assoc)
    qed
    have rec: "push_carry ?r (Suc len) (drop_bit 8 c) = (r', len')"
      using "1.prems"(4) True lt by (subst (asm) push_carry.simps) (simp only: if_True)
    have pre: "le_value (drop (Suc len) ?r) = 0" "Suc len \<le> length ?r" using z lt by simp_all
    have bound: "le_value ?r + 256 ^ Suc len * unat (drop_bit 8 c) < 256 ^ length ?r"
      using "1.prems"(3) split val by simp
    from "1.IH"(1) [OF True lt pre bound rec] show ?thesis using val split \<open>1 \<le> unat c\<close> by auto
  qed
qed

lemma add_bytes_value:
  "unat c < 2 ^ 64 \<Longrightarrow> le_value r + unat c < 256 ^ length r \<Longrightarrow>
    length (add_bytes r c) = length r \<and> le_value (add_bytes r c) = le_value r + unat c"
proof (induction r c rule: add_bytes.induct)
  case (2 b bs c)
  let ?s = "ucast b + c"
  have b: "unat b < 256" by (rule unat_u8_bound)
  then have s: "unat ?s = unat b + unat c"
    using "2.prems"(1) by (simp add: unat_word_ariths unat_cast_u8)
  have split: "unat ?s mod 256 + 256 * unat (drop_bit 8 ?s) = unat b + unat c"
    by (simp add: unat_drop_8 flip: s)
  show ?case
  proof (cases "c = 0")
    case False
    have "unat (drop_bit 8 ?s) < 2 ^ 64" using b "2.prems"(1) by (simp add: unat_drop_8 s)
    moreover have "le_value bs + unat (drop_bit 8 ?s) < 256 ^ length bs"
      using "2.prems"(2) split by simp
    ultimately have "length (add_bytes bs (drop_bit 8 ?s)) = length bs \<and>
        le_value (add_bytes bs (drop_bit 8 ?s)) = le_value bs + unat (drop_bit 8 ?s)"
      by (rule "2.IH" [OF False refl])
    with False split show ?thesis by (simp add: Let_def unat_u8_cast)
  qed simp
qed simp

lemma extend_len_zero:
  "le_value (drop len r) \<le> 1 \<Longrightarrow> len \<le> length r \<Longrightarrow>
    le_value (drop (extend_len r len) r) = 0 \<and> len \<le> extend_len r len \<and> extend_len r len \<le> length r \<and>
    (le_value (drop len r) = 0 \<longrightarrow> extend_len r len = len)"
proof (cases "len < length r \<and> r ! len \<noteq> 0")
  case True
  assume le: "le_value (drop len r) \<le> 1" and len: "len \<le> length r"
  have d: "drop len r = r ! len # drop (Suc len) r" using True by (simp add: Cons_nth_drop_Suc)
  moreover have "0 < unat (r ! len)" using True by (simp add: unat_gt_0)
  ultimately have z: "le_value (drop (Suc len) r) = 0" using le by simp
  have stop: "\<not> (Suc len < length r \<and> r ! Suc len \<noteq> 0)"
  proof
    assume a: "Suc len < length r \<and> r ! Suc len \<noteq> 0"
    then have "drop (Suc len) r = r ! Suc len # drop (Suc (Suc len)) r" by (simp add: Cons_nth_drop_Suc)
    with z a show False by (simp add: unat_eq_zero)
  qed
  have "extend_len r len = Suc len"
  proof -
    have "extend_len r (Suc len) = Suc len" using stop by (subst extend_len.simps) (simp only: if_False)
    then show ?thesis using True by (subst extend_len.simps) (simp only: simp_thms if_True)
  qed
  with z True d \<open>0 < unat (r ! len)\<close> show ?thesis by simp
next
  case False
  assume le: "le_value (drop len r) \<le> 1" and len: "len \<le> length r"
  have "extend_len r len = len" using False by (subst extend_len.simps) (simp only: if_False)
  moreover have "le_value (drop len r) = 0"
  proof (cases "len < length r")
    case True
    then have "drop len r = r ! len # drop (Suc len) r" by (simp add: Cons_nth_drop_Suc)
    with le False True show ?thesis by simp
  qed (use len in simp)
  ultimately show ?thesis using len by simp
qed

definition horner_inv :: "nat \<Rightarrow> nat \<Rightarrow> bytes \<times> nat \<Rightarrow> bool" where
  "horner_inv k v st \<longleftrightarrow>
     (case st of (r, len) \<Rightarrow> length r = 48 \<and> len \<le> 48 \<and> (len = 0 \<or> 8 \<le> len) \<and> le_value (drop len r) = 0 \<and>
       le_value r = v \<and> v < 256 ^ (8 * k))"

lemma horner_step_inv:
  assumes inv: "horner_inv k v st" and k: "k < 5"
  shows "horner_inv (Suc k) (unat limb + 18446744069414584321 * v) (horner_step limb st)"
proof -
  let ?P = "18446744069414584321 :: nat"
  obtain r len where st: "st = (r, len)" by fastforce
  have r: "length r = 48" "len \<le> 48" "len = 0 \<or> 8 \<le> len" "le_value (drop len r) = 0" "le_value r = v" "v < 256 ^ (8 * k)"
    using inv by (auto simp: horner_inv_def st)
  have low_v: "le_value (take len r) = v" using le_value_take_drop [of len r] r by simp
  obtain low c where m: "mul_bytes (take len r) 0 = (low, c)" by fastforce
  have low: "length low = len" "le_value low + 256 ^ len * unat c = v * ?P"
    using mul_bytes_value [OF _ m] low_v r(1,2) by simp_all
  let ?r = "low @ drop len r"
  have limb: "unat limb < 2 ^ 64" using unsigned_less [of limb] by simp
  have total: "unat limb + ?P * v < 256 ^ (8 * Suc k)"
  proof -
    have "(2 :: nat) ^ 64 * v + 2 ^ 64 \<le> 2 ^ 64 * 256 ^ (8 * k)"
      using r(6) by (metis Suc_leI mult_Suc_right mult_le_mono2 add.commute)
    moreover have "unat limb + ?P * v < 2 ^ 64 * v + 2 ^ 64" using limb by simp
    moreover have "(2 :: nat) ^ 64 * 256 ^ (8 * k) = 256 ^ (8 * Suc k)" by (simp add: power_add)
    ultimately show ?thesis by linarith
  qed
  also have "(256 :: nat) ^ (8 * Suc k) \<le> 256 ^ 48" using k by (intro power_increasing) simp_all
  finally have fit: "unat limb + ?P * v < 256 ^ 48" .
  have rv: "le_value ?r + 256 ^ len * unat c = v * ?P" "length ?r = 48" "le_value (drop len ?r) = 0"
    using low r by (simp_all add: le_value_append)
  obtain r2 len2 where p: "push_carry ?r len c = (r2, len2)" by fastforce
  have r2: "length r2 = 48" "len \<le> len2" "len2 \<le> 48" "le_value (drop len2 r2) = 0" "le_value r2 = v * ?P" "c = 0 \<longrightarrow> len2 = len"
    using push_carry_value [OF rv(3) _ _ p] rv r(2) fit by (simp_all add: mult.commute)
  let ?r3 = "add_bytes r2 (ucast limb)"
  have uc: "unat (ucast limb :: u128) = unat limb"
    using limb by (simp add: unsigned_ucast_eq take_bit_nat_eq_self_iff)
  have r3: "length ?r3 = 48" "le_value ?r3 = unat limb + ?P * v"
    using add_bytes_value [of "ucast limb" r2] r2 fit limb by (simp_all add: uc mult.commute)
  let ?len3 = "if len2 = 0 \<and> 0 < limb then 8 else len2"
  have "le_value (drop ?len3 ?r3) \<le> 1 \<and> (le_value (drop ?len3 ?r3) = 0 \<or> 8 \<le> ?len3) \<and> (?len3 = 0 \<or> 8 \<le> ?len3)"
  proof (cases "len2 = 0")
    case True
    then have "le_value r2 = 0" using r2(4) by simp
    then have v: "le_value ?r3 = unat limb" using r3(2) r2(5) by simp
    show ?thesis
    proof (cases "0 < limb")
      case False
      then have "limb = 0" by (simp add: word_greater_zero_iff)
      with True v show ?thesis by simp
    next
      case True
      have "256 ^ 8 * le_value (drop 8 ?r3) \<le> unat limb"
        using le_value_take_drop [of 8 ?r3] r3(1) v by simp
      then have "le_value (drop 8 ?r3) = 0" using limb by simp
      with True \<open>len2 = 0\<close> show ?thesis by simp
    qed
  next
    case False
    have len2: "8 \<le> len2"
    proof (cases "len = 0")
      case True
      then have "v = 0" using low_v by simp
      then have "unat c = 0" using low(2) by simp
      then have "c = 0" by (simp add: unat_eq_zero)
      with r2(6) True False show ?thesis by simp
    next
      case False
      with r(3) r2(2) show ?thesis by simp
    qed
    have "le_value (take len2 r2) = v * ?P" using le_value_take_drop [of len2 r2] r2 by simp
    then have "v * ?P < 256 ^ len2" using le_value_bound [of "take len2 r2"] r2 by simp
    moreover have "(2 :: nat) ^ 64 \<le> 256 ^ len2"
      using power_increasing [OF len2, of "256 :: nat"] by simp
    ultimately have "le_value ?r3 < 2 * 256 ^ len2" using r3(2) limb by (simp add: mult.commute)
    moreover have "256 ^ len2 * le_value (drop len2 ?r3) \<le> le_value ?r3"
      using le_value_take_drop [of len2 ?r3] r3(1) r2(3) by simp
    ultimately have "256 ^ len2 * le_value (drop len2 ?r3) < 256 ^ len2 * 2" by linarith
    then have "le_value (drop len2 ?r3) < 2" by simp
    with False len2 show ?thesis by simp
  qed
  moreover have "?len3 \<le> length ?r3" using r3 r2 by simp
  ultimately have e: "le_value (drop (extend_len ?r3 ?len3) ?r3) = 0" "extend_len ?r3 ?len3 \<le> 48"
      "extend_len ?r3 ?len3 = 0 \<or> 8 \<le> extend_len ?r3 ?len3"
    using extend_len_zero [of ?len3 ?r3] r3(1) by auto
  have "horner_step limb st = (?r3, extend_len ?r3 ?len3)"
    by (simp add: horner_step_def st m p Let_def)
  with e r3 total show ?thesis by (simp add: horner_inv_def)
qed

lemma digest_value_append: "digest_value (xs @ ys) = digest_value xs + 18446744069414584321 ^ length xs * digest_value ys"
  by (induction xs) (simp_all add: algebra_simps)

lemma fold_horner_inv:
  "length ls \<le> 5 \<Longrightarrow> horner_inv (length ls) (digest_value ls) (fold horner_step (rev ls) (replicate 48 0, 0))"
proof (induction ls)
  case Nil
  show ?case by (simp add: horner_inv_def)
next
  case (Cons l ls)
  then show ?case using horner_step_inv [of "length ls" "digest_value ls"] by simp
qed

lemma tip5_to_atom_value:
  assumes "length h = 5"
  shows "le_value (tip5_to_atom_le_bytes h) = digest_value h" "no_trailing_nul (tip5_to_atom_le_bytes h)"
proof -
  obtain r n where f: "fold horner_step (rev h) (replicate 48 0, 0) = (r, n)" by fastforce
  then have r: "le_value r = digest_value h"
    using fold_horner_inv [of h] assms by (simp add: horner_inv_def)
  have t: "tip5_to_atom_le_bytes h = strip_nul r"
    by (simp add: tip5_to_atom_le_bytes_def f strip_nul_def)
  show "le_value (tip5_to_atom_le_bytes h) = digest_value h" by (simp add: t r)
  show "no_trailing_nul (tip5_to_atom_le_bytes h)" by (simp add: t strip_nul_no_trailing)
qed

lemma based_nat: "based x \<longleftrightarrow> unat x < 18446744069414584321"
  by (simp only: uint_nat) (simp only: of_nat_less_numeral_iff)

lemma digest_value_inject:
  "length g = length h \<Longrightarrow> \<forall>l\<in>set g. based l \<Longrightarrow> \<forall>l\<in>set h. based l \<Longrightarrow>
    digest_value g = digest_value h \<Longrightarrow> g = h"
proof (induction g h rule: list_induct2)
  case (Cons x xs y ys)
  let ?P = "18446744069414584321 :: nat"
  have lt: "unat x < ?P" "unat y < ?P"
    using Cons.prems(1,2) by (simp_all add: based_nat)
  have "unat x + ?P * digest_value xs = unat y + ?P * digest_value ys" using Cons.prems(3) by simp
  then have "(unat x + ?P * digest_value xs) mod ?P = (unat y + ?P * digest_value ys) mod ?P"
    "(unat x + ?P * digest_value xs) div ?P = (unat y + ?P * digest_value ys) div ?P" by simp_all
  then have "unat x = unat y" "digest_value xs = digest_value ys" using lt by simp_all
  with Cons show ?case by (simp add: word_unat_eq_iff)
qed simp

lemma tip5_to_atom_inject:
  "is_digest g \<Longrightarrow> is_digest h \<Longrightarrow> tip5_to_atom_le_bytes g = tip5_to_atom_le_bytes h \<longleftrightarrow> g = h"
  using digest_value_inject [of g h] tip5_to_atom_value(1) [of g] tip5_to_atom_value(1) [of h]
  by (auto simp: is_digest_def)


subsection \<open>Properties\<close>

text \<open>C35: every leaf of a tree of at most \<open>2 ^ 64\<close> leaves has a proof that verifies against the root of
  the tree, odd levels included; the two hash functions are any that give canonical digests.\<close>

theorem merkle_proof_complete:
  assumes "digest_fn hv" "digest_fn h10"
    and "leaves \<noteq> []" "i < length leaves" "length leaves \<le> 2 ^ 64"
  shows "\<exists>t path. merkle_build hv h10 leaves = Inr t \<and> merkle_proof t i = Inr path \<and>
    verify_proof hv h10 (leaves ! i) path (merkle_root t)"
proof -
  obtain t where t: "merkle_build hv h10 leaves = Inr t"
    using assms(3) by (simp add: merkle_build_def Let_def)
  then show ?thesis using merkle_complete [OF assms(1,2) t assms(4,5)] by blast
qed

text \<open>A concrete digest function for the witnesses: it sums its input into the first limb.\<close>

definition sum_digest :: "u64 list \<Rightarrow> tip5_hash" where
  "sum_digest xs = [sum_list (map (\<lambda>x. x mod 1000) xs) mod 1000, word_of_nat (length xs) mod 1000, 0, 0, 0]"

lemma digest_fn_sum: "digest_fn sum_digest"
proof -
  have "unat (x mod 1000) < 1000" for x :: u64 by (simp add: unat_mod)
  then have "unat (x mod 1000) < 18446744069414584321" for x :: u64 by (rule less_trans) simp
  then have "based (x mod 1000)" for x :: u64 using based_nat by blast
  then show ?thesis by (simp add: digest_fn_def is_digest_def sum_digest_def)
qed

theorem merkle_proof_complete_witness:
  "\<exists>t path. merkle_build sum_digest sum_digest [[1], [2], [3]] = Inr t \<and> merkle_proof t 2 = Inr path \<and>
    verify_proof sum_digest sum_digest [3] path (merkle_root t)"
proof -
  have "[[1], [2], [3 :: u8]] \<noteq> []" "2 < length [[1], [2], [3 :: u8]]" "length [[1], [2], [3 :: u8]] \<le> 2 ^ 64"
    by simp_all
  from merkle_proof_complete [OF digest_fn_sum digest_fn_sum this] show ?thesis by simp
qed

text \<open>C3: two proofs of one position that verify against one root are the same proof of the same atom,
  or the two verifications exhibit a collision: two different leaf inputs with one leaf hash, or at some
  level two different pair inputs with one pair hash.\<close>

theorem merkle_proof_sound:
  assumes "digest_fn hv" "digest_fn h10" "length rt = 5" "\<forall>n\<in>set (pf @ pf'). length (hash n) = 5"
    and "map side pf = map side pf'"
    and "verify_proof hv h10 data pf rt" "verify_proof hv h10 data' pf' rt"
  shows "(le_value data = le_value data' \<and> pf = pf') \<or>
    (leaf_input data \<noteq> leaf_input data' \<and> hv (leaf_input data) = hv (leaf_input data')) \<or>
    (\<exists>i<length pf. path_inputs h10 pf (hash_leaf hv data) ! i \<noteq> path_inputs h10 pf' (hash_leaf hv data') ! i \<and>
      h10 (path_inputs h10 pf (hash_leaf hv data) ! i) = h10 (path_inputs h10 pf' (hash_leaf hv data') ! i))"
  by (rule verify_proof_sound [OF assms])

theorem merkle_proof_sound_witness:
  "verify_proof sum_digest sum_digest [1] [\<lparr>hash = [1, 2, 3, 4, 5], side = True\<rparr>] [19, 10, 0, 0, 0] \<and>
   verify_proof sum_digest sum_digest [233, 3] [\<lparr>hash = [1, 2, 3, 4, 5], side = True\<rparr>] [19, 10, 0, 0, 0] \<and>
   sum_digest (leaf_input [1]) = sum_digest (leaf_input [233, 3])"
  (is "verify_proof _ _ _ ?pf ?rt \<and> _")
proof -
  have v: "verify_proof sum_digest sum_digest [1] ?pf ?rt" "verify_proof sum_digest sum_digest [233, 3] ?pf ?rt"
    by code_simp+
  have "length ?rt = 5" "\<forall>n\<in>set (?pf @ ?pf). length (hash n) = 5" "map side ?pf = map side ?pf" by simp_all
  note c = merkle_proof_sound [OF digest_fn_sum digest_fn_sum this v]
  have "le_value [1] \<noteq> le_value [233, 3]" by simp
  moreover have "path_inputs sum_digest ?pf (hash_leaf sum_digest [1]) ! 0 =
      path_inputs sum_digest ?pf (hash_leaf sum_digest [233, 3]) ! 0" by code_simp
  ultimately have "sum_digest (leaf_input [1]) = sum_digest (leaf_input [233, 3])" using c by auto
  with v show ?thesis by blast
qed

text \<open>The atom of a digest is its base-\<open>PRIME\<close> value in minimal little-endian bytes: the carry loops
  lose nothing, the 48-byte buffer is large enough, and two canonical digests with one atom are equal.\<close>

theorem digest_atom_value:
  assumes "is_digest g" "is_digest h"
  shows "le_value (tip5_to_atom_le_bytes h) = digest_value h \<and> no_trailing_nul (tip5_to_atom_le_bytes h) \<and>
    (tip5_to_atom_le_bytes g = tip5_to_atom_le_bytes h \<longleftrightarrow> g = h)"
  using assms tip5_to_atom_value [of h] tip5_to_atom_inject [OF assms] by (simp add: is_digest_def)

theorem digest_atom_value_witness:
  "tip5_to_atom_le_bytes [1, 0, 0, 0, 0] \<noteq> tip5_to_atom_le_bytes [0, 1, 0, 0, 0] \<and>
   le_value (tip5_to_atom_le_bytes [0, 1, 0, 0, 0]) = 18446744069414584321"
proof -
  have "is_digest [1, 0, 0, 0, 0]" "is_digest [0, 1, 0, 0, 0]" by (simp_all add: is_digest_def)
  from digest_atom_value [OF this] show ?thesis by simp
qed

text \<open>Two leaves are hashed as the same sponge input exactly when they are the same atom, that is
  when they agree up to trailing zero bytes.\<close>

theorem leaf_input_determines_atom: "leaf_input xs = leaf_input ys \<longleftrightarrow> le_value xs = le_value ys"
  by (rule leaf_input_eq_iff)

end
