(* ===== verification/Ledger.thy ===== *)
theory Ledger
  imports Merkle
begin

text \<open>
  The vocabulary of the transaction engine that \<^verbatim>\<open>crates/vesl-core\<close> builds on.  The engine is third-party
  code (crates \<open>nockchain-types\<close> and \<open>nockchain-math\<close>): its data types are mirrored with the fields the
  sources read and write, its functions are the fields of a record \<open>engine\<close>, and what the sources rely
  on is stated by \<open>engine_laws\<close> and \<open>lock_hash_law\<close>, from the documentation in the headers of \<open>lock.rs\<close>,
  \<open>job_locks.rs\<close> and \<open>check_locks.rs\<close>.
\<close>

subsection \<open>Data\<close>

type_synonym dig = tip5_hash

text \<open>A block window: an optional lower and an optional upper bound.\<close>

type_synonym window = "u64 option \<times> u64 option"

datatype prim =
    Pkh (pkh_m: u64) (pkh_hashes: "dig set")
  | Tim (tim_rel: window) (tim_abs: window)
  | Hax "dig set"
  | Burn

type_synonym spend_condition = "prim list"

datatype lock_v2 = LockV2 spend_condition spend_condition
datatype lock_v4 = LockV4 lock_v2 lock_v2
datatype lock_v8 = LockV8 lock_v4 lock_v4
datatype lock_v16 = LockV16 lock_v8 lock_v8

datatype lock =
    SC spend_condition
  | V2 lock_v2
  | V4 lock_v4
  | V8 lock_v8
  | V16 lock_v16


subsection \<open>Functions of the engine\<close>

record engine =
  pkh_set :: "dig list \<Rightarrow> dig set"
  hax_set :: "dig list \<Rightarrow> dig set option"
  rel_range :: "u64 option \<Rightarrow> u64 option \<Rightarrow> window"
  abs_range :: "u64 option \<Rightarrow> u64 option \<Rightarrow> window"
  simple_pkh :: "dig \<Rightarrow> spend_condition"
  coinbase_pkh :: "dig \<Rightarrow> u64 \<Rightarrow> spend_condition"
  flatten :: "lock \<Rightarrow> spend_condition list"
  branch_count :: "lock \<Rightarrow> u64"
  sc_hash :: "spend_condition \<Rightarrow> dig option"
  lock_digest :: "lock \<Rightarrow> dig option"
  pair_hash :: "dig \<Rightarrow> dig \<Rightarrow> dig"
  atom_hash :: "u64 \<Rightarrow> dig option"
  first_name_of_root :: "dig \<Rightarrow> dig option"

text \<open>A z-set is a set; a zero bound is dropped; the branches of a lock are read left to right.\<close>

definition nonzero_bound :: "u64 option \<Rightarrow> u64 option" where
  "nonzero_bound b = (if b = Some 0 then None else b)"

primrec branches_v2 :: "lock_v2 \<Rightarrow> spend_condition list" where
  "branches_v2 (LockV2 p q) = [p, q]"

primrec branches_v4 :: "lock_v4 \<Rightarrow> spend_condition list" where
  "branches_v4 (LockV4 p q) = branches_v2 p @ branches_v2 q"

primrec branches_v8 :: "lock_v8 \<Rightarrow> spend_condition list" where
  "branches_v8 (LockV8 p q) = branches_v4 p @ branches_v4 q"

primrec branches_v16 :: "lock_v16 \<Rightarrow> spend_condition list" where
  "branches_v16 (LockV16 p q) = branches_v8 p @ branches_v8 q"

primrec branches_of :: "lock \<Rightarrow> spend_condition list" where
  "branches_of (SC c) = [c]"
| "branches_of (V2 l) = branches_v2 l"
| "branches_of (V4 l) = branches_v4 l"
| "branches_of (V8 l) = branches_v8 l"
| "branches_of (V16 l) = branches_v16 l"

definition engine_laws :: "engine \<Rightarrow> bool" where
  "engine_laws e \<longleftrightarrow>
     (\<forall>xs. pkh_set e xs = set xs) \<and>
     (\<forall>xs. hax_set e xs = None \<or> hax_set e xs = Some (set xs)) \<and>
     (\<forall>a b. rel_range e a b = (nonzero_bound a, nonzero_bound b)) \<and>
     (\<forall>a b. abs_range e a b = (nonzero_bound a, nonzero_bound b)) \<and>
     (\<forall>l. flatten e l = branches_of l) \<and>
     (\<forall>l. branch_count e l = word_of_nat (length (branches_of l)))"

text \<open>
  The digest of a lock: the digest of its one condition, or the pair of the branch count and the
  perfect binary tree over the digests of its branches.
\<close>

fun tree_hash :: "(dig \<Rightarrow> dig \<Rightarrow> dig) \<Rightarrow> dig list \<Rightarrow> nat \<Rightarrow> dig" where
  "tree_hash pair level 0 = hd level"
| "tree_hash pair level (Suc k) =
     pair (tree_hash pair (take (2 ^ k) level) k) (tree_hash pair (drop (2 ^ k) level) k)"

definition lock_hash_law :: "engine \<Rightarrow> bool" where
  "lock_hash_law e \<longleftrightarrow>
     (\<forall>c. lock_digest e (SC c) = sc_hash e c) \<and>
     (\<forall>l k hs n. 0 < k \<longrightarrow> length (branches_of l) = 2 ^ k \<longrightarrow> map (sc_hash e) (branches_of l) = map Some hs \<longrightarrow>
        atom_hash e (2 ^ k) = Some n \<longrightarrow> lock_digest e l = Some (pair_hash e n (tree_hash (pair_hash e) hs k)))"

lemma length_branches_of_sizes:
  "length (branches_v2 a) = 2" "length (branches_v4 b) = 4" "length (branches_v8 c) = 8" "length (branches_v16 d) = 16"
proof -
  have v2: "length (branches_v2 x) = 2" for x by (cases x) simp
  have v4: "length (branches_v4 x) = 4" for x by (cases x) (simp add: v2)
  have v8: "length (branches_v8 x) = 8" for x by (cases x) (simp add: v4)
  have v16: "length (branches_v16 x) = 16" for x by (cases x) (simp add: v8)
  show "length (branches_v2 a) = 2" "length (branches_v4 b) = 4" "length (branches_v8 c) = 8"
    "length (branches_v16 d) = 16" by (rule v2 v4 v8 v16)+
qed

lemma length_branches_of: "\<exists>k\<le>4. length (branches_of l) = 2 ^ k"
proof -
  show ?thesis
  proof (cases l)
    case (SC c)
    then show ?thesis by (intro exI [of _ 0]) simp
  next
    case (V2 x)
    then show ?thesis by (intro exI [of _ 1]) (simp add: length_branches_of_sizes)
  next
    case (V4 x)
    then show ?thesis by (intro exI [of _ 2]) (simp add: length_branches_of_sizes)
  next
    case (V8 x)
    then show ?thesis by (intro exI [of _ 3]) (simp add: length_branches_of_sizes)
  next
    case (V16 x)
    then show ?thesis by (intro exI [of _ 4]) (simp add: length_branches_of_sizes)
  qed
qed

lemma engine_lawsD:
  assumes "engine_laws e"
  shows "pkh_set e xs = set xs" "hax_set e xs = Some S \<Longrightarrow> S = set xs"
    "rel_range e a b = (nonzero_bound a, nonzero_bound b)" "abs_range e a b = (nonzero_bound a, nonzero_bound b)"
    "flatten e l = branches_of l" "branch_count e l = word_of_nat (length (branches_of l))"
  using assms unfolding engine_laws_def by (auto dest: spec [of _ xs])


subsection \<open>A concrete engine\<close>

text \<open>An engine with small digests, at which the witnesses of the development are evaluated.\<close>

definition demo_pair :: "dig \<Rightarrow> dig \<Rightarrow> dig" where
  "demo_pair a b = [31 * hd a + hd b + 1, 0, 0, 0, 0]"

definition demo_sc_hash :: "spend_condition \<Rightarrow> dig" where
  "demo_sc_hash c = [word_of_nat (length c), 0, 0, 0, 0]"

definition demo_atom :: "u64 \<Rightarrow> dig" where
  "demo_atom n = [n, 0, 0, 0, 0]"

definition demo_lock_digest :: "lock \<Rightarrow> dig" where
  "demo_lock_digest l =
     (let hs = map demo_sc_hash (branches_of l)
      in case l of
           SC c \<Rightarrow> demo_sc_hash c
         | V2 _ \<Rightarrow> demo_pair (demo_atom 2) (tree_hash demo_pair hs 1)
         | V4 _ \<Rightarrow> demo_pair (demo_atom 4) (tree_hash demo_pair hs 2)
         | V8 _ \<Rightarrow> demo_pair (demo_atom 8) (tree_hash demo_pair hs 3)
         | V16 _ \<Rightarrow> demo_pair (demo_atom 16) (tree_hash demo_pair hs 4))"

definition demo_engine :: engine where
  "demo_engine =
     \<lparr>pkh_set = set, hax_set = (\<lambda>xs. Some (set xs)),
      rel_range = (\<lambda>a b. (nonzero_bound a, nonzero_bound b)),
      abs_range = (\<lambda>a b. (nonzero_bound a, nonzero_bound b)),
      simple_pkh = (\<lambda>h. [Pkh 1 {h}]),
      coinbase_pkh = (\<lambda>h t. [Pkh 1 {h}, Tim (Some t, None) (None, None)]),
      flatten = branches_of, branch_count = (\<lambda>l. word_of_nat (length (branches_of l))),
      sc_hash = (\<lambda>c. Some (demo_sc_hash c)), lock_digest = (\<lambda>l. Some (demo_lock_digest l)),
      pair_hash = demo_pair, atom_hash = (\<lambda>n. Some (demo_atom n)),
      first_name_of_root = (\<lambda>r. Some (demo_pair [1, 0, 0, 0, 0] r))\<rparr>"

lemma demo_engine_laws: "engine_laws demo_engine"
  by (simp add: engine_laws_def demo_engine_def)

lemma demo_lock_hash_law: "lock_hash_law demo_engine"
proof -
  have "demo_lock_digest l = demo_pair (demo_atom (2 ^ k)) (tree_hash demo_pair hs k)"
    if k: "0 < k" "length (branches_of l) = 2 ^ k"
      and hs: "map (\<lambda>c. Some (demo_sc_hash c)) (branches_of l) = map Some hs" for l k hs
  proof -
    have pow: "2 ^ k = (2 :: nat) ^ j \<longleftrightarrow> k = j" for j by simp
    have hs': "hs = map demo_sc_hash (branches_of l)"
    proof -
      have "map Some hs = map Some (map demo_sc_hash (branches_of l))" using hs by (simp add: comp_def)
      then show ?thesis by (simp only: inj_map_eq_map inj_Some)
    qed
    show ?thesis
    proof (cases l)
      case (SC c)
      then have "k = 0" using k pow [of 0] by simp
      with k show ?thesis by simp
    next
      case (V2 x)
      then have "k = 1" using k pow [of 1] length_branches_of_sizes(1) [of x] by simp
      then show ?thesis by (simp add: demo_lock_digest_def Let_def hs' V2)
    next
      case (V4 x)
      then have "k = 2" using k pow [of 2] length_branches_of_sizes(2) [of x] by simp
      then show ?thesis by (simp add: demo_lock_digest_def Let_def hs' V4)
    next
      case (V8 x)
      then have "k = 3" using k pow [of 3] length_branches_of_sizes(3) [of x] by simp
      then show ?thesis by (simp add: demo_lock_digest_def Let_def hs' V8)
    next
      case (V16 x)
      then have "k = 4" using k pow [of 4] length_branches_of_sizes(4) [of x] by simp
      then show ?thesis by (simp add: demo_lock_digest_def Let_def hs' V16)
    qed
  qed
  moreover have "demo_lock_digest (SC c) = demo_sc_hash c" for c
    by (simp add: demo_lock_digest_def)
  ultimately show ?thesis by (simp add: lock_hash_law_def demo_engine_def)
qed

end
