(* ===== verification/Lock.thy ===== *)
theory Lock
  imports Ledger
begin

text \<open>
  Lock construction and lock Merkle proofs, \<^verbatim>\<open>crates/vesl-core/src/lock.rs\<close>.
\<close>

subsection \<open>Conjuncts and roots\<close>

datatype lock_error =
    ZeroThreshold
  | ThresholdTooHigh u64 nat nat
  | SameKey string string
  | ZeroBound string
  | NotAFieldElement string u64
  | NoBlockLeft string
  | WindowTooShort u64
  | DeadlinesOutOfOrder u64 u64
  | LimbOffField string
  | SameFact string string
  | HaxSetFailed
  | HashFailed
  | BranchOutOfRange u64 u64
  | NeedsFullForm u64
  | ProofDoesNotFold

definition bounty_lock :: "engine \<Rightarrow> dig \<Rightarrow> dig \<Rightarrow> lock" where
  "bounty_lock e payout_pkh statement_commitment =
     V2 (LockV2 (simple_pkh e payout_pkh) (simple_pkh e statement_commitment))"

definition pkh_conjunct :: "engine \<Rightarrow> u64 \<Rightarrow> dig list \<Rightarrow> lock_error + prim" where
  "pkh_conjunct e m members =
     (let supplied = length members; hashes = pkh_set e members; distinct = card hashes
      in if m = 0 then Inl ZeroThreshold
         else if word_of_nat distinct < m then Inl (ThresholdTooHigh m distinct supplied)
         else Inr (Pkh m hashes))"

definition lock_root :: "engine \<Rightarrow> lock \<Rightarrow> lock_error + dig" where
  "lock_root e l = (case lock_digest e l of None \<Rightarrow> Inl HashFailed | Some h \<Rightarrow> Inr h)"

definition first_name_for_lock :: "engine \<Rightarrow> lock \<Rightarrow> lock_error + dig" where
  "first_name_for_lock e l =
     res_bind (lock_root e l) (\<lambda>r. case first_name_of_root e r of None \<Rightarrow> Inl HashFailed | Some n \<Rightarrow> Inr n)"


subsection \<open>Merkle proofs of branches\<close>

record merk_proof =
  merk_root :: dig
  merk_path :: "dig list"

datatype lock_proof =
    FullProof spend_condition u64 merk_proof
  | StubProof spend_condition u64 merk_proof

primrec proof_axis :: "lock_proof \<Rightarrow> u64" where
  "proof_axis (FullProof c a p) = a"
| "proof_axis (StubProof c a p) = a"

primrec proof_condition :: "lock_proof \<Rightarrow> spend_condition" where
  "proof_condition (FullProof c a p) = c"
| "proof_condition (StubProof c a p) = c"

primrec proof_merk :: "lock_proof \<Rightarrow> merk_proof" where
  "proof_merk (FullProof c a p) = p"
| "proof_merk (StubProof c a p) = p"

text \<open>The fold of a leaf up its path; the axis loses one bit at each step.\<close>

function merk_fold :: "engine \<Rightarrow> u64 \<Rightarrow> dig \<Rightarrow> dig list \<Rightarrow> dig \<Rightarrow> bool" where
  "merk_fold e axis acc path rt =
     (if axis = 0 then False
      else if axis = 1 then acc = rt \<and> path = []
      else
        case path of
          [] \<Rightarrow> False
        | sib # path \<Rightarrow>
            if axis mod 2 = 0 then merk_fold e (axis div 2) (pair_hash e acc sib) path rt
            else merk_fold e ((axis - 1) div 2) (pair_hash e sib acc) path rt)"
  by pat_completeness auto
termination
  by (relation "measure (\<lambda>(_, _, _, path, _). length path)") auto

declare merk_fold.simps [simp del]

definition verify_merk_proof :: "engine \<Rightarrow> dig \<Rightarrow> u64 \<Rightarrow> merk_proof \<Rightarrow> bool" where
  "verify_merk_proof e leaf axis p = merk_fold e axis leaf (merk_path p) (merk_root p)"

text \<open>
  The climb from a leaf to the root of the branch tree.  \<open>None\<close> is the panic of an index outside the
  level, on a level of odd length.
\<close>

fun pair_level :: "engine \<Rightarrow> dig list \<Rightarrow> dig list option" where
  "pair_level e [] = Some []"
| "pair_level e [a] = None"
| "pair_level e (a # b # rest) = map_option (\<lambda>r. pair_hash e a b # r) (pair_level e rest)"

lemma pair_level_length: "pair_level e level = Some l \<Longrightarrow> 2 * length l = length level"
  by (induction e level arbitrary: l rule: pair_level.induct) auto

function climb :: "engine \<Rightarrow> dig list \<Rightarrow> nat \<Rightarrow> dig list option" where
  "climb e level index =
     (if 1 < length level then
        let sibling = (if index mod 2 = 0 then index + 1 else index - 1)
        in if sibling < length level then
             (case pair_level e level of
                None \<Rightarrow> None
              | Some level' \<Rightarrow> map_option (\<lambda>path. level ! sibling # path) (climb e level' (index div 2)))
           else None
      else Some [])"
  by pat_completeness auto
termination
  by (relation "measure (\<lambda>(_, level, _). length level)") (auto dest: pair_level_length)

declare climb.simps [simp del]

definition option_res :: "'e \<Rightarrow> 'a option \<Rightarrow> ('e, 'a) outcome" where
  "option_res err x = (case x of None \<Rightarrow> Err err | Some y \<Rightarrow> Ok y)"

definition multi_path ::
  "engine \<Rightarrow> spend_condition list \<Rightarrow> u64 \<Rightarrow> u64 \<Rightarrow> (lock_error, dig list) outcome" where
  "multi_path e leaves branches leaf_number =
     and_then (case collect (\<lambda>sc. case sc_hash e sc of None \<Rightarrow> Inl HashFailed | Some h \<Rightarrow> Inr h) leaves of
                 Inl err \<Rightarrow> Err err | Inr level \<Rightarrow> Ok level) (\<lambda>level.
     and_then (case climb e level (unat (leaf_number - 1)) of None \<Rightarrow> Panic | Some p \<Rightarrow> Ok p) (\<lambda>path.
     and_then (option_res HashFailed (atom_hash e branches)) (\<lambda>tag. Ok (path @ [tag]))))"

definition lock_merkle_proof ::
  "engine \<Rightarrow> lock \<Rightarrow> u64 \<Rightarrow> u64 \<Rightarrow> u64 \<Rightarrow> (lock_error, lock_proof) outcome" where
  "lock_merkle_proof e l leaf_number height bythos_phase =
     and_then (case lock_root e l of Inl err \<Rightarrow> Err err | Inr r \<Rightarrow> Ok r) (\<lambda>rt.
     let branches = branch_count e l; leaves = flatten e l
     in if \<not> (1 \<le> leaf_number \<and> leaf_number \<le> branches) then Err (BranchOutOfRange leaf_number branches)
        else if length leaves \<le> unat (leaf_number - 1) then Panic
        else
          let spend_condition = leaves ! unat (leaf_number - 1)
          in and_then
               (if branches = 1 then Ok (1, [], bythos_phase \<le> height)
                else if \<not> bythos_phase \<le> height then Err (NeedsFullForm branches)
                else and_then (multi_path e leaves branches leaf_number) (\<lambda>path.
                       Ok (3 * branches + (leaf_number - 1), path, True)))
               (\<lambda>(axis, path, full).
                  let p = \<lparr>merk_root = rt, merk_path = path\<rparr>
                  in and_then (option_res HashFailed (sc_hash e spend_condition)) (\<lambda>leaf_hash.
                       if \<not> verify_merk_proof e leaf_hash axis p then Err ProofDoesNotFold
                       else Ok (if full then FullProof spend_condition axis p
                                else StubProof spend_condition axis p))))"


subsection \<open>A proof that is returned verifies\<close>

lemma option_res_Ok [simp]: "option_res err x = Ok y \<longleftrightarrow> x = Some y"
  by (cases x) (simp_all add: option_res_def)

lemma lock_root_Inr [simp]: "lock_root e l = Inr r \<longleftrightarrow> lock_digest e l = Some r"
  by (cases "lock_digest e l") (simp_all add: lock_root_def)

lemma lock_merkle_proof_sound:
  assumes "lock_merkle_proof e l n height bythos = Ok p"
  shows "lock_digest e l = Some (merk_root (proof_merk p)) \<and>
    1 \<le> n \<and> n \<le> branch_count e l \<and> proof_condition p = flatten e l ! unat (n - 1) \<and>
    (\<exists>h. sc_hash e (proof_condition p) = Some h \<and> verify_merk_proof e h (proof_axis p) (proof_merk p))"
  using assms
  by (auto simp: lock_merkle_proof_def Let_def split: if_splits sum.splits)


subsection \<open>The path of a branch folds back to the root\<close>

fun pairs :: "engine \<Rightarrow> dig list \<Rightarrow> dig list" where
  "pairs e (a # b # rest) = pair_hash e a b # pairs e rest"
| "pairs e _ = []"

lemma pair_level_pairs: "even (length level) \<Longrightarrow> pair_level e level = Some (pairs e level)"
  by (induction e level rule: pair_level.induct) simp_all

lemma length_pairs: "length (pairs e level) = length level div 2"
  by (induction e level rule: pairs.induct) simp_all

lemma pairs_append: "even (length xs) \<Longrightarrow> pairs e (xs @ ys) = pairs e xs @ pairs e ys"
  by (induction e xs rule: pairs.induct) simp_all

lemma pairs_nth: "Suc (2 * i) < length level \<Longrightarrow> pairs e level ! i = pair_hash e (level ! (2 * i)) (level ! Suc (2 * i))"
proof (induction e level arbitrary: i rule: pairs.induct)
  case (1 e a b rest)
  then show ?case by (cases i) simp_all
qed simp_all

lemma tree_hash_pairs: "length level = 2 ^ Suc k \<Longrightarrow> tree_hash (pair_hash e) level (Suc k) = tree_hash (pair_hash e) (pairs e level) k"
proof (induction k arbitrary: level)
  case 0
  then obtain a b where "level = [a, b]" by (auto simp: length_Suc_conv numeral_2_eq_2)
  then show ?case by simp
next
  case (Suc k)
  let ?l = "take (2 ^ Suc k) level" and ?r = "drop (2 ^ Suc k) level"
  have len: "length ?l = 2 ^ Suc k" "length ?r = 2 ^ Suc k" using Suc.prems by simp_all
  have "pairs e level = pairs e ?l @ pairs e ?r"
    using pairs_append [of ?l e ?r] len by simp
  then have "take (2 ^ k) (pairs e level) = pairs e ?l" "drop (2 ^ k) (pairs e level) = pairs e ?r"
    using len by (simp_all add: length_pairs)
  with Suc.IH [OF len(1)] Suc.IH [OF len(2)] show ?case by simp
qed

lemma merk_fold_step:
  assumes "unat axis = 2 * a + b" "0 < a" "b < 2"
  shows "merk_fold e axis acc (sib # path) rt =
    merk_fold e (word_of_nat a) (if b = 0 then pair_hash e acc sib else pair_hash e sib acc) path rt"
proof -
  have a: "axis \<noteq> 0" "axis \<noteq> 1" using assms by (auto simp: word_unat_eq_iff)
  have m: "axis mod 2 = 0 \<longleftrightarrow> b = 0" using assms by (auto simp: word_unat_eq_iff unat_mod)
  have d: "unat (axis div 2) = a" using assms by (simp add: unat_div)
  have "unat (axis - 1) = 2 * a + b - 1" using assms a(1) by (simp add: unat_minus_one)
  then have d': "unat ((axis - 1) div 2) = a" if "b \<noteq> 0" using assms that by (simp add: unat_div)
  have w: "axis div 2 = word_of_nat a" by (simp flip: d)
  have w': "b \<noteq> 0 \<Longrightarrow> (axis - 1) div 2 = word_of_nat a" by (simp flip: d')
  show ?thesis using a m w w' by (subst merk_fold.simps) simp
qed

lemma climb_folds:
  "length level = 2 ^ k \<Longrightarrow> i < 2 ^ k \<Longrightarrow> 0 < a \<Longrightarrow> a * 2 ^ k + i < 2 ^ 64 \<Longrightarrow>
    \<exists>path. climb e level i = Some path \<and> length path = k \<and>
      (\<forall>rest rt. merk_fold e (word_of_nat (a * 2 ^ k + i)) (level ! i) (path @ rest) rt =
        merk_fold e (word_of_nat a) (tree_hash (pair_hash e) level k) rest rt)"
proof (induction k arbitrary: level i)
  case 0
  then show ?case by (auto simp: climb.simps length_Suc_conv)
next
  case (Suc k)
  let ?sib = "if i mod 2 = 0 then i + 1 else i - 1"
  let ?axis = "word_of_nat (a * 2 ^ Suc k + i) :: u64"
  have ev: "even (length level)" using Suc.prems by simp
  have "0 < (2 :: nat) ^ k" by simp
  then have long: "1 < length level" unfolding Suc.prems(1) power_Suc by linarith
  have half: "length (pairs e level) = 2 ^ k" "i div 2 < 2 ^ k" "a * 2 ^ k + i div 2 < 2 ^ 64"
    using Suc.prems by (auto simp: length_pairs)
  from Suc.IH [OF half(1,2) Suc.prems(3) half(3)] obtain path where
    p: "climb e (pairs e level) (i div 2) = Some path" "length path = k" and
    f: "\<And>rest rt. merk_fold e (word_of_nat (a * 2 ^ k + i div 2)) (pairs e level ! (i div 2)) (path @ rest) rt =
        merk_fold e (word_of_nat a) (tree_hash (pair_hash e) (pairs e level) k) rest rt" by blast
  have sib: "?sib < length level" using Suc.prems by auto
  have c: "climb e level i = Some (level ! ?sib # path)"
    using long sib p(1) by (subst climb.simps) (simp add: pair_level_pairs [OF ev])
  have ax: "unat ?axis = 2 * (a * 2 ^ k + i div 2) + i mod 2"
  proof -
    have "unat ?axis = a * 2 ^ Suc k + i" by (rule unat_of_nat_u64 [OF Suc.prems(4)])
    then show ?thesis by simp
  qed
  have step: "(if i mod 2 = 0 then pair_hash e (level ! i) (level ! ?sib) else pair_hash e (level ! ?sib) (level ! i)) =
      pairs e level ! (i div 2)"
  proof -
    have i2: "Suc (2 * (i div 2)) < length level" using half(2) Suc.prems(1) by simp
    show ?thesis
    proof (cases "i mod 2 = 0")
      case True
      then have "2 * (i div 2) = i" by presburger
      with True show ?thesis using pairs_nth [OF i2, of e] by simp
    next
      case False
      then have "2 * (i div 2) = i - 1" "Suc (2 * (i div 2)) = i" by presburger+
      with False show ?thesis using pairs_nth [OF i2, of e] by simp
    qed
  qed
  have pos: "0 < a * 2 ^ k + i div 2" using Suc.prems(3) by simp
  have "merk_fold e ?axis (level ! i) ((level ! ?sib # path) @ rest) rt =
      merk_fold e (word_of_nat a) (tree_hash (pair_hash e) level (Suc k)) rest rt" for rest rt
    using merk_fold_step [OF ax pos, of e "level ! i" "level ! ?sib" "path @ rest" rt]
    by (simp only: append_Cons step f tree_hash_pairs [OF Suc.prems(1)] mod_less_divisor zero_less_numeral)
  with c p(2) show ?case by (intro exI [of _ "level ! ?sib # path"]) simp
qed


subsection \<open>Every branch of a lock can be proved\<close>

lemma merk_fold_one [simp]: "merk_fold e 1 acc path rt \<longleftrightarrow> acc = rt \<and> path = []"
  by (subst merk_fold.simps) simp

lemma merk_fold_three: "merk_fold e 3 acc [tag] rt \<longleftrightarrow> pair_hash e tag acc = rt"
  using merk_fold_step [of 3 1 1 e acc tag "[]" rt] by simp

lemma unat_power2: "k \<le> 4 \<Longrightarrow> unat (2 ^ k :: u64) = 2 ^ k"
proof -
  assume "k \<le> 4"
  then have "k \<in> {0, 1, 2, 3, 4}" by auto
  then show ?thesis by auto
qed

lemma minus_one:
  fixes n :: u64
  assumes "1 \<le> n"
  shows "unat (n - 1) = unat n - 1" "0 < unat n" "unat n \<le> N \<Longrightarrow> unat (n - 1) < N"
  using assms unat_sub [of 1 n] by (auto simp: word_le_nat_alt)

lemma multi_path_folds:
  assumes hs: "map (sc_hash e) leaves = map Some hs" and len: "length leaves = 2 ^ k" "0 < k" "k \<le> 4"
    and tag: "atom_hash e (2 ^ k) = Some t" and n: "1 \<le> n" "unat n \<le> 2 ^ k"
  shows "\<exists>path. multi_path e leaves (2 ^ k) n = Ok path \<and> length path = Suc k \<and>
    merk_fold e (3 * 2 ^ k + (n - 1)) (hs ! unat (n - 1)) path (pair_hash e t (tree_hash (pair_hash e) hs k))"
proof -
  have lh: "length hs = 2 ^ k" using hs len(1) by (metis length_map)
  note n1 = minus_one [OF n(1)]
  have i: "unat (n - 1) < 2 ^ k" using n(2) by (rule n1(3))
  have small: "3 * 2 ^ k + unat (n - 1) < 2 ^ 64"
  proof -
    have "(2 :: nat) ^ k \<le> 2 ^ 4" using len(3) by (intro power_increasing) simp_all
    with i show ?thesis by simp
  qed
  obtain path where p: "climb e hs (unat (n - 1)) = Some path" "length path = k"
    and f: "\<And>rest rt. merk_fold e (word_of_nat (3 * 2 ^ k + unat (n - 1))) (hs ! unat (n - 1)) (path @ rest) rt =
        merk_fold e (word_of_nat 3) (tree_hash (pair_hash e) hs k) rest rt"
    using climb_folds [OF lh i _ small, of e] by auto
  have ax: "word_of_nat (3 * 2 ^ k + unat (n - 1)) = (3 * 2 ^ k + (n - 1) :: u64)" by simp
  have "collect (\<lambda>sc. case sc_hash e sc of None \<Rightarrow> Inl HashFailed | Some h \<Rightarrow> Inr h) leaves = Inr hs"
    unfolding collect_eq_Inr using hs
    by (auto simp: list_eq_iff_nth_eq split: option.splits)
  then have "multi_path e leaves (2 ^ k) n = Ok (path @ [t])"
    by (simp add: multi_path_def p(1) tag option_res_def)
  moreover have "merk_fold e (3 * 2 ^ k + (n - 1)) (hs ! unat (n - 1)) (path @ [t]) (pair_hash e t (tree_hash (pair_hash e) hs k))"
    using f [of "[t]"] by (simp add: ax merk_fold_three)
  ultimately show ?thesis using p(2) by auto
qed

lemma lock_merkle_proof_complete:
  assumes laws: "engine_laws e" "lock_hash_law e"
    and hashes: "\<forall>c\<in>set (branches_of l). sc_hash e c \<noteq> None" "\<forall>k\<in>{1..4}. atom_hash e (2 ^ k) \<noteq> None"
    and n: "1 \<le> n" "unat n \<le> length (branches_of l)"
    and height: "length (branches_of l) = 1 \<or> bythos \<le> height"
  shows "\<exists>p. lock_merkle_proof e l n height bythos = Ok p \<and> proof_condition p = branches_of l ! unat (n - 1) \<and>
    (if length (branches_of l) = 1 then proof_axis p = 1 \<and> merk_path (proof_merk p) = []
     else proof_axis p = 3 * branch_count e l + (n - 1) \<and>
       2 ^ length (merk_path (proof_merk p)) = 2 * length (branches_of l))"
proof -
  let ?b = "branches_of l"
  obtain k where k: "k \<le> 4" "length ?b = 2 ^ k" using length_branches_of by blast
  have bc: "branch_count e l = 2 ^ k" using laws(1) k by (simp add: engine_lawsD)
  obtain hs where hs: "map (sc_hash e) ?b = map Some hs"
  proof
    show "map (sc_hash e) ?b = map Some (map (the \<circ> sc_hash e) ?b)" using hashes(1) by auto
  qed
  have n1: "unat (n - 1) < length ?b"
    using minus_one(3) [OF n(1)] n(2) by blast
  have nle: "n \<le> branch_count e l" using n(2) k by (simp add: bc word_le_nat_alt unat_power2)
  have leaf: "sc_hash e (?b ! unat (n - 1)) = Some (hs ! unat (n - 1))"
  proof -
    have "map (sc_hash e) ?b ! unat (n - 1) = map Some hs ! unat (n - 1)" by (simp only: hs)
    moreover have "length hs = length ?b" using hs by (metis length_map)
    ultimately show ?thesis using n1 by simp
  qed
  show ?thesis
  proof (cases "k = 0")
    case True
    then obtain c where b: "?b = [c]" using k by (auto simp: length_Suc_conv)
    have l: "l = SC c"
    proof (cases l)
      case (V2 x)
      then show ?thesis using k True length_branches_of_sizes(1) [of x] by simp
    next
      case (V4 x)
      then show ?thesis using k True length_branches_of_sizes(2) [of x] by simp
    next
      case (V8 x)
      then show ?thesis using k True length_branches_of_sizes(3) [of x] by simp
    next
      case (V16 x)
      then show ?thesis using k True length_branches_of_sizes(4) [of x] by simp
    qed (use b in simp)
    have "n = 1" using n b by (simp add: word_le_nat_alt word_unat_eq_iff)
    have root: "lock_digest e l = Some (hs ! 0)"
      using laws(2) leaf unfolding lock_hash_law_def l by (simp add: \<open>n = 1\<close>)
    show ?thesis
      using root leaf n1 True
      by (simp add: lock_merkle_proof_def Let_def bc engine_lawsD [OF laws(1)] option_res_def l
          verify_merk_proof_def lock_root_def \<open>n = 1\<close>)
  next
    case False
    then have "k \<in> {1..4}" using k by simp
    then obtain t where t: "atom_hash e (2 ^ k) = Some t" using hashes(2) by blast
    have root: "lock_digest e l = Some (pair_hash e t (tree_hash (pair_hash e) hs k))"
      using laws(2) False k hs t unfolding lock_hash_law_def by blast
    obtain path where p: "multi_path e ?b (2 ^ k) n = Ok path" "length path = Suc k"
      "merk_fold e (3 * 2 ^ k + (n - 1)) (hs ! unat (n - 1)) path (pair_hash e t (tree_hash (pair_hash e) hs k))"
      using multi_path_folds [OF hs k(2) _ k(1) t n(1)] False n(2) k by auto
    have "(2 ^ k :: u64) \<noteq> 1" using False k by (metis One_nat_def nat_power_eq_Suc_0_iff numeral_2_eq_2 n_not_Suc_n unat_1 unat_power2)
    moreover have "length ?b \<noteq> 1" using False k by simp
    ultimately show ?thesis
      using n n1 nle leaf root p height k
      by (simp add: lock_merkle_proof_def Let_def bc engine_lawsD [OF laws(1)] option_res_def not_le
          verify_merk_proof_def lock_root_def)
  qed
qed

subsection \<open>Properties\<close>

text \<open>A lock Merkle proof that is returned proves the asked branch: its root is the digest of the
  lock, its condition is the branch of that number, and its path folds from the digest of that condition
  to the root; the short form is only given for a one-branch lock before the bythos phase.\<close>

theorem lock_proof_returned_verifies:
  "case lock_merkle_proof e l n height bythos of
     Ok p \<Rightarrow> lock_digest e l = Some (merk_root (proof_merk p)) \<and>
       1 \<le> n \<and> n \<le> branch_count e l \<and> proof_condition p = flatten e l ! unat (n - 1) \<and>
       (\<exists>h. sc_hash e (proof_condition p) = Some h \<and> verify_merk_proof e h (proof_axis p) (proof_merk p)) \<and>
       (case p of FullProof _ _ _ \<Rightarrow> bythos \<le> height | StubProof _ _ _ \<Rightarrow> branch_count e l = 1 \<and> height < bythos)
   | Err err \<Rightarrow> True
   | Panic \<Rightarrow> True"
proof (cases "lock_merkle_proof e l n height bythos")
  case (Ok p)
  then have "case p of FullProof _ _ _ \<Rightarrow> bythos \<le> height | StubProof _ _ _ \<Rightarrow> branch_count e l = 1 \<and> height < bythos"
    by (auto simp: lock_merkle_proof_def Let_def not_le split: if_splits sum.splits)
  with lock_merkle_proof_sound [OF Ok] show ?thesis unfolding Ok outcome.case by blast
qed simp_all

text \<open>C11: every branch of a lock of 1, 2, 4, 8 or 16 branches has a proof: the climb never leaves a level,
  the axis is \<open>3 * N + (k - 1)\<close> (1 for a single branch), the path has one more entry than the depth of the
  tree, and the constructed proof always folds back to the lock root.\<close>

theorem lock_branches_provable:
  assumes "engine_laws e" "lock_hash_law e"
    and "\<forall>c\<in>set (branches_of l). sc_hash e c \<noteq> None" "\<forall>k\<in>{1..4}. atom_hash e (2 ^ k) \<noteq> None"
    and "1 \<le> n" "unat n \<le> length (branches_of l)" "length (branches_of l) = 1 \<or> bythos \<le> height"
  shows "\<exists>p. lock_merkle_proof e l n height bythos = Ok p \<and> proof_condition p = branches_of l ! unat (n - 1) \<and>
    (if length (branches_of l) = 1 then proof_axis p = 1 \<and> merk_path (proof_merk p) = []
     else proof_axis p = 3 * branch_count e l + (n - 1) \<and>
       2 ^ length (merk_path (proof_merk p)) = 2 * length (branches_of l))"
  by (rule lock_merkle_proof_complete [OF assms])

theorem lock_branches_provable_witness:
  "\<exists>p. lock_merkle_proof demo_engine (V4 (LockV4 (LockV2 [Burn] [Burn, Burn]) (LockV2 [] [Burn]))) 3 10 1 = Ok p \<and>
    proof_condition p = [] \<and> proof_axis p = 14"
proof -
  let ?l = "V4 (LockV4 (LockV2 [Burn] [Burn, Burn]) (LockV2 [] [Burn]))"
  have "\<forall>c\<in>set (branches_of ?l). sc_hash demo_engine c \<noteq> None" "\<forall>k\<in>{1..4}. atom_hash demo_engine (2 ^ k) \<noteq> None"
    "(1 :: u64) \<le> 3" "unat (3 :: u64) \<le> length (branches_of ?l)" "length (branches_of ?l) = 1 \<or> (1 :: u64) \<le> 10"
    by (simp_all add: demo_engine_def)
  from lock_branches_provable [OF demo_engine_laws demo_lock_hash_law this]
  obtain p where "lock_merkle_proof demo_engine ?l 3 10 1 = Ok p" "proof_condition p = []"
    "proof_axis p = 3 * branch_count demo_engine ?l + 2" by auto
  moreover have "branch_count demo_engine ?l = 4" by (simp add: demo_engine_def)
  ultimately show ?thesis by auto
qed

end
