(* ===== verification/JobLocks.thy ===== *)
theory JobLocks
  imports Lock
begin

text \<open>
  The three notes of the escrow flow, \<^verbatim>\<open>crates/vesl-core/src/job_locks.rs\<close>: the funding note, the job note
  and the provider note, with the checks that refuse a note nobody could spend as meant, and the block
  windows of their branches.
\<close>

subsection \<open>Operands\<close>

record job_parties =
  buyer_j :: dig
  platform :: dig
  provider :: dig

record job_facts =
  order_digest :: dig
  weight_root :: dig

record serve_facts =
  serve_input :: dig
  serve_ids :: dig
  serve_anchor :: dig
  serve_closing :: dig
  serve_model_pin :: dig


subsection \<open>Building blocks\<close>

definition no_window :: window where
  "no_window = (None, None)"

definition relative :: "engine \<Rightarrow> u64 option \<Rightarrow> u64 option \<Rightarrow> prim" where
  "relative e mn mx = Tim (rel_range e mn mx) no_window"

definition four :: "spend_condition \<Rightarrow> spend_condition \<Rightarrow> spend_condition \<Rightarrow> spend_condition \<Rightarrow> lock" where
  "four a b c d = V4 (LockV4 (LockV2 a b) (LockV2 c d))"

definition facts_list :: "job_facts \<Rightarrow> serve_facts option \<Rightarrow> (string \<times> dig) list" where
  "facts_list facts serve =
     [(''the order digest'', order_digest facts), (''the weight root'', weight_root facts)] @
     (case serve of
        None \<Rightarrow> []
      | Some s \<Rightarrow>
          [(''the salted input root'', serve_input s), (''the salted ids root'', serve_ids s),
           (''the salted anchor root'', serve_anchor s), (''the closing'', serve_closing s),
           (''the model pin'', serve_model_pin s)])"

fun check_limbs :: "(string \<times> dig) list \<Rightarrow> lock_error + unit" where
  "check_limbs [] = Inr ()"
| "check_limbs ((name, h) # facts) =
     (if list_ex (\<lambda>limb. PRIME \<le> limb) h then Inl (LimbOffField name) else check_limbs facts)"

text \<open>Each fact is compared with the ones before it, in order.\<close>

fun check_distinct :: "(string \<times> dig) list \<Rightarrow> (string \<times> dig) list \<Rightarrow> lock_error + unit" where
  "check_distinct before [] = Inr ()"
| "check_distinct before ((a, ha) # facts) =
     (case find (\<lambda>(b, hb). ha = hb) before of
        Some (b, _) \<Rightarrow> Inl (SameFact b a)
      | None \<Rightarrow> check_distinct (before @ [(a, ha)]) facts)"

definition facts_hax :: "engine \<Rightarrow> (string \<times> dig) list \<Rightarrow> lock_error + prim" where
  "facts_hax e facts =
     res_bind (check_limbs facts) (\<lambda>_.
     res_bind (check_distinct [] facts) (\<lambda>_.
       case hax_set e (map snd facts) of None \<Rightarrow> Inl HaxSetFailed | Some s \<Rightarrow> Inr (Hax s)))"

definition refuse_same_key :: "dig \<Rightarrow> dig \<Rightarrow> string \<Rightarrow> string \<Rightarrow> lock_error + unit" where
  "refuse_same_key a b an bn = ensure (a \<noteq> b) (SameKey an bn)"

definition refuse_distinct_parties :: "job_parties \<Rightarrow> lock_error + unit" where
  "refuse_distinct_parties p =
     res_bind (refuse_same_key (buyer_j p) (platform p) ''the buyer's job key'' ''the platform'') (\<lambda>_.
     res_bind (ensure (provider p \<noteq> platform p) (SameKey ''the provider'' ''the platform'')) (\<lambda>_.
       ensure (provider p \<noteq> buyer_j p) (SameKey ''the provider'' ''the buyer's job key'')))"

definition refuse_zero_window :: "u64 \<Rightarrow> string \<Rightarrow> lock_error + unit" where
  "refuse_zero_window v what =
     res_bind (ensure (v \<noteq> 0) (ZeroBound what)) (\<lambda>_. ensure (v < PRIME) (NotAFieldElement what v))"

text \<open>\<open>checked_add(..).filter(|v| *v < PRIME)\<close>.\<close>

definition next_block :: "u64 \<Rightarrow> u64 \<Rightarrow> lock_error \<Rightarrow> lock_error + u64" where
  "next_block v step err =
     (case checked_add v step of
        Some w \<Rightarrow> if w < PRIME then Inr w else Inl err
      | None \<Rightarrow> Inl err)"


subsection \<open>The three notes\<close>

definition funding_lock :: "engine \<Rightarrow> dig \<Rightarrow> dig \<Rightarrow> u64 \<Rightarrow> job_facts \<Rightarrow> lock_error + lock" where
  "funding_lock e buyer plat d_f facts =
     res_bind (refuse_same_key buyer plat ''the buyer's job key'' ''the platform'') (\<lambda>_.
     res_bind (refuse_zero_window d_f ''the funding deadline d_f'') (\<lambda>_.
     res_bind (pkh_conjunct e 2 [buyer, plat]) (\<lambda>fast.
     res_bind (pkh_conjunct e 1 [buyer]) (\<lambda>rec.
     res_bind (facts_hax e (facts_list facts None)) (\<lambda>hax.
       Inr (four [fast] [rec, relative e (Some d_f) None] [Burn, hax] [Burn]))))))"

definition job_lock :: "engine \<Rightarrow> job_parties \<Rightarrow> u64 \<Rightarrow> job_facts \<Rightarrow> lock_error + lock" where
  "job_lock e parties d_j facts =
     res_bind (refuse_distinct_parties parties) (\<lambda>_.
     res_bind (refuse_zero_window d_j ''the capture deadline d_j'') (\<lambda>_.
     res_bind (next_block d_j 1 (NoBlockLeft ''the capture deadline d_j'')) (\<lambda>recover_from.
     res_bind (pkh_conjunct e 2 [platform parties, provider parties]) (\<lambda>cap.
     res_bind (pkh_conjunct e 2 [buyer_j parties, platform parties]) (\<lambda>fast.
     res_bind (pkh_conjunct e 1 [buyer_j parties]) (\<lambda>rec.
     res_bind (facts_hax e (facts_list facts None)) (\<lambda>hax.
       Inr (four [cap, relative e None (Some d_j)] [fast]
              [rec, relative e (Some recover_from) None] [Burn, hax]))))))))"

definition provider_note_lock ::
  "engine \<Rightarrow> job_parties \<Rightarrow> u64 \<Rightarrow> job_facts \<Rightarrow> serve_facts \<Rightarrow> lock_error + lock" where
  "provider_note_lock e parties c facts serve =
     res_bind (refuse_distinct_parties parties) (\<lambda>_.
     res_bind (ensure (2 \<le> c) (WindowTooShort c)) (\<lambda>_.
     res_bind (ensure (c < PRIME) (NotAFieldElement ''the challenge window c'' c)) (\<lambda>_.
     res_bind (pkh_conjunct e 1 [provider parties]) (\<lambda>pay.
     res_bind (pkh_conjunct e 2 [buyer_j parties, platform parties]) (\<lambda>claw.
     res_bind (facts_hax e (facts_list facts (Some serve))) (\<lambda>hax.
       Inr (four [pay, relative e (Some c) None] [claw, relative e None (Some (c - 1))] [Burn, hax] [Burn])))))))"


subsection \<open>Windows\<close>

definition bound_ok :: "(u128 \<Rightarrow> bool) \<Rightarrow> u64 option \<Rightarrow> bool" where
  "bound_ok test b = (case b of None \<Rightarrow> True | Some m \<Rightarrow> test (ucast m))"

definition tim_open :: "window \<Rightarrow> window \<Rightarrow> u64 \<Rightarrow> u64 \<Rightarrow> bool" where
  "tim_open relw absw since now =
     (let since = ucast since :: u128; now = ucast now :: u128;
          rmin = bound_ok (\<lambda>m. since + m \<le> now) (fst relw);
          rmax = bound_ok (\<lambda>m. now \<le> since + m) (snd relw);
          amin = bound_ok (\<lambda>m. m \<le> now) (fst absw);
          amax = bound_ok (\<lambda>m. now \<le> m) (snd absw)
      in rmin \<and> rmax \<and> amin \<and> amax)"

definition branch_window_open :: "spend_condition \<Rightarrow> u64 \<Rightarrow> u64 \<Rightarrow> bool" where
  "branch_window_open branch since now =
     list_all (\<lambda>p. case p of Tim relw absw \<Rightarrow> tim_open relw absw since now | _ \<Rightarrow> True) branch"


subsection \<open>What the builders accept, and what they build\<close>

lemma pkh_conjunct_Inr:
  assumes "engine_laws e"
  shows "pkh_conjunct e m xs = Inr p \<longleftrightarrow> m \<noteq> 0 \<and> m \<le> word_of_nat (card (set xs)) \<and> p = Pkh m (set xs)"
  by (auto simp: pkh_conjunct_def Let_def engine_lawsD [OF assms] not_less)

lemma pkh_conjunct_one: "engine_laws e \<Longrightarrow> pkh_conjunct e 1 [a] = Inr p \<longleftrightarrow> p = Pkh 1 {a}"
  by (simp add: pkh_conjunct_Inr)

lemma pkh_conjunct_two: "engine_laws e \<Longrightarrow> a \<noteq> b \<Longrightarrow> pkh_conjunct e 2 [a, b] = Inr p \<longleftrightarrow> p = Pkh 2 {a, b}"
  by (simp add: pkh_conjunct_Inr)

lemma check_limbs_Inr: "check_limbs facts = Inr () \<longleftrightarrow> (\<forall>h\<in>set (map snd facts). \<forall>l\<in>set h. l < PRIME)"
  by (induction facts rule: check_limbs.induct) (auto simp: list_ex_iff not_le not_less)

lemma check_distinct_Inr:
  "check_distinct before facts = Inr () \<longleftrightarrow>
    distinct (map snd facts) \<and> set (map snd before) \<inter> set (map snd facts) = {}"
proof (induction before facts rule: check_distinct.induct)
  case (2 before a ha facts)
  show ?case
  proof (cases "find (\<lambda>(b, hb). ha = hb) before")
    case None
    then have "ha \<notin> set (map snd before)" by (auto simp: find_None_iff)
    with None 2 show ?thesis by auto
  next
    case (Some bh)
    then have "bh \<in> set before \<and> snd bh = ha" by (auto simp: find_Some_iff) (metis nth_mem)
    then have "ha \<in> set (map snd before)" by auto
    with Some show ?thesis by (cases bh) auto
  qed
qed simp

definition facts_ok :: "engine \<Rightarrow> dig list \<Rightarrow> bool" where
  "facts_ok e hs \<longleftrightarrow> (\<forall>h\<in>set hs. \<forall>l\<in>set h. l < PRIME) \<and> distinct hs \<and> hax_set e hs \<noteq> None"

lemma facts_hax_Inr:
  assumes "engine_laws e"
  shows "facts_hax e facts = Inr p \<longleftrightarrow> facts_ok e (map snd facts) \<and> p = Hax (set (map snd facts))"
  using engine_lawsD(2) [OF assms, of "map snd facts"]
  by (auto simp: facts_hax_def facts_ok_def check_limbs_Inr check_distinct_Inr split: option.splits)

lemma refuse_zero_window_Inr [simp]: "refuse_zero_window v what = Inr u \<longleftrightarrow> 0 < v \<and> v < PRIME"
  by (auto simp: refuse_zero_window_def word_gt_0)

lemma refuse_same_key_Inr [simp]: "refuse_same_key a b an bn = Inr u \<longleftrightarrow> a \<noteq> b"
  by (simp add: refuse_same_key_def)

lemma refuse_distinct_parties_Inr [simp]:
  "refuse_distinct_parties p = Inr u \<longleftrightarrow> distinct [buyer_j p, platform p, provider p]"
  by (auto simp: refuse_distinct_parties_def)

lemma next_block_Inr: "next_block v step err = Inr w \<longleftrightarrow> w = v + step \<and> unat v + unat step < 2 ^ 64 \<and> w < PRIME"
  by (auto simp: next_block_def checked_add_def split: option.splits)

definition windowed :: "prim \<Rightarrow> window \<Rightarrow> spend_condition" where
  "windowed p w = [p, Tim w no_window]"

lemma relative_laws: "engine_laws e \<Longrightarrow> relative e a b = Tim (nonzero_bound a, nonzero_bound b) no_window"
  by (simp add: relative_def engine_lawsD)

lemma nonzero_bound_simps [simp]: "nonzero_bound None = None" "v \<noteq> 0 \<Longrightarrow> nonzero_bound (Some v) = Some v"
  by (simp_all add: nonzero_bound_def)

lemmas lock_Inr = pkh_conjunct_one pkh_conjunct_two facts_hax_Inr relative_laws

lemma funding_lock_Inr:
  assumes "engine_laws e"
  shows "funding_lock e buyer plat d facts = Inr l \<longleftrightarrow>
    buyer \<noteq> plat \<and> 0 < d \<and> d < PRIME \<and> facts_ok e [order_digest facts, weight_root facts] \<and>
    l = four [Pkh 2 {buyer, plat}] (windowed (Pkh 1 {buyer}) (Some d, None))
          [Burn, Hax {order_digest facts, weight_root facts}] [Burn]"
  by (cases "buyer = plat"; cases "d = 0")
    (auto simp: funding_lock_def lock_Inr [OF assms] next_block_Inr facts_list_def windowed_def word_gt_0)

lemma job_lock_Inr:
  assumes "engine_laws e"
  shows "job_lock e p d facts = Inr l \<longleftrightarrow>
    distinct [buyer_j p, platform p, provider p] \<and> 0 < d \<and> d + 1 < PRIME \<and> unat d + 1 < 2 ^ 64 \<and> d < PRIME \<and>
    facts_ok e [order_digest facts, weight_root facts] \<and>
    l = four (windowed (Pkh 2 {platform p, provider p}) (None, Some d)) [Pkh 2 {buyer_j p, platform p}]
          (windowed (Pkh 1 {buyer_j p}) (Some (d + 1), None)) [Burn, Hax {order_digest facts, weight_root facts}]"
proof (cases "distinct [buyer_j p, platform p, provider p] \<and> d \<noteq> 0 \<and> d + 1 \<noteq> 0")
  case True
  then have "platform p \<noteq> provider p" "buyer_j p \<noteq> platform p" by auto
  with True show ?thesis
    by (auto simp: job_lock_def lock_Inr [OF assms] next_block_Inr facts_list_def windowed_def word_gt_0)
next
  case False
  have "d + 1 \<noteq> 0" if "unat d + 1 < 2 ^ 64"
  proof -
    have "unat (d + 1) = unat d + 1" using that by (simp add: unat_word_ariths)
    then show ?thesis by auto
  qed
  with False show ?thesis
    by (auto simp: job_lock_def next_block_Inr word_gt_0)
qed

lemma provider_note_lock_Inr:
  assumes "engine_laws e"
  shows "provider_note_lock e p c facts s = Inr l \<longleftrightarrow>
    distinct [buyer_j p, platform p, provider p] \<and> 2 \<le> c \<and> c < PRIME \<and>
    facts_ok e (map snd (facts_list facts (Some s))) \<and>
    l = four (windowed (Pkh 1 {provider p}) (Some c, None)) (windowed (Pkh 2 {buyer_j p, platform p}) (None, Some (c - 1)))
          [Burn, Hax (set (map snd (facts_list facts (Some s))))] [Burn]"
proof (cases "distinct [buyer_j p, platform p, provider p] \<and> 2 \<le> c")
  case True
  then have "buyer_j p \<noteq> platform p" "c \<noteq> 0" "c - 1 \<noteq> 0" by (auto simp: word_le_nat_alt)
  with True show ?thesis
    by (auto simp: provider_note_lock_def lock_Inr [OF assms] windowed_def)
next
  case False
  then show ?thesis by (auto simp: provider_note_lock_def)
qed


subsection \<open>The windows of the branches\<close>

lemma unat_sum_u128: "unat (ucast a + ucast b :: u128) = unat a + unat b" for a b :: u64
proof -
  have lt: "unat x < 2 ^ 64" for x :: u64 using unsigned_less [of x, where 'a = nat] by simp
  have c: "unat (ucast x :: u128) = unat x" for x :: u64
    using lt [of x] by (simp add: unsigned_ucast_eq take_bit_nat_eq_self_iff)
  have "unat a < 2 ^ 64" "unat b < 2 ^ 64" by (rule lt)+
  then show ?thesis by (simp add: unat_word_ariths c)
qed

lemma unat_ucast_u128: "unat (ucast a :: u128) = unat a" for a :: u64
  using unat_sum_u128 [of a 0] by simp

lemma window_min: "branch_window_open (windowed (Pkh m S) (Some d, None)) since now \<longleftrightarrow> unat since + unat d \<le> unat now"
  by (simp add: branch_window_open_def windowed_def tim_open_def no_window_def bound_ok_def Let_def
      word_le_nat_alt unat_sum_u128 unat_ucast_u128)

lemma window_max: "branch_window_open (windowed (Pkh m S) (None, Some d)) since now \<longleftrightarrow> unat now \<le> unat since + unat d"
  by (simp add: branch_window_open_def windowed_def tim_open_def no_window_def bound_ok_def Let_def
      word_le_nat_alt unat_sum_u128 unat_ucast_u128)

lemma branches_four [simp]: "branches_of (four a b c d) = [a, b, c, d]"
  by (simp add: four_def)

subsection \<open>Properties\<close>

text \<open>the job note is built exactly for three different parties, a capture deadline that is not zero
  and leaves a block after it, and two different facts with field limbs; its four branches are those of
  the flow, with recovery opening one block after the deadline.\<close>

theorem job_lock_accepts:
  assumes "engine_laws e"
  shows "job_lock e p d facts = Inr l \<longleftrightarrow>
    distinct [buyer_j p, platform p, provider p] \<and> 0 < d \<and> d + 1 < PRIME \<and> unat d + 1 < 2 ^ 64 \<and> d < PRIME \<and>
    facts_ok e [order_digest facts, weight_root facts] \<and>
    l = four (windowed (Pkh 2 {platform p, provider p}) (None, Some d)) [Pkh 2 {buyer_j p, platform p}]
          (windowed (Pkh 1 {buyer_j p}) (Some (d + 1), None)) [Burn, Hax {order_digest facts, weight_root facts}]"
  by (rule job_lock_Inr [OF assms])

definition demo_dig :: "u64 \<Rightarrow> dig" where
  "demo_dig n = [n, n + 1, n + 2, n + 3, n + 4]"

definition demo_parties :: job_parties where
  "demo_parties = \<lparr>buyer_j = demo_dig 10, platform = demo_dig 20, provider = demo_dig 30\<rparr>"

definition demo_facts :: job_facts where
  "demo_facts = \<lparr>order_digest = demo_dig 40, weight_root = demo_dig 50\<rparr>"

definition demo_serve :: serve_facts where
  "demo_serve = \<lparr>serve_input = demo_dig 60, serve_ids = demo_dig 61, serve_anchor = demo_dig 62,
     serve_closing = demo_dig 63, serve_model_pin = demo_dig 64\<rparr>"

lemma demo_dig_inject [simp]: "demo_dig a = demo_dig b \<longleftrightarrow> a = b"
  by (auto simp: demo_dig_def)

lemmas demo_defs = demo_parties_def demo_facts_def demo_serve_def

lemma demo_facts_ok: "distinct ns \<Longrightarrow> \<forall>n\<in>set ns. n < 1000 \<Longrightarrow> facts_ok demo_engine (map demo_dig ns)"
proof -
  assume d: "distinct ns" and lt: "\<forall>n\<in>set ns. n < 1000"
  have "l < PRIME" if "n < 1000" "l \<in> set (demo_dig n)" for n l
  proof -
    have "unat n < 1000" using that(1) by (simp add: word_less_nat_alt)
    then have "unat l < 1005"
      using that(2) by (auto simp: demo_dig_def unat_word_ariths)
    then show ?thesis by (simp add: word_less_nat_alt PRIME_def)
  qed
  with d lt show ?thesis by (auto simp: facts_ok_def distinct_map inj_on_def demo_engine_def)
qed

lemma demo_job_facts_ok: "facts_ok demo_engine [order_digest demo_facts, weight_root demo_facts]"
  using demo_facts_ok [of "[40, 50]"] by (simp add: demo_facts_def)

theorem job_lock_accepts_witness: "\<exists>l. job_lock demo_engine demo_parties 90 demo_facts = Inr l"
proof -
  have "distinct [buyer_j demo_parties, platform demo_parties, provider demo_parties]"
    "(0 :: u64) < 90" "(90 :: u64) + 1 < PRIME" "unat (90 :: u64) + 1 < 2 ^ 64" "(90 :: u64) < PRIME"
    by (simp_all add: demo_parties_def PRIME_def)
  with job_lock_accepts [OF demo_engine_laws, of demo_parties 90 demo_facts] demo_job_facts_ok
  show ?thesis by blast
qed

text \<open>C10: at every block, for every origin page, exactly one of the capture and the recovery of a job
  note is open, and exactly one of the payment and the clawback of a provider note: the money is never
  claimable by both sides and never stranded between the windows.\<close>

theorem escrow_windows_exclusive:
  assumes "engine_laws e" "job_lock e p d facts = Inr l" "provider_note_lock e q c facts' s = Inr n"
  shows "branch_window_open (branches_of l ! 0) since now \<noteq> branch_window_open (branches_of l ! 2) since now \<and>
    branch_window_open (branches_of n ! 0) since now \<noteq> branch_window_open (branches_of n ! 1) since now"
proof -
  have d: "unat (d + 1) = unat d + 1"
    using assms(2) unfolding job_lock_Inr [OF assms(1)] by (simp add: unat_word_ariths)
  have c: "unat (c - 1) = unat c - 1 \<and> 0 < unat c"
    using assms(3) minus_one [of c] unfolding provider_note_lock_Inr [OF assms(1)] by (auto simp: word_le_nat_alt)
  have "branch_window_open (branches_of l ! 0) since now \<noteq> branch_window_open (branches_of l ! 2) since now"
    using assms(2) d unfolding job_lock_Inr [OF assms(1)] by (auto simp: window_min window_max)
  moreover have "branch_window_open (branches_of n ! 0) since now \<noteq> branch_window_open (branches_of n ! 1) since now"
    using assms(3) c unfolding provider_note_lock_Inr [OF assms(1)] by (auto simp: window_min window_max)
  ultimately show ?thesis by blast
qed

lemma demo_job_lock: "\<exists>l. job_lock demo_engine demo_parties 90 demo_facts = Inr l"
  unfolding job_lock_Inr [OF demo_engine_laws] using demo_job_facts_ok by (simp add: demo_parties_def PRIME_def)

lemma demo_provider_note: "\<exists>n. provider_note_lock demo_engine demo_parties 1152 demo_facts demo_serve = Inr n"
  unfolding provider_note_lock_Inr [OF demo_engine_laws]
  using demo_facts_ok [of "[40, 50, 60, 61, 62, 63, 64]"]
  by (simp add: demo_defs facts_list_def PRIME_def)

theorem escrow_windows_exclusive_witness:
  "\<exists>l n. job_lock demo_engine demo_parties 90 demo_facts = Inr l \<and>
    provider_note_lock demo_engine demo_parties 1152 demo_facts demo_serve = Inr n \<and>
    branch_window_open (branches_of l ! 0) 100 190 \<noteq> branch_window_open (branches_of l ! 2) 100 190"
proof -
  obtain l n where "job_lock demo_engine demo_parties 90 demo_facts = Inr l"
    "provider_note_lock demo_engine demo_parties 1152 demo_facts demo_serve = Inr n"
    using demo_job_lock demo_provider_note by blast
  with escrow_windows_exclusive [OF demo_engine_laws this] show ?thesis by blast
qed

text \<open>The address of a job note determines its operands: two job notes with one lock have the same
  parties, the same deadline and the same pair of facts.\<close>

theorem job_lock_binds_operands:
  assumes "engine_laws e" "job_lock e p d facts = Inr l" "job_lock e p' d' facts' = Inr l"
  shows "buyer_j p = buyer_j p' \<and> platform p = platform p' \<and> provider p = provider p' \<and> d = d' \<and>
    {order_digest facts, weight_root facts} = {order_digest facts', weight_root facts'}"
proof -
  note built = assms(2,3) [unfolded job_lock_Inr [OF assms(1)]]
  then have sets: "{platform p, provider p} = {platform p', provider p'}"
    "{buyer_j p, platform p} = {buyer_j p', platform p'}" "{buyer_j p} = {buyer_j p'}" "d = d'"
    "{order_digest facts, weight_root facts} = {order_digest facts', weight_root facts'}"
    by (auto simp only: four_def windowed_def lock.inject lock_v4.inject lock_v2.inject list.inject prim.inject
        prod.inject option.inject)
  moreover have "distinct [buyer_j p, platform p, provider p]" "distinct [buyer_j p', platform p', provider p']"
    using built by blast+
  ultimately show ?thesis by (auto simp: doubleton_eq_iff)
qed

theorem job_lock_binds_operands_witness:
  "\<exists>l. job_lock demo_engine demo_parties 90 demo_facts = Inr l \<and> job_lock demo_engine demo_parties 91 demo_facts \<noteq> Inr l"
proof -
  obtain l where l: "job_lock demo_engine demo_parties 90 demo_facts = Inr l" using demo_job_lock by blast
  have "job_lock demo_engine demo_parties 91 demo_facts \<noteq> Inr l"
  proof
    assume "job_lock demo_engine demo_parties 91 demo_facts = Inr l"
    from job_lock_binds_operands [OF demo_engine_laws l this] show False by simp
  qed
  with l show ?thesis by blast
qed

end
