(* ===== verification/CheckLocks.thy ===== *)
theory CheckLocks
  imports JobLocks
begin

text \<open>
  The notes of the checking flow, \<^verbatim>\<open>crates/vesl-core/src/check_locks.rs\<close>: the check funding note, the
  ticket, the vouch note and the demand.
\<close>

subsection \<open>Operands\<close>

record check_parties =
  buyer_c :: dig
  check_platform :: dig
  verdict :: dig
  checker :: dig

record check_facts =
  salted_digest :: dig
  check_weight_root :: dig

text \<open>A cord: eight ASCII bytes read as a little-endian word.\<close>

definition cord :: "string \<Rightarrow> u64" where
  "cord s = from_le_bytes (utf8 (lit s))"

definition DEMAND_ROUND_CORD :: u64 where
  "DEMAND_ROUND_CORD = cord ''demand-r''"

definition check_job_facts :: "check_facts \<Rightarrow> job_facts" where
  "check_job_facts f = \<lparr>order_digest = salted_digest f, weight_root = check_weight_root f\<rparr>"

definition check_facts_list :: "check_facts \<Rightarrow> (string \<times> dig) list" where
  "check_facts_list f =
     [(''the salted digest'', salted_digest f), (''the weight root'', check_weight_root f)]"

definition absolute :: "engine \<Rightarrow> u64 option \<Rightarrow> u64 option \<Rightarrow> prim" where
  "absolute e mn mx = Tim no_window (abs_range e mn mx)"

definition refuse_zero_height :: "u64 \<Rightarrow> string \<Rightarrow> lock_error + unit" where
  "refuse_zero_height v what =
     res_bind (ensure (v \<noteq> 0) (ZeroBound what)) (\<lambda>_. ensure (v < PRIME) (NotAFieldElement what v))"

definition refuse_distinct_check_parties :: "check_parties \<Rightarrow> lock_error + unit" where
  "refuse_distinct_check_parties p =
     (case check_distinct []
        [(''the buyer's check key'', buyer_c p), (''the platform'', check_platform p),
         (''the verdict key'', verdict p), (''the checker'', checker p)] of
        Inl (SameFact b a) \<Rightarrow> Inl (SameKey b a)
      | Inl err \<Rightarrow> Inl err
      | Inr u \<Rightarrow> Inr u)"


subsection \<open>The notes\<close>

definition check_funding_lock :: "engine \<Rightarrow> dig \<Rightarrow> dig \<Rightarrow> u64 \<Rightarrow> check_facts \<Rightarrow> lock_error + lock" where
  "check_funding_lock e buyer plat d_f facts = funding_lock e buyer plat d_f (check_job_facts facts)"

definition ticket_lock :: "engine \<Rightarrow> check_parties \<Rightarrow> u64 \<Rightarrow> u64 \<Rightarrow> check_facts \<Rightarrow> lock_error + lock" where
  "ticket_lock e parties report_by claim_by facts =
     res_bind (refuse_distinct_check_parties parties) (\<lambda>_.
     res_bind (refuse_zero_height report_by ''the report deadline report_by'') (\<lambda>_.
     res_bind (refuse_zero_height claim_by ''the claim deadline claim_by'') (\<lambda>_.
     res_bind (ensure (report_by < claim_by) (DeadlinesOutOfOrder claim_by report_by)) (\<lambda>_.
     res_bind (next_block report_by 1 (NoBlockLeft ''the report deadline report_by'')) (\<lambda>return_from.
     res_bind (pkh_conjunct e 2 [check_platform parties, checker parties]) (\<lambda>cap.
     res_bind (pkh_conjunct e 2 [verdict parties, checker parties]) (\<lambda>claim.
     res_bind (pkh_conjunct e 1 [buyer_c parties]) (\<lambda>ret.
     res_bind (facts_hax e (check_facts_list facts)) (\<lambda>hax.
       Inr (four [cap, absolute e None (Some report_by)] [claim, absolute e None (Some claim_by)]
              [ret, absolute e (Some return_from) None] [Burn, hax]))))))))))"

definition vouch_note_lock :: "engine \<Rightarrow> check_parties \<Rightarrow> u64 \<Rightarrow> u64 \<Rightarrow> dig \<Rightarrow> dig \<Rightarrow> lock_error + lock" where
  "vouch_note_lock e parties n_origin c salted vouched =
     res_bind (refuse_distinct_check_parties parties) (\<lambda>_.
     res_bind (ensure (2 \<le> c) (WindowTooShort c)) (\<lambda>_.
     res_bind (next_block n_origin c (NotAFieldElement ''N's origin + c'' c)) (\<lambda>pay_from.
     res_bind (pkh_conjunct e 1 [checker parties]) (\<lambda>pay.
     res_bind (pkh_conjunct e 2 [buyer_c parties, check_platform parties]) (\<lambda>claw.
     res_bind (facts_hax e [(''the salted digest'', salted), (''the vouched root'', vouched),
                            (''the checker'', checker parties)]) (\<lambda>hax.
       Inr (four [pay, absolute e (Some pay_from) None] [claw, absolute e None (Some (pay_from - 1))]
              [Burn, hax] [Burn])))))))"

definition demand_slot :: "u64 \<Rightarrow> lock_error + dig" where
  "demand_slot rnd =
     res_bind (ensure (rnd < PRIME) (NotAFieldElement ''the demand round'' rnd)) (\<lambda>_.
       Inr [DEMAND_ROUND_CORD, rnd, 0, 0, 0])"

definition demand_lock ::
  "engine \<Rightarrow> dig \<Rightarrow> dig \<Rightarrow> u64 \<Rightarrow> dig \<Rightarrow> dig \<Rightarrow> u64 \<Rightarrow> lock_error + lock" where
  "demand_lock e prov chk answer_by salted record_root rnd =
     res_bind (ensure (prov \<noteq> chk) (SameKey ''the provider'' ''the checker'')) (\<lambda>_.
     res_bind (refuse_zero_window answer_by ''the answer window answer_by'') (\<lambda>_.
     res_bind (next_block answer_by 1 (NoBlockLeft ''the answer window answer_by'')) (\<lambda>expired_from.
     res_bind (pkh_conjunct e 1 [prov]) (\<lambda>ans.
     res_bind (pkh_conjunct e 1 [chk]) (\<lambda>expd.
     res_bind (demand_slot rnd) (\<lambda>slot.
     res_bind (facts_hax e [(''the salted digest'', salted), (''the record root'', record_root),
                            (''the round's slot'', slot)]) (\<lambda>hax.
       Inr (four [ans, relative e None (Some answer_by)] [expd, relative e (Some expired_from) None]
              [Burn, hax] [Burn]))))))))"


subsection \<open>What the builders accept, and what they build\<close>

definition scheduled :: "prim \<Rightarrow> window \<Rightarrow> spend_condition" where
  "scheduled p w = [p, Tim no_window w]"

lemma absolute_laws: "engine_laws e \<Longrightarrow> absolute e a b = Tim no_window (nonzero_bound a, nonzero_bound b)"
  by (simp add: absolute_def engine_lawsD)

lemma refuse_zero_height_Inr [simp]: "refuse_zero_height v what = Inr u \<longleftrightarrow> 0 < v \<and> v < PRIME"
  by (auto simp: refuse_zero_height_def word_gt_0)

lemma refuse_distinct_check_parties_Inr [simp]:
  "refuse_distinct_check_parties p = Inr u \<longleftrightarrow> distinct [buyer_c p, check_platform p, verdict p, checker p]"
  (is "?L \<longleftrightarrow> _")
proof -
  let ?named = "[(''the buyer's check key'', buyer_c p), (''the platform'', check_platform p),
         (''the verdict key'', verdict p), (''the checker'', checker p)]"
  have "?L \<longleftrightarrow> check_distinct [] ?named = Inr ()"
    unfolding refuse_distinct_check_parties_def by (auto split: sum.splits lock_error.splits)
  then show ?thesis unfolding check_distinct_Inr by simp
qed

lemma next_block_nonzero: "0 < step \<Longrightarrow> next_block v step err = Inr w \<Longrightarrow> w \<noteq> 0 \<and> unat w = unat v + unat step"
proof -
  assume "0 < step" "next_block v step err = Inr w"
  then have w: "w = v + step" "unat v + unat step < 2 ^ 64" "0 < unat step"
    by (simp_all add: next_block_Inr word_less_nat_alt)
  then have "unat w = unat v + unat step" by (simp add: unat_word_ariths)
  with w(3) show ?thesis by auto
qed

lemma PRIME_u64: "unat PRIME = 18446744069414584321"
  by (simp add: PRIME_def)

lemma next_block_below:
  assumes "v < w" "w < PRIME"
  shows "next_block v 1 err = Inr u \<longleftrightarrow> u = v + 1"
proof -
  have "unat v + 1 < 18446744069414584321" using assms by (simp add: word_less_nat_alt PRIME_u64)
  moreover from this have "unat (v + 1) = unat v + 1" by (simp add: unat_word_ariths)
  ultimately show ?thesis by (auto simp: next_block_Inr word_less_nat_alt PRIME_u64)
qed

lemma ticket_lock_Inr:
  assumes "engine_laws e"
  shows "ticket_lock e p report claim facts = Inr l \<longleftrightarrow>
    distinct [buyer_c p, check_platform p, verdict p, checker p] \<and> 0 < report \<and> report < claim \<and> claim < PRIME \<and>
    facts_ok e [salted_digest facts, check_weight_root facts] \<and>
    l = four (scheduled (Pkh 2 {check_platform p, checker p}) (None, Some report))
          (scheduled (Pkh 2 {verdict p, checker p}) (None, Some claim))
          (scheduled (Pkh 1 {buyer_c p}) (Some (report + 1), None))
          [Burn, Hax {salted_digest facts, check_weight_root facts}]"
proof (cases "distinct [buyer_c p, check_platform p, verdict p, checker p] \<and> 0 < report \<and> report < claim \<and> claim < PRIME")
  case True
  then have d: "check_platform p \<noteq> checker p" "verdict p \<noteq> checker p" by auto
  have nz: "report \<noteq> 0" "claim \<noteq> 0" "report + 1 \<noteq> 0" "report < PRIME"
  proof -
    have "unat report + 1 < 18446744069414584321" using True by (auto simp: word_less_nat_alt PRIME_u64)
    then have "unat (report + 1) = unat report + 1" by (simp add: unat_word_ariths)
    then show "report + 1 \<noteq> 0" by auto
    show "report \<noteq> 0" "claim \<noteq> 0" "report < PRIME" using True by auto
  qed
  note nb = next_block_below [of report claim]
  show ?thesis
    using True d nz by (auto simp: ticket_lock_def lock_Inr [OF assms] absolute_laws [OF assms] nb
        check_facts_list_def scheduled_def)
next
  case False
  then show ?thesis by (auto simp: ticket_lock_def word_gt_0)
qed

lemma vouch_note_lock_Inr:
  assumes "engine_laws e"
  shows "vouch_note_lock e p origin c salted vouched = Inr l \<longleftrightarrow>
    distinct [buyer_c p, check_platform p, verdict p, checker p] \<and> 2 \<le> c \<and>
    unat origin + unat c < 18446744069414584321 \<and> facts_ok e [salted, vouched, checker p] \<and>
    l = four (scheduled (Pkh 1 {checker p}) (Some (origin + c), None))
          (scheduled (Pkh 2 {buyer_c p, check_platform p}) (None, Some (origin + c - 1)))
          [Burn, Hax {salted, vouched, checker p}] [Burn]"
proof (cases "distinct [buyer_c p, check_platform p, verdict p, checker p] \<and> 2 \<le> c \<and>
    unat origin + unat c < 18446744069414584321")
  case True
  then have u: "unat (origin + c) = unat origin + unat c" by (simp add: unat_word_ariths)
  have c: "2 \<le> unat c" using True by (simp add: word_le_nat_alt)
  have nb: "next_block origin c err = Inr w \<longleftrightarrow> w = origin + c" for w err
    using True u by (auto simp: next_block_Inr word_less_nat_alt PRIME_u64)
  have nz: "origin + c \<noteq> 0" "origin + c - 1 \<noteq> 0"
  proof -
    show "origin + c \<noteq> 0" using u c by auto
    have "origin + c \<noteq> 1" using u c by auto
    then show "origin + c - 1 \<noteq> 0" by (simp add: right_minus_eq)
  qed
  have d: "buyer_c p \<noteq> check_platform p" using True by auto
  show ?thesis
    using True d nz by (auto simp: vouch_note_lock_def lock_Inr [OF assms] absolute_laws [OF assms] nb scheduled_def)
next
  case False
  moreover have "unat origin + unat c < 18446744069414584321" if "next_block origin c err = Inr w" for w err
  proof -
    have "unat origin + unat c < 2 ^ 64" "origin + c < PRIME" using that by (auto simp: next_block_Inr)
    then show ?thesis by (simp add: word_less_nat_alt PRIME_u64 unat_word_ariths)
  qed
  ultimately show ?thesis by (auto simp: vouch_note_lock_def)
qed

lemma demand_slot_Inr [simp]: "demand_slot r = Inr s \<longleftrightarrow> r < PRIME \<and> s = [DEMAND_ROUND_CORD, r, 0, 0, 0]"
  by (auto simp: demand_slot_def)

lemma demand_lock_Inr:
  assumes "engine_laws e"
  shows "demand_lock e prov chk ans salted record_root r = Inr l \<longleftrightarrow>
    prov \<noteq> chk \<and> 0 < ans \<and> unat ans + 1 < 18446744069414584321 \<and> r < PRIME \<and>
    facts_ok e [salted, record_root, [DEMAND_ROUND_CORD, r, 0, 0, 0]] \<and>
    l = four (windowed (Pkh 1 {prov}) (None, Some ans)) (windowed (Pkh 1 {chk}) (Some (ans + 1), None))
          [Burn, Hax {salted, record_root, [DEMAND_ROUND_CORD, r, 0, 0, 0]}] [Burn]"
proof (cases "unat ans + 1 < 18446744069414584321")
  case True
  then have u: "unat (ans + 1) = unat ans + 1" by (simp add: unat_word_ariths)
  then have nz: "ans + 1 \<noteq> 0" by auto
  have lt: "ans < PRIME" using True by (simp add: word_less_nat_alt PRIME_u64)
  have nb: "next_block ans 1 err = Inr w \<longleftrightarrow> w = ans + 1" for w err
    using True u by (auto simp: next_block_Inr word_less_nat_alt PRIME_u64)
  show ?thesis
    using True lt nz by (cases "ans = 0") (auto simp: demand_lock_def lock_Inr [OF assms] nb windowed_def word_gt_0)
next
  case False
  moreover have "unat ans + 1 < 18446744069414584321" if "next_block ans 1 err = Inr w" for w err
  proof -
    have "unat ans + 1 < 2 ^ 64" "ans + 1 < PRIME" using that by (auto simp: next_block_Inr)
    then show ?thesis by (simp add: word_less_nat_alt PRIME_u64 unat_word_ariths)
  qed
  ultimately show ?thesis by (auto simp: demand_lock_def)
qed


subsection \<open>The windows of scheduled branches\<close>

lemma schedule_min: "branch_window_open (scheduled (Pkh m S) (Some d, None)) since now \<longleftrightarrow> unat d \<le> unat now"
  by (simp add: branch_window_open_def scheduled_def tim_open_def no_window_def bound_ok_def Let_def
      word_le_nat_alt unat_ucast_u128)

lemma schedule_max: "branch_window_open (scheduled (Pkh m S) (None, Some d)) since now \<longleftrightarrow> unat now \<le> unat d"
  by (simp add: branch_window_open_def scheduled_def tim_open_def no_window_def bound_ok_def Let_def
      word_le_nat_alt unat_ucast_u128)

subsection \<open>Properties\<close>

text \<open>in the checking flow exactly one side is open at every block: capture or return of a ticket,
  payment or clawback of a vouch note, answer or expiry of a demand.\<close>

theorem checking_windows_exclusive:
  assumes "engine_laws e" "ticket_lock e p report claim facts = Inr t"
    and "vouch_note_lock e q origin c salted vouched = Inr v" "demand_lock e prov chk ans salted' rr r = Inr d"
  shows "branch_window_open (branches_of t ! 0) since now \<noteq> branch_window_open (branches_of t ! 2) since now \<and>
    branch_window_open (branches_of v ! 0) since now \<noteq> branch_window_open (branches_of v ! 1) since now \<and>
    branch_window_open (branches_of d ! 0) since now \<noteq> branch_window_open (branches_of d ! 1) since now"
proof -
  note b = assms(2-4) [unfolded ticket_lock_Inr [OF assms(1)] vouch_note_lock_Inr [OF assms(1)] demand_lock_Inr [OF assms(1)]]
  have "unat report + 1 < 18446744069414584321" using b(1) by (auto simp: word_less_nat_alt PRIME_u64)
  then have r: "unat (report + 1) = unat report + 1" by (simp add: unat_word_ariths)
  have v: "unat (origin + c) = unat origin + unat c" using b(2) by (simp add: unat_word_ariths)
  have "2 \<le> unat c" using b(2) by (simp add: word_le_nat_alt)
  then have v1: "unat (origin + c - 1) = unat (origin + c) - 1 \<and> 0 < unat (origin + c)"
    using v minus_one [of "origin + c"] by (simp add: word_le_nat_alt)
  have a: "unat (ans + 1) = unat ans + 1" using b(3) by (simp add: unat_word_ariths)
  have "branch_window_open (branches_of t ! 0) since now \<noteq> branch_window_open (branches_of t ! 2) since now"
    using b(1) r by (auto simp: schedule_min schedule_max)
  moreover have "branch_window_open (branches_of v ! 0) since now \<noteq> branch_window_open (branches_of v ! 1) since now"
    using b(2) v1 by (auto simp: schedule_min schedule_max)
  moreover have "branch_window_open (branches_of d ! 0) since now \<noteq> branch_window_open (branches_of d ! 1) since now"
    using b(3) a by (auto simp: window_min window_max)
  ultimately show ?thesis by blast
qed

definition demo_check_parties :: check_parties where
  "demo_check_parties = \<lparr>buyer_c = demo_dig 10, check_platform = demo_dig 20, verdict = demo_dig 70, checker = demo_dig 80\<rparr>"

definition demo_check_facts :: check_facts where
  "demo_check_facts = \<lparr>salted_digest = demo_dig 45, check_weight_root = demo_dig 50\<rparr>"

lemma demo_ticket: "\<exists>t. ticket_lock demo_engine demo_check_parties 540 1103 demo_check_facts = Inr t"
  unfolding ticket_lock_Inr [OF demo_engine_laws]
  using demo_facts_ok [of "[45, 50]"] by (simp add: demo_check_parties_def demo_check_facts_def PRIME_def)

lemma demo_vouch: "\<exists>v. vouch_note_lock demo_engine demo_check_parties 100 1152 (demo_dig 45) (demo_dig 60) = Inr v"
  unfolding vouch_note_lock_Inr [OF demo_engine_laws]
  using demo_facts_ok [of "[45, 60, 80]"] by (simp add: demo_check_parties_def)

lemma demo_demand: "\<exists>d. demand_lock demo_engine (demo_dig 30) (demo_dig 80) 24 (demo_dig 45) (demo_dig 60) 2 = Inr d"
proof -
  have c: "DEMAND_ROUND_CORD = 8227342519519503716"
    by (simp add: DEMAND_ROUND_CORD_def cord_def from_le_bytes_def)
  have "facts_ok demo_engine [demo_dig 45, demo_dig 60, [DEMAND_ROUND_CORD, 2, 0, 0, 0]]"
    by (simp add: facts_ok_def demo_dig_def demo_engine_def c PRIME_def)
  then show ?thesis unfolding demand_lock_Inr [OF demo_engine_laws] by (simp add: PRIME_def)
qed

theorem checking_windows_exclusive_witness:
  "\<exists>t v d. ticket_lock demo_engine demo_check_parties 540 1103 demo_check_facts = Inr t \<and>
    vouch_note_lock demo_engine demo_check_parties 100 1152 (demo_dig 45) (demo_dig 60) = Inr v \<and>
    demand_lock demo_engine (demo_dig 30) (demo_dig 80) 24 (demo_dig 45) (demo_dig 60) 2 = Inr d \<and>
    branch_window_open (branches_of t ! 0) 7 541 \<noteq> branch_window_open (branches_of t ! 2) 7 541"
proof -
  obtain t v d where "ticket_lock demo_engine demo_check_parties 540 1103 demo_check_facts = Inr t"
    "vouch_note_lock demo_engine demo_check_parties 100 1152 (demo_dig 45) (demo_dig 60) = Inr v"
    "demand_lock demo_engine (demo_dig 30) (demo_dig 80) 24 (demo_dig 45) (demo_dig 60) 2 = Inr d"
    using demo_ticket demo_vouch demo_demand by blast
  with checking_windows_exclusive [OF demo_engine_laws this] show ?thesis by blast
qed

text \<open>The checker of a vouch is paid exactly when the provider is: with the origin page of the provider
  note and one challenge window, payment and clawback of the vouch note open at the same blocks as those
  of the provider note, wherever the vouch note itself lands.\<close>

theorem vouch_follows_provider_note:
  assumes "engine_laws e" "provider_note_lock e p c facts s = Inr n"
    and "vouch_note_lock e q origin c salted vouched = Inr v"
  shows "(branch_window_open (branches_of v ! 0) landed now \<longleftrightarrow> branch_window_open (branches_of n ! 0) origin now) \<and>
    (branch_window_open (branches_of v ! 1) landed now \<longleftrightarrow> branch_window_open (branches_of n ! 1) origin now)"
proof -
  note b = assms(2,3) [unfolded provider_note_lock_Inr [OF assms(1)] vouch_note_lock_Inr [OF assms(1)]]
  have v: "unat (origin + c) = unat origin + unat c" using b(2) by (simp add: unat_word_ariths)
  have c: "2 \<le> unat c" using b(2) by (simp add: word_le_nat_alt)
  have "unat (origin + c - 1) = unat (origin + c) - 1" "unat (c - 1) = unat c - 1"
    using v c minus_one [of "origin + c"] minus_one [of c] by (simp_all add: word_le_nat_alt)
  then have "unat (origin + c - 1) = unat origin + unat (c - 1)" using v c by simp
  with b v show ?thesis by (auto simp: schedule_min schedule_max window_min window_max)
qed

theorem vouch_follows_provider_note_witness:
  "\<exists>n v. provider_note_lock demo_engine demo_parties 1152 demo_facts demo_serve = Inr n \<and>
    vouch_note_lock demo_engine demo_check_parties 100 1152 (demo_dig 45) (demo_dig 60) = Inr v \<and>
    (branch_window_open (branches_of v ! 0) 105 1252 \<longleftrightarrow> branch_window_open (branches_of n ! 0) 100 1252)"
proof -
  obtain n v where "provider_note_lock demo_engine demo_parties 1152 demo_facts demo_serve = Inr n"
    "vouch_note_lock demo_engine demo_check_parties 100 1152 (demo_dig 45) (demo_dig 60) = Inr v"
    using demo_provider_note demo_vouch by blast
  with vouch_follows_provider_note [OF demo_engine_laws this] show ?thesis by blast
qed

end
