(* ===== verification/BondLocks.thy ===== *)
theory BondLocks
  imports CheckLocks
begin

text \<open>
  The bonds and the notes a slash pays into, \<^verbatim>\<open>crates/vesl-core/src/bond_locks.rs\<close>: the slice, the held
  change and the reward.
\<close>

subsection \<open>Operands\<close>

datatype slice_role = ProviderSlice | CheckerSlice

primrec role_cord :: "slice_role \<Rightarrow> u64" where
  "role_cord ProviderSlice = cord ''slice-pv''"
| "role_cord CheckerSlice = cord ''slice-ck''"

record slice_keys =
  holder :: dig
  slasher :: dig
  slice_verdict :: dig
  slice_platform :: dig

definition slice_slot :: "slice_role \<Rightarrow> u64 \<Rightarrow> lock_error + dig" where
  "slice_slot role index =
     res_bind (ensure (index < PRIME) (NotAFieldElement ''the slice index'' index)) (\<lambda>_.
       Inr [role_cord role, index, 0, 0, 0])"

definition two :: "spend_condition \<Rightarrow> spend_condition \<Rightarrow> lock" where
  "two a b = V2 (LockV2 a b)"

definition refuse_distinct_slice_keys :: "slice_keys \<Rightarrow> lock_error + unit" where
  "refuse_distinct_slice_keys k =
     res_bind (refuse_same_key (slasher k) (slice_verdict k) ''the slasher'' ''the verdict key'') (\<lambda>_.
     res_bind (refuse_same_key (holder k) (slice_verdict k) ''the holder'' ''the verdict key'') (\<lambda>_.
     res_bind (ensure (slasher k \<noteq> holder k) (SameKey ''the slasher'' ''the holder'')) (\<lambda>_.
     res_bind (ensure (slasher k \<noteq> slice_platform k) (SameKey ''the slasher'' ''the platform'')) (\<lambda>_.
     res_bind (refuse_same_key (holder k) (slice_platform k) ''the holder'' ''the platform'') (\<lambda>_.
       ensure (slice_verdict k \<noteq> slice_platform k) (SameKey ''the verdict key'' ''the platform's funding key''))))))"


subsection \<open>The notes\<close>

definition slice_lock ::
  "engine \<Rightarrow> slice_keys \<Rightarrow> slice_role \<Rightarrow> u64 \<Rightarrow> u64 \<Rightarrow> dig \<Rightarrow> lock_error + lock" where
  "slice_lock e keys role index t_life terms =
     res_bind (refuse_distinct_slice_keys keys) (\<lambda>_.
     res_bind (refuse_zero_window t_life ''the slice's life t_life'') (\<lambda>_.
     res_bind (pkh_conjunct e 2 [slasher keys, slice_verdict keys]) (\<lambda>slash.
     res_bind (pkh_conjunct e 2 [holder keys, slice_platform keys]) (\<lambda>exit.
     res_bind (pkh_conjunct e 1 [holder keys]) (\<lambda>fallback.
     res_bind (slice_slot role index) (\<lambda>slot.
     res_bind (facts_hax e [(''the bond's terms'', terms), (''the slice's slot'', slot)]) (\<lambda>hax.
       Inr (four [slash] [exit] [fallback, relative e (Some t_life) None] [Burn, hax]))))))))"

definition held_lock :: "engine \<Rightarrow> dig \<Rightarrow> u64 \<Rightarrow> dig \<Rightarrow> lock_error + lock" where
  "held_lock e hold_key hold terms =
     res_bind (refuse_zero_window hold ''the change's hold'') (\<lambda>_.
     res_bind (pkh_conjunct e 1 [hold_key]) (\<lambda>release.
     res_bind (facts_hax e [(''the bond's terms'', terms)]) (\<lambda>hax.
       Inr (two [release, relative e (Some hold) None] [Burn, hax]))))"

definition reward_lock :: "engine \<Rightarrow> dig \<Rightarrow> dig \<Rightarrow> dig \<Rightarrow> lock_error + lock" where
  "reward_lock e verdict_key order statement =
     res_bind (pkh_conjunct e 1 [verdict_key]) (\<lambda>pay.
     res_bind (facts_hax e [(''the order digest'', order), (''the convicted statement'', statement)]) (\<lambda>hax.
       Inr (two [pay] [Burn, hax])))"


subsection \<open>What the builders accept, and what they build\<close>

lemma slice_slot_Inr [simp]: "slice_slot role i = Inr s \<longleftrightarrow> i < PRIME \<and> s = [role_cord role, i, 0, 0, 0]"
  by (auto simp: slice_slot_def)

lemma refuse_distinct_slice_keys_Inr [simp]:
  "refuse_distinct_slice_keys k = Inr u \<longleftrightarrow> distinct [holder k, slasher k, slice_verdict k, slice_platform k]"
  by (auto simp: refuse_distinct_slice_keys_def)

lemma slice_lock_Inr:
  assumes "engine_laws e"
  shows "slice_lock e k role i t terms = Inr l \<longleftrightarrow>
    distinct [holder k, slasher k, slice_verdict k, slice_platform k] \<and> 0 < t \<and> t < PRIME \<and> i < PRIME \<and>
    facts_ok e [terms, [role_cord role, i, 0, 0, 0]] \<and>
    l = four [Pkh 2 {slasher k, slice_verdict k}] [Pkh 2 {holder k, slice_platform k}]
          (windowed (Pkh 1 {holder k}) (Some t, None)) [Burn, Hax {terms, [role_cord role, i, 0, 0, 0]}]"
proof (cases "distinct [holder k, slasher k, slice_verdict k, slice_platform k] \<and> t \<noteq> 0")
  case True
  then have "slasher k \<noteq> slice_verdict k" "holder k \<noteq> slice_platform k" by auto
  with True show ?thesis
    by (auto simp: slice_lock_def lock_Inr [OF assms] windowed_def word_gt_0)
next
  case False
  then show ?thesis by (auto simp: slice_lock_def)
qed

lemma held_lock_Inr:
  assumes "engine_laws e"
  shows "held_lock e k t terms = Inr l \<longleftrightarrow>
    0 < t \<and> t < PRIME \<and> facts_ok e [terms] \<and>
    l = two (windowed (Pkh 1 {k}) (Some t, None)) [Burn, Hax {terms}]"
  by (cases "t = 0") (auto simp: held_lock_def lock_Inr [OF assms] windowed_def word_gt_0)

lemma reward_lock_Inr:
  assumes "engine_laws e"
  shows "reward_lock e k order statement = Inr l \<longleftrightarrow>
    facts_ok e [order, statement] \<and> l = two [Pkh 1 {k}] [Burn, Hax {order, statement}]"
  by (auto simp: reward_lock_def lock_Inr [OF assms])

lemma branches_two [simp]: "branches_of (two a b) = [a, b]"
  by (simp add: two_def)

lemma cords_differ: "role_cord ProviderSlice \<noteq> role_cord CheckerSlice" "role_cord role \<noteq> DEMAND_ROUND_CORD"
proof -
  show "role_cord ProviderSlice \<noteq> role_cord CheckerSlice" by (simp add: cord_def from_le_bytes_def)
  show "role_cord role \<noteq> DEMAND_ROUND_CORD"
    by (cases role) (simp_all add: cord_def from_le_bytes_def DEMAND_ROUND_CORD_def)
qed

subsection \<open>Every note that is built\<close>

inductive built :: "engine \<Rightarrow> lock \<Rightarrow> bool" for e where
  funding: "funding_lock e b p d f = Inr l \<Longrightarrow> built e l"
| job: "job_lock e ps d f = Inr l \<Longrightarrow> built e l"
| provider_note: "provider_note_lock e ps c f s = Inr l \<Longrightarrow> built e l"
| ticket: "ticket_lock e cs r c cf = Inr l \<Longrightarrow> built e l"
| vouch: "vouch_note_lock e cs origin c h r = Inr l \<Longrightarrow> built e l"
| demand: "demand_lock e a b w h r i = Inr l \<Longrightarrow> built e l"
| slice: "slice_lock e ks role i t h = Inr l \<Longrightarrow> built e l"
| held: "held_lock e k t h = Inr l \<Longrightarrow> built e l"
| reward: "reward_lock e k a b = Inr l \<Longrightarrow> built e l"

text \<open>
  A usable conjunct: a threshold between one and the number of its keys, and no zero bound.  Two branches
  that ask for the same number of signatures name different sets of keys.
\<close>

primrec usable :: "prim \<Rightarrow> bool" where
  "usable (Pkh m S) \<longleftrightarrow> 0 < m \<and> finite S \<and> unat m \<le> card S"
| "usable (Tim r a) \<longleftrightarrow> fst r \<noteq> Some 0 \<and> snd r \<noteq> Some 0 \<and> fst a \<noteq> Some 0 \<and> snd a \<noteq> Some 0"
| "usable (Hax S) \<longleftrightarrow> S \<noteq> {}"
| "usable Burn \<longleftrightarrow> True"

fun signer_sets :: "spend_condition \<Rightarrow> (u64 \<times> dig set) list" where
  "signer_sets [] = []"
| "signer_sets (Pkh m S # c) = (m, S) # signer_sets c"
| "signer_sets (_ # c) = signer_sets c"

definition well_built :: "lock \<Rightarrow> bool" where
  "well_built l \<longleftrightarrow>
     list_all (list_all usable) (branches_of l) \<and>
     list_all (\<lambda>c. Burn \<in> set c \<or> length (signer_sets c) = 1) (branches_of l) \<and>
     distinct (concat (map signer_sets (branches_of l)))"

lemmas well_built_simps = well_built_def windowed_def scheduled_def no_window_def

lemma card_two: "a \<noteq> b \<Longrightarrow> card {a, b} = 2"
  by simp

lemma vouch_bounds:
  assumes "2 \<le> c" "unat origin + unat c < 18446744069414584321"
  shows "origin + c \<noteq> (0 :: u64)" "origin + c \<noteq> 1"
proof -
  have "unat (origin + c) = unat origin + unat c" "2 \<le> unat c"
    using assms by (simp_all add: unat_word_ariths word_le_nat_alt)
  then show "origin + c \<noteq> 0" "origin + c \<noteq> 1" by auto
qed

lemma succ_nonzero: "unat (x :: u64) + 1 < 18446744073709551616 \<Longrightarrow> x + 1 \<noteq> 0"
proof -
  assume "unat x + 1 < 18446744073709551616"
  then have "unat (x + 1) = unat x + 1" by (simp add: unat_word_ariths)
  then show ?thesis by auto
qed

lemma built_well_built:
  assumes laws: "engine_laws e" and "built e l"
  shows "well_built l"
  using assms(2)
proof cases
  case (funding b p d f)
  then show ?thesis unfolding funding_lock_Inr [OF laws] by (auto simp: well_built_simps card_two)
next
  case (job ps d f)
  then show ?thesis unfolding job_lock_Inr [OF laws]
    using succ_nonzero [of d] by (auto simp: well_built_simps card_two doubleton_eq_iff)
next
  case (provider_note ps c f s)
  moreover have "2 \<le> c \<Longrightarrow> c \<noteq> 1 \<and> c \<noteq> 0" by (auto simp: word_le_nat_alt)
  ultimately show ?thesis unfolding provider_note_lock_Inr [OF laws]
    by (auto simp: well_built_simps card_two facts_list_def)
next
  case (ticket cs r c cf)
  then have "unat r + 1 < 18446744073709551616"
    unfolding ticket_lock_Inr [OF laws] by (auto simp: word_less_nat_alt PRIME_u64)
  then show ?thesis using ticket succ_nonzero [of r] unfolding ticket_lock_Inr [OF laws]
    by (auto simp: well_built_simps card_two doubleton_eq_iff)
next
  case (vouch cs origin c h r)
  then show ?thesis using vouch_bounds [of c origin] unfolding vouch_note_lock_Inr [OF laws]
    by (auto simp: well_built_simps card_two right_minus_eq)
next
  case (demand a b w h r i)
  then show ?thesis using succ_nonzero [of w] unfolding demand_lock_Inr [OF laws]
    by (auto simp: well_built_simps)
next
  case (slice ks role i t h)
  then show ?thesis unfolding slice_lock_Inr [OF laws]
    by (auto simp: well_built_simps card_two doubleton_eq_iff)
next
  case (held k t h)
  then show ?thesis unfolding held_lock_Inr [OF laws] by (auto simp: well_built_simps)
next
  case (reward k a b)
  then show ?thesis unfolding reward_lock_Inr [OF laws] by (auto simp: well_built_simps)
qed

subsection \<open>Properties\<close>

text \<open>C16: whatever note of the nine is built, every branch can be used as it reads: each signature conjunct
  asks for at least one and at most as many signatures as it has keys, no time bound is zero, every
  branch without a burn names exactly one signer set, and no two branches of a note accept the same
  number of signatures from the same keys.\<close>

theorem built_notes_well_formed:
  assumes "engine_laws e" "built e l"
  shows "well_built l"
  by (rule built_well_built [OF assms])

definition demo_slice_keys :: slice_keys where
  "demo_slice_keys = \<lparr>holder = demo_dig 30, slasher = demo_dig 31, slice_verdict = demo_dig 70, slice_platform = demo_dig 20\<rparr>"

lemma demo_slice: "i < 1000 \<Longrightarrow> \<exists>l. slice_lock demo_engine demo_slice_keys role i 9216 (demo_dig 90) = Inr l"
proof -
  assume i: "i < 1000"
  then have "i < PRIME" by (simp add: PRIME_def word_less_nat_alt)
  moreover have "role_cord role < PRIME \<and> role_cord role \<noteq> 90"
    by (cases role) (simp_all add: cord_def from_le_bytes_def PRIME_def)
  ultimately have "facts_ok demo_engine [demo_dig 90, [role_cord role, i, 0, 0, 0]]"
    by (auto simp: facts_ok_def demo_dig_def demo_engine_def PRIME_def)
  with \<open>i < PRIME\<close> show ?thesis
    unfolding slice_lock_Inr [OF demo_engine_laws] by (simp add: demo_slice_keys_def PRIME_def)
qed

theorem built_notes_well_formed_witness:
  "\<exists>l. slice_lock demo_engine demo_slice_keys ProviderSlice 3 9216 (demo_dig 90) = Inr l \<and> well_built l"
proof -
  obtain l where l: "slice_lock demo_engine demo_slice_keys ProviderSlice 3 9216 (demo_dig 90) = Inr l"
    using demo_slice [of 3] by auto
  with built_notes_well_formed [OF demo_engine_laws slice [OF l]] show ?thesis by blast
qed

text \<open>The slices of one holder under one terms digest have different addresses: two slices with the same
  lock have the same role and the same index, so the outputs of one posting never merge.\<close>

theorem slice_addresses_distinct:
  assumes "engine_laws e" "slice_lock e k role i t terms = Inr l" "slice_lock e k' role' i' t' terms = Inr l"
  shows "role = role' \<and> i = i' \<and> t = t' \<and> holder k = holder k' \<and> slice_platform k = slice_platform k'"
proof -
  note b = assms(2,3) [unfolded slice_lock_Inr [OF assms(1)]]
  then have eq: "{terms, [role_cord role, i, 0, 0, 0]} = {terms, [role_cord role', i', 0, 0, 0]}" "t = t'"
    "{holder k} = {holder k'}" "{holder k, slice_platform k} = {holder k', slice_platform k'}"
    by (auto simp only: four_def windowed_def lock.inject lock_v4.inject lock_v2.inject list.inject prim.inject
        prod.inject option.inject)
  moreover have "holder k \<noteq> slice_platform k" "holder k' \<noteq> slice_platform k'" using b by auto
  moreover have "terms \<noteq> [role_cord role, i, 0, 0, 0]" "terms \<noteq> [role_cord role', i', 0, 0, 0]"
    using b by (auto simp: facts_ok_def)
  ultimately have "role_cord role = role_cord role'" "i = i'" "holder k = holder k'" "slice_platform k = slice_platform k'"
    by (auto simp: doubleton_eq_iff)
  moreover have "role = role'" using calculation(1) cords_differ(1) by (cases role; cases role') auto
  ultimately show ?thesis using eq(2) by blast
qed

theorem slice_addresses_distinct_witness:
  "\<exists>l. slice_lock demo_engine demo_slice_keys ProviderSlice 3 9216 (demo_dig 90) = Inr l \<and>
    slice_lock demo_engine demo_slice_keys CheckerSlice 3 9216 (demo_dig 90) \<noteq> Inr l"
proof -
  obtain l where l: "slice_lock demo_engine demo_slice_keys ProviderSlice 3 9216 (demo_dig 90) = Inr l"
    using demo_slice [of 3] by auto
  have "slice_lock demo_engine demo_slice_keys CheckerSlice 3 9216 (demo_dig 90) \<noteq> Inr l"
  proof
    assume "slice_lock demo_engine demo_slice_keys CheckerSlice 3 9216 (demo_dig 90) = Inr l"
    from slice_addresses_distinct [OF demo_engine_laws l this] show False by simp
  qed
  with l show ?thesis by blast
qed

end
