(* ===== verification/Commit.thy ===== *)
theory Commit
  imports Merkle
begin

text \<open>
  Committing, guarding and settling: \<^verbatim>\<open>crates/vesl-core/src/mint.rs\<close>, \<^verbatim>\<open>guard.rs\<close>, the data of \<^verbatim>\<open>types.rs\<close>
  and the \<open>Settle\<close> orchestrator of \<^verbatim>\<open>settle.rs\<close>.  What the guard needs of a commitment scheme is the
  locale \<open>commitment\<close>; the Merkle tree provides it.
\<close>

subsection \<open>The interface of a commitment scheme\<close>

locale commitment =
  fixes commit :: "bytes list \<Rightarrow> 't option"
    and root_of :: "'t \<Rightarrow> tip5_hash"
    and prove :: "'t \<Rightarrow> nat \<Rightarrow> 'p option"
    and verify :: "bytes \<Rightarrow> 'p \<Rightarrow> tip5_hash \<Rightarrow> bool"
    and capacity :: nat
  assumes commits: "data \<noteq> [] \<Longrightarrow> commit data \<noteq> None"
    and proves: "commit data = Some t \<Longrightarrow> i < length data \<Longrightarrow> length data \<le> capacity \<Longrightarrow>
      \<exists>p. prove t i = Some p \<and> verify (data ! i) p (root_of t)"
begin

lemma all_leaves_prove:
  assumes "data \<noteq> []" "length data \<le> capacity"
  shows "\<exists>t. commit data = Some t \<and> (\<forall>i<length data. \<exists>p. prove t i = Some p \<and> verify (data ! i) p (root_of t))"
  using commits [OF assms(1)] proves assms(2) by blast

end

definition result_option :: "'e + 'a \<Rightarrow> 'a option" where
  "result_option r = (case r of Inl _ \<Rightarrow> None | Inr x \<Rightarrow> Some x)"

lemma merkle_commitment:
  assumes "digest_fn hv" "digest_fn h10"
  shows "commitment (\<lambda>d. result_option (merkle_build hv h10 d)) merkle_root (\<lambda>t i. result_option (merkle_proof t i))
    (verify_proof hv h10) (2 ^ 64)"
proof
  fix data :: "bytes list"
  assume "data \<noteq> []"
  then show "result_option (merkle_build hv h10 data) \<noteq> None"
    by (simp add: merkle_build_def Let_def result_option_def)
next
  fix data :: "bytes list" and t i
  assume "result_option (merkle_build hv h10 data) = Some t" and i: "i < length data" "length data \<le> 2 ^ 64"
  then have "merkle_build hv h10 data = Inr t" by (simp add: result_option_def split: sum.splits)
  from merkle_complete [OF assms this i] obtain p where "merkle_proof t i = Inr p"
    "verify_proof hv h10 (data ! i) p (merkle_root t)" by blast
  then show "\<exists>p. result_option (merkle_proof t i) = Some p \<and> verify_proof hv h10 (data ! i) p (merkle_root t)"
    by (simp add: result_option_def)
qed

text \<open>The Tip5 sponge of the signing crate is such a digest function.\<close>

definition tip5_digest :: "u64 list \<Rightarrow> tip5_hash" where
  "tip5_digest xs = (case hash_varlen xs of None \<Rightarrow> TIP5_ZERO | Some d \<Rightarrow> d)"

lemma digest_fn_tip5: "digest_fn tip5_digest"
  using sponge_digest_canonical by (simp add: digest_fn_def is_digest_def tip5_digest_def hash_varlen_sponge)

interpretation tree: commitment "\<lambda>d. result_option (merkle_build tip5_digest tip5_digest d)" merkle_root
  "\<lambda>t i. result_option (merkle_proof t i)" "verify_proof tip5_digest tip5_digest" "2 ^ 64"
  by (rule merkle_commitment [OF digest_fn_tip5 digest_fn_tip5])


subsection \<open>Mint\<close>

datatype mint_error =
    NoTree
  | IndexOutOfRange nat nat

record mint =
  tree :: "merkle_tree option"
  leaf_count :: nat

definition mint_new :: mint where
  "mint_new = \<lparr>tree = None, leaf_count = 0\<rparr>"

text \<open>\<open>None\<close> is the documented panic on an empty data set.\<close>

definition mint_commit ::
  "(u64 list \<Rightarrow> tip5_hash) \<Rightarrow> (u64 list \<Rightarrow> tip5_hash) \<Rightarrow> mint \<Rightarrow> bytes list \<Rightarrow> (tip5_hash \<times> mint) option" where
  "mint_commit hv h10 m data =
     (case merkle_build hv h10 data of
        Inl _ \<Rightarrow> None
      | Inr t \<Rightarrow> Some (merkle_root t, m\<lparr>leaf_count := length data, tree := Some t\<rparr>))"

definition mint_proof :: "mint \<Rightarrow> nat \<Rightarrow> mint_error + proof_node list" where
  "mint_proof m index =
     (case tree m of
        None \<Rightarrow> Inl NoTree
      | Some t \<Rightarrow>
          if leaf_count m \<le> index then Inl (IndexOutOfRange index (leaf_count m))
          else (case merkle_proof t index of
                  Inl _ \<Rightarrow> Inl (IndexOutOfRange index (leaf_count m))
                | Inr p \<Rightarrow> Inr p))"

definition mint_root :: "mint \<Rightarrow> tip5_hash option" where
  "mint_root m = map_option merkle_root (tree m)"


subsection \<open>Guard\<close>

definition MAX_ROOTS :: nat where
  "MAX_ROOTS = 10000"

datatype guard_error = CapacityExceeded

record guard =
  roots :: "tip5_hash set"

definition guard_new :: guard where
  "guard_new = \<lparr>roots = {}\<rparr>"

definition register_root :: "guard \<Rightarrow> tip5_hash \<Rightarrow> (guard_error + unit) \<times> guard" where
  "register_root g r =
     (if MAX_ROOTS \<le> card (roots g) \<and> r \<notin> roots g then (Inl CapacityExceeded, g)
      else (Inr (), g\<lparr>roots := insert r (roots g)\<rparr>))"

definition revoke_root :: "guard \<Rightarrow> tip5_hash \<Rightarrow> bool \<times> guard" where
  "revoke_root g r = (r \<in> roots g, g\<lparr>roots := roots g - {r}\<rparr>)"

definition is_registered :: "guard \<Rightarrow> tip5_hash \<Rightarrow> bool" where
  "is_registered g r \<longleftrightarrow> r \<in> roots g"

datatype reject_reason = RootNotRegistered tip5_hash | ProofInvalid

definition guard_check ::
  "(bytes \<Rightarrow> 'p \<Rightarrow> tip5_hash \<Rightarrow> bool) \<Rightarrow> guard \<Rightarrow> bytes \<Rightarrow> 'p \<Rightarrow> tip5_hash \<Rightarrow> bool" where
  "guard_check verify g data pf r \<longleftrightarrow> is_registered g r \<and> verify data pf r"

definition check_with_reason ::
  "(bytes \<Rightarrow> 'p \<Rightarrow> tip5_hash \<Rightarrow> bool) \<Rightarrow> guard \<Rightarrow> bytes \<Rightarrow> 'p \<Rightarrow> tip5_hash \<Rightarrow> reject_reason + unit" where
  "check_with_reason verify g data pf r =
     (if \<not> is_registered g r then Inl (RootNotRegistered r)
      else if \<not> verify data pf r then Inl ProofInvalid
      else Inr ())"

datatype guard_op = Register tip5_hash | Revoke tip5_hash

primrec guard_step :: "guard \<Rightarrow> guard_op \<Rightarrow> guard" where
  "guard_step g (Register r) = snd (register_root g r)"
| "guard_step g (Revoke r) = snd (revoke_root g r)"

definition guard_inv :: "guard \<Rightarrow> bool" where
  "guard_inv g \<longleftrightarrow> finite (roots g) \<and> card (roots g) \<le> MAX_ROOTS"

lemma guard_inv_new: "guard_inv guard_new"
  by (simp add: guard_inv_def guard_new_def)

lemma guard_inv_step: "guard_inv g \<Longrightarrow> guard_inv (guard_step g gop)"
  by (cases gop) (auto simp: guard_inv_def register_root_def revoke_root_def card_insert_if
      intro: le_trans [OF card_Diff1_le])

lemma guard_inv_run: "guard_inv g \<Longrightarrow> guard_inv (foldl guard_step g ops)"
  by (induction ops arbitrary: g) (simp_all add: guard_inv_step)

context commitment begin

text \<open>A guard that trusts the root of a commitment accepts every proof of it.\<close>

lemma guard_accepts:
  assumes "commit data = Some t" "i < length data" "length data \<le> capacity" "is_registered g (root_of t)"
  shows "\<exists>p. prove t i = Some p \<and> guard_check verify g (data ! i) p (root_of t)"
  using proves [OF assms(1-3)] assms(4) by (auto simp: guard_check_def)

end


subsection \<open>Settlement\<close>

record nock_zkp =
  zkp_root :: tip5_hash
  zkp_prf :: bytes
  stamp :: u64

datatype note_state = Pending | Verified nock_zkp | Settled

record settle_note =
  note_id :: u64
  note_hull :: u64
  note_root :: tip5_hash
  note_state :: note_state

record graft_payload =
  payload_note :: settle_note
  payload_data :: bytes
  expected_root :: tip5_hash

definition SETTLED_IDS_CAP :: nat where
  "SETTLED_IDS_CAP = 1000000"

definition MAX_POKE_DATA_BYTES :: nat where
  "MAX_POKE_DATA_BYTES = 64 * 1024 * 1024"

text \<open>The domain verifier: a test and a poke builder that can fail.\<close>

record 'poke verifier =
  verify_commitment :: "u64 \<Rightarrow> bytes \<Rightarrow> tip5_hash \<Rightarrow> bool"
  build_settle_poke :: "graft_payload \<Rightarrow> 'poke option"

record settle_state =
  settle_guard :: guard
  settled_ids :: "u64 set"
  settled_order :: "u64 list"

datatype settle_error =
    SettleRootNotRegistered tip5_hash
  | DuplicateSettlement u64
  | NotPending u64 note_state
  | VerificationFailed u64
  | PokeFailed
  | PayloadTooLarge nat

definition settle_new :: settle_state where
  "settle_new = \<lparr>settle_guard = guard_new, settled_ids = {}, settled_order = []\<rparr>"

definition settle_register_root :: "settle_state \<Rightarrow> tip5_hash \<Rightarrow> (guard_error + unit) \<times> settle_state" where
  "settle_register_root st r =
     (let (res, g) = register_root (settle_guard st) r in (res, st\<lparr>settle_guard := g\<rparr>))"

text \<open>The eviction of the oldest identifier at the cap, and the insertion of a new one.\<close>

definition evict :: "settle_state \<Rightarrow> settle_state" where
  "evict st =
     (if SETTLED_IDS_CAP \<le> card (settled_ids st)
      then (case settled_order st of
              [] \<Rightarrow> st
            | old # rest \<Rightarrow> st\<lparr>settled_order := rest, settled_ids := settled_ids st - {old}\<rparr>)
      else st)"

definition remember :: "settle_state \<Rightarrow> u64 \<Rightarrow> settle_state" where
  "remember st i =
     (if i \<in> settled_ids st then st
      else st\<lparr>settled_ids := insert i (settled_ids st), settled_order := settled_order st @ [i]\<rparr>)"

definition settle ::
  "'poke verifier \<Rightarrow> settle_state \<Rightarrow> graft_payload \<Rightarrow> (settle_error + settle_note) \<times> settle_state" where
  "settle v st payload =
     (let n = payload_note payload
      in if \<not> is_registered (settle_guard st) (expected_root payload)
         then (Inl (SettleRootNotRegistered (expected_root payload)), st)
         else if note_id n \<in> settled_ids st then (Inl (DuplicateSettlement (note_id n)), st)
         else if note_state n \<noteq> Pending then (Inl (NotPending (note_id n) (note_state n)), st)
         else if \<not> verify_commitment v (note_id n) (payload_data payload) (expected_root payload)
         then (Inl (VerificationFailed (note_id n)), st)
         else
           (case build_settle_poke v payload of
              None \<Rightarrow> (Inl PokeFailed, st)
            | Some _ \<Rightarrow> (Inr (n\<lparr>note_state := Settled\<rparr>), remember (evict st) (note_id n))))"

definition poke_bytes ::
  "'poke verifier \<Rightarrow> ('poke \<Rightarrow> bytes) \<Rightarrow> graft_payload \<Rightarrow> settle_error + bytes" where
  "poke_bytes v jam payload =
     (if MAX_POKE_DATA_BYTES < length (payload_data payload)
      then Inl (PayloadTooLarge (length (payload_data payload)))
      else case build_settle_poke v payload of None \<Rightarrow> Inl PokeFailed | Some p \<Rightarrow> Inr (jam p))"

text \<open>
  A history of an orchestrator: registrations and settlements, as a step relation labelled with the
  identifier a step settles.
\<close>

inductive settle_step :: "'poke verifier \<Rightarrow> settle_state \<Rightarrow> u64 option \<Rightarrow> settle_state \<Rightarrow> bool" for v where
  registers: "settle_register_root st r = (res, st') \<Longrightarrow> settle_step v st None st'"
| settles: "settle v st payload = (Inr n, st') \<Longrightarrow> settle_step v st (Some (note_id (payload_note payload))) st'"
| refuses: "settle v st payload = (Inl err, st') \<Longrightarrow> settle_step v st None st'"

inductive settle_run :: "'poke verifier \<Rightarrow> settle_state \<Rightarrow> u64 list \<Rightarrow> settle_state \<Rightarrow> bool" for v where
  idle: "settle_run v st [] st"
| step: "settle_run v st ids st' \<Longrightarrow> settle_step v st' l st'' \<Longrightarrow>
    settle_run v st (ids @ (case l of None \<Rightarrow> [] | Some i \<Rightarrow> [i])) st''"

text \<open>The invariant: the order lists the identifiers once each, and there are at most as many as the cap.\<close>

definition settle_inv :: "settle_state \<Rightarrow> bool" where
  "settle_inv st \<longleftrightarrow>
     guard_inv (settle_guard st) \<and> distinct (settled_order st) \<and>
     settled_ids st = set (settled_order st) \<and> length (settled_order st) \<le> SETTLED_IDS_CAP"

lemma settle_inv_new: "settle_inv settle_new"
  by (simp add: settle_inv_def settle_new_def guard_inv_new)

lemma settle_ok:
  "settle v st payload = (Inr n, st') \<longleftrightarrow>
    is_registered (settle_guard st) (expected_root payload) \<and> note_id (payload_note payload) \<notin> settled_ids st \<and>
    note_state (payload_note payload) = Pending \<and>
    verify_commitment v (note_id (payload_note payload)) (payload_data payload) (expected_root payload) \<and>
    build_settle_poke v payload \<noteq> None \<and> n = (payload_note payload)\<lparr>note_state := Settled\<rparr> \<and>
    st' = remember (evict st) (note_id (payload_note payload))"
  by (auto simp: settle_def Let_def split: option.splits)

lemma settle_refused: "settle v st payload = (Inl err, st') \<Longrightarrow> st' = st"
  by (auto simp: settle_def Let_def split: option.splits if_splits)

lemma settle_register_state:
  "settle_register_root st r = (res, st') \<Longrightarrow>
    settled_order st' = settled_order st \<and> settled_ids st' = settled_ids st \<and>
    settle_guard st' = snd (register_root (settle_guard st) r)"
  by (auto simp: settle_register_root_def Let_def split: prod.splits)

text \<open>What a settlement does to the order: at the cap the oldest goes, the new one comes last.\<close>

lemma remember_evict:
  assumes "settle_inv st" "i \<notin> settled_ids st"
  shows "settled_order (remember (evict st) i) =
      (if length (settled_order st) = SETTLED_IDS_CAP then tl (settled_order st) else settled_order st) @ [i] \<and>
    settle_inv (remember (evict st) i)"
proof -
  have c: "card (settled_ids st) = length (settled_order st)"
    using assms(1) by (simp add: settle_inv_def distinct_card)
  show ?thesis
  proof (cases "length (settled_order st) = SETTLED_IDS_CAP")
    case False
    then have "length (settled_order st) < SETTLED_IDS_CAP" using assms(1) by (simp add: settle_inv_def)
    with assms c show ?thesis by (auto simp: evict_def remember_def settle_inv_def)
  next
    case True
    then obtain old rest where o: "settled_order st = old # rest"
      by (cases "settled_order st") (auto simp: SETTLED_IDS_CAP_def)
    with True assms c show ?thesis by (auto simp: evict_def remember_def settle_inv_def)
  qed
qed

lemma settle_step_inv: "settle_step v st l st' \<Longrightarrow> settle_inv st \<Longrightarrow> settle_inv st'"
proof (induction rule: settle_step.induct)
  case (registers st r res st')
  then show ?case using settle_register_state [OF registers(1)] guard_inv_step [of "settle_guard st" "Register r"]
    by (simp add: settle_inv_def)
next
  case (settles st payload n st')
  then show ?case using remember_evict by (auto simp: settle_ok)
next
  case (refuses st payload err st')
  then show ?case using settle_refused by blast
qed

lemma settle_run_inv: "settle_run v st ids st' \<Longrightarrow> settle_inv st \<Longrightarrow> settle_inv st'"
  by (induction rule: settle_run.induct) (auto intro: settle_step_inv)

text \<open>An identifier stays in the cache while fewer than the cap have been settled after it.\<close>

lemma settle_step_order:
  assumes "settle_step v st l st'" "settle_inv st"
  shows "case l of None \<Rightarrow> settled_order st' = settled_order st
    | Some i \<Rightarrow> settled_order st' =
        (if length (settled_order st) = SETTLED_IDS_CAP then tl (settled_order st) else settled_order st) @ [i]"
  using assms
proof (induction rule: settle_step.induct)
  case (registers st r res st')
  then show ?case using settle_register_state [OF registers(1)] by simp
next
  case (settles st payload n st')
  then show ?case using remember_evict [of st "note_id (payload_note payload)"] by (auto simp: settle_ok)
next
  case (refuses st payload err st')
  then show ?case using settle_refused by fastforce
qed

lemma settled_stays:
  "settle_run v st ids st' \<Longrightarrow> settle_inv st \<Longrightarrow> settled_order st = ys @ [x] \<Longrightarrow> length ids < SETTLED_IDS_CAP \<Longrightarrow>
    \<exists>zs. settled_order st' = zs @ [x] @ ids"
proof (induction arbitrary: ys rule: settle_run.induct)
  case (step st ids st' l st'')
  from step.prems(3) have len: "length ids < SETTLED_IDS_CAP" by simp
  with step obtain zs where zs: "settled_order st' = zs @ [x] @ ids" by blast
  have inv: "settle_inv st'" using settle_run_inv step by blast
  note ord = settle_step_order [OF step.hyps(2) inv]
  show ?case
  proof (cases l)
    case None
    with ord zs show ?thesis by simp
  next
    case (Some i)
    show ?thesis
    proof (cases "length (settled_order st') = SETTLED_IDS_CAP")
      case False
      with ord zs Some show ?thesis by simp
    next
      case True
      then have "zs \<noteq> []" using zs step.prems(3) Some by auto
      with ord zs Some True show ?thesis by (cases zs) auto
    qed
  qed
qed simp


subsection \<open>Properties\<close>

lemma guard_trust_registered:
  "r \<in> roots (foldl guard_step g ops) \<Longrightarrow> r \<in> roots g \<or> Register r \<in> set ops"
proof (induction ops arbitrary: g)
  case (Cons x xs)
  then show ?case
    by (cases x) (fastforce simp: register_root_def revoke_root_def split: if_splits)+
qed simp

text \<open>Whatever is registered and revoked, a guard that started empty holds at most \<open>MAX_ROOTS\<close> roots
  and trusts no root that was never registered; at the cap it refuses exactly the roots it does not hold
  yet, without changing.\<close>

theorem guard_trust_bounded:
  "let g = foldl guard_step guard_new ops
   in finite (roots g) \<and> card (roots g) \<le> MAX_ROOTS \<and> roots g \<subseteq> {r. Register r \<in> set ops} \<and>
      (register_root g r = (Inl CapacityExceeded, g)) = (card (roots g) = MAX_ROOTS \<and> r \<notin> roots g)"
proof -
  let ?g = "foldl guard_step guard_new ops"
  have inv: "guard_inv ?g" by (rule guard_inv_run [OF guard_inv_new])
  have sub: "roots ?g \<subseteq> {r. Register r \<in> set ops}"
    using guard_trust_registered [of _ guard_new ops] by (auto simp: guard_new_def)
  show ?thesis using inv sub by (auto simp: Let_def guard_inv_def register_root_def)
qed

text \<open>Commit a non-empty list of leaves with the Tip5 tree, register the root: each leaf's proof is
  given out and the guard accepts it, with and without a reason.\<close>

theorem mint_then_guard_accepts:
  assumes "mint_commit tip5_digest tip5_digest m data = Some (r, m')" "i < length data" "length data \<le> 2 ^ 64"
    and "is_registered g r"
  shows "\<exists>p. mint_proof m' i = Inr p \<and> guard_check (verify_proof tip5_digest tip5_digest) g (data ! i) p r \<and>
    check_with_reason (verify_proof tip5_digest tip5_digest) g (data ! i) p r = Inr ()"
proof -
  obtain t where t: "merkle_build tip5_digest tip5_digest data = Inr t" "r = merkle_root t"
    "mint.tree m' = Some t" "leaf_count m' = length data"
    using assms(1) by (auto simp: mint_commit_def split: sum.splits)
  have "result_option (merkle_build tip5_digest tip5_digest data) = Some t" by (simp add: t result_option_def)
  from tree.guard_accepts [OF this assms(2,3)] assms(4) obtain p where
    "result_option (merkle_proof t i) = Some p" "guard_check (verify_proof tip5_digest tip5_digest) g (data ! i) p r"
    using t(2) by blast
  then show ?thesis using t assms(2)
    by (auto simp: mint_proof_def result_option_def guard_check_def check_with_reason_def split: sum.splits)
qed

theorem mint_then_guard_accepts_witness:
  "\<exists>r m' p. mint_commit tip5_digest tip5_digest mint_new [[1], [2, 3]] = Some (r, m') \<and> mint_proof m' 1 = Inr p \<and>
    guard_check (verify_proof tip5_digest tip5_digest) \<lparr>roots = {r}\<rparr> [2, 3] p r"
proof -
  have "result_option (merkle_build tip5_digest tip5_digest [[1], [2, 3]]) \<noteq> None" by (rule tree.commits) simp
  then obtain t where "merkle_build tip5_digest tip5_digest [[1], [2, 3]] = Inr t"
    by (auto simp: result_option_def split: sum.splits)
  then have c: "mint_commit tip5_digest tip5_digest mint_new [[1], [2, 3]] =
      Some (merkle_root t, mint_new\<lparr>leaf_count := 2, mint.tree := Some t\<rparr>)" by (simp add: mint_commit_def)
  have "is_registered \<lparr>roots = {merkle_root t}\<rparr> (merkle_root t)" by (simp add: is_registered_def)
  from mint_then_guard_accepts [OF c, of 1, OF _ _ this] c show ?thesis by force
qed

text \<open>C9: a note identifier that was settled is refused, and nothing changes, as long as fewer than
  \<open>SETTLED_IDS_CAP\<close> notes were settled since; the cache holds no duplicate and never more than the cap.\<close>

theorem no_early_double_settlement:
  assumes "settle_run v settle_new earlier st" "settle v st payload = (Inr n, st1)"
    and "settle_run v st1 ids st2" "length ids < SETTLED_IDS_CAP"
    and "note_id (payload_note payload') = note_id (payload_note payload)"
  shows "(\<exists>err. settle v st2 payload' = (Inl err, st2)) \<and> distinct (settled_order st2) \<and>
    card (settled_ids st2) \<le> SETTLED_IDS_CAP"
proof -
  have inv: "settle_inv st" using settle_run_inv [OF assms(1) settle_inv_new] .
  let ?i = "note_id (payload_note payload)"
  have s: "st1 = remember (evict st) ?i" "?i \<notin> settled_ids st" using assms(2) by (simp_all add: settle_ok)
  note r = remember_evict [OF inv s(2)]
  from r obtain ys where "settled_order st1 = ys @ [?i]" unfolding s(1) by blast
  moreover have inv1: "settle_inv st1" using r s(1) by simp
  ultimately obtain zs where z: "settled_order st2 = zs @ [?i] @ ids"
    using settled_stays [OF assms(3)] assms(4) by blast
  have inv2: "settle_inv st2" using settle_run_inv [OF assms(3) inv1] .
  then have "?i \<in> settled_ids st2" using z by (simp add: settle_inv_def)
  then have "\<nexists>n st'. settle v st2 payload' = (Inr n, st')" by (simp add: settle_ok assms(5))
  then obtain err st' where e: "settle v st2 payload' = (Inl err, st')"
    by (metis surj_pair sum.exhaust)
  with settle_refused have "st' = st2" by blast
  with e inv2 show ?thesis by (auto simp: settle_inv_def distinct_card)
qed

definition demo_verifier :: "unit verifier" where
  "demo_verifier = \<lparr>verify_commitment = (\<lambda>i d r. True), build_settle_poke = (\<lambda>p. Some ())\<rparr>"

definition demo_payload :: "u64 \<Rightarrow> graft_payload" where
  "demo_payload i = \<lparr>payload_note = \<lparr>note_id = i, note_hull = 0, note_root = TIP5_ZERO, note_state = Pending\<rparr>,
     payload_data = [], expected_root = TIP5_ZERO\<rparr>"

theorem no_early_double_settlement_witness:
  "\<exists>st1 n err. settle demo_verifier (snd (settle_register_root settle_new TIP5_ZERO)) (demo_payload 7) = (Inr n, st1) \<and>
    settle demo_verifier st1 (demo_payload 7) = (Inl err, st1)"
proof -
  let ?st = "snd (settle_register_root settle_new TIP5_ZERO)"
  have "settle_step demo_verifier settle_new None ?st"
    by (rule settle_step.registers [of _ TIP5_ZERO "fst (settle_register_root settle_new TIP5_ZERO)"]) simp
  from settle_run.step [OF settle_run.idle this] have run: "settle_run demo_verifier settle_new [] ?st" by simp
  have ok: "settle demo_verifier ?st (demo_payload 7) =
      (Inr ((payload_note (demo_payload 7))\<lparr>note_state := Settled\<rparr>), remember (evict ?st) 7)"
    by (simp add: settle_ok demo_payload_def demo_verifier_def settle_register_root_def settle_new_def
        register_root_def guard_new_def is_registered_def MAX_ROOTS_def)
  from no_early_double_settlement [OF run ok settle_run.idle] ok show ?thesis
    by (fastforce simp: SETTLED_IDS_CAP_def)
qed

end
