(* ===== verification/ChainSign.thy ===== *)
theory ChainSign
  imports Schnorr Merkle
begin

text \<open>
  The signing surface of \<^verbatim>\<open>crates/vesl-core/src/signing.rs\<close>: keys and signatures as lists of eight 32-bit
  chunks in 64-bit words, over the Schnorr primitives of \<^verbatim>\<open>crates/vesl-signing\<close>.  The base58 codec and the
  digest of a key's noun are parameters.
\<close>

subsection \<open>Errors and conversions\<close>

datatype signing_error =
    InvalidSecretKey
  | ZeroNonce
  | ZeroChallenge
  | ZeroSignature
  | InvalidMnemonic ustr
  | DerivationFailure
  | NoSeedPhrase
  | KeyHashFailed

text \<open>\<open>From<SchnorrError>\<close>.\<close>

primrec of_schnorr_error :: "schnorr_error \<Rightarrow> signing_error" where
  "of_schnorr_error BadPrivateKey = InvalidSecretKey"
| "of_schnorr_error OutOfRange = InvalidSecretKey"
| "of_schnorr_error BadSignature = ZeroSignature"
| "of_schnorr_error (Curve e) = InvalidSecretKey"
| "of_schnorr_error (ChunkOverflow v) = InvalidSecretKey"
| "of_schnorr_error (BadChunk i) = InvalidSecretKey"
| "of_schnorr_error (BadPubkey e) = InvalidSecretKey"

primrec lift_schnorr :: "(schnorr_error, 'a) outcome \<Rightarrow> (signing_error, 'a) outcome" where
  "lift_schnorr (Ok x) = Ok x"
| "lift_schnorr (Err e) = Err (of_schnorr_error e)"
| "lift_schnorr Panic = Panic"

definition sum_outcome :: "('e \<Rightarrow> 'f) \<Rightarrow> 'e + 'a \<Rightarrow> ('f, 'a) outcome" where
  "sum_outcome f r = (case r of Inl e \<Rightarrow> Err (f e) | Inr x \<Rightarrow> Ok x)"

record chain_sig =
  cs_chal :: "u64 list"
  cs_sig :: "u64 list"

fun nock_belts8_to_vesl :: "u64 list \<Rightarrow> signing_error + u64 list" where
  "nock_belts8_to_vesl belts =
     (if list_ex (\<lambda>b. 0xFFFFFFFF < b) belts then Inl InvalidSecretKey else Inr belts)"

definition nock_belts5_to_vesl :: "u64 list \<Rightarrow> u64 list" where
  "nock_belts5_to_vesl belts = map (\<lambda>i. belts ! i) [0..<5]"

definition vesl_belts8_to_nock :: "u64 list \<Rightarrow> u64 list" where
  "vesl_belts8_to_nock belts = map (\<lambda>i. belts ! i) [0..<8]"

definition vesl_point_to_nock :: "cheetah_point \<Rightarrow> cheetah_point" where
  "vesl_point_to_nock p =
     \<lparr>px = f6_of_list (map (\<lambda>i. f6_coeffs (px p) ! i) [0..<6]),
      py = f6_of_list (map (\<lambda>i. f6_coeffs (py p) ! i) [0..<6]), inf = inf p\<rparr>"

definition nock_point_to_vesl :: "cheetah_point \<Rightarrow> cheetah_point" where
  "nock_point_to_vesl p =
     \<lparr>px = f6_of_list (map (\<lambda>i. f6_coeffs (px p) ! i) [0..<6]),
      py = f6_of_list (map (\<lambda>i. f6_coeffs (py p) ! i) [0..<6]), inf = inf p\<rparr>"


subsection \<open>Keys\<close>

definition secret_key :: "u64 list \<Rightarrow> (signing_error, private_key) outcome" where
  "secret_key sk =
     and_then (sum_outcome id (nock_belts8_to_vesl sk)) (\<lambda>belts.
       sum_outcome of_schnorr_error (private_key_from_belts belts))"

definition derive_pubkey :: "u64 list \<Rightarrow> (signing_error, cheetah_point) outcome" where
  "derive_pubkey sk =
     and_then (secret_key sk) (\<lambda>key.
     and_then (lift_schnorr (public_key key)) (\<lambda>p. Ok (vesl_point_to_nock p)))"

definition pubkey_hash :: "(cheetah_point \<Rightarrow> tip5_hash option) \<Rightarrow> cheetah_point \<Rightarrow> signing_error + tip5_hash" where
  "pubkey_hash noun_digest pk = (case noun_digest pk of None \<Rightarrow> Inl KeyHashFailed | Some h \<Rightarrow> Inr h)"

text \<open>\<open>None\<close> is the assertion on the point at infinity.\<close>

definition pubkey_canonical_bytes :: "cheetah_point \<Rightarrow> bytes option" where
  "pubkey_canonical_bytes pk =
     (if inf pk then None
      else Some (concat (map to_le_bytes (f6_coeffs (px pk))) @ concat (map to_le_bytes (f6_coeffs (py pk))) @ [1]))"


subsection \<open>Signatures\<close>

definition belts8_to_ubig :: "u64 list \<Rightarrow> nat" where
  "belts8_to_ubig belts = le_value (concat (map (\<lambda>belt. to_le_bytes (ucast belt :: u32)) belts))"

text \<open>\<open>UBig::to_le_bytes\<close>: the shortest little-endian form, empty for zero.\<close>

fun min_le_bytes :: "nat \<Rightarrow> bytes" where
  "min_le_bytes n = (if n = 0 then [] else word_of_nat (n mod 256) # min_le_bytes (n div 256))"

declare min_le_bytes.simps [simp del]

definition pack_schnorr_signature :: "chain_sig \<Rightarrow> bytes" where
  "pack_schnorr_signature sg =
     min_le_bytes (or (push_bit 256 (belts8_to_ubig (cs_chal sg))) (belts8_to_ubig (cs_sig sg)))"

definition schnorr_message_digest_for_data :: "(u64 list \<Rightarrow> tip5_hash) \<Rightarrow> bytes \<Rightarrow> u64 list" where
  "schnorr_message_digest_for_data hv bs = hash_leaf hv bs"

definition chain_sign :: "u64 list \<Rightarrow> u64 list \<Rightarrow> (signing_error, chain_sig) outcome" where
  "chain_sign sk message =
     and_then (secret_key sk) (\<lambda>key.
       let m = nock_belts5_to_vesl message
       in and_then (lift_schnorr (schnorr_sign key m)) (\<lambda>s.
            Ok \<lparr>cs_chal = vesl_belts8_to_nock (to_belts (chal s)), cs_sig = vesl_belts8_to_nock (to_belts (sig s))\<rparr>))"

text \<open>\<open>None\<close> would be a panic inside the verification.\<close>

definition verify_chain_signature :: "cheetah_point \<Rightarrow> u64 list \<Rightarrow> chain_sig \<Rightarrow> bool option" where
  "verify_chain_signature pk message sg =
     (let point = nock_point_to_vesl pk; m = nock_belts5_to_vesl message;
          s = \<lparr>chal = from_belts (cs_chal sg), sig = from_belts (cs_sig sg)\<rparr>
      in case schnorr_verify point m s of Ok _ \<Rightarrow> Some True | Err _ \<Rightarrow> Some False | Panic \<Rightarrow> None)"


subsection \<open>The wire form\<close>

definition pubkey_from_base58 :: "(ustr \<Rightarrow> bytes option) \<Rightarrow> ustr \<Rightarrow> (signing_error, cheetah_point) outcome" where
  "pubkey_from_base58 b58_decode b58 =
     (case from_base58 b58_decode b58 of
        Ok point \<Rightarrow> Ok (vesl_point_to_nock point)
      | Err e \<Rightarrow> Err KeyHashFailed
      | Panic \<Rightarrow> Panic)"

definition pubkey_to_base58 :: "(bytes \<Rightarrow> ustr) \<Rightarrow> cheetah_point \<Rightarrow> signing_error + ustr" where
  "pubkey_to_base58 b58_encode pk =
     (case into_base58 b58_encode (nock_point_to_vesl pk) of Inl e \<Rightarrow> Inl KeyHashFailed | Inr s \<Rightarrow> Inr s)"

definition fmt8 :: "u64 list \<Rightarrow> ustr list" where
  "fmt8 ls = map (\<lambda>l. decimal (unat l)) ls"

definition chain_signature_to_wire ::
  "(bytes \<Rightarrow> ustr) \<Rightarrow> cheetah_point \<Rightarrow> chain_sig \<Rightarrow> signing_error + signature_json" where
  "chain_signature_to_wire b58_encode pk sg =
     res_bind (pubkey_to_base58 b58_encode pk) (\<lambda>p.
       Inr \<lparr>pubkey = p, json_chal = fmt8 (cs_chal sg), json_sig = fmt8 (cs_sig sg)\<rparr>)"

definition parse_limb :: "ustr \<Rightarrow> signing_error + u64" where
  "parse_limb s =
     (case parse_u64 s of
        None \<Rightarrow> Inl InvalidSecretKey
      | Some v \<Rightarrow> if 0xFFFFFFFF < v then Inl InvalidSecretKey else Inr v)"

definition parse8 :: "ustr list \<Rightarrow> signing_error + u64 list" where
  "parse8 ls = collect parse_limb ls"

definition wire_signature_to_chain ::
  "(ustr \<Rightarrow> bytes option) \<Rightarrow> signature_json \<Rightarrow> (signing_error, cheetah_point \<times> chain_sig) outcome" where
  "wire_signature_to_chain b58_decode j =
     and_then (pubkey_from_base58 b58_decode (pubkey j)) (\<lambda>pk.
     and_then (sum_outcome id (parse8 (json_chal j))) (\<lambda>c.
     and_then (sum_outcome id (parse8 (json_sig j))) (\<lambda>s.
       Ok (pk, \<lparr>cs_chal = c, cs_sig = s\<rparr>))))"


subsection \<open>Conversions keep the values\<close>

lemma upt_6: "[0..<6] = [0, 1, 2, 3, 4, 5 :: nat]" and upt_5: "[0..<5] = [0, 1, 2, 3, 4 :: nat]"
  by code_simp+

lemma f6_copy: "f6_of_list (map (\<lambda>i. f6_coeffs f ! i) [0..<6]) = f"
  by (cases f) (simp add: f6_of_list_def upt_6)

lemma vesl_point_to_nock_id [simp]: "vesl_point_to_nock p = p"
  by (simp only: vesl_point_to_nock_def f6_copy) simp

lemma nock_point_to_vesl_id [simp]: "nock_point_to_vesl p = p"
  by (simp only: nock_point_to_vesl_def f6_copy) simp

lemma copy_list: "length xs = n \<Longrightarrow> map (\<lambda>i. xs ! i) [0..<n] = xs"
  using map_nth [of xs] by simp

lemma sum_outcome_eq [simp]:
  "sum_outcome f r = Ok x \<longleftrightarrow> r = Inr x"
  "sum_outcome f r = Err e \<longleftrightarrow> (\<exists>e'. r = Inl e' \<and> e = f e')"
  "sum_outcome f r \<noteq> Panic"
  by (auto simp: sum_outcome_def split: sum.splits)

lemma lift_schnorr_eq [simp]:
  "lift_schnorr r = Ok x \<longleftrightarrow> r = Ok x"
  "lift_schnorr r = Panic \<longleftrightarrow> r = Panic"
  by (cases r; simp)+

lemma belts8_to_ubig_limbs: "belts8_to_ubig bs = limbs_value (map ucast bs)"
  by (induction bs) (simp_all add: belts8_to_ubig_def le_value_append codec)

lemma belts8_to_ubig_bound: "length bs = 8 \<Longrightarrow> belts8_to_ubig bs < 2 ^ 256"
  using limbs_value_bound [of "map ucast bs"] by (simp add: belts8_to_ubig_limbs)

lemma le_value_min_le_bytes: "le_value (min_le_bytes n) = n"
proof (induction n rule: min_le_bytes.induct)
  case (1 n)
  then show ?case
    by (cases "n = 0") (subst min_le_bytes.simps, simp add: unat_of_nat)+
qed

lemma min_le_bytes_last: "min_le_bytes n \<noteq> [] \<Longrightarrow> last (min_le_bytes n) \<noteq> 0"
proof (induction n rule: min_le_bytes.induct)
  case (1 n)
  then have n: "n \<noteq> 0" by (auto simp: min_le_bytes.simps [of n] split: if_splits)
  have e: "min_le_bytes n = word_of_nat (n mod 256) # min_le_bytes (n div 256)"
    using n by (subst min_le_bytes.simps) simp
  show ?case
  proof (cases "n div 256 = 0")
    case True
    then have "n < 256" by simp
    then have "unat (word_of_nat (n mod 256) :: u8) = n" by (simp add: unat_of_nat)
    moreover have "min_le_bytes (n div 256) = []" using True by (simp add: min_le_bytes.simps)
    ultimately show ?thesis using n by (auto simp: e)
  next
    case False
    then have "min_le_bytes (n div 256) \<noteq> []" by (simp add: min_le_bytes.simps [of "n div 256"])
    with 1 n show ?thesis by (simp add: e)
  qed
qed

text \<open>The key a list of chunks stands for.\<close>

lemma from_belts_map: "length sk = 8 \<Longrightarrow> from_belts sk = Scalar (map ucast sk)"
  by (auto simp: from_belts_def upt_8 numeral_eq_Suc length_Suc_conv)

lemma secret_key_eq:
  assumes "length sk = 8"
  shows "secret_key sk =
    (if (\<forall>b\<in>set sk. b \<le> 0xFFFFFFFF) \<and> 0 < belts8_to_ubig sk \<and> belts8_to_ubig sk < G_ORDER
     then Ok (SchnorrPrivateKey (belts8_to_ubig sk)) else Err InvalidSecretKey)"
proof -
  have wf: "wf_scalar (from_belts sk)" using assms by (simp add: from_belts_map wf_scalar_def)
  have v: "to_ubig (from_belts sk) = belts8_to_ubig sk"
    using to_ubig_value [OF wf] assms by (simp add: from_belts_map belts8_to_ubig_limbs)
  have l: "list_ex (\<lambda>b. 0xFFFFFFFF < b) sk \<longleftrightarrow> \<not> (\<forall>b\<in>set sk. b \<le> 0xFFFFFFFF)"
    by (auto simp: list_ex_iff not_le)
  show ?thesis
    by (cases "\<forall>b\<in>set sk. b \<le> 0xFFFFFFFF")
      (simp_all only: secret_key_def nock_belts8_to_vesl.simps l private_key_from_belts_def
        private_key_new_range [OF wf] v sum_outcome_def simp_thms if_True if_False sum.case and_then.simps
        id_apply of_schnorr_error.simps split: if_split, blast)
qed

lemma to_belts_limbs: "wf_scalar s \<Longrightarrow> to_belts s = map ucast (limbs s)"
  by (erule wf_scalarE) (simp add: to_belts_def upt_8)

lemma to_belts_copy: "wf_scalar s \<Longrightarrow> vesl_belts8_to_nock (to_belts s) = map ucast (limbs s)"
  by (simp add: vesl_belts8_to_nock_def copy_list to_belts_limbs wf_scalar_def)

lemma belts_of_limbs: "belts8_to_ubig (map ucast ls) = limbs_value ls"
  by (simp add: belts8_to_ubig_limbs comp_def)

lemma ucast_u32_le: "(ucast (a :: u32) :: u64) \<le> 0xFFFFFFFF"
  using unat_u32_bound [of a] by (simp add: word_le_nat_alt unsigned_ucast_eq take_bit_eq_mod)

text \<open>Chunks in decimal.\<close>

lemma parse8_fmt8:
  assumes "\<forall>b\<in>set bs. b \<le> 0xFFFFFFFF"
  shows "parse8 (fmt8 bs) = Inr bs"
  using assms
proof (induction bs)
  case (Cons b bs)
  have "parse_u64 (decimal (unat b)) = Some b"
    using parse_decimal [of "unat b"] unsigned_less [of b, where 'a = nat] by simp
  with Cons show ?case by (auto simp: parse8_def fmt8_def parse_limb_def res_bind_def not_less)
qed (simp add: parse8_def fmt8_def)


subsection \<open>Properties\<close>

text \<open>Signing with eight chunks never panics: it refuses a key with a chunk above 32 bits or a value
  outside \<open>[1, order)\<close>, and a signature it returns consists of 32-bit chunks whose two values are in
  \<open>[1, order)\<close>.\<close>

theorem chain_sign_outcomes:
  assumes "length sk = 8"
  shows "case chain_sign sk m of
      Ok sg \<Rightarrow> (\<forall>b\<in>set sk. b \<le> 0xFFFFFFFF) \<and> 0 < belts8_to_ubig sk \<and> belts8_to_ubig sk < G_ORDER \<and>
        length (cs_chal sg) = 8 \<and> length (cs_sig sg) = 8 \<and>
        (\<forall>b\<in>set (cs_chal sg) \<union> set (cs_sig sg). b \<le> 0xFFFFFFFF) \<and>
        0 < belts8_to_ubig (cs_chal sg) \<and> belts8_to_ubig (cs_chal sg) < G_ORDER \<and>
        0 < belts8_to_ubig (cs_sig sg) \<and> belts8_to_ubig (cs_sig sg) < G_ORDER
    | Err e \<Rightarrow> e = InvalidSecretKey \<or> e = ZeroSignature
    | Panic \<Rightarrow> False"
proof (cases "secret_key sk")
  case (Ok key)
  have key: "(\<forall>b\<in>set sk. b \<le> 0xFFFFFFFF) \<and> 0 < belts8_to_ubig sk \<and> belts8_to_ubig sk < G_ORDER"
    using Ok by (simp add: secret_key_eq [OF assms] split: if_splits)
  let ?m = "nock_belts5_to_vesl m"
  show ?thesis
  proof (cases "schnorr_sign key ?m")
    case s: (Ok s)
    from schnorr_sign_range [OF s] have r: "wf_scalar (chal s)" "wf_scalar (sig s)"
      "0 < to_ubig (chal s)" "to_ubig (chal s) < G_ORDER" "0 < to_ubig (sig s)" "to_ubig (sig s) < G_ORDER"
      by simp_all
    show ?thesis using Ok key r
      by (simp add: chain_sign_def s to_belts_copy belts_of_limbs to_ubig_value ucast_u32_le ball_Un)
        (simp add: wf_scalar_def)
  next
    case (Err e)
    with schnorr_sign_outcomes [of key ?m] have "e \<in> {BadPrivateKey, BadSignature}" by auto
    then show ?thesis using Ok Err by (auto simp: chain_sign_def)
  next
    case Panic
    with schnorr_sign_outcomes [of key ?m] show ?thesis by auto
  qed
next
  case (Err e)
  then show ?thesis by (simp add: chain_sign_def secret_key_eq [OF assms] split: if_splits)
next
  case Panic
  then show ?thesis by (simp add: secret_key_eq [OF assms] split: if_splits)
qed

theorem chain_sign_outcomes_witness: "chain_sign [3, 0, 0, 0, 0, 0, 0, 0] [1, 2, 3, 4, 5] \<noteq> Panic"
proof
  assume p: "chain_sign [3, 0, 0, 0, 0, 0, 0, 0] [1, 2, 3, 4, 5] = Panic"
  have "length [3, 0, 0, 0, 0, 0, 0, 0 :: u64] = 8" by simp
  from chain_sign_outcomes [OF this, of "[1, 2, 3, 4, 5]"] show False by (simp only: p outcome.case)
qed

lemma or_push_bit_split:
  fixes c b :: nat
  assumes "b < 2 ^ n"
  shows "or (push_bit n c) b div 2 ^ n = c" "or (push_bit n c) b mod 2 ^ n = b"
proof -
  have "drop_bit n b = 0" using assms by (simp add: drop_bit_eq_div)
  moreover have "drop_bit n (push_bit n c) = c" by (simp add: drop_bit_push_bit)
  ultimately show "or (push_bit n c) b div 2 ^ n = c"
    unfolding drop_bit_eq_div [symmetric] drop_bit_or by simp
  have "take_bit n b = b" using assms by (simp add: take_bit_nat_eq_self)
  moreover have "take_bit n (push_bit n c) = 0" by (simp add: take_bit_push_bit)
  ultimately show "or (push_bit n c) b mod 2 ^ n = b"
    unfolding take_bit_eq_mod [symmetric] take_bit_or by simp
qed

text \<open>The packed signature atom splits back: its high part above 256 bits is the challenge, its low
  256 bits the response, and its byte form has no leading zero byte.\<close>

theorem packed_signature_splits:
  assumes "length (cs_sig sg) = 8"
  shows "le_value (pack_schnorr_signature sg) div 2 ^ 256 = belts8_to_ubig (cs_chal sg) \<and>
    le_value (pack_schnorr_signature sg) mod 2 ^ 256 = belts8_to_ubig (cs_sig sg) \<and>
    (pack_schnorr_signature sg \<noteq> [] \<longrightarrow> last (pack_schnorr_signature sg) \<noteq> 0)"
proof -
  let ?c = "belts8_to_ubig (cs_chal sg)" and ?s = "belts8_to_ubig (cs_sig sg)"
  have b: "?s < 2 ^ 256" by (rule belts8_to_ubig_bound [OF assms])
  have v: "le_value (pack_schnorr_signature sg) = or (push_bit 256 ?c) ?s"
    by (simp only: pack_schnorr_signature_def le_value_min_le_bytes)
  show ?thesis
    unfolding v or_push_bit_split [OF b] unfolding pack_schnorr_signature_def using min_le_bytes_last by blast
qed

theorem packed_signature_splits_witness:
  "le_value (pack_schnorr_signature \<lparr>cs_chal = [5, 0, 0, 0, 0, 0, 0, 0], cs_sig = [7, 0, 0, 0, 0, 0, 0, 0]\<rparr>) =
    5 * 2 ^ 256 + 7"
proof -
  let ?g = "\<lparr>cs_chal = [5, 0, 0, 0, 0, 0, 0, 0], cs_sig = [7, 0, 0, 0, 0, 0, 0, 0]\<rparr>"
  have "length (cs_sig ?g) = 8" by simp
  from packed_signature_splits [OF this]
  have "le_value (pack_schnorr_signature ?g) div 2 ^ 256 = 5" "le_value (pack_schnorr_signature ?g) mod 2 ^ 256 = 7"
    by (simp_all add: belts8_to_ubig_limbs)
  then show ?thesis using div_mult_mod_eq [of "le_value (pack_schnorr_signature ?g)" "2 ^ 256"] by simp
qed

text \<open>a key and a signature of 32-bit chunks that are written to the wire are read back unchanged
  when the key passes the curve test, and refused when it does not; the base58 codec is a parameter that
  round-trips.\<close>

theorem chain_wire_round_trip:
  assumes "\<And>bs. b58_decode (b58_encode bs) = Some bs"
    and "chain_signature_to_wire b58_encode pk sg = Inr j" and "length (utf8 (pubkey j)) \<le> MAX_B58_LEN"
    and "\<forall>b\<in>set (cs_chal sg) \<union> set (cs_sig sg). b \<le> 0xFFFFFFFF"
  shows "wire_signature_to_chain b58_decode j =
    (case in_curve pk of Ok v \<Rightarrow> if v then Ok (pk, sg) else Err KeyHashFailed | Err e \<Rightarrow> Err KeyHashFailed | Panic \<Rightarrow> Panic)"
proof -
  from assms(2) have j: "into_base58 b58_encode pk = Inr (pubkey j)" "json_chal j = fmt8 (cs_chal sg)"
    "json_sig j = fmt8 (cs_sig sg)"
    by (auto simp: chain_signature_to_wire_def pubkey_to_base58_def res_bind_def split: sum.splits)
  have p: "pubkey_from_base58 b58_decode (pubkey j) =
      (case in_curve pk of Ok v \<Rightarrow> if v then Ok pk else Err KeyHashFailed | Err e \<Rightarrow> Err KeyHashFailed | Panic \<Rightarrow> Panic)"
    using from_base58_into_base58 [OF assms(1) j(1) assms(3)]
    by (cases "in_curve pk") (simp_all add: pubkey_from_base58_def)
  have "parse8 (json_chal j) = Inr (cs_chal sg)" "parse8 (json_sig j) = Inr (cs_sig sg)"
    using assms(4) by (simp_all add: j parse8_fmt8)
  then show ?thesis
    by (cases "in_curve pk") (simp_all add: wire_signature_to_chain_def p sum_outcome_def)
qed

lemma utf8_raw_encode: "length (utf8 (raw_encode bs)) = 2 * length bs"
proof -
  have ascii: "utf8 (map f xs) = map (\<lambda>b. word_of_nat (f b)) xs" if "\<forall>b. f b < 128" for f :: "u8 \<Rightarrow> nat" and xs
    using that by (induction xs) simp_all
  have "33 + unat b div 16 < 128" "33 + unat b mod 16 < 128" for b :: u8 using unat_u8_bound [of b] by auto
  then show ?thesis by (simp add: raw_encode_def ascii)
qed

theorem chain_wire_round_trip_witness:
  "\<exists>j. wire_signature_to_chain raw_decode j \<in>
    {Ok (A_GEN, \<lparr>cs_chal = [9, 0, 0, 0, 0, 0, 0, 1], cs_sig = [7, 0, 0, 0, 0, 0, 0, 0]\<rparr>), Err KeyHashFailed, Panic}"
proof -
  let ?g = "\<lparr>cs_chal = [9, 0, 0, 0, 0, 0, 0, 1], cs_sig = [7, 0, 0, 0, 0, 0, 0, 0]\<rparr>"
  have "\<exists>bs. to_bytes A_GEN = Inr bs" by (simp add: to_bytes_def A_GEN_def)
  then obtain bs where bs: "to_bytes A_GEN = Inr bs" by blast
  let ?j = "\<lparr>pubkey = raw_encode bs, json_chal = fmt8 (cs_chal ?g), json_sig = fmt8 (cs_sig ?g)\<rparr>"
  have w: "chain_signature_to_wire raw_encode A_GEN ?g = Inr ?j"
    by (simp add: chain_signature_to_wire_def pubkey_to_base58_def into_base58_def bs res_bind_def)
  have l: "length (utf8 (pubkey ?j)) \<le> MAX_B58_LEN"
    using to_bytes_length [OF bs] by (simp add: utf8_raw_encode BYTES_def MAX_B58_LEN_def)
  have s: "\<forall>b\<in>set (cs_chal ?g) \<union> set (cs_sig ?g). b \<le> 0xFFFFFFFF" by simp
  show ?thesis
    by (rule exI [of _ ?j], simp only: chain_wire_round_trip [OF raw_codec w l s])
      (cases "in_curve A_GEN", simp_all)
qed

end
