(* ===== verification/Nouns.thy ===== *)
theory Nouns
  imports Commit "HOL-Library.Countable"
begin

text \<open>
  Noun construction: \<^verbatim>\<open>crates/nock-noun-rs/src/lib.rs\<close>, \<^verbatim>\<open>crates/vesl-core/src/noun_builder.rs\<close>, and the two
  iterative walkers of nouns, \<open>num_of_leaves\<close> (\<^verbatim>\<open>fee.rs\<close>) and \<open>noun_depth\<close> (\<^verbatim>\<open>tx_builder.rs\<close>).  A noun is a
  value of the virtual machine: an atom or a pair; arenas and allocators have no state that is read back.
  The machine's \<open>jam\<close> and \<open>cue\<close> are parameters, on atoms as numbers.
\<close>

datatype noun = Atom nat | Cell noun noun

instance noun :: countable
  by countable_datatype

subsection \<open>Builders\<close>

definition make_atom :: "bytes \<Rightarrow> noun" where
  "make_atom bs = (if bs = [] then Atom 0 else Atom (le_value bs))"

definition make_cord :: "ustr \<Rightarrow> noun" where
  "make_cord s = make_atom (utf8 s)"

definition make_tag :: "ustr \<Rightarrow> noun" where
  "make_tag s = make_atom (utf8 s)"

definition make_loobean :: "bool \<Rightarrow> noun" where
  "make_loobean b = (if b then Atom 0 else Atom 1)"

definition make_list :: "noun list \<Rightarrow> noun" where
  "make_list items = foldl (\<lambda>list item. Cell item list) (Atom 0) (rev items)"

definition make_atom_in :: "bytes \<Rightarrow> noun" where
  "make_atom_in bs = (if bs = [] then Atom 0 else Atom (le_value bs))"

definition atom_from_u64 :: "u64 \<Rightarrow> noun" where
  "atom_from_u64 x = make_atom_in (to_le_bytes x)"

definition make_cord_in :: "ustr \<Rightarrow> noun" where
  "make_cord_in s = make_atom_in (utf8 s)"

definition make_tag_in :: "ustr \<Rightarrow> noun" where
  "make_tag_in s = make_atom_in (utf8 s)"

definition make_list_in :: "noun list \<Rightarrow> noun" where
  "make_list_in items = foldl (\<lambda>list item. Cell item list) (Atom 0) (rev items)"

text \<open>\<open>T\<close> of the machine: a right-leaning tuple of at least one noun.\<close>

fun tuple :: "noun list \<Rightarrow> noun" where
  "tuple [] = Atom 0"
| "tuple [a] = a"
| "tuple (a # b # rest) = Cell a (tuple (b # rest))"


subsection \<open>Jam and cue\<close>

definition jam_to_bytes :: "(noun \<Rightarrow> bytes) \<Rightarrow> noun \<Rightarrow> bytes" where
  "jam_to_bytes jam n =
     (let bs = jam n; len = (case rposition (\<lambda>b. b \<noteq> 0) bs of None \<Rightarrow> 0 | Some p \<Rightarrow> p + 1)
      in take len bs)"

definition cue_from_bytes :: "(nat \<Rightarrow> noun option) \<Rightarrow> bytes \<Rightarrow> noun option" where
  "cue_from_bytes cue bs = (case make_atom bs of Atom a \<Rightarrow> cue a | Cell _ _ \<Rightarrow> None)"

datatype rejam_error = RejamError

definition rejam_atom :: "(noun \<Rightarrow> bytes) \<Rightarrow> (nat \<Rightarrow> noun option) \<Rightarrow> bytes \<Rightarrow> rejam_error + bytes" where
  "rejam_atom jam cue bs =
     (case cue_from_bytes cue bs of None \<Rightarrow> Inl RejamError | Some n \<Rightarrow> Inr (jam_to_bytes jam n))"


subsection \<open>Settlement nouns\<close>

definition hash_to_noun :: "tip5_hash \<Rightarrow> noun" where
  "hash_to_noun h = make_atom (tip5_to_atom_le_bytes h)"

definition hash_to_noun_generic :: "tip5_hash \<Rightarrow> noun" where
  "hash_to_noun_generic h = make_atom_in (tip5_to_atom_le_bytes h)"

definition proof_node_to_noun :: "proof_node \<Rightarrow> noun" where
  "proof_node_to_noun nd = tuple [hash_to_noun (hash nd), make_loobean (side nd)]"

definition proof_list_to_noun :: "proof_node list \<Rightarrow> noun" where
  "proof_list_to_noun pf = foldl (\<lambda>list nd. Cell (proof_node_to_noun nd) list) (Atom 0) (rev pf)"

text \<open>\<open>None\<close> is the assertion on a note that is not pending.\<close>

definition pending_note_to_noun :: "settle_note \<Rightarrow> noun option" where
  "pending_note_to_noun n =
     (if note_state n \<noteq> Pending then None
      else Some (tuple [atom_from_u64 (note_id n), atom_from_u64 (note_hull n), hash_to_noun (note_root n),
                        Cell (make_atom (utf8 (lit ''pending''))) (Atom 0)]))"

definition build_register_poke :: "u64 \<Rightarrow> tip5_hash \<Rightarrow> noun" where
  "build_register_poke hull_id rt =
     tuple [make_atom_in (utf8 (lit ''register'')), atom_from_u64 hull_id, hash_to_noun_generic rt]"


subsection \<open>Walkers\<close>

text \<open>The loops pop a noun from a stack; a cell pushes its head, then its tail.\<close>

function leaves_loop :: "noun list \<Rightarrow> u64 \<Rightarrow> u64" where
  "leaves_loop [] c = c"
| "leaves_loop (Atom a # stack) c = leaves_loop stack (c + 1)"
| "leaves_loop (Cell h t # stack) c = leaves_loop (t # h # stack) c"
  by pat_completeness auto
termination
  by (relation "measure (\<lambda>(stack, _). sum_list (map (\<lambda>n. 2 * size n + 1) stack))") auto

definition num_of_leaves :: "noun \<Rightarrow> u64" where
  "num_of_leaves n = leaves_loop [n] 0"

function depth_loop :: "(noun \<times> nat) list \<Rightarrow> nat \<Rightarrow> nat" where
  "depth_loop [] m = m"
| "depth_loop ((Atom a, d) # work) m = depth_loop work (max m d)"
| "depth_loop ((Cell h t, d) # work) m = depth_loop ((t, d + 1) # (h, d + 1) # work) (max m d)"
  by pat_completeness auto
termination
  by (relation "measure (\<lambda>(work, _). sum_list (map (\<lambda>(n, _). 2 * size n + 1) work))") auto

definition noun_depth :: "noun \<Rightarrow> nat" where
  "noun_depth n = depth_loop [(n, 1)] 0"


subsection \<open>The walkers are structural recursions\<close>

primrec leaves :: "noun \<Rightarrow> nat" where
  "leaves (Atom a) = 1"
| "leaves (Cell h t) = leaves h + leaves t"

primrec depth :: "noun \<Rightarrow> nat" where
  "depth (Atom a) = 1"
| "depth (Cell h t) = Suc (max (depth h) (depth t))"

lemma depth_pos [simp]: "0 < depth n"
  by (cases n) simp_all

lemma leaves_loop_sum: "leaves_loop stack c = c + word_of_nat (sum_list (map leaves stack))"
  by (induction stack c rule: leaves_loop.induct) (simp_all add: algebra_simps)

lemma depth_loop_max:
  "depth_loop work m = fold (\<lambda>(n, d) m. max m (d + depth n - 1)) work m"
proof (induction work m rule: depth_loop.induct)
  case (3 h t d work m)
  have "max (max (max m d) (d + depth t)) (d + depth h) = max m (d + max (depth h) (depth t))"
    using depth_pos [of h] by linarith
  with 3 show ?case by simp
qed simp_all


subsection \<open>Encodings are injective\<close>

lemma make_atom_value [simp]: "make_atom bs = Atom (le_value bs)" "make_atom_in bs = Atom (le_value bs)"
  by (simp_all add: make_atom_def make_atom_in_def)

lemma atom_from_u64_value [simp]: "atom_from_u64 x = Atom (unat x)"
  by (simp add: atom_from_u64_def codec)

lemma hash_to_noun_value: "is_digest h \<Longrightarrow> hash_to_noun h = Atom (digest_value h) \<and> hash_to_noun_generic h = Atom (digest_value h)"
  using tip5_to_atom_value [of h] by (simp add: hash_to_noun_def hash_to_noun_generic_def is_digest_def)

lemma hash_to_noun_inject:
  assumes "is_digest g" "is_digest h" "hash_to_noun g = hash_to_noun h"
  shows "g = h"
  using assms hash_to_noun_value digest_value_inject [of g h] by (auto simp: is_digest_def)

lemma foldl_Cons_noun: "foldl (\<lambda>list x. Cell (f x) list) (Atom 0) (rev xs) = foldr (\<lambda>x. Cell (f x)) xs (Atom 0)"
  by (induction xs) simp_all

lemma proof_list_inject:
  "\<forall>nd\<in>set p \<union> set q. is_digest (hash nd) \<Longrightarrow> proof_list_to_noun p = proof_list_to_noun q \<Longrightarrow> p = q"
  unfolding proof_list_to_noun_def foldl_Cons_noun
proof (induction p arbitrary: q)
  case Nil
  then show ?case by (cases q) simp_all
next
  case (Cons x p)
  from Cons.prems obtain y q' where q: "q = y # q'" by (cases q) auto
  with Cons.prems have n: "proof_node_to_noun x = proof_node_to_noun y"
    and r: "foldr (\<lambda>x. Cell (proof_node_to_noun x)) p (Atom 0) = foldr (\<lambda>x. Cell (proof_node_to_noun x)) q' (Atom 0)"
    by simp_all
  have "is_digest (hash x)" "is_digest (hash y)" using Cons.prems(1) q by simp_all
  then have "hash x = hash y" using n hash_to_noun_inject by (simp add: proof_node_to_noun_def)
  moreover have "side x = side y" using n by (simp add: proof_node_to_noun_def make_loobean_def split: if_splits)
  ultimately have "x = y" by simp
  with Cons.IH [OF _ r] Cons.prems(1) q show ?case by simp
qed

lemma jam_to_bytes_strip: "jam_to_bytes jam n = strip_nul (jam n)"
  by (simp add: jam_to_bytes_def strip_nul_def Let_def)


subsection \<open>Properties\<close>

text \<open>The stack loops end and compute the structural recursions: the number of atoms of a noun (modulo
  the counter's width) and its depth.\<close>

theorem walkers_are_recursions: "num_of_leaves n = word_of_nat (leaves n) \<and> noun_depth n = depth n"
  using depth_pos [of n] by (simp add: num_of_leaves_def noun_depth_def leaves_loop_sum depth_loop_max)

text \<open>A register poke determines its hull identifier and its root, and a proof noun its nodes, for
  canonical digests: no two causes share an encoding.\<close>

theorem settlement_nouns_bind:
  assumes "is_digest r" "is_digest s" "\<forall>nd\<in>set p \<union> set q. is_digest (hash nd)"
  shows "(build_register_poke i r = build_register_poke j s \<longleftrightarrow> i = j \<and> r = s) \<and>
    (proof_list_to_noun p = proof_list_to_noun q \<longleftrightarrow> p = q)"
proof -
  have "hash_to_noun_generic r = hash_to_noun_generic s \<longleftrightarrow> r = s"
    using hash_to_noun_value [OF assms(1)] hash_to_noun_value [OF assms(2)] hash_to_noun_inject [OF assms(1,2)] by auto
  then have "build_register_poke i r = build_register_poke j s \<longleftrightarrow> i = j \<and> r = s"
    by (auto simp: build_register_poke_def word_unat_eq_iff)
  with proof_list_inject [OF assms(3)] show ?thesis by blast
qed

theorem settlement_nouns_bind_witness:
  "build_register_poke 7 [1, 0, 0, 0, 0] \<noteq> build_register_poke 7 [0, 1, 0, 0, 0] \<and>
   proof_list_to_noun [\<lparr>hash = [1, 0, 0, 0, 0], side = True\<rparr>] \<noteq> proof_list_to_noun [\<lparr>hash = [1, 0, 0, 0, 0], side = False\<rparr>]"
proof -
  have "is_digest [1, 0, 0, 0, 0]" "is_digest [0, 1, 0, 0, 0]"
    "\<forall>nd\<in>set [\<lparr>hash = [1, 0, 0, 0, 0], side = True\<rparr>] \<union> set [\<lparr>hash = [1, 0, 0, 0, 0], side = False\<rparr>]. is_digest (hash nd)"
    by (simp_all add: is_digest_def)
  from settlement_nouns_bind [OF this, of 7 7] show ?thesis by simp
qed

text \<open>With a \<open>cue\<close> that reads back what \<open>jam\<close> wrote, re-jamming keeps the noun and is idempotent: the
  zero bytes that are cut off do not change the atom.\<close>

theorem rejam_canonical:
  assumes "\<And>a n. cue a = Some n \<Longrightarrow> cue (le_value (jam n)) = Some n"
    and "rejam_atom jam cue bs = Inr bs'"
  shows "cue_from_bytes cue bs' = cue_from_bytes cue bs \<and> rejam_atom jam cue bs' = Inr bs' \<and> no_trailing_nul bs'"
proof -
  from assms(2) obtain n where n: "cue (le_value bs) = Some n" "bs' = strip_nul (jam n)"
    by (auto simp: rejam_atom_def cue_from_bytes_def jam_to_bytes_strip split: option.splits)
  have "cue (le_value bs') = Some n" using assms(1) [OF n(1)] by (simp add: n(2) le_value_strip_nul)
  then show ?thesis
    using n strip_nul_no_trailing by (simp add: rejam_atom_def cue_from_bytes_def jam_to_bytes_strip)
qed

theorem rejam_canonical_witness:
  "let jam = (\<lambda>n. case n of Atom a \<Rightarrow> [word_of_nat a, 0] | Cell _ _ \<Rightarrow> []);
       cue = (\<lambda>a. if a < 256 then Some (Atom a) else None)
   in rejam_atom jam cue [5] = Inr [5]"
proof -
  let ?jam = "\<lambda>n. case n of Atom a \<Rightarrow> [word_of_nat a, 0] | Cell _ _ \<Rightarrow> []"
  let ?cue = "\<lambda>a. if a < 256 then Some (Atom a) else None"
  have law: "?cue (le_value (?jam n)) = Some n" if "?cue a = Some n" for a n
    using that by (auto simp: unat_of_nat split: if_splits)
  have r: "rejam_atom ?jam ?cue [5, 0] = Inr [5]"
    by (simp add: rejam_atom_def cue_from_bytes_def jam_to_bytes_strip strip_nul_def)
  from rejam_canonical [OF law r] show ?thesis by (simp add: Let_def)
qed

end
