(* ===== verification/Seeds.thy ===== *)
theory Seeds
  imports BondLocks ChainSign Nouns
begin

text \<open>
  Building the outputs and the witness of a settlement transaction: the free functions of
  \<^verbatim>\<open>crates/vesl-core/src/settle.rs\<close>.  \<open>usize\<close> has 64 bits.  The digests of the transaction engine are the
  fields of a record \<open>env\<close>, next to the engine of the lock theories.
\<close>

subsection \<open>Transactions\<close>

text \<open>Note data is data of the engine; a typed value is known by its jammed form.\<close>

datatype data_value = NounValue noun | TypedValue bytes

type_synonym note_data = "(ustr \<times> data_value) list"

record seed =
  output_source :: "(dig \<times> bool) option"
  seed_root :: dig
  seed_data :: note_data
  gift :: u64
  parent_hash :: dig

record env =
  eng :: engine
  seeds_digest :: "seed list \<Rightarrow> dig option"
  value_digest :: "noun \<Rightarrow> dig"
  key_digest :: "cheetah_point \<Rightarrow> dig option"
  zset_items :: "dig set \<Rightarrow> dig list"

record capture_output =
  out_root :: dig
  out_data :: note_data
  out_amount :: u64

record cosignature =
  co_key :: cheetah_point
  co_sig :: chain_sig

record pkh_entry =
  entry_pkh :: dig
  entry_key :: cheetah_point
  entry_sig :: chain_sig

record witness =
  wit_proof :: lock_proof
  wit_entries :: "pkh_entry list"
  wit_hax :: "(dig \<times> noun) list"

datatype tx_error =
    FeeTooHigh u64 u64
  | NoOutputs
  | ZeroOutput nat
  | SharedLockRoot nat nat
  | NotConserving u128 u64 u128 u64
  | GroupHashFailed
  | Signing signing_error
  | Locking lock_error
  | WrongFirstName
  | WrongSignerCount u64 nat
  | SignerNotNamed
  | RepeatedSigner
  | BadCosignature
  | UnexpectedSignatures
  | MissingPreimage
  | WrongPreimage


subsection \<open>Pinning the output source\<close>

text \<open>The groups of one lock root, in the order their first member is seen.\<close>

fun add_member :: "dig \<Rightarrow> nat \<Rightarrow> (dig \<times> nat list) list \<Rightarrow> (dig \<times> nat list) list" where
  "add_member r i [] = [(r, [i])]"
| "add_member r i ((r', members) # groups) =
     (if r' = r then (r', members @ [i]) # groups else (r', members) # add_member r i groups)"

definition lock_groups :: "seed list \<Rightarrow> (dig \<times> nat list) list" where
  "lock_groups seeds = foldl (\<lambda>groups (i, s). add_member (seed_root s) i groups) [] (enumerate 0 seeds)"

definition stripped :: "seed \<Rightarrow> seed" where
  "stripped s = s\<lparr>output_source := None\<rparr>"

text \<open>A group that cannot be hashed ends the pass; the groups before it keep their pins.\<close>

fun pin_list :: "env \<Rightarrow> seed list \<Rightarrow> (dig \<times> nat list) list \<Rightarrow> (tx_error + unit) \<times> seed list" where
  "pin_list v seeds [] = (Inr (), seeds)"
| "pin_list v seeds ((r, members) # groups) =
     (case seeds_digest v (map (\<lambda>i. stripped (seeds ! i)) members) of
        None \<Rightarrow> (Inl GroupHashFailed, seeds)
      | Some h \<Rightarrow>
          pin_list v (foldl (\<lambda>ss i. ss[i := (ss ! i)\<lparr>output_source := Some (h, False)\<rparr>]) seeds members) groups)"

definition pin_groups :: "env \<Rightarrow> seed list \<Rightarrow> (tx_error + unit) \<times> seed list" where
  "pin_groups v seeds = pin_list v seeds (lock_groups seeds)"

definition pin_output_source :: "env \<Rightarrow> seed list \<Rightarrow> (tx_error + unit) \<times> seed list" where
  "pin_output_source v seeds = pin_groups v seeds"

text \<open>The pins of several seed sets, written back to the set each seed came from.\<close>

fun regroup :: "nat list \<Rightarrow> 'a list \<Rightarrow> 'a list list" where
  "regroup [] xs = []"
| "regroup (n # ns) xs = take n xs # regroup ns (drop n xs)"

definition pin_output_source_across :: "env \<Rightarrow> seed list list \<Rightarrow> (tx_error + unit) \<times> seed list list" where
  "pin_output_source_across v sets =
     (let (res, seeds) = pin_groups v (concat sets) in (res, regroup (map length sets) seeds))"

datatype spend =
    LegacySpend "seed list" noun
  | WitnessSpend "seed list" witness u64

primrec spend_seeds :: "spend \<Rightarrow> seed list" where
  "spend_seeds (LegacySpend ss sg) = ss"
| "spend_seeds (WitnessSpend ss w f) = ss"

primrec set_seeds :: "seed list \<Rightarrow> spend \<Rightarrow> spend" where
  "set_seeds ss' (LegacySpend ss sg) = LegacySpend ss' sg"
| "set_seeds ss' (WitnessSpend ss w f) = WitnessSpend ss' w f"

definition pin_output_source_across_spends ::
  "env \<Rightarrow> ((dig \<times> dig) \<times> spend) list \<Rightarrow> (tx_error + unit) \<times> ((dig \<times> dig) \<times> spend) list" where
  "pin_output_source_across_spends v spends =
     (let (res, sets) = pin_output_source_across v (map (\<lambda>(_, sp). spend_seeds sp) spends)
      in (res, map2 (\<lambda>(name, sp) ss. (name, set_seeds ss sp)) spends sets))"


subsection \<open>Outputs\<close>

definition pinned :: "env \<Rightarrow> seed list \<Rightarrow> tx_error + seed list" where
  "pinned v seeds = (case pin_output_source v seeds of (Inl err, _) \<Rightarrow> Inl err | (Inr _, ss) \<Rightarrow> Inr ss)"

definition build_seeds :: "env \<Rightarrow> dig \<Rightarrow> note_data \<Rightarrow> dig \<Rightarrow> u64 \<Rightarrow> u64 \<Rightarrow> tx_error + seed list" where
  "build_seeds v rt nd parent amount fee =
     res_bind (ensure (fee \<le> amount div 2) (FeeTooHigh fee amount)) (\<lambda>_.
       let output_amount = saturating_sub amount fee
       in pinned v [\<lparr>output_source = None, seed_root = rt, seed_data = nd, gift = output_amount, parent_hash = parent\<rparr>])"

fun check_outputs :: "capture_output list \<Rightarrow> capture_output list \<Rightarrow> u128 \<Rightarrow> tx_error + u128" where
  "check_outputs before [] paid = Inr paid"
| "check_outputs before (out # outs) paid =
     (let i = length before
      in if out_amount out = 0 then Inl (ZeroOutput i)
         else case find (\<lambda>j. out_root (before ! j) = out_root out) [0..<i] of
                Some j \<Rightarrow> Inl (SharedLockRoot j i)
              | None \<Rightarrow> check_outputs (before @ [out]) outs (paid + ucast (out_amount out)))"

definition capture_seed :: "dig \<Rightarrow> capture_output \<Rightarrow> seed" where
  "capture_seed parent out =
     \<lparr>output_source = None, seed_root = out_root out, seed_data = out_data out, gift = out_amount out,
      parent_hash = parent\<rparr>"

definition build_capture_seeds :: "env \<Rightarrow> capture_output list \<Rightarrow> dig \<Rightarrow> u64 \<Rightarrow> u64 \<Rightarrow> tx_error + seed list" where
  "build_capture_seeds v outputs parent input_value fee =
     res_bind (ensure (outputs \<noteq> []) NoOutputs) (\<lambda>_.
     res_bind (check_outputs [] outputs 0) (\<lambda>paid.
       let paid_out = paid + ucast fee
       in res_bind (ensure (paid_out = ucast input_value) (NotConserving paid fee paid_out input_value)) (\<lambda>_.
            pinned v (map (capture_seed parent) outputs))))"


subsection \<open>Signatures\<close>

definition sign_tx :: "u64 list \<Rightarrow> dig \<Rightarrow> (tx_error, chain_sig) outcome" where
  "sign_tx signing_key sig_hash =
     (case chain_sign signing_key sig_hash of Ok s \<Rightarrow> Ok s | Err err \<Rightarrow> Err (Signing err) | Panic \<Rightarrow> Panic)"

definition tx_pubkey :: "u64 list \<Rightarrow> (tx_error, cheetah_point) outcome" where
  "tx_pubkey sk = (case derive_pubkey sk of Ok p \<Rightarrow> Ok p | Err err \<Rightarrow> Err (Signing err) | Panic \<Rightarrow> Panic)"

definition cosign :: "u64 list \<Rightarrow> dig \<Rightarrow> (tx_error, cosignature) outcome" where
  "cosign sk sig_hash =
     and_then (tx_pubkey sk) (\<lambda>p. and_then (sign_tx sk sig_hash) (\<lambda>s. Ok \<lparr>co_key = p, co_sig = s\<rparr>))"

definition build_witness ::
  "env \<Rightarrow> u64 list \<Rightarrow> dig \<Rightarrow> bool \<Rightarrow> u64 \<Rightarrow> dig \<Rightarrow> (tx_error, witness) outcome" where
  "build_witness v signing_key sig_hash is_coinbase coinbase_timelock_min input_first_name =
     and_then (tx_pubkey signing_key) (\<lambda>pk.
     and_then (sum_outcome Signing (pubkey_hash (key_digest v) pk)) (\<lambda>pkh.
       let input_condition =
             (if is_coinbase then coinbase_pkh (eng v) pkh coinbase_timelock_min else simple_pkh (eng v) pkh);
           input_lock = SC input_condition
       in and_then (sum_outcome Locking (lock_root (eng v) input_lock)) (\<lambda>input_lock_root.
          and_then (sum_outcome Locking (first_name_for_lock (eng v) input_lock)) (\<lambda>derived_first.
            if derived_first \<noteq> input_first_name then Err WrongFirstName
            else
              and_then (sign_tx signing_key sig_hash) (\<lambda>s.
                Ok \<lparr>wit_proof = FullProof input_condition 1 \<lparr>merk_root = input_lock_root, merk_path = []\<rparr>,
                    wit_entries = [\<lparr>entry_pkh = pkh, entry_key = pk, entry_sig = s\<rparr>],
                    wit_hax = []\<rparr>)))))"


subsection \<open>Spending a branch\<close>

fun collect_entries ::
  "env \<Rightarrow> dig set \<Rightarrow> dig \<Rightarrow> pkh_entry list \<Rightarrow> cosignature list \<Rightarrow> (tx_error, pkh_entry list) outcome" where
  "collect_entries v permitted sig_hash entries [] = Ok entries"
| "collect_entries v permitted sig_hash entries (part # parts) =
     and_then (sum_outcome Signing (pubkey_hash (key_digest v) (co_key part))) (\<lambda>pkh.
       if pkh \<notin> permitted then Err SignerNotNamed
       else if list_ex (\<lambda>ent. entry_pkh ent = pkh) entries then Err RepeatedSigner
       else
         case verify_chain_signature (co_key part) sig_hash (co_sig part) of
           None \<Rightarrow> Panic
         | Some False \<Rightarrow> Err BadCosignature
         | Some True \<Rightarrow>
             collect_entries v permitted sig_hash
               (entries @ [\<lparr>entry_pkh = pkh, entry_key = co_key part, entry_sig = co_sig part\<rparr>]) parts)"

definition pkh_rule :: "spend_condition \<Rightarrow> (u64 \<times> dig set) option" where
  "pkh_rule condition =
     (case find (\<lambda>p. case p of Pkh _ _ \<Rightarrow> True | _ \<Rightarrow> False) condition of
        Some (Pkh m hashes) \<Rightarrow> Some (m, hashes)
      | _ \<Rightarrow> None)"

definition branch_entries ::
  "env \<Rightarrow> spend_condition \<Rightarrow> dig \<Rightarrow> cosignature list \<Rightarrow> (tx_error, pkh_entry list) outcome" where
  "branch_entries v condition sig_hash parts =
     (case pkh_rule condition of
        Some (m, hashes) \<Rightarrow>
          if word_of_nat (length parts) \<noteq> m then Err (WrongSignerCount m (length parts))
          else collect_entries v hashes sig_hash [] parts
      | None \<Rightarrow> if parts \<noteq> [] then Err UnexpectedSignatures else Ok [])"

fun check_preimages :: "env \<Rightarrow> (dig \<times> noun) list \<Rightarrow> dig list \<Rightarrow> tx_error + unit" where
  "check_preimages v hax [] = Inr ()"
| "check_preimages v hax (wanted # rest) =
     (case find (\<lambda>(h, _). h = wanted) hax of
        None \<Rightarrow> Inl MissingPreimage
      | Some (_, x) \<Rightarrow> if value_digest v x \<noteq> wanted then Inl WrongPreimage else check_preimages v hax rest)"

fun check_hax :: "env \<Rightarrow> (dig \<times> noun) list \<Rightarrow> spend_condition \<Rightarrow> tx_error + unit" where
  "check_hax v hax [] = Inr ()"
| "check_hax v hax (p # ps) =
     (case p of
        Hax s \<Rightarrow> res_bind (check_preimages v hax (zset_items v s)) (\<lambda>_. check_hax v hax ps)
      | _ \<Rightarrow> check_hax v hax ps)"

definition unspendable :: "spend_condition \<Rightarrow> bool" where
  "unspendable condition = list_ex (\<lambda>p. case p of Burn \<Rightarrow> True | _ \<Rightarrow> False) condition"

primrec lift_lock :: "(lock_error, 'a) outcome \<Rightarrow> (tx_error, 'a) outcome" where
  "lift_lock (Ok x) = Ok x"
| "lift_lock (Err err) = Err (Locking err)"
| "lift_lock Panic = Panic"

definition build_branch_witness_from_parts ::
  "env \<Rightarrow> lock \<Rightarrow> u64 \<Rightarrow> u64 \<Rightarrow> u64 \<Rightarrow> cosignature list \<Rightarrow> dig \<Rightarrow> (dig \<times> noun) list \<Rightarrow> (tx_error, witness) outcome" where
  "build_branch_witness_from_parts v l branch height bythos_phase parts sig_hash hax =
     and_then (lift_lock (lock_merkle_proof (eng v) l branch height bythos_phase)) (\<lambda>lmp.
     and_then (branch_entries v (proof_condition lmp) sig_hash parts) (\<lambda>entries.
     and_then (sum_outcome id (if unspendable (proof_condition lmp) then Inr ()
                               else check_hax v hax (proof_condition lmp))) (\<lambda>_.
       Ok \<lparr>wit_proof = lmp, wit_entries = entries, wit_hax = hax\<rparr>)))"

fun cosign_all :: "u64 list list \<Rightarrow> dig \<Rightarrow> (tx_error, cosignature list) outcome" where
  "cosign_all [] sig_hash = Ok []"
| "cosign_all (sk # sks) sig_hash =
     and_then (cosign sk sig_hash) (\<lambda>c. and_then (cosign_all sks sig_hash) (\<lambda>cs. Ok (c # cs)))"

definition build_branch_witness ::
  "env \<Rightarrow> lock \<Rightarrow> u64 \<Rightarrow> u64 \<Rightarrow> u64 \<Rightarrow> u64 list list \<Rightarrow> dig \<Rightarrow> (dig \<times> noun) list \<Rightarrow> (tx_error, witness) outcome" where
  "build_branch_witness v l branch height bythos_phase signers sig_hash hax =
     and_then (cosign_all signers sig_hash) (\<lambda>parts.
       build_branch_witness_from_parts v l branch height bythos_phase parts sig_hash hax)"


subsection \<open>What the groups are\<close>

definition members :: "seed list \<Rightarrow> dig \<Rightarrow> nat list" where
  "members seeds r = filter (\<lambda>i. seed_root (seeds ! i) = r) [0..<length seeds]"

lemma map_of_add_member:
  "map_of (add_member r i groups) =
    (map_of groups)(r \<mapsto> (case map_of groups r of None \<Rightarrow> [i] | Some ms \<Rightarrow> ms @ [i]))"
  by (induction r i groups rule: add_member.induct) (auto split: option.splits)

lemma fst_add_member: "fst ` set (add_member r i groups) = insert r (fst ` set groups)"
  by (induction r i groups rule: add_member.induct) auto

lemma distinct_add_member: "distinct (map fst groups) \<Longrightarrow> distinct (map fst (add_member r i groups))"
proof (induction r i groups rule: add_member.induct)
  case (2 r i r' ms groups)
  have "r' \<noteq> r \<Longrightarrow> r' \<notin> set (map fst (add_member r i groups))"
    using 2(2) fst_add_member [of r i groups] by auto
  with 2 show ?case by auto
qed simp

lemma members_snoc: "members (xs @ [x]) r = members xs r @ (if seed_root x = r then [length xs] else [])"
proof -
  have "filter (\<lambda>i. seed_root ((xs @ [x]) ! i) = r) [0..<length xs] = members xs r"
    unfolding members_def by (rule filter_cong) (auto simp: nth_append)
  then show ?thesis by (simp add: members_def)
qed

lemma lock_groups_snoc: "lock_groups (xs @ [x]) = add_member (seed_root x) (length xs) (lock_groups xs)"
  by (simp add: lock_groups_def enumerate_append_eq)

lemma lock_groups_spec:
  "distinct (map fst (lock_groups seeds)) \<and> fst ` set (lock_groups seeds) = seed_root ` set seeds \<and>
    map_of (lock_groups seeds) = (\<lambda>r. if members seeds r = [] then None else Some (members seeds r))"
proof (induction seeds rule: rev_induct)
  case (snoc x xs)
  have "map_of (lock_groups (xs @ [x])) r =
      (if members (xs @ [x]) r = [] then None else Some (members (xs @ [x]) r))" for r
    using snoc by (auto simp: lock_groups_snoc map_of_add_member members_snoc)
  with snoc show ?case by (auto simp: lock_groups_snoc distinct_add_member fst_add_member)
qed (simp add: lock_groups_def members_def fun_eq_iff)


subsection \<open>What a pass writes\<close>

text \<open>The reference: the digest of the stripped seeds of one lock root, and the seed that carries it.\<close>

definition group_digest :: "env \<Rightarrow> seed list \<Rightarrow> dig \<Rightarrow> dig option" where
  "group_digest v seeds r = seeds_digest v (map stripped (filter (\<lambda>s. seed_root s = r) seeds))"

definition pin_seed :: "env \<Rightarrow> seed list \<Rightarrow> seed \<Rightarrow> seed" where
  "pin_seed v seeds s = s\<lparr>output_source := Some (the (group_digest v seeds (seed_root s)), False)\<rparr>"

lemma stripped_simps [simp]:
  "seed_root (stripped s) = seed_root s" "stripped (s\<lparr>output_source := x\<rparr>) = stripped s"
  "stripped (stripped s) = stripped s" "stripped (pin_seed v seeds s) = stripped s"
  "seed_root (pin_seed v seeds s) = seed_root s"
  by (simp_all add: stripped_def pin_seed_def)

lemma map_stripped_root: "map stripped xs = map stripped ys \<Longrightarrow> map seed_root xs = map seed_root ys"
proof -
  assume "map stripped xs = map stripped ys"
  then have "map seed_root (map stripped xs) = map seed_root (map stripped ys)" by simp
  then show ?thesis by (simp add: comp_def)
qed

lemma stripped_group: "map stripped (filter (\<lambda>s. seed_root s = r) seeds) = filter (\<lambda>s. seed_root s = r) (map stripped seeds)"
  by (induction seeds) simp_all

lemma group_digest_stripped: "map stripped xs = map stripped ys \<Longrightarrow> group_digest v xs r = group_digest v ys r"
  by (simp add: group_digest_def stripped_group)

lemma members_digest: "seeds_digest v (map (\<lambda>i. stripped (seeds ! i)) (members seeds r)) = group_digest v seeds r"
proof -
  have "filter (\<lambda>s. seed_root s = r) (map (\<lambda>i. seeds ! i) [0..<length seeds]) =
      map (\<lambda>i. seeds ! i) (members seeds r)"
    by (simp add: filter_map members_def comp_def)
  then have "map (\<lambda>i. seeds ! i) (members seeds r) = filter (\<lambda>s. seed_root s = r) seeds"
    by (simp only: map_nth)
  then have "map stripped (map (\<lambda>i. seeds ! i) (members seeds r)) = map stripped (filter (\<lambda>s. seed_root s = r) seeds)"
    by simp
  then show ?thesis by (simp add: group_digest_def comp_def)
qed

lemma foldl_update:
  "(\<forall>i\<in>set ms. i < length xs) \<Longrightarrow> distinct ms \<Longrightarrow>
    foldl (\<lambda>ss i. ss[i := f (ss ! i)]) xs ms = map (\<lambda>i. if i \<in> set ms then f (xs ! i) else xs ! i) [0..<length xs]"
proof (induction ms arbitrary: xs)
  case Nil
  then show ?case by (simp add: map_nth)
next
  case (Cons m ms)
  then show ?case by (auto intro!: nth_equalityI simp: nth_list_update)
qed

lemma pin_list_spec:
  assumes "map stripped seeds = map stripped base" "distinct (map fst groups)"
    and "\<forall>(r, ms)\<in>set groups. ms = members base r"
  shows "if \<forall>r\<in>fst ` set groups. group_digest v base r \<noteq> None
    then pin_list v seeds groups =
      (Inr (), map (\<lambda>s. if seed_root s \<in> fst ` set groups then pin_seed v base s else s) seeds)
    else fst (pin_list v seeds groups) = Inl GroupHashFailed"
  using assms
proof (induction v seeds groups rule: pin_list.induct)
  case (2 v seeds r ms groups)
  have ms: "ms = members base r" using 2(4) by simp
  have len: "length seeds = length base" using 2(2) map_eq_imp_length_eq by blast
  have rts: "seed_root (seeds ! i) = seed_root (base ! i)" if "i < length base" for i
    using map_stripped_root [OF 2(2)] that len by (metis nth_map)
  have "members base r = members seeds r"
    unfolding members_def len by (rule filter_cong) (auto simp: rts)
  then have d: "seeds_digest v (map (\<lambda>i. stripped (seeds ! i)) ms) = group_digest v base r"
    using members_digest [of v seeds r] group_digest_stripped [OF 2(2)] by (simp add: ms)
  show ?case
  proof (cases "group_digest v base r")
    case None
    then show ?thesis using d by simp
  next
    case (Some h)
    let ?next = "foldl (\<lambda>ss i. ss[i := (ss ! i)\<lparr>output_source := Some (h, False)\<rparr>]) seeds ms"
    have "\<forall>i\<in>set ms. i < length seeds" "distinct ms" by (auto simp: ms members_def len)
    then have "?next = map (\<lambda>i. if i \<in> set ms then (seeds ! i)\<lparr>output_source := Some (h, False)\<rparr> else seeds ! i)
        [0..<length seeds]" by (rule foldl_update)
    also have "\<dots> = map (\<lambda>i. if seed_root (seeds ! i) = r then pin_seed v base (seeds ! i) else seeds ! i) [0..<length seeds]"
      by (rule map_cong) (auto simp: ms members_def len rts pin_seed_def Some)
    also have "\<dots> = map (\<lambda>s. if seed_root s = r then pin_seed v base s else s) (map (\<lambda>i. seeds ! i) [0..<length seeds])"
      by simp
    also have "\<dots> = map (\<lambda>s. if seed_root s = r then pin_seed v base s else s) seeds" by (simp only: map_nth)
    finally have n: "?next = map (\<lambda>s. if seed_root s = r then pin_seed v base s else s) seeds" .
    have "map stripped ?next = map stripped base" unfolding n by (simp add: 2(2)[symmetric])
    from 2(1) [OF _ this] 2(3,4) d Some have ih:
      "if \<forall>r\<in>fst ` set groups. group_digest v base r \<noteq> None
       then pin_list v ?next groups =
         (Inr (), map (\<lambda>s. if seed_root s \<in> fst ` set groups then pin_seed v base s else s) ?next)
       else fst (pin_list v ?next groups) = Inl GroupHashFailed" by simp
    have r: "r \<notin> fst ` set groups" using 2(3) by auto
    have step: "pin_list v seeds ((r, ms) # groups) = pin_list v ?next groups" using d Some by simp
    show ?thesis
    proof (cases "\<forall>r\<in>fst ` set groups. group_digest v base r \<noteq> None")
      case True
      with ih have "pin_list v seeds ((r, ms) # groups) =
          (Inr (), map (\<lambda>s. if seed_root s \<in> fst ` set groups then pin_seed v base s else s) ?next)"
        unfolding step by simp
      moreover have "map (\<lambda>s. if seed_root s \<in> fst ` set groups then pin_seed v base s else s) ?next =
          map (\<lambda>s. if seed_root s \<in> fst ` set ((r, ms) # groups) then pin_seed v base s else s) seeds"
        unfolding n using r by auto
      ultimately show ?thesis using True Some by simp
    next
      case False
      with ih have "fst (pin_list v seeds ((r, ms) # groups)) = Inl GroupHashFailed"
        unfolding step by (simp only: if_False)
      with False show ?thesis by auto
    qed
  qed
qed simp

lemma lock_groups_members: "\<forall>(r, ms)\<in>set (lock_groups seeds). ms = members seeds r"
proof safe
  fix r ms
  assume m: "(r, ms) \<in> set (lock_groups seeds)"
  have "distinct (map fst (lock_groups seeds))" using lock_groups_spec [of seeds] by (rule conjunct1)
  then have "map_of (lock_groups seeds) r = Some ms" using m by (rule map_of_is_SomeI)
  then have "(if members seeds r = [] then None else Some (members seeds r)) = Some ms"
    using lock_groups_spec [of seeds] by simp
  then show "ms = members seeds r" by (auto split: if_splits)
qed

lemma pin_groups_spec:
  "if list_all (\<lambda>s. group_digest v seeds (seed_root s) \<noteq> None) seeds
   then pin_groups v seeds = (Inr (), map (pin_seed v seeds) seeds)
   else fst (pin_groups v seeds) = Inl GroupHashFailed"
proof -
  have d: "distinct (map fst (lock_groups seeds))" and f: "fst ` set (lock_groups seeds) = seed_root ` set seeds"
    using lock_groups_spec [of seeds] by simp_all
  have a: "(\<forall>r\<in>seed_root ` set seeds. group_digest v seeds r \<noteq> None) =
      list_all (\<lambda>s. group_digest v seeds (seed_root s) \<noteq> None) seeds"
    by (simp add: list_all_iff)
  have m: "map (\<lambda>s. if seed_root s \<in> seed_root ` set seeds then pin_seed v seeds s else s) seeds =
      map (pin_seed v seeds) seeds"
    by (rule map_cong) simp_all
  show ?thesis
    using pin_list_spec [OF refl d lock_groups_members, of v] unfolding f a m pin_groups_def .
qed

lemma regroup_concat: "regroup (map length sets) (map f (concat sets)) = map (map f) sets"
  by (induction sets) simp_all

lemma pin_across_spec:
  "if list_all (\<lambda>s. group_digest v (concat sets) (seed_root s) \<noteq> None) (concat sets)
   then pin_output_source_across v sets = (Inr (), map (map (pin_seed v (concat sets))) sets)
   else fst (pin_output_source_across v sets) = Inl GroupHashFailed"
  using pin_groups_spec [of v "concat sets"]
  by (auto simp: pin_output_source_across_def Let_def regroup_concat split: prod.splits if_splits)

lemma pin_groups_stripped:
  assumes "map stripped xs = map stripped ys" "fst (pin_groups v xs) = Inr ()"
  shows "pin_groups v xs = pin_groups v ys"
proof -
  have d: "group_digest v xs r = group_digest v ys r" for r by (rule group_digest_stripped [OF assms(1)])
  have all: "list_all (\<lambda>s. P (seed_root s)) xs = list_all (\<lambda>s. P (seed_root s)) ys" for P
  proof -
    have "list_all P (map seed_root xs) = list_all P (map seed_root ys)"
      using map_stripped_root [OF assms(1)] by simp
    then show ?thesis by (simp add: list.pred_map comp_def)
  qed
  have pin: "pin_seed v xs s = (stripped s)\<lparr>output_source := Some (the (group_digest v ys (seed_root s)), False)\<rparr>" for s
    by (simp add: pin_seed_def d stripped_def)
  have pin': "pin_seed v ys s = (stripped s)\<lparr>output_source := Some (the (group_digest v ys (seed_root s)), False)\<rparr>" for s
    by (simp add: pin_seed_def stripped_def)
  define g :: "seed \<Rightarrow> seed" where "g t = t\<lparr>output_source := Some (the (group_digest v ys (seed_root t)), False)\<rparr>" for t
  have "map (pin_seed v xs) xs = map g (map stripped xs)" by (simp add: pin g_def)
  also have "\<dots> = map (pin_seed v ys) ys" unfolding assms(1) by (simp add: pin' g_def)
  finally have e: "map (pin_seed v xs) xs = map (pin_seed v ys) ys" .
  from pin_groups_spec [of v xs] pin_groups_spec [of v ys] assms(2) e all [of "\<lambda>r. group_digest v ys r \<noteq> None"]
  show ?thesis by (simp add: d split: if_splits)
qed


subsection \<open>What the builder of outputs accepts\<close>

lemma find_before:
  "find (\<lambda>j. out_root (before ! j) = r) [0..<length before] = None \<longleftrightarrow> r \<notin> out_root ` set before"
  unfolding find_None_iff by (auto simp: in_set_conv_nth image_iff) (metis nth_mem)

lemma check_outputs_Inr:
  "check_outputs before outs acc = Inr t \<longleftrightarrow>
    (\<forall>out\<in>set outs. out_amount out \<noteq> 0) \<and> distinct (map out_root outs) \<and>
    out_root ` set before \<inter> out_root ` set outs = {} \<and> t = acc + sum_list (map (\<lambda>out. ucast (out_amount out)) outs)"
proof (induction before outs acc rule: check_outputs.induct)
  case (2 before out outs acc)
  show ?case
  proof (cases "out_amount out = 0 \<or> out_root out \<in> out_root ` set before")
    case True
    then show ?thesis using find_before [of before "out_root out"] by (auto simp: Let_def split: option.splits)
  next
    case False
    then have f: "find (\<lambda>j. out_root (before ! j) = out_root out) [0..<length before] = None"
      by (simp add: find_before)
    have "check_outputs before (out # outs) acc = check_outputs (before @ [out]) outs (acc + ucast (out_amount out))"
      using False f by (simp add: Let_def)
    with 2 [OF refl _ f] False show ?thesis by (auto simp: add.assoc)
  qed
qed auto

lemma sum_ucast:
  fixes outs :: "capture_output list"
  assumes "length outs < 2 ^ 63"
  shows "unat (sum_list (map (\<lambda>out. ucast (out_amount out) :: u128) outs)) = (\<Sum>out\<leftarrow>outs. unat (out_amount out)) \<and>
    (\<Sum>out\<leftarrow>outs. unat (out_amount out)) < 2 ^ 64 * 2 ^ 63"
proof -
  have b: "(\<Sum>out\<leftarrow>xs. unat (out_amount out)) \<le> 2 ^ 64 * length xs" for xs
  proof (induction xs)
    case (Cons x xs)
    then show ?case using unsigned_less [of "out_amount x", where 'a = nat] by simp
  qed simp
  have "unat (sum_list (map (\<lambda>out. ucast (out_amount out) :: u128) xs)) = (\<Sum>out\<leftarrow>xs. unat (out_amount out))"
    if "length xs < 2 ^ 63" for xs
    using that
  proof (induction xs)
    case (Cons x xs)
    have u: "unat (ucast (out_amount x) :: u128) = unat (out_amount x)"
      using unsigned_less [of "out_amount x", where 'a = nat] by (simp add: unsigned_ucast_eq take_bit_nat_eq_self)
    have "(\<Sum>out\<leftarrow>x # xs. unat (out_amount out)) < 2 ^ 128" using b [of "x # xs"] Cons.prems by simp
    with Cons u show ?case by (simp add: unat_word_ariths)
  qed simp
  moreover have "(\<Sum>out\<leftarrow>outs. unat (out_amount out)) < 2 ^ 64 * 2 ^ 63" using b [of outs] assms by simp
  ultimately show ?thesis using assms by blast
qed

lemma conserve_words:
  fixes outs :: "capture_output list" and fee held :: u64
  assumes "length outs < 2 ^ 63"
  shows "sum_list (map (\<lambda>out. ucast (out_amount out) :: u128) outs) + ucast fee = ucast held \<longleftrightarrow>
    (\<Sum>out\<leftarrow>outs. unat (out_amount out)) + unat fee = unat held"
proof -
  note s = sum_ucast [OF assms]
  have u: "unat (ucast (x :: u64) :: u128) = unat x" for x
    using unsigned_less [of x, where 'a = nat] by (simp add: unsigned_ucast_eq take_bit_nat_eq_self)
  have "unat (sum_list (map (\<lambda>out. ucast (out_amount out) :: u128) outs) + ucast fee) =
      (\<Sum>out\<leftarrow>outs. unat (out_amount out)) + unat fee"
    using s unsigned_less [of fee, where 'a = nat] by (simp add: unat_word_ariths u)
  note e = this
  show ?thesis by (simp only: word_unat_eq_iff e u [of held])
qed

lemma filter_own_root:
  "distinct (map out_root outs) \<Longrightarrow> out \<in> set outs \<Longrightarrow>
    filter (\<lambda>s. seed_root s = out_root out) (map (capture_seed parent) outs) = [capture_seed parent out]"
proof (induction outs)
  case (Cons x xs)
  have rt: "seed_root (capture_seed parent o') = out_root o'" for o' by (simp add: capture_seed_def)
  have none: "filter (\<lambda>s. seed_root s = r) (map (capture_seed parent) ys) = []" if "r \<notin> out_root ` set ys" for r ys
    using that by (induction ys) (auto simp: rt)
  show ?case
  proof (cases "out_root x = out_root out")
    case True
    then have "x = out" using Cons.prems by (auto simp: image_iff)
    then show ?thesis using none [of "out_root out" xs] Cons.prems by (simp add: rt)
  next
    case False
    then show ?thesis using Cons by (auto simp: rt)
  qed
qed simp


text \<open>What an assembled set of entries is.\<close>

definition entry_ok :: "env \<Rightarrow> dig set \<Rightarrow> dig \<Rightarrow> pkh_entry \<Rightarrow> bool" where
  "entry_ok v permitted sig_hash ent \<longleftrightarrow>
     entry_pkh ent \<in> permitted \<and> key_digest v (entry_key ent) = Some (entry_pkh ent) \<and>
     verify_chain_signature (entry_key ent) sig_hash (entry_sig ent) = Some True"

lemma pubkey_hash_Inr [simp]: "pubkey_hash f pk = Inr h \<longleftrightarrow> f pk = Some h"
  by (simp add: pubkey_hash_def split: option.splits)

lemma collect_entries_Ok:
  "collect_entries v permitted sig_hash entries parts = Ok es \<Longrightarrow> distinct (map entry_pkh entries) \<Longrightarrow>
    list_all (entry_ok v permitted sig_hash) entries \<Longrightarrow>
    distinct (map entry_pkh es) \<and> list_all (entry_ok v permitted sig_hash) es \<and>
    length es = length entries + length parts"
proof (induction v permitted sig_hash entries parts rule: collect_entries.induct)
  case (2 v permitted sig_hash entries part parts)
  from 2(2) obtain h where h: "key_digest v (co_key part) = Some h" "h \<in> permitted"
    "\<not> list_ex (\<lambda>ent. entry_pkh ent = h) entries"
    "verify_chain_signature (co_key part) sig_hash (co_sig part) = Some True"
    "collect_entries v permitted sig_hash
       (entries @ [\<lparr>entry_pkh = h, entry_key = co_key part, entry_sig = co_sig part\<rparr>]) parts = Ok es"
    by (auto split: if_splits option.splits bool.splits)
  let ?e = "\<lparr>entry_pkh = h, entry_key = co_key part, entry_sig = co_sig part\<rparr>"
  have "distinct (map entry_pkh (entries @ [?e]))" using 2(3) h(3) by (auto simp: list_ex_iff)
  moreover have "entry_ok v permitted sig_hash ?e" using h by (simp add: entry_ok_def)
  then have "list_all (entry_ok v permitted sig_hash) (entries @ [?e])" using 2(4) by simp
  moreover have "sum_outcome Signing (pubkey_hash (key_digest v) (co_key part)) = Ok h" using h(1) by simp
  ultimately show ?case using 2(1) [of h True] h by simp
qed simp

lemma check_preimages_Inr:
  "check_preimages v hax ws = Inr () \<Longrightarrow> w \<in> set ws \<Longrightarrow> \<exists>x. (w, x) \<in> set hax \<and> value_digest v x = w"
proof (induction v hax ws rule: check_preimages.induct)
  case (2 v hax wanted rest)
  show ?case
  proof (cases "w = wanted")
    case True
    from 2(2) obtain h x where "find (\<lambda>(h, _). h = wanted) hax = Some (h, x)" "value_digest v x = wanted"
      by (auto split: option.splits if_splits)
    moreover from this(1) have "(h, x) \<in> set hax" "h = wanted" by (auto simp: find_Some_iff) (metis nth_mem)
    ultimately show ?thesis using True by blast
  next
    case False
    with 2 show ?thesis by (auto split: option.splits if_splits)
  qed
qed simp

lemma check_hax_Inr:
  "check_hax v hax ps = Inr () \<Longrightarrow> Hax s \<in> set ps \<Longrightarrow> check_preimages v hax (zset_items v s) = Inr ()"
  by (induction v hax ps rule: check_hax.induct) (auto simp: res_bind_def split: prim.splits sum.splits)

lemma unspendable_iff: "unspendable c \<longleftrightarrow> Burn \<in> set c"
  unfolding unspendable_def by (induction c) (auto split: prim.splits)

lemma lift_lock_Ok [simp]: "lift_lock r = Ok x \<longleftrightarrow> r = Ok x"
  by (cases r) simp_all


subsection \<open>Properties\<close>

text \<open>C6: a branch witness that is assembled is complete: its proof leads from the asked branch to the
  digest of the lock; a branch with a key conjunct carries exactly the demanded number of signatures, of
  different named keys, each verified over this digest, and a branch without one carries none; a branch
  that is not burnt has a right preimage for every hash it names.\<close>

theorem branch_witness_complete:
  assumes "build_branch_witness_from_parts v l branch height bythos parts sig_hash hax = Ok w"
  shows "let c = proof_condition (wit_proof w); es = wit_entries w
    in lock_digest (eng v) l = Some (merk_root (proof_merk (wit_proof w))) \<and>
       c = flatten (eng v) l ! unat (branch - 1) \<and>
       (\<exists>h. sc_hash (eng v) c = Some h \<and> verify_merk_proof (eng v) h (proof_axis (wit_proof w)) (proof_merk (wit_proof w))) \<and>
       (case pkh_rule c of
          None \<Rightarrow> es = []
        | Some (m, permitted) \<Rightarrow> word_of_nat (length es) = m \<and> distinct (map entry_pkh es) \<and>
            list_all (entry_ok v permitted sig_hash) es) \<and>
       (Burn \<in> set c \<or> (\<forall>s h. Hax s \<in> set c \<and> h \<in> set (zset_items v s) \<longrightarrow>
          (\<exists>x. (h, x) \<in> set (wit_hax w) \<and> value_digest v x = h)))"
proof -
  let ?c = "proof_condition (wit_proof w)"
  from assms have lmp: "lock_merkle_proof (eng v) l branch height bythos = Ok (wit_proof w)"
    and es: "branch_entries v ?c sig_hash parts = Ok (wit_entries w)"
    and hx: "wit_hax w = hax" "Burn \<in> set ?c \<or> check_hax v hax ?c = Inr ()"
    by (auto simp: build_branch_witness_from_parts_def unspendable_iff split: if_splits)
  have keys: "case pkh_rule ?c of None \<Rightarrow> wit_entries w = []
      | Some (m, permitted) \<Rightarrow> word_of_nat (length (wit_entries w)) = m \<and> distinct (map entry_pkh (wit_entries w)) \<and>
          list_all (entry_ok v permitted sig_hash) (wit_entries w)"
  proof (cases "pkh_rule ?c")
    case None
    with es show ?thesis by (simp add: branch_entries_def split: if_splits)
  next
    case (Some ms)
    obtain m S where ms: "ms = (m, S)" by (cases ms)
    with es Some have m: "word_of_nat (length parts) = m" "collect_entries v S sig_hash [] parts = Ok (wit_entries w)"
      by (simp_all add: branch_entries_def split: if_splits)
    from collect_entries_Ok [OF m(2)] m(1) show ?thesis by (simp add: Some ms)
  qed
  have "Burn \<in> set ?c \<or> (\<forall>s h. Hax s \<in> set ?c \<and> h \<in> set (zset_items v s) \<longrightarrow>
      (\<exists>x. (h, x) \<in> set (wit_hax w) \<and> value_digest v x = h))"
    using hx check_hax_Inr [of v hax ?c] check_preimages_Inr [of v hax] by blast
  with keys lock_merkle_proof_sound [OF lmp] show ?thesis unfolding Let_def by blast
qed

definition demo_env :: env where
  "demo_env = \<lparr>eng = demo_engine,
     seeds_digest = (\<lambda>ss. Some [word_of_nat (length ss), 0, 0, 0, 0]),
     value_digest = (\<lambda>x. case x of Atom n \<Rightarrow> [word_of_nat n, 0, 0, 0, 0] | Cell _ _ \<Rightarrow> [0, 0, 0, 0, 0]),
     key_digest = (\<lambda>p. Some [hd (f6_coeffs (px p)), 0, 0, 0, 0]),
     zset_items = sorted_list_of_set\<rparr>"

theorem branch_witness_complete_witness:
  "\<exists>w. build_branch_witness_from_parts demo_env (V2 (LockV2 [Hax {[5, 0, 0, 0, 0]}] [Burn])) 1 10 1 [] [1, 2, 3, 4, 5]
      [([5, 0, 0, 0, 0], Atom 5)] = Ok w \<and>
    lock_digest demo_engine (V2 (LockV2 [Hax {[5, 0, 0, 0, 0]}] [Burn])) = Some (merk_root (proof_merk (wit_proof w)))"
proof -
  let ?l = "V2 (LockV2 [Hax {[5, 0, 0, 0, 0]}] [Burn])"
  have "\<forall>c\<in>set (branches_of ?l). sc_hash demo_engine c \<noteq> None" "\<forall>k\<in>{1..4}. atom_hash demo_engine (2 ^ k) \<noteq> None"
    "(1 :: u64) \<le> 1" "unat (1 :: u64) \<le> length (branches_of ?l)" "length (branches_of ?l) = 1 \<or> (1 :: u64) \<le> 10"
    by (simp_all add: demo_engine_def)
  from lock_merkle_proof_complete [OF demo_engine_laws demo_lock_hash_law this]
  obtain p where p: "lock_merkle_proof demo_engine ?l 1 10 1 = Ok p" "proof_condition p = [Hax {[5, 0, 0, 0, 0]}]" by auto
  have z: "zset_items demo_env {[5, 0, 0, 0, 0]} = [[5, 0, 0, 0, 0]]"
  proof -
    have "sorted_list_of_set {x} = [x]" for x :: dig by simp
    then show ?thesis unfolding demo_env_def env.simps .
  qed
  have hx: "check_hax demo_env [([5, 0, 0, 0, 0], Atom 5)] [Hax {[5, 0, 0, 0, 0]}] = Inr ()"
    by (simp add: z res_bind_def) (simp add: demo_env_def)
  have e: "eng demo_env = demo_engine" by (simp add: demo_env_def)
  let ?w = "\<lparr>wit_proof = p, wit_entries = [], wit_hax = [([5, 0, 0, 0, 0], Atom 5)]\<rparr>"
  have w: "build_branch_witness_from_parts demo_env ?l 1 10 1 [] [1, 2, 3, 4, 5] [([5, 0, 0, 0, 0], Atom 5)] = Ok ?w"
    by (simp add: build_branch_witness_from_parts_def e p hx branch_entries_def pkh_rule_def unspendable_def
        sum_outcome_def del: check_hax.simps)
  have "lock_digest (eng demo_env) ?l = Some (merk_root (proof_merk (wit_proof ?w)))"
    using branch_witness_complete [OF w] unfolding Let_def by (rule conjunct1)
  with w show ?thesis unfolding e by blast
qed

text \<open>C8: the payout builder accepts exactly the conserving output sets: at least one output, none of value
  zero, no lock root twice, and outputs plus fee equal to the input as numbers; each seed it returns is the
  output it was given, pinned with the digest of its own one-seed group.\<close>

theorem capture_accepts_iff_conserving:
  assumes "length outputs < 2 ^ 63"
  shows "build_capture_seeds v outputs parent input_value fee = Inr seeds \<longleftrightarrow>
    outputs \<noteq> [] \<and> (\<forall>out\<in>set outputs. out_amount out \<noteq> 0) \<and> distinct (map out_root outputs) \<and>
    (\<Sum>out\<leftarrow>outputs. unat (out_amount out)) + unat fee = unat input_value \<and>
    map (\<lambda>out. map_option (\<lambda>h. (capture_seed parent out)\<lparr>output_source := Some (h, False)\<rparr>)
      (seeds_digest v [capture_seed parent out])) outputs = map Some seeds"
proof -
  let ?ss = "map (capture_seed parent) outputs"
  define pin where "pin out = map_option (\<lambda>h. (capture_seed parent out)\<lparr>output_source := Some (h, False)\<rparr>)
    (seeds_digest v [capture_seed parent out])" for out
  have pins: "pinned v ?ss = Inr seeds \<longleftrightarrow> map pin outputs = map Some seeds" if d: "distinct (map out_root outputs)"
  proof -
    have st: "stripped (capture_seed parent out) = capture_seed parent out" for out
      by (simp add: stripped_def capture_seed_def)
    have rt: "seed_root (capture_seed parent out) = out_root out" for out by (simp add: capture_seed_def)
    have g: "group_digest v ?ss (out_root out) = seeds_digest v [capture_seed parent out]" if "out \<in> set outputs" for out
      by (simp only: group_digest_def filter_own_root [OF d that] list.map st)
    have a: "list_all (\<lambda>s. group_digest v ?ss (seed_root s) \<noteq> None) ?ss \<longleftrightarrow> (\<forall>out\<in>set outputs. pin out \<noteq> None)"
      by (auto simp: list.pred_map list_all_iff rt g pin_def)
    have m: "Some (pin_seed v ?ss (capture_seed parent out)) = pin out" if "out \<in> set outputs" "pin out \<noteq> None" for out
      using that by (auto simp: pin_seed_def rt g pin_def)
    show ?thesis
    proof (cases "\<forall>out\<in>set outputs. pin out \<noteq> None")
      case True
      then have p: "pin_groups v ?ss = (Inr (), map (pin_seed v ?ss) ?ss)" using pin_groups_spec [of v ?ss] a by simp
      have "map pin outputs = map Some (map (pin_seed v ?ss) ?ss)" using True m by simp
      then have "map pin outputs = map Some seeds \<longleftrightarrow> map (pin_seed v ?ss) ?ss = seeds"
        by (simp only: inj_map_eq_map [OF inj_Some])
      then show ?thesis by (simp add: pinned_def pin_output_source_def p)
    next
      case False
      then have "fst (pin_groups v ?ss) = Inl GroupHashFailed" using pin_groups_spec [of v ?ss] a by simp
      then have "pinned v ?ss \<noteq> Inr seeds" by (cases "pin_groups v ?ss") (simp add: pinned_def pin_output_source_def)
      moreover have "map pin outputs \<noteq> map Some seeds"
        using False by (metis image_eqI image_set imageE option.distinct(1))
      ultimately show ?thesis by simp
    qed
  qed
  have "build_capture_seeds v outputs parent input_value fee = Inr seeds \<longleftrightarrow>
    outputs \<noteq> [] \<and> (\<exists>t. check_outputs [] outputs 0 = Inr t \<and> t + ucast fee = ucast input_value) \<and> pinned v ?ss = Inr seeds"
    by (auto simp: build_capture_seeds_def res_bind_def ensure_def Let_def split: sum.splits)
  then show ?thesis
    using pins [unfolded pin_def [abs_def]] conserve_words [OF assms, of fee input_value]
    by (auto simp: check_outputs_Inr)
qed

theorem capture_accepts_iff_conserving_witness:
  "\<exists>seeds. build_capture_seeds demo_env
      [\<lparr>out_root = [1, 0, 0, 0, 0], out_data = [], out_amount = 70\<rparr>,
       \<lparr>out_root = [2, 0, 0, 0, 0], out_data = [], out_amount = 25\<rparr>] [9, 0, 0, 0, 0] 100 5 = Inr seeds"
proof -
  let ?outs = "[\<lparr>out_root = [1, 0, 0, 0, 0], out_data = [], out_amount = 70\<rparr>,
       \<lparr>out_root = [2, 0, 0, 0, 0], out_data = [], out_amount = 25\<rparr>] :: capture_output list"
  have l: "length ?outs < 2 ^ 63" by simp
  let ?pin = "\<lambda>out. (capture_seed [9, 0, 0, 0, 0] out)\<lparr>output_source := Some ([1, 0, 0, 0, 0], False)\<rparr>"
  have "build_capture_seeds demo_env ?outs [9, 0, 0, 0, 0] 100 5 = Inr (map ?pin ?outs)"
    unfolding capture_accepts_iff_conserving [OF l] by (simp add: demo_env_def)
  then show ?thesis by blast
qed

text \<open>C14: pinning writes on every seed the digest of the stripped seeds of its lock root, in their order;
  pinning several seed sets groups them across all sets, and overwrites pins written set by set.\<close>

theorem pins_group_across_sets:
  assumes "list_all (\<lambda>s. group_digest v (concat sets) (seed_root s) \<noteq> None) (concat sets)"
  shows "pin_output_source_across v sets = (Inr (), map (map (pin_seed v (concat sets))) sets) \<and>
    pin_output_source_across v (map (\<lambda>ss. map (pin_seed v ss) ss) sets) = pin_output_source_across v sets"
proof -
  let ?sets = "map (\<lambda>ss. map (pin_seed v ss) ss) sets"
  have first: "pin_output_source_across v sets = (Inr (), map (map (pin_seed v (concat sets))) sets)"
    using pin_across_spec [of v sets] assms by simp
  have "map stripped (concat sets) = map stripped (concat ?sets)"
    by (simp add: map_concat comp_def)
  moreover have "fst (pin_groups v (concat sets)) = Inr ()" using pin_groups_spec [of v "concat sets"] assms by simp
  ultimately have "pin_groups v (concat sets) = pin_groups v (concat ?sets)" by (rule pin_groups_stripped)
  moreover have "map length ?sets = map length sets" by (simp add: comp_def)
  ultimately have "pin_output_source_across v ?sets = pin_output_source_across v sets"
    by (simp only: pin_output_source_across_def)
  with first show ?thesis by blast
qed

theorem pins_group_across_sets_witness:
  "\<exists>a b. snd (pin_output_source_across demo_env [[capture_seed [] \<lparr>out_root = [1], out_data = [], out_amount = 4\<rparr>],
      [capture_seed [] \<lparr>out_root = [1], out_data = [], out_amount = 6\<rparr>]]) = [[a], [b]] \<and>
    output_source a = output_source b"
proof -
  let ?sets = "[[capture_seed [] \<lparr>out_root = [1], out_data = [], out_amount = 4\<rparr>],
      [capture_seed [] \<lparr>out_root = [1], out_data = [], out_amount = 6\<rparr>]]"
  have "list_all (\<lambda>s. group_digest demo_env (concat ?sets) (seed_root s) \<noteq> None) (concat ?sets)"
    by (simp add: group_digest_def demo_env_def)
  from pins_group_across_sets [OF this]
  have "snd (pin_output_source_across demo_env ?sets) = map (map (pin_seed demo_env (concat ?sets))) ?sets" by simp
  then show ?thesis by (simp add: pin_seed_def capture_seed_def)
qed

end
