(* ===== verification/Fee.thy ===== *)
theory Fee
  imports Seeds "HOL-Library.AList"
begin

text \<open>
  Fees and note hashes: \<^verbatim>\<open>crates/vesl-core/src/fee.rs\<close> and \<^verbatim>\<open>note_hash.rs\<close>.  The nouns of a witness and of a
  jammed note-data value come from the transaction engine and are parameters; the constants of a network
  are the fields of \<open>fee_constants\<close>.
\<close>

subsection \<open>Fees\<close>

record fee_constants =
  base_fee :: u64
  input_fee_divisor :: u64
  min_fee :: u64
  bythos_phase :: u64

datatype fee_error = CueFailed

definition value_leaves :: "(bytes \<Rightarrow> noun option) \<Rightarrow> data_value \<Rightarrow> fee_error + u64" where
  "value_leaves cue x =
     (case x of
        NounValue n \<Rightarrow> Inr (num_of_leaves n)
      | TypedValue blob \<Rightarrow> (case cue blob of None \<Rightarrow> Inl CueFailed | Some n \<Rightarrow> Inr (num_of_leaves n)))"

fun note_data_loop :: "(bytes \<Rightarrow> noun option) \<Rightarrow> u64 \<Rightarrow> note_data \<Rightarrow> fee_error + u64" where
  "note_data_loop cue words [] = Inr words"
| "note_data_loop cue words ((k, x) # entries) =
     res_bind (value_leaves cue x) (\<lambda>l. note_data_loop cue (words + (1 + l)) entries)"

definition note_data_words :: "(bytes \<Rightarrow> noun option) \<Rightarrow> note_data \<Rightarrow> fee_error + u64" where
  "note_data_words cue nd = note_data_loop cue 1 nd"

text \<open>The maps of a transaction: lock root to key to leaf count, as association lists.\<close>

fun insert_entries ::
  "(bytes \<Rightarrow> noun option) \<Rightarrow> (ustr \<times> u64) list \<Rightarrow> note_data \<Rightarrow> fee_error + (ustr \<times> u64) list" where
  "insert_entries cue grp [] = Inr grp"
| "insert_entries cue grp ((k, x) # entries) =
     res_bind (value_leaves cue x) (\<lambda>l. insert_entries cue (AList.update k l grp) entries)"

fun merge_seeds ::
  "(bytes \<Rightarrow> noun option) \<Rightarrow> (dig \<times> (ustr \<times> u64) list) list \<Rightarrow> seed list \<Rightarrow>
    fee_error + (dig \<times> (ustr \<times> u64) list) list" where
  "merge_seeds cue groups [] = Inr groups"
| "merge_seeds cue groups (s # seeds) =
     res_bind (insert_entries cue (case map_of groups (seed_root s) of None \<Rightarrow> [] | Some g \<Rightarrow> g) (seed_data s))
       (\<lambda>g. merge_seeds cue (AList.update (seed_root s) g groups) seeds)"

fun legacy_loop :: "(bytes \<Rightarrow> noun option) \<Rightarrow> u64 \<Rightarrow> seed list \<Rightarrow> fee_error + u64" where
  "legacy_loop cue words [] = Inr words"
| "legacy_loop cue words (s # seeds) =
     res_bind (note_data_words cue (seed_data s)) (\<lambda>w. legacy_loop cue (words + w) seeds)"

definition group_words :: "(ustr \<times> u64) list \<Rightarrow> u64" where
  "group_words g = 1 + sum_list (map (\<lambda>(_, l). 1 + l) g)"

definition count_seed_words ::
  "(bytes \<Rightarrow> noun option) \<Rightarrow> ((dig \<times> dig) \<times> spend) list \<Rightarrow> u64 \<Rightarrow> u64 \<Rightarrow> fee_error + u64" where
  "count_seed_words cue spends height bythos =
     (let seeds = concat (map (\<lambda>(_, sp). spend_seeds sp) spends)
      in if bythos \<le> height
         then res_bind (merge_seeds cue [] seeds) (\<lambda>groups. Inr (sum_list (map (\<lambda>(_, g). group_words g) groups)))
         else legacy_loop cue 0 seeds)"

primrec spend_noun :: "(witness \<Rightarrow> noun) \<Rightarrow> spend \<Rightarrow> noun" where
  "spend_noun wit_noun (WitnessSpend ss w f) = wit_noun w"
| "spend_noun wit_noun (LegacySpend ss sg) = sg"

definition count_witness_words :: "(witness \<Rightarrow> noun) \<Rightarrow> ((dig \<times> dig) \<times> spend) list \<Rightarrow> u64" where
  "count_witness_words wit_noun spends = foldl (\<lambda>words (_, sp). words + num_of_leaves (spend_noun wit_noun sp)) 0 spends"

definition calculate_min_fee ::
  "(bytes \<Rightarrow> noun option) \<Rightarrow> (witness \<Rightarrow> noun) \<Rightarrow> ((dig \<times> dig) \<times> spend) list \<Rightarrow> u64 \<Rightarrow> fee_constants \<Rightarrow> fee_error + u64" where
  "calculate_min_fee cue wit_noun spends height c =
     (let bythos_active = bythos_phase c \<le> height;
          effective_base_fee = (if bythos_active then base_fee c else saturating_mul (base_fee c) 2);
          witness_divisor = (if bythos_active then max (input_fee_divisor c) 1 else 1)
      in res_bind (count_seed_words cue spends height (bythos_phase c)) (\<lambda>seed_words.
           let witness_words = count_witness_words wit_noun spends;
               seed_fee = saturating_mul seed_words effective_base_fee;
               witness_fee = saturating_mul witness_words effective_base_fee div witness_divisor
           in Inr (max (saturating_add seed_fee witness_fee) (min_fee c))))"


subsection \<open>The hash of a note\<close>

datatype note_hash_error = NotAField string u64 | NameHash | DataHash

record note_engine =
  leaf_atom :: "u64 \<Rightarrow> dig option"
  hash_pair2 :: "dig \<Rightarrow> dig \<Rightarrow> dig"
  name_digest :: "dig \<times> dig \<Rightarrow> dig option"
  data_digest :: "note_data \<Rightarrow> dig option"

record note_v1 =
  nv_version :: u32
  nv_origin_page :: u64
  nv_name :: "dig \<times> dig"
  nv_data :: note_data
  nv_assets :: u64

definition opt_err :: "'e \<Rightarrow> 'a option \<Rightarrow> 'e + 'a" where
  "opt_err err x = (case x of None \<Rightarrow> Inl err | Some y \<Rightarrow> Inr y)"

definition note_hash_parts ::
  "note_engine \<Rightarrow> u64 \<Rightarrow> u64 \<Rightarrow> dig \<times> dig \<Rightarrow> note_data \<Rightarrow> u64 \<Rightarrow> note_hash_error + dig" where
  "note_hash_parts e version origin_page name nd assets =
     (let leaf = (\<lambda>a what. opt_err (NotAField what a) (leaf_atom e a))
      in res_bind (opt_err NameHash (name_digest e name)) (\<lambda>name_hash.
         res_bind (opt_err DataHash (data_digest e nd)) (\<lambda>data_hash.
         res_bind (leaf assets ''assets'') (\<lambda>la.
         let tail1 = hash_pair2 e data_hash la; tail2 = hash_pair2 e name_hash tail1
         in res_bind (leaf origin_page ''origin page'') (\<lambda>lo.
            let tail3 = hash_pair2 e lo tail2
            in res_bind (leaf version ''version'') (\<lambda>lv. Inr (hash_pair2 e lv tail3)))))))"

definition note_hash :: "note_engine \<Rightarrow> note_v1 \<Rightarrow> note_hash_error + dig" where
  "note_hash e n =
     note_hash_parts e (ucast (nv_version n)) (nv_origin_page n) (nv_name n) (nv_data n) (nv_assets n)"

definition NOTE_VERSION_V1 :: u64 where
  "NOTE_VERSION_V1 = 1"


subsection \<open>Saturating arithmetic\<close>

lemma unat_saturating:
  fixes a b :: u64
  shows "unat (saturating_mul a b) = min (unat a * unat b) (2 ^ 64 - 1)"
    "unat (saturating_add a b) = min (unat a + unat b) (2 ^ 64 - 1)"
proof -
  have m: "unat (- 1 :: u64) = 2 ^ 64 - 1" by (simp add: unsigned_minus_1_eq_mask mask_eq_exp_minus_1)
  show "unat (saturating_mul a b) = min (unat a * unat b) (2 ^ 64 - 1)"
    using m by (simp add: saturating_mul_def unat_word_ariths)
  show "unat (saturating_add a b) = min (unat a + unat b) (2 ^ 64 - 1)"
    using m by (simp add: saturating_add_def unat_word_ariths)
qed

lemma unat_max: "unat (max a b) = max (unat a) (unat b)" for a b :: u64
  by (simp add: max_def word_le_nat_alt)


subsection \<open>Merged and legacy word counts\<close>

text \<open>The reference cost of note data, in numbers.\<close>

definition value_noun :: "(bytes \<Rightarrow> noun option) \<Rightarrow> data_value \<Rightarrow> noun option" where
  "value_noun cue x = (case x of NounValue n \<Rightarrow> Some n | TypedValue b \<Rightarrow> cue b)"

definition entry_cost :: "(bytes \<Rightarrow> noun option) \<Rightarrow> ustr \<times> data_value \<Rightarrow> nat" where
  "entry_cost cue ent = 1 + leaves (the (value_noun cue (snd ent)))"

definition data_cost :: "(bytes \<Rightarrow> noun option) \<Rightarrow> note_data \<Rightarrow> nat" where
  "data_cost cue nd = 1 + sum_list (map (entry_cost cue) nd)"

definition readable :: "(bytes \<Rightarrow> noun option) \<Rightarrow> note_data \<Rightarrow> bool" where
  "readable cue nd = list_all (\<lambda>ent. value_noun cue (snd ent) \<noteq> None) nd"

lemma num_of_leaves_word: "num_of_leaves n = word_of_nat (leaves n)"
  by (simp add: num_of_leaves_def leaves_loop_sum)

lemma value_leaves_readable:
  "value_noun cue x \<noteq> None \<Longrightarrow> value_leaves cue x = Inr (word_of_nat (leaves (the (value_noun cue x))))"
  by (auto simp: value_leaves_def value_noun_def num_of_leaves_word split: data_value.splits)

lemma note_data_loop_cost:
  "readable cue nd \<Longrightarrow> note_data_loop cue w nd = Inr (w + word_of_nat (sum_list (map (entry_cost cue) nd)))"
  by (induction cue w nd rule: note_data_loop.induct)
    (simp_all add: readable_def value_leaves_readable res_bind_def entry_cost_def algebra_simps)

lemma legacy_loop_cost:
  "\<forall>s\<in>set seeds. readable cue (seed_data s) \<Longrightarrow>
    legacy_loop cue w seeds = Inr (w + word_of_nat (\<Sum>s\<leftarrow>seeds. data_cost cue (seed_data s)))"
  by (induction cue w seeds rule: legacy_loop.induct)
    (simp_all add: note_data_words_def note_data_loop_cost res_bind_def data_cost_def algebra_simps)

text \<open>The maps with counts as numbers, and their weight.\<close>

definition lift_grp :: "(ustr \<times> nat) list \<Rightarrow> (ustr \<times> u64) list" where
  "lift_grp h = map (\<lambda>(k, n). (k, word_of_nat n)) h"

definition lift_groups :: "(dig \<times> (ustr \<times> nat) list) list \<Rightarrow> (dig \<times> (ustr \<times> u64) list) list" where
  "lift_groups hs = map (\<lambda>(r, h). (r, lift_grp h)) hs"

definition weight :: "(ustr \<times> nat) list \<Rightarrow> nat" where
  "weight h = 1 + sum_list (map (\<lambda>(_, n). 1 + n) h)"

definition weights :: "(dig \<times> (ustr \<times> nat) list) list \<Rightarrow> nat" where
  "weights hs = sum_list (map (\<lambda>(_, h). weight h) hs)"

lemma update_map: "AList.update k (f v) (map (\<lambda>(k, v). (k, f v)) xs) = map (\<lambda>(k, v). (k, f v)) (AList.update k v xs)"
  by (induction xs) auto

lemma lift_grp_update: "AList.update k (word_of_nat n) (lift_grp h) = lift_grp (AList.update k n h)"
  unfolding lift_grp_def by (rule update_map)

lemma lift_groups_update: "AList.update r (lift_grp h) (lift_groups hs) = lift_groups (AList.update r h hs)"
  unfolding lift_groups_def by (rule update_map)

lemma map_of_lift: "map_of (map (\<lambda>(k, v). (k, f v)) xs) k = map_option f (map_of xs k)"
  by (induction xs) auto

lemma update_new: "k \<notin> fst ` set xs \<Longrightarrow> AList.update k v xs = xs @ [(k, v)]"
  by (induction xs) auto

lemma update_sum:
  "sum_list (map (\<lambda>(_, y). g y) (AList.update k v xs)) + (case map_of xs k of None \<Rightarrow> 0 | Some old \<Rightarrow> g old) =
    sum_list (map (\<lambda>(_, y). g y) xs) + (g v :: nat)"
  by (induction xs) auto

lemma group_words_lift: "group_words (lift_grp h) = word_of_nat (weight h)"
  by (induction h) (auto simp: group_words_def lift_grp_def weight_def algebra_simps)

lemma insert_entries_weight:
  "readable cue nd \<Longrightarrow> \<exists>h'. insert_entries cue (lift_grp h) nd = Inr (lift_grp h') \<and>
    weight h' \<le> weight h + sum_list (map (entry_cost cue) nd) \<and>
    (distinct (map fst h @ map fst nd) \<longrightarrow> weight h' = weight h + sum_list (map (entry_cost cue) nd))"
proof (induction nd arbitrary: h)
  case (Cons ent nd)
  obtain k x where ent: "ent = (k, x)" by (cases ent)
  let ?n = "leaves (the (value_noun cue x))"
  let ?h = "AList.update k ?n h"
  have r: "readable cue nd" "value_leaves cue x = Inr (word_of_nat ?n)"
    using Cons.prems value_leaves_readable [of cue x] by (simp_all add: readable_def ent)
  have w: "weight ?h \<le> weight h + entry_cost cue ent"
    using update_sum [of "\<lambda>n. 1 + n" k ?n h] by (simp add: weight_def ent entry_cost_def)
  have wd: "weight ?h = weight h + entry_cost cue ent" "map fst ?h = map fst h @ [k]" if "k \<notin> fst ` set h"
    using update_new [OF that, of ?n] by (simp_all add: weight_def ent entry_cost_def)
  from Cons.IH [OF r(1), of ?h] obtain h' where h': "insert_entries cue (lift_grp ?h) nd = Inr (lift_grp h')"
    "weight h' \<le> weight ?h + sum_list (map (entry_cost cue) nd)"
    "distinct (map fst ?h @ map fst nd) \<longrightarrow> weight h' = weight ?h + sum_list (map (entry_cost cue) nd)" by blast
  have "insert_entries cue (lift_grp h) (ent # nd) = Inr (lift_grp h')"
    using h'(1) r(2) by (simp add: ent res_bind_def lift_grp_update)
  moreover have "weight h' \<le> weight h + sum_list (map (entry_cost cue) (ent # nd))" using h'(2) w by simp
  moreover have "weight h' = weight h + sum_list (map (entry_cost cue) (ent # nd))"
    if d: "distinct (map fst h @ map fst (ent # nd))"
  proof -
    have "k \<notin> fst ` set h" using d by (auto simp: ent)
    note wd = wd [OF this]
    have "distinct (map fst ?h @ map fst nd)" using d by (auto simp: wd(2) ent)
    then show ?thesis using h'(3) wd(1) by simp
  qed
  ultimately show ?case by blast
next
  case Nil
  show ?case by (intro exI [of _ h]) simp
qed

lemma merge_seeds_weight:
  "\<forall>s\<in>set seeds. readable cue (seed_data s) \<Longrightarrow> \<exists>hs'. merge_seeds cue (lift_groups hs) seeds = Inr (lift_groups hs') \<and>
    weights hs' \<le> weights hs + (\<Sum>s\<leftarrow>seeds. data_cost cue (seed_data s)) \<and>
    (distinct (map fst hs @ map seed_root seeds) \<and> (\<forall>s\<in>set seeds. distinct (map fst (seed_data s))) \<longrightarrow>
      weights hs' = weights hs + (\<Sum>s\<leftarrow>seeds. data_cost cue (seed_data s)))"
proof (induction seeds arbitrary: hs)
  case (Cons s seeds)
  let ?r = "seed_root s"
  let ?old = "case map_of hs ?r of None \<Rightarrow> [] | Some h \<Rightarrow> h"
  have old: "(case map_of (lift_groups hs) ?r of None \<Rightarrow> [] | Some g \<Rightarrow> g) = lift_grp ?old"
    unfolding lift_groups_def map_of_lift by (simp add: lift_grp_def split: option.splits)
  from insert_entries_weight [of cue "seed_data s" ?old] Cons.prems obtain h' where
    h': "insert_entries cue (lift_grp ?old) (seed_data s) = Inr (lift_grp h')"
    "weight h' \<le> weight ?old + sum_list (map (entry_cost cue) (seed_data s))"
    "distinct (map fst ?old @ map fst (seed_data s)) \<longrightarrow> weight h' = weight ?old + sum_list (map (entry_cost cue) (seed_data s))"
    by auto
  let ?hs = "AList.update ?r h' hs"
  have w: "weights ?hs \<le> weights hs + data_cost cue (seed_data s)"
    using update_sum [of weight ?r h' hs] h'(2)
    by (auto simp: weights_def data_cost_def weight_def [of "[]"] split: option.splits)
  from Cons.IH [of ?hs] Cons.prems obtain hs' where hs': "merge_seeds cue (lift_groups ?hs) seeds = Inr (lift_groups hs')"
    "weights hs' \<le> weights ?hs + (\<Sum>s\<leftarrow>seeds. data_cost cue (seed_data s))"
    "distinct (map fst ?hs @ map seed_root seeds) \<and> (\<forall>s\<in>set seeds. distinct (map fst (seed_data s))) \<longrightarrow>
      weights hs' = weights ?hs + (\<Sum>s\<leftarrow>seeds. data_cost cue (seed_data s))" by auto
  have "merge_seeds cue (lift_groups hs) (s # seeds) = Inr (lift_groups hs')"
    using hs'(1) by (simp add: old h'(1) res_bind_def lift_groups_update)
  moreover have "weights hs' \<le> weights hs + (\<Sum>s\<leftarrow>s # seeds. data_cost cue (seed_data s))" using hs'(2) w by simp
  moreover have "weights hs' = weights hs + (\<Sum>s\<leftarrow>s # seeds. data_cost cue (seed_data s))"
    if d: "distinct (map fst hs @ map seed_root (s # seeds)) \<and> (\<forall>s\<in>set (s # seeds). distinct (map fst (seed_data s)))"
  proof -
    have n: "?r \<notin> fst ` set hs" using d by auto
    then have m: "map_of hs ?r = None" by (simp add: map_of_eq_None_iff)
    note u = update_new [OF n, of h']
    have "distinct (map fst ?hs @ map seed_root seeds)" using d by (auto simp: u)
    then have "weights hs' = weights ?hs + (\<Sum>s\<leftarrow>seeds. data_cost cue (seed_data s))" using hs'(3) d by simp
    moreover have "weights ?hs = weights hs + data_cost cue (seed_data s)"
      using h'(3) d by (simp add: u m weights_def data_cost_def weight_def [of "[]"])
    ultimately show ?thesis by simp
  qed
  ultimately show ?case by blast
next
  case Nil
  show ?case by (intro exI [of _ hs]) simp
qed

lemma merged_words: "sum_list (map (\<lambda>(_, g). group_words g) (lift_groups hs)) = word_of_nat (weights hs)"
  by (induction hs) (auto simp: lift_groups_def weights_def group_words_lift)


subsection \<open>Properties\<close>

text \<open>C38: from the bythos phase on a transaction never counts more seed words than before it, and it counts
  as many when no two seeds share a lock root and no seed repeats a key; both counts succeed when every
  value can be read, and do not wrap while the larger one fits.\<close>

theorem bythos_merging_never_costs_more:
  fixes spends :: "((dig \<times> dig) \<times> spend) list"
  defines "seeds \<equiv> concat (map (\<lambda>(_, sp). spend_seeds sp) spends)"
  assumes "\<forall>s\<in>set seeds. readable cue (seed_data s)" and "(\<Sum>s\<leftarrow>seeds. data_cost cue (seed_data s)) < 2 ^ 64"
    and "height < bythos" "bythos \<le> height'"
  shows "\<exists>before after. count_seed_words cue spends height bythos = Inr before \<and>
    count_seed_words cue spends height' bythos = Inr after \<and>
    unat before = (\<Sum>s\<leftarrow>seeds. data_cost cue (seed_data s)) \<and> unat after \<le> unat before \<and>
    (distinct (map seed_root seeds) \<and> (\<forall>s\<in>set seeds. distinct (map fst (seed_data s))) \<longrightarrow> after = before)"
proof -
  let ?L = "\<Sum>s\<leftarrow>seeds. data_cost cue (seed_data s)"
  have b: "count_seed_words cue spends height bythos = Inr (word_of_nat ?L)"
    using legacy_loop_cost [OF assms(2), of 0] assms(4)
    by (simp add: count_seed_words_def seeds_def [symmetric] Let_def not_le [symmetric])
  from merge_seeds_weight [OF assms(2), of "[]"] obtain hs where hs:
    "merge_seeds cue [] seeds = Inr (lift_groups hs)" "weights hs \<le> ?L"
    "distinct (map seed_root seeds) \<and> (\<forall>s\<in>set seeds. distinct (map fst (seed_data s))) \<longrightarrow> weights hs = ?L"
    by (auto simp: lift_groups_def weights_def)
  have a: "count_seed_words cue spends height' bythos = Inr (word_of_nat (weights hs))"
    using hs(1) assms(5) by (simp add: count_seed_words_def seeds_def [symmetric] Let_def res_bind_def merged_words)
  have "unat (word_of_nat ?L :: u64) = ?L" "unat (word_of_nat (weights hs) :: u64) = weights hs"
    using assms(3) hs(2) by (simp_all add: unat_of_nat_u64)
  with a b hs(2,3) show ?thesis by auto
qed

definition demo_seed :: seed where
  "demo_seed = \<lparr>output_source = None, seed_root = [1], seed_data = [(lit ''vesl-k'', NounValue (Atom 7))], gift = 10,
     parent_hash = [9]\<rparr>"

theorem bythos_merging_never_costs_more_witness:
  "\<exists>after. count_seed_words (\<lambda>_. None) [(([], []), LegacySpend [demo_seed, demo_seed] (Atom 0))] 0 1 = Inr 6 \<and>
    count_seed_words (\<lambda>_. None) [(([], []), LegacySpend [demo_seed, demo_seed] (Atom 0))] 1 1 = Inr after \<and>
    unat after \<le> 6"
proof -
  let ?spends = "[(([], []), LegacySpend [demo_seed, demo_seed] (Atom 0))] :: ((dig \<times> dig) \<times> spend) list"
  have c: "concat (map (\<lambda>(_, sp). spend_seeds sp) ?spends) = [demo_seed, demo_seed]" by simp
  have d: "data_cost (\<lambda>_. None) (seed_data demo_seed) = 3"
    by (simp add: data_cost_def demo_seed_def entry_cost_def value_noun_def)
  have "\<forall>s\<in>set (concat (map (\<lambda>(_, sp). spend_seeds sp) ?spends)). readable (\<lambda>_. None) (seed_data s)"
    by (simp add: demo_seed_def readable_def value_noun_def)
  moreover have s: "(\<Sum>s\<leftarrow>concat (map (\<lambda>(_, sp). spend_seeds sp) ?spends). data_cost (\<lambda>_. None) (seed_data s)) = 6"
    unfolding c by (simp add: d)
  moreover have "(6 :: nat) < 2 ^ 64" "(0 :: u64) < 1" "(1 :: u64) \<le> 1" by simp_all
  ultimately obtain before after where r: "count_seed_words (\<lambda>_. None) ?spends 0 1 = Inr before"
    "count_seed_words (\<lambda>_. None) ?spends 1 1 = Inr after" "unat before = 6" "unat after \<le> unat before"
    using bythos_merging_never_costs_more [of ?spends "\<lambda>_. None" 0 1 1] by auto
  have "before = 6" using r(3) by (simp add: word_unat_eq_iff)
  with r show ?thesis by auto
qed

text \<open>The minimum fee is the saturated price of the words: the base fee doubles and the witness is not
  discounted before the bythos phase; from it on the witness is divided by the divisor, at least one, so
  no division by zero occurs; the floor always applies.\<close>

theorem min_fee_exact:
  "calculate_min_fee cue wit_noun spends height c =
    (case count_seed_words cue spends height (bythos_phase c) of
       Inl err \<Rightarrow> Inl err
     | Inr sw \<Rightarrow>
         let top = 2 ^ 64 - 1; active = bythos_phase c \<le> height;
             base = (if active then unat (base_fee c) else min (2 * unat (base_fee c)) top);
             divisor = (if active then max (unat (input_fee_divisor c)) 1 else 1);
             words = unat (count_witness_words wit_noun spends)
         in Inr (word_of_nat (max (min (min (unat sw * base) top + min (words * base) top div divisor) top)
              (unat (min_fee c)))))"
proof (cases "count_seed_words cue spends height (bythos_phase c)")
  case (Inr sw)
  have w: "x = word_of_nat n" if "unat x = n" for x :: u64 and n using that by auto
  show ?thesis
    unfolding calculate_min_fee_def Let_def Inr res_bind_def sum.case
    by (intro arg_cong [of _ _ Inr] w)
      (auto simp: unat_max unat_saturating unat_div mult.commute)
qed (simp add: calculate_min_fee_def Let_def res_bind_def)

text \<open>The hash of a note binds its version, its block, its assets and the digests of its name and its
  data: two notes with one hash agree on them, or exhibit a collision of the pair hash or of the atom hash.\<close>

theorem note_hash_binds:
  assumes "note_hash_parts e ver page name nd assets = Inr h"
    and "note_hash_parts e ver' page' name' nd' assets' = Inr h"
  shows "(ver = ver' \<and> page = page' \<and> assets = assets' \<and> name_digest e name = name_digest e name' \<and>
      data_digest e nd = data_digest e nd') \<or>
    (\<exists>a b c d. (a, b) \<noteq> (c, d) \<and> hash_pair2 e a b = hash_pair2 e c d) \<or>
    (\<exists>m n. m \<noteq> n \<and> leaf_atom e m \<noteq> None \<and> leaf_atom e m = leaf_atom e n)"
proof (rule ccontr)
  assume "\<not> ?thesis"
  then have pair: "\<And>a b c d. hash_pair2 e a b = hash_pair2 e c d \<Longrightarrow> a = c \<and> b = d"
    and atoms: "\<forall>m n. m \<noteq> n \<and> leaf_atom e m \<noteq> None \<longrightarrow> leaf_atom e m \<noteq> leaf_atom e n"
    and diff: "\<not> (ver = ver' \<and> page = page' \<and> assets = assets' \<and> name_digest e name = name_digest e name' \<and>
      data_digest e nd = data_digest e nd')"
    unfolding prod.inject by blast+
  have atom: "m = n" if "leaf_atom e m = Some x" "leaf_atom e n = Some x" for m n x
    using that atoms by force
  have oe: "opt_err err x = Inr y \<longleftrightarrow> x = Some y" for err :: note_hash_error and x :: "dig option" and y
    by (simp add: opt_err_def split: option.splits)
  from assms obtain n d la lo lv where p: "name_digest e name = Some n" "data_digest e nd = Some d"
    "leaf_atom e assets = Some la" "leaf_atom e page = Some lo" "leaf_atom e ver = Some lv"
    "h = hash_pair2 e lv (hash_pair2 e lo (hash_pair2 e n (hash_pair2 e d la)))"
    by (auto simp: note_hash_parts_def Let_def oe)
  from assms obtain n' d' la' lo' lv' where q: "name_digest e name' = Some n'" "data_digest e nd' = Some d'"
    "leaf_atom e assets' = Some la'" "leaf_atom e page' = Some lo'" "leaf_atom e ver' = Some lv'"
    "h = hash_pair2 e lv' (hash_pair2 e lo' (hash_pair2 e n' (hash_pair2 e d' la')))"
    by (auto simp: note_hash_parts_def Let_def oe)
  have "lv = lv'" "lo = lo'" "n = n'" "d = d'" "la = la'" using p(6) q(6) pair by metis+
  with p q atom diff show False by metis
qed

definition demo_note_engine :: note_engine where
  "demo_note_engine = \<lparr>leaf_atom = (\<lambda>a. Some [a]), hash_pair2 = (\<lambda>a b. word_of_nat (length a) # a @ b),
     name_digest = (\<lambda>n. Some (fst n)), data_digest = (\<lambda>d. Some [word_of_nat (length d)])\<rparr>"

theorem note_hash_binds_witness:
  "note_hash_parts demo_note_engine 1 8 ([3], [4]) [] 100 \<noteq> Inr [1, 1, 1, 7, 1, 3, 1, 0, 100] \<or>
   (\<exists>a b c d. (a, b) \<noteq> (c, d) \<and> hash_pair2 demo_note_engine a b = hash_pair2 demo_note_engine c d)"
proof (rule disjCI)
  let ?e = demo_note_engine
  have a: "note_hash_parts ?e 1 7 ([3], [4]) [] 100 = Inr [1, 1, 1, 7, 1, 3, 1, 0, 100]"
    by (simp add: note_hash_parts_def opt_err_def res_bind_def Let_def demo_note_engine_def)
  assume none: "\<not> (\<exists>a b c d. (a, b) \<noteq> (c, d) \<and> hash_pair2 ?e a b = hash_pair2 ?e c d)"
  show "note_hash_parts ?e 1 8 ([3], [4]) [] 100 \<noteq> Inr [1, 1, 1, 7, 1, 3, 1, 0, 100]"
  proof
    assume b: "note_hash_parts ?e 1 8 ([3], [4]) [] 100 = Inr [1, 1, 1, 7, 1, 3, 1, 0, 100]"
    have "\<not> (\<exists>m n. m \<noteq> n \<and> leaf_atom ?e m \<noteq> None \<and> leaf_atom ?e m = leaf_atom ?e n)"
      by (simp add: demo_note_engine_def)
    with note_hash_binds [OF a b] none have "(7 :: u64) = 8" by blast
    then show False by simp
  qed
qed

end
