(* ===== verification/Peeks.thy ===== *)
theory Peeks
  imports Nouns "HOL-Library.Sublist"
begin

text \<open>
  Reading what the kernel answers: \<^verbatim>\<open>crates/vesl-core/src/peek.rs\<close> and \<^verbatim>\<open>poke.rs\<close>.  A slab is its root noun.
  The padded bytes the virtual machine keeps for an atom are a parameter \<open>ne\<close>, little-endian with the
  value of the atom (\<open>ne_law\<close>).
\<close>

subsection \<open>Lossy text\<close>

text \<open>\<open>String::from_utf8_lossy\<close> of the standard library: a maximal ill-formed prefix of a sequence becomes
  U+FFFD.\<close>

definition cont :: "nat \<Rightarrow> nat \<Rightarrow> u8 \<Rightarrow> bool" where
  "cont lo hi b \<longleftrightarrow> lo \<le> unat b \<and> unat b \<le> hi"

definition second_ok :: "nat \<Rightarrow> u8 \<Rightarrow> bool" where
  "second_ok a b =
     (if a = 0xE0 then cont 0xA0 0xBF b else if a = 0xED then cont 0x80 0x9F b
      else if a = 0xF0 then cont 0x90 0xBF b else if a = 0xF4 then cont 0x80 0x8F b else cont 0x80 0xBF b)"

definition seq_len :: "nat \<Rightarrow> nat" where
  "seq_len a =
     (if a < 0x80 then 1 else if 0xC2 \<le> a \<and> a \<le> 0xDF then 2 else if 0xE0 \<le> a \<and> a \<le> 0xEF then 3
      else if 0xF0 \<le> a \<and> a \<le> 0xF4 then 4 else 0)"

text \<open>The number of bytes that continue a sequence well, at most three.\<close>

fun good_tail :: "nat \<Rightarrow> (u8 \<Rightarrow> bool) \<Rightarrow> bytes \<Rightarrow> nat" where
  "good_tail 0 ok bs = 0"
| "good_tail (Suc k) ok [] = 0"
| "good_tail (Suc k) ok (b # bs) = (if ok b then Suc (good_tail k (cont 0x80 0xBF) bs) else 0)"

definition lead_bits :: "nat \<Rightarrow> nat" where
  "lead_bits a = (if seq_len a = 2 then a mod 32 else if seq_len a = 3 then a mod 16 else if seq_len a = 4 then a mod 8 else a)"

function utf8_lossy :: "bytes \<Rightarrow> ustr" where
  "utf8_lossy [] = []"
| "utf8_lossy (b # bs) =
     (let a = unat b; n = seq_len a; k = good_tail (n - 1) (second_ok a) bs
      in if n = 0 then 0xFFFD # utf8_lossy bs
         else if k < n - 1 then 0xFFFD # utf8_lossy (drop k bs)
         else foldl (\<lambda>c b. 64 * c + unat b mod 64) (lead_bits a) (take k bs) # utf8_lossy (drop k bs))"
  by pat_completeness auto
termination
  by (relation "measure length") auto

lemma utf8_lossy_ascii: "\<forall>b\<in>set bs. unat b < 128 \<Longrightarrow> utf8_lossy bs = map unat bs"
  by (induction bs) (simp_all add: seq_len_def lead_bits_def)


subsection \<open>Peek paths\<close>

definition build_hull_peek_path :: "ustr \<Rightarrow> u64 \<Rightarrow> noun" where
  "build_hull_peek_path tag hull_id = tuple [make_tag_in tag, atom_from_u64 hull_id, Atom 0]"

definition build_keyed_peek_path :: "ustr \<Rightarrow> ustr \<Rightarrow> noun" where
  "build_keyed_peek_path tag key = tuple [make_tag_in tag, make_tag_in key, Atom 0]"

definition build_keyless_peek_path :: "ustr \<Rightarrow> noun" where
  "build_keyless_peek_path tag = tuple [make_tag_in tag, Atom 0]"


subsection \<open>Decoders of peek results\<close>

type_synonym ne = "nat \<Rightarrow> bytes"

definition trim_trailing_zeros :: "bytes \<Rightarrow> bytes" where
  "trim_trailing_zeros bs = take (case rposition (\<lambda>b. b \<noteq> 0) bs of None \<Rightarrow> 0 | Some i \<Rightarrow> i + 1) bs"

definition all_zero :: "bytes \<Rightarrow> bool" where
  "all_zero bs = list_all (\<lambda>b. b = 0) bs"

definition as_u64 :: "nat \<Rightarrow> u64 option" where
  "as_u64 a = (if a < 2 ^ 64 then Some (word_of_nat a) else None)"

definition strip_triple_unit_envelope :: "noun \<Rightarrow> noun option" where
  "strip_triple_unit_envelope n = (case n of Cell _ (Cell _ x) \<Rightarrow> Some x | _ \<Rightarrow> None)"

definition unwrap_triple_unit_atom :: "ne \<Rightarrow> noun \<Rightarrow> bytes option" where
  "unwrap_triple_unit_atom ne n =
     (case strip_triple_unit_envelope n of
        None \<Rightarrow> None
      | Some (Atom a) \<Rightarrow> if all_zero (ne a) then None else Some (trim_trailing_zeros (ne a))
      | Some (Cell _ (Atom a)) \<Rightarrow> Some (trim_trailing_zeros (ne a))
      | Some (Cell _ (Cell _ _)) \<Rightarrow> None)"

definition loobean_of :: "bytes \<Rightarrow> bool option" where
  "loobean_of bs = (if bs = [] then Some True else if bs = [1] then Some False else None)"

definition peek_loobean :: "ne \<Rightarrow> noun \<Rightarrow> bool option" where
  "peek_loobean ne n =
     (case strip_triple_unit_envelope n of
        Some (Cell _ (Atom a)) \<Rightarrow> loobean_of (trim_trailing_zeros (ne a))
      | _ \<Rightarrow> None)"

fun peek_walk :: "ne \<Rightarrow> noun \<Rightarrow> u64 option" where
  "peek_walk ne (Atom a) = as_u64 a"
| "peek_walk ne (Cell (Atom h) t) = (if all_zero (ne h) then peek_walk ne t else None)"
| "peek_walk ne (Cell (Cell _ _) t) = None"

definition peek_atom_u64 :: "ne \<Rightarrow> noun \<Rightarrow> u64 option" where
  "peek_atom_u64 ne n = peek_walk ne n"

datatype peek_error = BadWrapper | BadUnit | ValueTooLarge

fun peel :: "ne \<Rightarrow> nat \<Rightarrow> noun \<Rightarrow> peek_error + noun" where
  "peel ne 0 n = Inr n"
| "peel ne (Suc k) n =
     (case n of
        Cell (Atom h) t \<Rightarrow> if all_zero (ne h) then peel ne k t else Inl BadWrapper
      | _ \<Rightarrow> Inl BadWrapper)"

text \<open>The innermost unit: \<open>None\<close> for \<open>~\<close>, or the atom of \<open>[~ @]\<close>.\<close>

definition unit_slot :: "ne \<Rightarrow> noun \<Rightarrow> peek_error + nat option" where
  "unit_slot ne n =
     (case n of
        Atom a \<Rightarrow> if all_zero (ne a) then Inr None else Inl BadUnit
      | Cell (Atom h) (Atom x) \<Rightarrow> if all_zero (ne h) then Inr (Some x) else Inl BadUnit
      | _ \<Rightarrow> Inl BadUnit)"

definition peek_atom_u64_strict :: "ne \<Rightarrow> noun \<Rightarrow> nat \<Rightarrow> peek_error + u64 option" where
  "peek_atom_u64_strict ne n unit_wraps =
     res_bind (peel ne unit_wraps n) (\<lambda>slot. res_bind (unit_slot ne slot) (\<lambda>u.
       case u of
         None \<Rightarrow> Inr None
       | Some x \<Rightarrow> (case as_u64 x of None \<Rightarrow> Inl ValueTooLarge | Some w \<Rightarrow> Inr (Some w))))"

definition peek_unit_atom_strict :: "ne \<Rightarrow> noun \<Rightarrow> nat \<Rightarrow> peek_error + bytes option" where
  "peek_unit_atom_strict ne n unit_wraps =
     res_bind (peel ne unit_wraps n) (\<lambda>slot. res_bind (unit_slot ne slot) (\<lambda>u.
       Inr (map_option (\<lambda>x. trim_trailing_zeros (ne x)) u)))"

fun list_walk :: "ne \<Rightarrow> (noun \<Rightarrow> 'a option) \<Rightarrow> noun \<Rightarrow> 'a list option" where
  "list_walk ne decode (Atom a) = (if all_zero (ne a) then Some [] else None)"
| "list_walk ne decode (Cell h t) =
     (case decode h of None \<Rightarrow> None | Some x \<Rightarrow> map_option (\<lambda>xs. x # xs) (list_walk ne decode t))"

definition peek_unit_list :: "ne \<Rightarrow> noun \<Rightarrow> (noun \<Rightarrow> 'a option) \<Rightarrow> 'a list option" where
  "peek_unit_list ne n decode =
     (case strip_triple_unit_envelope n of
        None \<Rightarrow> None
      | Some (Atom a) \<Rightarrow> if all_zero (ne a) then Some [] else None
      | Some (Cell _ items) \<Rightarrow> list_walk ne decode items)"


subsection \<open>Decoders of effects\<close>

definition effect_head_tag :: "ne \<Rightarrow> noun \<Rightarrow> ustr option" where
  "effect_head_tag ne n =
     (case n of Cell (Atom a) _ \<Rightarrow> Some (utf8_lossy (trim_trailing_zeros (ne a))) | _ \<Rightarrow> None)"

definition effect_head_tags :: "ne \<Rightarrow> noun list \<Rightarrow> ustr list" where
  "effect_head_tags ne effects = List.map_filter (effect_head_tag ne) effects"

definition decode_effect_cord :: "ne \<Rightarrow> noun \<Rightarrow> ustr option" where
  "decode_effect_cord ne n =
     (case n of Cell _ (Atom a) \<Rightarrow> Some (utf8_lossy (trim_trailing_zeros (ne a))) | _ \<Rightarrow> None)"

definition decode_effect_loobean :: "ne \<Rightarrow> noun \<Rightarrow> bool option" where
  "decode_effect_loobean ne n =
     (case n of Cell _ (Atom a) \<Rightarrow> loobean_of (trim_trailing_zeros (ne a)) | _ \<Rightarrow> None)"

definition decode_settle_error :: "ne \<Rightarrow> noun \<Rightarrow> ustr option" where
  "decode_settle_error ne n =
     (if effect_head_tag ne n \<noteq> Some (lit ''settle-error'') then None else decode_effect_cord ne n)"

fun decode_queue_popped :: "ne \<Rightarrow> noun list \<Rightarrow> (u64 \<times> bytes) option" where
  "decode_queue_popped ne [] = None"
| "decode_queue_popped ne (n # effects) =
     (if effect_head_tag ne n \<noteq> Some (lit ''queue-popped'') then decode_queue_popped ne effects
      else case n of
             Cell _ (Atom a) \<Rightarrow> None
           | Cell _ (Cell _ (Cell (Atom i) (Atom body))) \<Rightarrow> map_option (\<lambda>w. (w, ne body)) (as_u64 i)
           | _ \<Rightarrow> None)"


subsection \<open>The outcome of a poke\<close>

datatype rejection_reason =
    KernelError ustr "noun list"
  | KernelRejected ustr "noun list"
  | GateDenied ustr "noun list"
  | RbacDenied ustr ustr
  | Unknown

datatype 'err poke_crash_error =
    Timeout
  | KernelPoke 'err
  | UnexpectedTag ustr "noun list"

datatype 'err poke_outcome =
    Accepted "noun list"
  | Rejected rejection_reason
  | Crashed "'err poke_crash_error"

fun outcome_head_tags :: "ne \<Rightarrow> 'err poke_outcome \<Rightarrow> ustr list" where
  "outcome_head_tags ne (Accepted effects) = effect_head_tags ne effects"
| "outcome_head_tags ne (Rejected (KernelError cord raw)) = effect_head_tags ne raw"
| "outcome_head_tags ne (Rejected (KernelRejected tag raw)) = effect_head_tags ne raw"
| "outcome_head_tags ne (Rejected (GateDenied reason raw)) = effect_head_tags ne raw"
| "outcome_head_tags ne (Rejected (RbacDenied key perm)) = []"
| "outcome_head_tags ne (Rejected Unknown) = []"
| "outcome_head_tags ne (Crashed (UnexpectedTag tag raw)) = effect_head_tags ne raw"
| "outcome_head_tags ne (Crashed Timeout) = []"
| "outcome_head_tags ne (Crashed (KernelPoke err)) = []"

definition cord_or_default :: "ustr option \<Rightarrow> ustr" where
  "cord_or_default c = (case c of None \<Rightarrow> [] | Some s \<Rightarrow> s)"

definition classify_effects :: "ne \<Rightarrow> noun list \<Rightarrow> 'err poke_outcome" where
  "classify_effects ne effects =
     (case effects of
        [] \<Rightarrow> Rejected Unknown
      | first # _ \<Rightarrow>
          (case effect_head_tag ne first of
             None \<Rightarrow> Crashed (UnexpectedTag [] effects)
           | Some tag \<Rightarrow>
               if suffix (lit ''-error'') tag
               then Rejected (KernelError (cord_or_default (decode_effect_cord ne first)) effects)
               else if suffix (lit ''-rejected'') tag then Rejected (KernelRejected tag effects)
               else if suffix (lit ''-denied'') tag
               then Rejected (GateDenied (cord_or_default (decode_effect_cord ne first)) effects)
               else Accepted effects))"


subsection \<open>Atoms and envelopes\<close>

definition ne_law :: "ne \<Rightarrow> bool" where
  "ne_law ne \<longleftrightarrow> (\<forall>a. le_value (ne a) = a)"

text \<open>The answer that carries \<open>n\<close> under \<open>k\<close> layers of \<open>[~ _]\<close>.\<close>

primrec wrap :: "nat \<Rightarrow> noun \<Rightarrow> noun" where
  "wrap 0 n = n"
| "wrap (Suc k) n = Cell (Atom 0) (wrap k n)"

lemma all_zero_value: "all_zero bs \<longleftrightarrow> le_value bs = 0"
proof (induction bs)
  case (Cons b bs)
  then show ?case by (simp add: all_zero_def unat_eq_0)
qed (simp add: all_zero_def)

lemma all_zero_ne: "ne_law ne \<Longrightarrow> all_zero (ne a) \<longleftrightarrow> a = 0"
  by (simp add: all_zero_value ne_law_def)

lemma trim_strip: "trim_trailing_zeros bs = strip_nul bs"
  by (simp add: trim_trailing_zeros_def strip_nul_def)

lemma trim_ne: "ne_law ne \<Longrightarrow> le_value bs = a \<Longrightarrow> no_trailing_nul bs \<Longrightarrow> trim_trailing_zeros (ne a) = bs"
  using le_value_minimal_inject [of "strip_nul (ne a)" bs] strip_nul_no_trailing [of "ne a"]
  by (simp add: trim_strip le_value_strip_nul ne_law_def)

lemma as_u64_Some: "as_u64 a = Some v \<longleftrightarrow> a = unat v"
  using unsigned_less [of v, where 'a = nat] by (auto simp: as_u64_def unsigned_of_nat take_bit_nat_eq_self)

lemma peel_Inr: "ne_law ne \<Longrightarrow> peel ne k n = Inr m \<longleftrightarrow> n = wrap k m"
  by (induction ne k n rule: peel.induct) (auto simp: all_zero_ne split: noun.splits)

lemma unit_slot_Inr:
  assumes "ne_law ne"
  shows "unit_slot ne n = Inr None \<longleftrightarrow> n = Atom 0" "unit_slot ne n = Inr (Some x) \<longleftrightarrow> n = Cell (Atom 0) (Atom x)"
  by (auto simp: unit_slot_def all_zero_ne [OF assms] split: noun.splits)

lemma peek_walk_wrap: "ne_law ne \<Longrightarrow> peek_walk ne (wrap k n) = peek_walk ne n"
  by (induction k) (simp_all add: all_zero_ne)

lemma list_walk_make_list: "ne_law ne \<Longrightarrow> list_walk ne decode (make_list items) = those (map decode items)"
proof -
  assume ne: "ne_law ne"
  have "list_walk ne decode (foldr (\<lambda>x. Cell x) items (Atom 0)) = those (map decode items)"
    by (induction items) (auto simp: all_zero_ne [OF ne] split: option.splits)
  then show ?thesis using foldl_Cons_noun [of "\<lambda>x. x" items] by (simp add: make_list_def)
qed

text \<open>The lenient decoders look at the shape of the envelope only, not at its heads.\<close>

lemma lenient_peek_ignores_heads:
  "unwrap_triple_unit_atom ne (Cell h1 (Cell h2 (Cell h3 (Atom a)))) = Some (trim_trailing_zeros (ne a))"
  by (simp add: unwrap_triple_unit_atom_def strip_triple_unit_envelope_def)


subsection \<open>Properties\<close>

text \<open>the strict decoder is exact: it answers "absent" for the one noun that is \<open>~\<close> under the given layers
  and "bound to \<open>v\<close>" for the one noun that is \<open>[~ v]\<close> under them, and an error for every other noun; where it
  answers, the lenient decoder gives the value, or zero for an absent one.\<close>

theorem strict_peek_exact:
  assumes "ne_law ne"
  shows "(peek_atom_u64_strict ne n k = Inr None \<longleftrightarrow> n = wrap k (Atom 0)) \<and>
    (peek_atom_u64_strict ne n k = Inr (Some v) \<longleftrightarrow> n = wrap k (Cell (Atom 0) (Atom (unat v)))) \<and>
    (case peek_atom_u64_strict ne n k of
       Inl e \<Rightarrow> True
     | Inr None \<Rightarrow> peek_atom_u64 ne n = Some 0
     | Inr (Some w) \<Rightarrow> peek_atom_u64 ne n = Some w)"
proof -
  have none: "peek_atom_u64_strict ne n k = Inr None \<longleftrightarrow> n = wrap k (Atom 0)"
    by (auto simp: peek_atom_u64_strict_def peel_Inr [OF assms] unit_slot_Inr [OF assms] split: option.splits)
  have some: "peek_atom_u64_strict ne n k = Inr (Some w) \<longleftrightarrow> n = wrap k (Cell (Atom 0) (Atom (unat w)))" for w
  proof -
    have slot: "peek_atom_u64_strict ne (wrap k (Cell (Atom 0) (Atom x))) k =
        (case as_u64 x of None \<Rightarrow> Inl ValueTooLarge | Some w \<Rightarrow> Inr (Some w))" for x
    proof -
      have "peel ne k (wrap k (Cell (Atom 0) (Atom x))) = Inr (Cell (Atom 0) (Atom x))"
        "unit_slot ne (Cell (Atom 0) (Atom x)) = Inr (Some x)"
        by (simp_all add: peel_Inr [OF assms] unit_slot_Inr [OF assms])
      then show ?thesis by (simp add: peek_atom_u64_strict_def res_bind_def)
    qed
    show ?thesis
    proof
      assume "peek_atom_u64_strict ne n k = Inr (Some w)"
      then obtain x where "n = wrap k (Cell (Atom 0) (Atom x))" "as_u64 x = Some w"
        by (auto simp: peek_atom_u64_strict_def peel_Inr [OF assms] unit_slot_Inr [OF assms] split: option.splits)
      then show "n = wrap k (Cell (Atom 0) (Atom (unat w)))" by (simp add: as_u64_Some)
    next
      assume n: "n = wrap k (Cell (Atom 0) (Atom (unat w)))"
      have "as_u64 (unat w) = Some w" by (simp add: as_u64_Some)
      then show "peek_atom_u64_strict ne n k = Inr (Some w)" by (simp add: n slot)
    qed
  qed
  have "as_u64 0 = Some 0" "as_u64 (unat w) = Some w" for w by (simp_all add: as_u64_Some)
  then show ?thesis
    using none some by (auto simp: peek_atom_u64_def peek_walk_wrap [OF assms] all_zero_ne [OF assms]
        split: sum.splits option.splits)
qed

fun demo_ne :: ne where
  "demo_ne a = (if a = 0 then [0] else word_of_nat (a mod 256) # demo_ne (a div 256))"

declare demo_ne.simps [simp del]

lemma demo_ne_law: "ne_law demo_ne"
proof -
  have "le_value (demo_ne a) = a" for a
    by (induction a rule: demo_ne.induct) (subst demo_ne.simps, simp add: unat_of_nat)
  then show ?thesis by (simp add: ne_law_def)
qed

theorem strict_peek_exact_witness:
  "peek_atom_u64_strict demo_ne (Cell (Atom 0) (Cell (Atom 0) (Cell (Atom 0) (Atom 9)))) 2 = Inr (Some 9) \<and>
   peek_atom_u64 demo_ne (Cell (Atom 0) (Cell (Atom 0) (Atom 0))) = Some 0"
proof -
  have "peek_atom_u64_strict demo_ne (wrap 2 (Cell (Atom 0) (Atom (unat (9 :: u64))))) 2 = Inr (Some 9)"
    using strict_peek_exact [OF demo_ne_law, of "wrap 2 (Cell (Atom 0) (Atom (unat (9 :: u64))))" 2 9] by blast
  moreover have "peek_atom_u64_strict demo_ne (wrap 2 (Atom 0)) 2 = Inr None"
    using strict_peek_exact [OF demo_ne_law, of "wrap 2 (Atom 0)" 2 9] by blast
  then have "peek_atom_u64 demo_ne (wrap 2 (Atom 0)) = Some 0"
    using strict_peek_exact [OF demo_ne_law, of "wrap 2 (Atom 0)" 2 9, THEN conjunct2, THEN conjunct2]
    by (simp only: sum.case option.case)
  moreover have "wrap 2 n = Cell (Atom 0) (Cell (Atom 0) n)" for n by (simp add: numeral_2_eq_2)
  moreover have "unat (9 :: u64) = 9" by simp
  ultimately show ?thesis by (simp only: simp_thms)
qed

text \<open>A list that the kernel wraps in the peek envelope is read back element by element, in order; one
  element that does not decode makes the whole answer undecodable; an absent list reads as empty.\<close>

theorem peek_list_round_trip:
  assumes "ne_law ne"
  shows "peek_unit_list ne (wrap 2 (Cell (Atom 0) (make_list items))) decode = those (map decode items) \<and>
    peek_unit_list ne (wrap 2 (Atom 0)) decode = Some []"
  by (simp add: peek_unit_list_def strip_triple_unit_envelope_def numeral_2_eq_2 list_walk_make_list [OF assms]
      all_zero_ne [OF assms])

theorem peek_list_round_trip_witness:
  "peek_unit_list demo_ne (wrap 2 (Cell (Atom 0) (make_list [Atom 1, Atom 2]))) (\<lambda>n. case n of Atom a \<Rightarrow> Some a | _ \<Rightarrow> None) =
    Some [1, 2]"
  using peek_list_round_trip [OF demo_ne_law, of "[Atom 1, Atom 2]" "\<lambda>n. case n of Atom a \<Rightarrow> Some a | _ \<Rightarrow> None"] by simp

text \<open>a poke is accepted exactly when the kernel answered and the first effect has a head tag without one of
  the three refusal suffixes; whatever the verdict, no effect is lost.\<close>

theorem classify_effects_exact:
  "(classify_effects ne effects = Accepted out \<longleftrightarrow> out = effects \<and> effects \<noteq> [] \<and>
      (\<exists>tag. effect_head_tag ne (hd effects) = Some tag \<and> \<not> suffix (lit ''-error'') tag \<and>
        \<not> suffix (lit ''-rejected'') tag \<and> \<not> suffix (lit ''-denied'') tag)) \<and>
    outcome_head_tags ne (classify_effects ne effects) = effect_head_tags ne effects"
  by (cases effects) (auto simp: classify_effects_def effect_head_tags_def List.map_filter_simps split: option.splits)

end
