(* ===== verification/Wallet.thy ===== *)
theory Wallet
  imports ChainSign
begin

text \<open>
  Hierarchical key derivation: \<^verbatim>\<open>crates/vesl-wallet\<close> (\<^verbatim>\<open>hd.rs\<close>, \<^verbatim>\<open>wallet.rs\<close>, \<^verbatim>\<open>error.rs\<close>), the path constants of
  \<^verbatim>\<open>crates/vesl-wallet-spec\<close>, and \<open>key_from_seed_phrase\<close> of \<^verbatim>\<open>crates/vesl-core/src/signing.rs\<close>.  HMAC-SHA512
  and the BIP-39 mnemonic parser are parameters.  A derivation rehashes until it finds a valid key, so its
  result is \<open>None\<close> when it never returns.
\<close>

subsection \<open>Paths and errors\<close>

definition BIP44_PURPOSE :: u32 where "BIP44_PURPOSE = 44"

definition ROLE_INTENT :: u32 where "ROLE_INTENT = 0"
definition ROLE_RECEIVING :: u32 where "ROLE_RECEIVING = 1"
definition ROLE_ENCRYPTION :: u32 where "ROLE_ENCRYPTION = 2"
definition ROLE_SESSION :: u32 where "ROLE_SESSION = 3"
definition ROLE_X402 :: u32 where "ROLE_X402 = 4"
definition ROLE_VOID :: u32 where "ROLE_VOID = 5"
definition ROLE_WITHDRAWAL :: u32 where "ROLE_WITHDRAWAL = 6"
definition ROLE_SLASH :: u32 where "ROLE_SLASH = 7"

definition VESL_COIN_TYPE_PLACEHOLDER :: u32 where "VESL_COIN_TYPE_PLACEHOLDER = 0x7E51C0DE"

record derivation_path =
  coin_type :: u32
  account :: u32
  role :: u32
  path_index :: u32

definition path_new :: "u32 \<Rightarrow> u32 \<Rightarrow> u32 \<Rightarrow> u32 \<Rightarrow> derivation_path" where
  "path_new c a r i = \<lparr>coin_type = c, account = a, role = r, path_index = i\<rparr>"

datatype wallet_error =
    WalletMnemonic ustr
  | InvalidScalar
  | NonBip44Purpose u32
  | IndexOverflow u32
  | ScalarTooWide
  | WalletSigning schnorr_error

record ext_key =
  ek_scalar :: scalar
  chain_code :: bytes


subsection \<open>Derivation\<close>

type_synonym mac = "bytes \<Rightarrow> bytes \<Rightarrow> bytes"

definition DOMAIN_SEPARATOR :: bytes where
  "DOMAIN_SEPARATOR = utf8 (lit ''Nockchain seed'')"

definition TAG_HARDENED :: u8 where "TAG_HARDENED = 0"
definition TAG_RETRY :: u8 where "TAG_RETRY = 1"

definition split_digest :: "bytes \<Rightarrow> scalar \<times> bytes" where
  "split_digest digest = (scalar_from_be_bytes (take 32 digest), drop 32 digest)"

text \<open>The two loops: take the key of the first digest that has one.\<close>

partial_function (option) rehash :: "(bytes \<Rightarrow> 'k option) \<Rightarrow> (bytes \<Rightarrow> bytes) \<Rightarrow> bytes \<Rightarrow> 'k option" where
  "rehash accept nxt d = (case accept d of Some k \<Rightarrow> Some k | None \<Rightarrow> rehash accept nxt (nxt d))"

definition master_key :: "bytes \<Rightarrow> ext_key option" where
  "master_key digest =
     (let (left, cc) = split_digest digest
      in if left < SCALAR_G_ORDER \<and> \<not> scalar_is_zero left then Some \<lparr>ek_scalar = left, chain_code = cc\<rparr> else None)"

definition master_from_seed :: "mac \<Rightarrow> bytes \<Rightarrow> ext_key option" where
  "master_from_seed hmac seed = rehash master_key (hmac DOMAIN_SEPARATOR) (hmac DOMAIN_SEPARATOR seed)"

definition child_key :: "ext_key \<Rightarrow> bytes \<Rightarrow> ext_key option" where
  "child_key parent digest =
     (let (left, cc) = split_digest digest
      in if left < SCALAR_G_ORDER
         then let s = add_mod_order left (ek_scalar parent)
              in if \<not> scalar_is_zero s then Some \<lparr>ek_scalar = s, chain_code = cc\<rparr> else None
         else None)"

definition retry_data :: "u32 \<Rightarrow> bytes \<Rightarrow> bytes" where
  "retry_data wire_index digest = TAG_RETRY # snd (split_digest digest) @ to_be_bytes wire_index"

definition ckd :: "mac \<Rightarrow> ext_key \<Rightarrow> u32 \<Rightarrow> bytes \<Rightarrow> ext_key option" where
  "ckd hmac parent wire_index bs =
     rehash (child_key parent) (\<lambda>digest. hmac (chain_code parent) (retry_data wire_index digest))
       (hmac (chain_code parent) bs)"

type_synonym 'a wallet_result = "(wallet_error, 'a) outcome option"

definition run_bind :: "'a wallet_result \<Rightarrow> ('a \<Rightarrow> 'b wallet_result) \<Rightarrow> 'b wallet_result" where
  "run_bind m f =
     (case m of None \<Rightarrow> None | Some (Ok x) \<Rightarrow> f x | Some (Err e) \<Rightarrow> Some (Err e) | Some Panic \<Rightarrow> Some Panic)"

primrec lift_signing :: "(schnorr_error, 'a) outcome \<Rightarrow> (wallet_error, 'a) outcome" where
  "lift_signing (Ok x) = Ok x"
| "lift_signing (Err e) = Err (WalletSigning e)"
| "lift_signing Panic = Panic"

definition hardened_data :: "ext_key \<Rightarrow> u32 \<Rightarrow> bytes" where
  "hardened_data parent wire_index = TAG_HARDENED # scalar_to_be_bytes (ek_scalar parent) @ to_be_bytes wire_index"

definition ckd_hardened :: "mac \<Rightarrow> ext_key \<Rightarrow> u32 \<Rightarrow> ext_key wallet_result" where
  "ckd_hardened hmac parent index =
     (if 2 ^ 31 \<le> index then Some (Err (IndexOverflow index))
      else let wire_index = or index (2 ^ 31)
           in map_option Ok (ckd hmac parent wire_index (hardened_data parent wire_index)))"

definition ser_a_pt :: "cheetah_point \<Rightarrow> bytes" where
  "ser_a_pt p = TAG_RETRY # concat (map to_be_bytes (rev (f6_coeffs (py p)) @ rev (f6_coeffs (px p))))"

definition serialize_point :: "cheetah_point \<Rightarrow> bytes" where
  "serialize_point p =
     concat (map to_le_bytes (f6_coeffs (px p))) @ concat (map to_le_bytes (f6_coeffs (py p))) @ [if inf p then 1 else 0]"

definition ext_private_key :: "ext_key \<Rightarrow> (wallet_error, private_key) outcome" where
  "ext_private_key k = sum_outcome WalletSigning (private_key_new (ek_scalar k))"

definition normal_data :: "cheetah_point \<Rightarrow> u32 \<Rightarrow> bytes" where
  "normal_data pk index = ser_a_pt pk @ to_be_bytes index"

definition ckd_non_hardened :: "mac \<Rightarrow> ext_key \<Rightarrow> u32 \<Rightarrow> ext_key wallet_result" where
  "ckd_non_hardened hmac parent index =
     (if 2 ^ 31 \<le> index then Some (Err (IndexOverflow index))
      else run_bind (Some (and_then (ext_private_key parent) (\<lambda>k. lift_signing (public_key k))))
             (\<lambda>pk. map_option Ok (ckd hmac parent index (normal_data pk index))))"


subsection \<open>The wallet\<close>

record derived_key =
  dk_private :: private_key
  dk_path :: derivation_path

record vesl_wallet =
  master :: ext_key
  wallet_coin_type :: u32

definition wallet_from_seed :: "mac \<Rightarrow> bytes \<Rightarrow> u32 \<Rightarrow> vesl_wallet wallet_result" where
  "wallet_from_seed hmac seed c =
     map_option (\<lambda>m. Ok \<lparr>master = m, wallet_coin_type = c\<rparr>) (master_from_seed hmac seed)"

text \<open>The mnemonic parser and its seed function: an error text, or the seed for a passphrase.\<close>

definition wallet_from_seed_phrase ::
  "mac \<Rightarrow> (ustr \<Rightarrow> ustr + (ustr \<Rightarrow> bytes)) \<Rightarrow> ustr \<Rightarrow> ustr \<Rightarrow> u32 \<Rightarrow> vesl_wallet wallet_result" where
  "wallet_from_seed_phrase hmac bip39 phrase passphrase c =
     (case bip39 phrase of
        Inl msg \<Rightarrow> Some (Err (WalletMnemonic msg))
      | Inr to_seed \<Rightarrow> wallet_from_seed hmac (to_seed passphrase) c)"

definition derive :: "mac \<Rightarrow> vesl_wallet \<Rightarrow> derivation_path \<Rightarrow> derived_key wallet_result" where
  "derive hmac w path =
     (if coin_type path \<noteq> wallet_coin_type w then Some (Err (NonBip44Purpose (coin_type path)))
      else
        run_bind (ckd_hardened hmac (master w) BIP44_PURPOSE) (\<lambda>l1.
        run_bind (ckd_hardened hmac l1 (coin_type path)) (\<lambda>l2.
        run_bind (ckd_hardened hmac l2 (account path)) (\<lambda>l3.
        run_bind (ckd_non_hardened hmac l3 (role path)) (\<lambda>l4.
        run_bind (ckd_non_hardened hmac l4 (path_index path)) (\<lambda>l5.
          Some (and_then (ext_private_key l5) (\<lambda>k. Ok \<lparr>dk_private = k, dk_path = path\<rparr>))))))))"

definition role_signer :: "mac \<Rightarrow> vesl_wallet \<Rightarrow> u32 \<Rightarrow> u32 \<Rightarrow> u32 \<Rightarrow> private_key wallet_result" where
  "role_signer hmac w r a i =
     run_bind (derive hmac w (path_new (wallet_coin_type w) a r i)) (\<lambda>d. Some (Ok (dk_private d)))"

definition intent_signer :: "mac \<Rightarrow> vesl_wallet \<Rightarrow> u32 \<Rightarrow> u32 \<Rightarrow> private_key wallet_result" where
  "intent_signer hmac w a i = role_signer hmac w ROLE_INTENT a i"

definition payment_signer :: "mac \<Rightarrow> vesl_wallet \<Rightarrow> u32 \<Rightarrow> u32 \<Rightarrow> private_key wallet_result" where
  "payment_signer hmac w a i = role_signer hmac w ROLE_X402 a i"

definition void_signer :: "mac \<Rightarrow> vesl_wallet \<Rightarrow> u32 \<Rightarrow> u32 \<Rightarrow> private_key wallet_result" where
  "void_signer hmac w a i = role_signer hmac w ROLE_VOID a i"

definition withdrawal_signer :: "mac \<Rightarrow> vesl_wallet \<Rightarrow> u32 \<Rightarrow> u32 \<Rightarrow> private_key wallet_result" where
  "withdrawal_signer hmac w a i = role_signer hmac w ROLE_WITHDRAWAL a i"

definition slash_signer :: "mac \<Rightarrow> vesl_wallet \<Rightarrow> u32 \<Rightarrow> u32 \<Rightarrow> private_key wallet_result" where
  "slash_signer hmac w a i = role_signer hmac w ROLE_SLASH a i"

definition derive_session :: "mac \<Rightarrow> vesl_wallet \<Rightarrow> u32 \<Rightarrow> u32 \<Rightarrow> derived_key wallet_result" where
  "derive_session hmac w a i = derive hmac w (path_new (wallet_coin_type w) a ROLE_SESSION i)"

definition sign_intent :: "mac \<Rightarrow> vesl_wallet \<Rightarrow> u32 \<Rightarrow> u64 list \<Rightarrow> schnorr_sig wallet_result" where
  "sign_intent hmac w a message =
     run_bind (intent_signer hmac w a 0) (\<lambda>k. Some (lift_signing (schnorr_sign k message)))"

definition receiving_pubkey :: "mac \<Rightarrow> vesl_wallet \<Rightarrow> u32 \<Rightarrow> cheetah_point wallet_result" where
  "receiving_pubkey hmac w a =
     run_bind (derive hmac w (path_new (wallet_coin_type w) a ROLE_RECEIVING 0))
       (\<lambda>d. Some (lift_signing (public_key (dk_private d))))"

definition ADDRESS_SUBDOMAIN :: bytes where
  "ADDRESS_SUBDOMAIN = utf8 (lit ''vesl-hd:address'') @ [0]"

definition receiving_fingerprint :: "mac \<Rightarrow> vesl_wallet \<Rightarrow> u32 \<Rightarrow> u64 list wallet_result" where
  "receiving_fingerprint hmac w a =
     run_bind (receiving_pubkey hmac w a) (\<lambda>pk.
       Some (case tip5_with_domain VESL_HD (ADDRESS_SUBDOMAIN @ serialize_point pk) of None \<Rightarrow> Panic | Some d \<Rightarrow> Ok d))"


subsection \<open>The signing shim\<close>

primrec of_wallet_error :: "wallet_error \<Rightarrow> signing_error" where
  "of_wallet_error (WalletMnemonic msg) = InvalidMnemonic msg"
| "of_wallet_error InvalidScalar = DerivationFailure"
| "of_wallet_error (NonBip44Purpose c) = DerivationFailure"
| "of_wallet_error (IndexOverflow i) = DerivationFailure"
| "of_wallet_error ScalarTooWide = DerivationFailure"
| "of_wallet_error (WalletSigning e) = of_schnorr_error e"

primrec lift_wallet :: "(wallet_error, 'a) outcome \<Rightarrow> (signing_error, 'a) outcome" where
  "lift_wallet (Ok x) = Ok x"
| "lift_wallet (Err e) = Err (of_wallet_error e)"
| "lift_wallet Panic = Panic"

definition key_from_seed_phrase ::
  "mac \<Rightarrow> (ustr \<Rightarrow> ustr + (ustr \<Rightarrow> bytes)) \<Rightarrow> ustr \<Rightarrow> (signing_error, u64 list) outcome option" where
  "key_from_seed_phrase hmac bip39 phrase =
     map_option (\<lambda>r. lift_wallet (and_then r (\<lambda>k. Ok (vesl_belts8_to_nock (private_key_to_belts k)))))
       (run_bind (wallet_from_seed_phrase hmac bip39 phrase [] VESL_COIN_TYPE_PLACEHOLDER)
          (\<lambda>w. intent_signer hmac w 0 0))"


subsection \<open>The loops\<close>

lemma rehash_Some:
  "rehash accept nxt d = Some k \<longleftrightarrow>
    (\<exists>n. accept ((nxt ^^ n) d) = Some k \<and> (\<forall>m<n. accept ((nxt ^^ m) d) = None))"
proof
  assume r: "rehash accept nxt d = Some k"
  show "\<exists>n. accept ((nxt ^^ n) d) = Some k \<and> (\<forall>m<n. accept ((nxt ^^ m) d) = None)"
  proof (rule rehash.raw_induct [where P = "\<lambda>accept nxt d k.
      \<exists>n. accept ((nxt ^^ n) d) = Some k \<and> (\<forall>m<n. accept ((nxt ^^ m) d) = None)", OF _ r], goal_cases)
    case (1 loop accept nxt d k)
    show ?case
    proof (cases "accept d")
      case None
      with 1(1) [of accept nxt "nxt d" k] 1(2) obtain n where n: "accept ((nxt ^^ n) (nxt d)) = Some k" "\<forall>m<n. accept ((nxt ^^ m) (nxt d)) = None"
        by (auto split: option.splits)
      have "accept ((nxt ^^ m) d) = None" if "m < Suc n" for m
        using that None n(2) by (cases m) (simp_all add: funpow_swap1)
      with n(1) show ?thesis by (intro exI [of _ "Suc n"]) (simp add: funpow_swap1)
    next
      case (Some k')
      with 1 show ?thesis by (intro exI [of _ 0]) simp
    qed
  qed
next
  assume "\<exists>n. accept ((nxt ^^ n) d) = Some k \<and> (\<forall>m<n. accept ((nxt ^^ m) d) = None)"
  then obtain n where "accept ((nxt ^^ n) d) = Some k" "\<forall>m<n. accept ((nxt ^^ m) d) = None" by blast
  then show "rehash accept nxt d = Some k"
  proof (induction n arbitrary: d)
    case 0
    then show ?case by (subst rehash.simps) simp
  next
    case (Suc n)
    have "accept d = None" using Suc.prems(2) by (metis funpow_0 zero_less_Suc)
    moreover have "rehash accept nxt (nxt d) = Some k"
      using Suc.prems by (intro Suc.IH) (auto simp: funpow_swap1)
    ultimately show ?case by (subst rehash.simps) simp
  qed
qed


subsection \<open>Derived keys are valid\<close>

definition valid_ext :: "ext_key \<Rightarrow> bool" where
  "valid_ext k \<longleftrightarrow> wf_scalar (ek_scalar k) \<and> 0 < to_ubig (ek_scalar k) \<and> to_ubig (ek_scalar k) < G_ORDER"

lemma wf_scalar_from_be_bytes: "wf_scalar (scalar_from_be_bytes bs)"
  by (simp add: wf_scalar_def scalar_from_be_bytes_def)

lemma master_key_valid: "master_key d = Some k \<Longrightarrow> valid_ext k"
  using wf_scalar_from_be_bytes [of "take 32 d"]
  by (auto simp: master_key_def split_digest_def valid_ext_def less_G_ORDER scalar_is_zero_value split: if_splits)

lemma child_key_valid: "child_key p d = Some k \<Longrightarrow> valid_ext k"
proof -
  assume k: "child_key p d = Some k"
  have "wf_scalar (add_mod_order a b)" "to_ubig (add_mod_order a b) < G_ORDER" for a b
    by (simp add: add_mod_order_def) (simp add: add_mod_order_value G_ORDER_def)
  with k show ?thesis
    by (auto simp: child_key_def split_digest_def valid_ext_def Let_def scalar_is_zero_value split: if_splits)
qed

lemma ckd_valid: "ckd hmac p i bs = Some k \<Longrightarrow> valid_ext k"
  using child_key_valid by (auto simp: ckd_def rehash_Some)

lemma master_valid: "master_from_seed hmac seed = Some k \<Longrightarrow> valid_ext k"
  using master_key_valid by (auto simp: master_from_seed_def rehash_Some)

lemma ext_private_key_valid:
  "valid_ext k \<Longrightarrow> ext_private_key k = Ok (SchnorrPrivateKey (to_ubig (ek_scalar k)))"
  by (simp add: ext_private_key_def valid_ext_def private_key_new_range sum_outcome_def)

lemma public_key_total: "\<exists>p. public_key sk = Ok p"
  using gen_mul_total [of "key_scalar sk"] by (auto simp: public_key_def)

text \<open>What a step of a path can answer.\<close>

definition step_ok :: "u32 \<Rightarrow> ext_key wallet_result \<Rightarrow> bool" where
  "step_ok i r \<longleftrightarrow>
     (case r of
        None \<Rightarrow> True
      | Some (Ok k) \<Rightarrow> i < 2 ^ 31 \<and> valid_ext k
      | Some (Err e) \<Rightarrow> 2 ^ 31 \<le> i \<and> e = IndexOverflow i
      | Some Panic \<Rightarrow> False)"

lemma ckd_hardened_ok: "step_ok i (ckd_hardened hmac p i)"
  using ckd_valid by (auto simp: step_ok_def ckd_hardened_def Let_def not_le split: option.splits)

lemma ckd_non_hardened_ok: "valid_ext p \<Longrightarrow> step_ok i (ckd_non_hardened hmac p i)"
proof -
  assume p: "valid_ext p"
  obtain pk where "public_key (SchnorrPrivateKey (to_ubig (ek_scalar p))) = Ok pk" using public_key_total by blast
  then show ?thesis using ckd_valid
    by (auto simp: step_ok_def ckd_non_hardened_def ext_private_key_valid [OF p] run_bind_def not_le split: option.splits)
qed

lemma step_bind:
  assumes "step_ok i r" "\<And>k. valid_ext k \<Longrightarrow> i < 2 ^ 31 \<Longrightarrow> r = Some (Ok k) \<Longrightarrow> Q (f k)"
    and "Q None" "2 ^ 31 \<le> i \<Longrightarrow> Q (Some (Err (IndexOverflow i)))"
  shows "Q (run_bind r f)"
  using assms by (auto simp: step_ok_def run_bind_def split: option.splits outcome.splits)


subsection \<open>Transcripts\<close>

lemma length_to_be_bytes_u64 [simp]: "length (to_be_bytes (w :: u64)) = 8"
  by (simp add: to_be_bytes_def codec)

lemma to_be_bytes_inject: "to_be_bytes v = to_be_bytes w \<longleftrightarrow> v = w" for v w :: u32
proof -
  have "from_be_bytes (to_be_bytes x) = x" for x :: u32 by (simp add: codec)
  then show ?thesis by metis
qed

lemma to_be_bytes_u64_inject: "to_be_bytes v = to_be_bytes w \<longleftrightarrow> v = w" for v w :: u64
proof -
  have "from_be_bytes (to_be_bytes x) = x" for x :: u64 by (simp add: codec)
  then show ?thesis by metis
qed

lemma concat_be_inject:
  "length xs = length ys \<Longrightarrow> concat (map to_be_bytes xs) = concat (map to_be_bytes ys) \<longleftrightarrow> xs = (ys :: u64 list)"
  by (induction xs ys rule: list_induct2) (simp_all add: to_be_bytes_u64_inject)

lemma length_concat_be: "length (concat (map to_be_bytes (xs :: u64 list))) = 8 * length xs"
  by (induction xs) simp_all

lemma f6_coeffs_inject: "f6_coeffs f = f6_coeffs g \<longleftrightarrow> f = g"
  by (cases f; cases g) simp

lemma ser_a_pt_inject: "ser_a_pt p = ser_a_pt q \<longleftrightarrow> px p = px q \<and> py p = py q"
  by (auto simp: ser_a_pt_def concat_be_inject f6_coeffs_inject simp del: map_append rev_append)

lemma length_ser_a_pt: "length (ser_a_pt p) = 97"
  by (simp add: ser_a_pt_def length_concat_be del: map_append concat_append)

lemma scalar_be_inject: "wf_scalar s \<Longrightarrow> wf_scalar t \<Longrightarrow> scalar_to_be_bytes s = scalar_to_be_bytes t \<longleftrightarrow> s = t"
  by (metis scalar_be_round_trip)

lemma length_scalar_be: "wf_scalar s \<Longrightarrow> length (scalar_to_be_bytes s) = 32"
  using scalar_to_be_bytes_value by blast

lemma length_to_be_bytes_u32 [simp]: "length (to_be_bytes (w :: u32)) = 4"
  by (simp add: to_be_bytes_def codec)

lemma hardened_wire_inject:
  assumes "i < 2 ^ 31" "j < 2 ^ 31"
  shows "or i (2 ^ 31) = or j (2 ^ 31) \<longleftrightarrow> i = (j :: u32)"
proof -
  have "take_bit 31 (or x (2 ^ 31)) = x" if "x < 2 ^ 31" for x :: u32
  proof -
    have "unat x < 2 ^ 31" using that by (simp add: word_less_nat_alt)
    then have "take_bit 31 x = x" by (simp add: word_unat_eq_iff unsigned_take_bit_eq take_bit_nat_eq_self)
    then show ?thesis by (simp add: take_bit_or)
  qed
  with assms show ?thesis by metis
qed


subsection \<open>The keys of a path\<close>

text \<open>
  What a path stands for, over numbers and apart from the code: a node is a secret number and a chain code; a child is made
  of the first usable digest of its chain of rehashes, whose left half is added to the secret modulo the order.  A hardened
  child hashes the secret and the index with its top bit set, a normal child the coordinates of the public point and the
  index; all numbers are big endian.
\<close>

type_synonym node = "nat \<times> bytes"

definition be_num :: "bytes \<Rightarrow> nat" where
  "be_num bs = le_value (rev bs)"

definition be_digits :: "nat \<Rightarrow> nat \<Rightarrow> bytes" where
  "be_digits k n = rev (le_digits k n)"

inductive transcript :: "bool \<Rightarrow> nat \<Rightarrow> nat \<Rightarrow> bytes \<Rightarrow> bool" where
  hardened: "transcript True i k (0 # be_digits 32 k @ be_digits 4 (2 ^ 31 + i))"
| normal: "public_key (SchnorrPrivateKey k) = Ok pk \<Longrightarrow>
    transcript False i k (1 # concat (map to_be_bytes (rev (f6_coeffs (py pk)) @ rev (f6_coeffs (px pk)))) @ be_digits 4 i)"

definition attempt :: "mac \<Rightarrow> bool \<Rightarrow> nat \<Rightarrow> bytes \<Rightarrow> bytes \<Rightarrow> nat \<Rightarrow> bytes" where
  "attempt hmac hard i cc bs n =
     ((\<lambda>d. hmac cc (1 # drop 32 d @ be_digits 4 ((if hard then 2 ^ 31 else 0) + i))) ^^ n) (hmac cc bs)"

definition usable :: "nat \<Rightarrow> bytes \<Rightarrow> bool" where
  "usable k d \<longleftrightarrow> be_num (take 32 d) < G_ORDER \<and> (be_num (take 32 d) + k) mod G_ORDER \<noteq> 0"

inductive child :: "mac \<Rightarrow> bool \<Rightarrow> nat \<Rightarrow> node \<Rightarrow> node \<Rightarrow> bool" where
  "transcript hard i k bs \<Longrightarrow> usable k (attempt hmac hard i cc bs n) \<Longrightarrow> \<forall>m<n. \<not> usable k (attempt hmac hard i cc bs m) \<Longrightarrow>
   child hmac hard i (k, cc)
     ((be_num (take 32 (attempt hmac hard i cc bs n)) + k) mod G_ORDER, drop 32 (attempt hmac hard i cc bs n))"

inductive descends :: "mac \<Rightarrow> (bool \<times> nat) list \<Rightarrow> node \<Rightarrow> node \<Rightarrow> bool" where
  here: "descends hmac [] x x"
| step: "i < 2 ^ 31 \<Longrightarrow> child hmac hard i x y \<Longrightarrow> descends hmac path y z \<Longrightarrow> descends hmac ((hard, i) # path) x z"

inductive_simps child_pair: "child hmac hard i (k, cc) y"
inductive_simps descends_simps: "descends hmac [] x y" "descends hmac ((hard, i) # path) x z"
inductive_simps transcript_simps: "transcript True i k bs" "transcript False i k bs"

lemma descends_Nil [simp]: "descends hmac [] x y \<longleftrightarrow> y = x"
  by (subst descends_simps) blast

lemma descends_Cons [simp]:
  "descends hmac ((hard, i) # path) x z \<longleftrightarrow> i < 2 ^ 31 \<and> (\<exists>y. child hmac hard i x y \<and> descends hmac path y z)"
  by (subst descends_simps) auto

lemma be_digits_word: "to_be_bytes (w :: u32) = be_digits 4 (unat w)" "to_be_bytes (v :: u64) = be_digits 8 (unat v)"
  by (simp_all add: to_be_bytes_def to_le_bytes_def be_digits_def)

lemma scalar_be_digits: "wf_scalar s \<Longrightarrow> scalar_to_be_bytes s = be_digits 32 (to_ubig s)"
  using scalar_to_be_bytes_value [of s] le_digits_le_value [of "rev (scalar_to_be_bytes s)"]
  by (simp add: be_digits_def)

lemma be_num_digits: "length bs = 32 \<Longrightarrow> be_digits 32 (be_num bs) = bs"
  using le_digits_le_value [of "rev bs"] by (simp add: be_digits_def be_num_def)

lemma scalar_from_be_value:
  assumes "length bs = 32" shows "to_ubig (scalar_from_be_bytes bs) = be_num bs"
proof -
  have n: "be_num bs < 2 ^ 256" using le_value_bound [of "rev bs"] assms by (simp add: be_num_def)
  then have "scalar_to_be_bytes (from_ubig (be_num bs)) = bs"
    using scalar_be_digits [OF wf_from_ubig] be_num_digits [OF assms] by (simp add: to_ubig_from_ubig)
  then have "scalar_from_be_bytes bs = from_ubig (be_num bs)" using scalar_be_round_trip [OF wf_from_ubig, of "be_num bs"] by simp
  then show ?thesis using n by (simp add: to_ubig_from_ubig)
qed

definition node_of :: "ext_key \<Rightarrow> node" where
  "node_of k = (to_ubig (ek_scalar k), chain_code k)"

lemma child_key_node:
  assumes "valid_ext p" "length d = 64"
  shows "child_key p d = (if usable (to_ubig (ek_scalar p)) d
    then Some \<lparr>ek_scalar = from_ubig ((be_num (take 32 d) + to_ubig (ek_scalar p)) mod G_ORDER), chain_code = drop 32 d\<rparr> else None)"
proof -
  let ?l = "scalar_from_be_bytes (take 32 d)"
  have l: "to_ubig ?l = be_num (take 32 d)" "wf_scalar ?l" using assms(2) by (simp_all add: scalar_from_be_value wf_scalar_from_be_bytes)
  have s: "to_ubig (add_mod_order ?l (ek_scalar p)) = (be_num (take 32 d) + to_ubig (ek_scalar p)) mod G_ORDER"
    by (simp add: add_mod_order_value l)
  have w: "wf_scalar (add_mod_order ?l (ek_scalar p))" by (simp add: add_mod_order_def)
  then have "add_mod_order ?l (ek_scalar p) = from_ubig ((be_num (take 32 d) + to_ubig (ek_scalar p)) mod G_ORDER)"
    using from_ubig_to_ubig [OF w] s by simp
  then show ?thesis
    using l w s by (simp add: child_key_def split_digest_def Let_def less_G_ORDER scalar_is_zero_value usable_def)
qed

definition hmac_law :: "mac \<Rightarrow> bool" where
  "hmac_law hmac \<longleftrightarrow> (\<forall>k bs. length (hmac k bs) = 64)"

lemma ckd_node:
  assumes "hmac_law hmac" "valid_ext p" "unat w = (if hard then 2 ^ 31 else 0) + i"
  shows "ckd hmac p w bs = Some k \<longleftrightarrow>
    (\<exists>n. usable (to_ubig (ek_scalar p)) (attempt hmac hard i (chain_code p) bs n) \<and>
       (\<forall>m<n. \<not> usable (to_ubig (ek_scalar p)) (attempt hmac hard i (chain_code p) bs m)) \<and>
       k = \<lparr>ek_scalar = from_ubig ((be_num (take 32 (attempt hmac hard i (chain_code p) bs n)) + to_ubig (ek_scalar p)) mod G_ORDER),
            chain_code = drop 32 (attempt hmac hard i (chain_code p) bs n)\<rparr>)"
proof -
  have retry: "retry_data w d = 1 # drop 32 d @ be_digits 4 ((if hard then 2 ^ 31 else 0) + i)" for d
    by (simp add: retry_data_def split_digest_def be_digits_word TAG_RETRY_def assms(3))
  have "length (attempt hmac hard i (chain_code p) bs n) = 64" for n
    using assms(1) by (cases n) (simp_all add: attempt_def hmac_law_def)
  note key = child_key_node [OF assms(2) this]
  have "((\<lambda>d. hmac (chain_code p) (retry_data w d)) ^^ n) (hmac (chain_code p) bs) = attempt hmac hard i (chain_code p) bs n" for n
    by (simp add: attempt_def retry)
  then show ?thesis unfolding ckd_def rehash_Some by (auto simp: key split: if_splits)
qed

lemma ckd_child:
  assumes "hmac_law hmac" "valid_ext p" "unat w = (if hard then 2 ^ 31 else 0) + i"
    and "\<And>bs'. transcript hard i (to_ubig (ek_scalar p)) bs' \<longleftrightarrow> bs' = bs"
  shows "(\<exists>k. ckd hmac p w bs = Some k \<and> node_of k = y) \<longleftrightarrow> child hmac hard i (node_of p) y"
proof -
  have "0 < G_ORDER" by (simp add: G_ORDER_def)
  then have node: "node_of \<lparr>ek_scalar = from_ubig (v mod G_ORDER), chain_code = c\<rparr> = (v mod G_ORDER, c)" for v c
    by (simp add: node_of_def)
  have "(\<exists>k. ckd hmac p w bs = Some k \<and> node_of k = y) \<longleftrightarrow>
    (\<exists>n. usable (to_ubig (ek_scalar p)) (attempt hmac hard i (chain_code p) bs n) \<and>
       (\<forall>m<n. \<not> usable (to_ubig (ek_scalar p)) (attempt hmac hard i (chain_code p) bs m)) \<and>
       y = ((be_num (take 32 (attempt hmac hard i (chain_code p) bs n)) + to_ubig (ek_scalar p)) mod G_ORDER,
            drop 32 (attempt hmac hard i (chain_code p) bs n)))"
    unfolding ckd_node [OF assms(1-3)] using node by metis
  also have "\<dots> \<longleftrightarrow> child hmac hard i (node_of p) y"
    unfolding node_of_def child_pair assms(4) by blast
  finally show ?thesis .
qed

lemma hardened_wire_value:
  "i < 2 ^ 31 \<Longrightarrow> unat (or i (2 ^ 31)) = (if True then 2 ^ 31 else 0) + unat (i :: u32)"
proof -
  assume "i < 2 ^ 31"
  then have "unat i < 2 ^ 31" by (simp add: word_less_nat_alt)
  then have "take_bit 31 i = i" by (simp add: word_unat_eq_iff unsigned_take_bit_eq take_bit_nat_eq_self)
  then have "\<not> bit i 31" by (metis bit_take_bit_iff less_irrefl)
  then have "and i (2 ^ 31) = 0" by (metis and_exp_eq_0_iff_not_bit)
  then have "or i (2 ^ 31) = i + 2 ^ 31" by (simp add: disjunctive_add_eq_or)
  with \<open>unat i < 2 ^ 31\<close> show ?thesis by (simp add: unat_word_ariths)
qed

lemma hardened_child:
  assumes "hmac_law hmac" "valid_ext p"
  shows "(\<exists>k. ckd_hardened hmac p i = Some (Ok k) \<and> node_of k = y) \<longleftrightarrow> unat i < 2 ^ 31 \<and> child hmac True (unat i) (node_of p) y"
proof (cases "i < 2 ^ 31")
  case True
  have i: "unat i < 2 ^ 31" using True by (simp add: word_less_nat_alt)
  have w: "unat (or i (2 ^ 31)) = (if True then 2 ^ 31 else 0) + unat i" by (rule hardened_wire_value [OF True])
  have "transcript True (unat i) (to_ubig (ek_scalar p)) bs \<longleftrightarrow> bs = hardened_data p (or i (2 ^ 31))" for bs
    using assms(2) w by (simp add: transcript_simps hardened_data_def scalar_be_digits valid_ext_def be_digits_word TAG_HARDENED_def)
  from ckd_child [OF assms w this] show ?thesis using i True by (auto simp: ckd_hardened_def Let_def)
qed (auto simp: ckd_hardened_def word_less_nat_alt word_le_nat_alt)

lemma normal_child:
  assumes "hmac_law hmac" "valid_ext p"
  shows "(\<exists>k. ckd_non_hardened hmac p i = Some (Ok k) \<and> node_of k = y) \<longleftrightarrow> unat i < 2 ^ 31 \<and> child hmac False (unat i) (node_of p) y"
proof (cases "i < 2 ^ 31")
  case True
  have i: "unat i < 2 ^ 31" using True by (simp add: word_less_nat_alt)
  obtain pk where pk: "public_key (SchnorrPrivateKey (to_ubig (ek_scalar p))) = Ok pk" using public_key_total by blast
  have "transcript False (unat i) (to_ubig (ek_scalar p)) bs \<longleftrightarrow> bs = normal_data pk i" for bs
    by (auto simp: transcript_simps normal_data_def ser_a_pt_def be_digits_word TAG_RETRY_def pk)
  from ckd_child [OF assms _ this, of i y] show ?thesis
    using i True by (auto simp: ckd_non_hardened_def run_bind_def ext_private_key_valid [OF assms(2)] pk)
qed (auto simp: ckd_non_hardened_def word_less_nat_alt word_le_nat_alt)


text \<open>One step of a derivation, and the rest of the path after it.\<close>

lemma step_descends:
  assumes "\<And>y. (\<exists>k. r = Some (Ok k) \<and> node_of k = y) \<longleftrightarrow> unat i < 2 ^ 31 \<and> child hmac hard (unat i) x y"
    and "step_ok i r" and "\<And>k. valid_ext k \<Longrightarrow> (\<exists>d. f k = Some (Ok d) \<and> Q d) \<longleftrightarrow> R (node_of k)"
  shows "(\<exists>d. run_bind r f = Some (Ok d) \<and> Q d) \<longleftrightarrow> (\<exists>y. unat i < 2 ^ 31 \<and> child hmac hard (unat i) x y \<and> R y)"
proof -
  have "(\<exists>d. run_bind r f = Some (Ok d) \<and> Q d) \<longleftrightarrow> (\<exists>k d. r = Some (Ok k) \<and> f k = Some (Ok d) \<and> Q d)"
    by (auto simp: run_bind_def split: option.splits outcome.splits)
  also have "\<dots> \<longleftrightarrow> (\<exists>k. r = Some (Ok k) \<and> R (node_of k))"
    using assms(2,3) by (fastforce simp: step_ok_def)
  also have "\<dots> \<longleftrightarrow> (\<exists>y. (\<exists>k. r = Some (Ok k) \<and> node_of k = y) \<and> R y)" by blast
  finally show ?thesis unfolding assms(1) by blast
qed

abbreviation bip44 :: "derivation_path \<Rightarrow> (bool \<times> nat) list" where
  "bip44 path \<equiv> [(True, 44), (True, unat (coin_type path)), (True, unat (account path)),
     (False, unat (role path)), (False, unat (path_index path))]"

lemma derive_descends:
  assumes "hmac_law hmac" "valid_ext (master w)"
  shows "derive hmac w path = Some (Ok d) \<longleftrightarrow> coin_type path = wallet_coin_type w \<and> dk_path d = path \<and>
    (\<exists>cc. descends hmac (bip44 path) (node_of (master w)) (key_scalar (dk_private d), cc))"
proof (cases "coin_type path = wallet_coin_type w")
  case True
  have fin: "(\<exists>d'. Some (and_then (ext_private_key k) (\<lambda>k. Ok \<lparr>dk_private = k, dk_path = path\<rparr>)) = Some (Ok d') \<and> d' = d) \<longleftrightarrow>
      dk_path d = path \<and> fst (node_of k) = key_scalar (dk_private d)" if "valid_ext k" for k
    using ext_private_key_valid [OF that] by (cases "dk_private d") (auto simp: node_of_def intro: derived_key.equality)
  note hard = step_descends [OF hardened_child [OF assms(1)] ckd_hardened_ok]
  note soft = step_descends [OF normal_child [OF assms(1)] ckd_non_hardened_ok]
  have "derive hmac w path = Some (Ok d) \<longleftrightarrow> (\<exists>d'. derive hmac w path = Some (Ok d') \<and> d' = d)" by blast
  also have "\<dots> \<longleftrightarrow> (\<exists>y1. unat BIP44_PURPOSE < 2 ^ 31 \<and> child hmac True (unat BIP44_PURPOSE) (node_of (master w)) y1 \<and>
      (\<exists>y2. unat (coin_type path) < 2 ^ 31 \<and> child hmac True (unat (coin_type path)) y1 y2 \<and>
      (\<exists>y3. unat (account path) < 2 ^ 31 \<and> child hmac True (unat (account path)) y2 y3 \<and>
      (\<exists>y4. unat (role path) < 2 ^ 31 \<and> child hmac False (unat (role path)) y3 y4 \<and>
      (\<exists>y5. unat (path_index path) < 2 ^ 31 \<and> child hmac False (unat (path_index path)) y4 y5 \<and>
         dk_path d = path \<and> fst y5 = key_scalar (dk_private d))))))"
    unfolding derive_def if_not_P [OF True [THEN not_not [THEN iffD2]]]
    by (intro hard soft fin assms(2))
  finally have steps: "derive hmac w path = Some (Ok d) \<longleftrightarrow> (\<exists>y1. unat BIP44_PURPOSE < 2 ^ 31 \<and>
      child hmac True (unat BIP44_PURPOSE) (node_of (master w)) y1 \<and>
      (\<exists>y2. unat (coin_type path) < 2 ^ 31 \<and> child hmac True (unat (coin_type path)) y1 y2 \<and>
      (\<exists>y3. unat (account path) < 2 ^ 31 \<and> child hmac True (unat (account path)) y2 y3 \<and>
      (\<exists>y4. unat (role path) < 2 ^ 31 \<and> child hmac False (unat (role path)) y3 y4 \<and>
      (\<exists>y5. unat (path_index path) < 2 ^ 31 \<and> child hmac False (unat (path_index path)) y4 y5 \<and>
         dk_path d = path \<and> fst y5 = key_scalar (dk_private d))))))" .
  have p44: "unat BIP44_PURPOSE = 44" by (simp add: BIP44_PURPOSE_def)
  have ends: "(\<exists>cc. descends hmac path x (v, cc)) \<longleftrightarrow> (\<exists>y. descends hmac path x y \<and> fst y = v)" for path x v by force
  show ?thesis unfolding steps ends unfolding p44 descends_Cons descends_Nil using True by fastforce
qed (simp add: derive_def)


lemma derive_outcomes:
  assumes "valid_ext (master w)"
  shows "case derive hmac w path of
      None \<Rightarrow> True
    | Some (Ok d) \<Rightarrow> coin_type path = wallet_coin_type w \<and> dk_path d = path \<and>
        0 < key_scalar (dk_private d) \<and> key_scalar (dk_private d) < G_ORDER \<and>
        (\<forall>i\<in>{coin_type path, account path, role path, path_index path}. i < 2 ^ 31)
    | Some (Err e) \<Rightarrow> (e = NonBip44Purpose (coin_type path) \<and> coin_type path \<noteq> wallet_coin_type w) \<or>
        (coin_type path = wallet_coin_type w \<and>
          (\<exists>i\<in>{coin_type path, account path, role path, path_index path}. 2 ^ 31 \<le> i \<and> e = IndexOverflow i))
    | Some Panic \<Rightarrow> False" (is "?Q (derive hmac w path)")
proof (cases "coin_type path = wallet_coin_type w")
  case True
  have none: "?Q None" by simp
  have over: "?Q (Some (Err (IndexOverflow i)))"
    if "2 ^ 31 \<le> i" "i \<in> {coin_type path, account path, role path, path_index path}" for i using that True by auto
  have "\<not> 2 ^ 31 \<le> BIP44_PURPOSE" by (simp add: BIP44_PURPOSE_def)
  then show ?thesis
    unfolding derive_def if_not_P [OF True [THEN not_not [THEN iffD2]]] using True
    by (intro step_bind [where Q = ?Q, OF ckd_hardened_ok] step_bind [where Q = ?Q, OF ckd_non_hardened_ok] none over)
      (auto simp: ext_private_key_valid, auto simp: valid_ext_def)
next
  case False
  then show ?thesis by (simp add: derive_def)
qed


subsection \<open>Properties\<close>

text \<open>C13: deriving along a path from a valid key answers exactly the key at \<open>m/44'/coin'/account'/role/index\<close> below it,
  with a secret in \<open>[1, order)\<close>, when the coin type is the wallet's and that key exists; the coin-type error exactly on a
  mismatch; an overflow error only for an index of the path that needs more than 31 bits; it never panics and reports
  nothing else.\<close>

theorem wallet_derive_exact:
  assumes "hmac_law hmac" "valid_ext (master w)"
  shows "(derive hmac w path = Some (Ok d) \<longleftrightarrow> coin_type path = wallet_coin_type w \<and> dk_path d = path \<and>
        (\<exists>cc. descends hmac
           [(True, 44), (True, unat (coin_type path)), (True, unat (account path)), (False, unat (role path)),
            (False, unat (path_index path))]
           (to_ubig (ek_scalar (master w)), chain_code (master w)) (key_scalar (dk_private d), cc))) \<and>
    (derive hmac w path = Some (Ok d) \<longrightarrow> 0 < key_scalar (dk_private d) \<and> key_scalar (dk_private d) < G_ORDER) \<and>
    (derive hmac w path = Some (Err (NonBip44Purpose c)) \<longleftrightarrow> c = coin_type path \<and> coin_type path \<noteq> wallet_coin_type w) \<and>
    (derive hmac w path = Some (Err e) \<longrightarrow> e = NonBip44Purpose (coin_type path) \<or>
        (\<exists>i\<in>{coin_type path, account path, role path, path_index path}. 2 ^ 31 \<le> i \<and> e = IndexOverflow i)) \<and>
    derive hmac w path \<noteq> Some Panic"
proof -
  have mismatch: "derive hmac w path = Some (Err (NonBip44Purpose (coin_type path)))" if "coin_type path \<noteq> wallet_coin_type w"
    using that by (simp add: derive_def)
  note out = derive_outcomes [OF assms(2), where hmac = hmac and path = path]
  from derive_descends [OF assms, of path d] out mismatch show ?thesis
    unfolding node_of_def by (auto split: option.splits outcome.splits)
qed

definition demo_wallet :: vesl_wallet where
  "demo_wallet = \<lparr>master = \<lparr>ek_scalar = from_ubig 5, chain_code = replicate 32 0\<rparr>, wallet_coin_type = 0\<rparr>"

theorem wallet_derive_exact_witness:
  "derive (\<lambda>_ _. replicate 31 0 @ [1] @ replicate 32 0) demo_wallet (path_new 0 1 4 2) =
    Some (Ok \<lparr>dk_private = SchnorrPrivateKey 10, dk_path = path_new 0 1 4 2\<rparr>)"
proof -
  let ?mac = "\<lambda>_ _ :: bytes. replicate 31 0 @ [1] @ replicate 32 (0 :: u8)"
  have law: "hmac_law ?mac" by (simp add: hmac_law_def)
  have "(5 :: nat) < G_ORDER" by (simp add: G_ORDER_def)
  then have valid: "valid_ext (master demo_wallet)" by (simp add: demo_wallet_def valid_ext_def)
  have up: "child ?mac hard i (k, cc) (Suc k, replicate 32 0)" if "k < 10" for hard i k cc
  proof -
    obtain pk where "public_key (SchnorrPrivateKey k) = Ok pk" using public_key_total by blast
    then obtain bs where bs: "transcript hard i k bs" using hardened [of i k] normal [of k pk i] by (cases hard) auto
    have one: "be_num (take 32 (attempt ?mac hard i cc bs 0)) = 1" "drop 32 (attempt ?mac hard i cc bs 0) = replicate 32 0"
      by (simp_all add: attempt_def be_num_def eval_nat_numeral)
    moreover have "(1 + k) mod G_ORDER = Suc k" "1 < G_ORDER" using that by (simp_all add: G_ORDER_def)
    ultimately show ?thesis using child.intros [OF bs, of ?mac cc 0] by (simp add: usable_def)
  qed
  have "to_ubig (ek_scalar (master demo_wallet)) = 5" "chain_code (master demo_wallet) = replicate 32 0"
    using \<open>5 < G_ORDER\<close> by (simp_all add: demo_wallet_def)
  moreover have "descends ?mac [(True, 44), (True, 0), (True, 1), (False, 4), (False, 2)] (5, replicate 32 0) (10, replicate 32 0)"
    unfolding descends_Cons descends_Nil using up [of 5] up [of 6] up [of 7] up [of 8] up [of 9] by fastforce
  ultimately show ?thesis
    by (intro wallet_derive_exact [OF law valid, THEN conjunct1, THEN iffD2] conjI exI)
      (simp_all add: path_new_def demo_wallet_def del: descends_Cons)
qed

text \<open>a child derivation returns exactly when some digest of its chain of rehashes holds a valid key, and
  then it is the key of the first such digest; a master key is found in the same way.\<close>

theorem derivation_takes_first_valid:
  "(ckd hmac p i bs = Some k \<longleftrightarrow>
      (\<exists>n. child_key p (((\<lambda>d. hmac (chain_code p) (retry_data i d)) ^^ n) (hmac (chain_code p) bs)) = Some k \<and>
        (\<forall>m<n. child_key p (((\<lambda>d. hmac (chain_code p) (retry_data i d)) ^^ m) (hmac (chain_code p) bs)) = None))) \<and>
   (master_from_seed hmac seed = Some k \<longleftrightarrow>
      (\<exists>n. master_key ((hmac DOMAIN_SEPARATOR ^^ n) (hmac DOMAIN_SEPARATOR seed)) = Some k \<and>
        (\<forall>m<n. master_key ((hmac DOMAIN_SEPARATOR ^^ m) (hmac DOMAIN_SEPARATOR seed)) = None)))"
  by (simp only: ckd_def master_from_seed_def rehash_Some simp_thms)

theorem derivation_takes_first_valid_witness: "master_from_seed (\<lambda>_ _. replicate 64 0) [] = None"
proof (rule ccontr)
  assume "master_from_seed (\<lambda>_ _. replicate 64 0) [] \<noteq> None"
  then obtain k where k: "master_from_seed (\<lambda>_ _. replicate 64 0) [] = Some k" by blast
  have const: "((\<lambda>_ :: bytes. replicate 64 0) ^^ n) (replicate 64 0) = replicate 64 (0 :: u8)" for n by (cases n) simp_all
  have "scalar_is_zero (scalar_from_be_bytes (replicate 32 0))"
  proof -
    have "from_be_bytes [0, 0, 0, 0] = (0 :: u32)" by (simp add: from_be_bytes_def from_le_bytes_def)
    then show ?thesis by (simp add: scalar_is_zero_def scalar_from_be_bytes_def upt_8 numeral_eq_Suc)
  qed
  then have "master_key (replicate 64 0) = None" by (simp add: master_key_def split_digest_def)
  with derivation_takes_first_valid [THEN conjunct2, THEN iffD1, OF k] show False by (simp only: const) simp
qed

text \<open>the transcripts hashed during derivation are separated: a hardened child, a normal child and a retry
  never hash the same bytes, and each transcript determines the key or point and the index it was built of.\<close>

theorem derivation_transcripts_separate:
  assumes "wf_scalar (ek_scalar p)" "wf_scalar (ek_scalar q)" "i < 2 ^ 31" "j < 2 ^ 31" "length d = 64"
  shows "hardened_data p i' \<noteq> normal_data pk j' \<and> hardened_data p i' \<noteq> retry_data j' d \<and>
    normal_data pk i' \<noteq> retry_data j' d \<and>
    (hardened_data p (or i (2 ^ 31)) = hardened_data q (or j (2 ^ 31)) \<longleftrightarrow> ek_scalar p = ek_scalar q \<and> i = j) \<and>
    (normal_data pk i = normal_data pk' j \<longleftrightarrow> px pk = px pk' \<and> py pk = py pk' \<and> i = j)"
proof -
  have len: "length (hardened_data p i') = 37" "length (normal_data pk j') = 101" "length (normal_data pk i') = 101"
    "length (retry_data j' d) = 37"
    using assms(1,5) by (simp_all add: hardened_data_def normal_data_def retry_data_def length_scalar_be length_ser_a_pt
        split_digest_def)
  have "hd (hardened_data p i') \<noteq> hd (retry_data j' d)"
    by (simp add: hardened_data_def retry_data_def TAG_HARDENED_def TAG_RETRY_def)
  moreover have "hardened_data p (or i (2 ^ 31)) = hardened_data q (or j (2 ^ 31)) \<longleftrightarrow> ek_scalar p = ek_scalar q \<and> i = j"
    using hardened_wire_inject [OF assms(3,4)]
    by (simp add: hardened_data_def length_scalar_be assms scalar_be_inject to_be_bytes_inject)
  moreover have "normal_data pk i = normal_data pk' j \<longleftrightarrow> px pk = px pk' \<and> py pk = py pk' \<and> i = j"
    by (simp add: normal_data_def length_ser_a_pt ser_a_pt_inject to_be_bytes_inject)
  moreover have "hardened_data p i' \<noteq> normal_data pk j'"
    using len(1,2) by (intro notI) (drule arg_cong [of _ _ length], simp)
  moreover have "normal_data pk i' \<noteq> retry_data j' d"
    using len(3,4) by (intro notI) (drule arg_cong [of _ _ length], simp)
  ultimately show ?thesis by (metis (no_types))
qed

theorem derivation_transcripts_separate_witness:
  "hardened_data (master demo_wallet) (or 44 (2 ^ 31)) \<noteq> hardened_data (master demo_wallet) (or 45 (2 ^ 31)) \<and>
   normal_data A_GEN 4 \<noteq> normal_data A_GEN 5"
proof -
  have p: "wf_scalar (ek_scalar (master demo_wallet))" by (simp add: demo_wallet_def)
  have i: "(44 :: u32) < 2 ^ 31" "(45 :: u32) < 2 ^ 31" "(4 :: u32) < 2 ^ 31" "(5 :: u32) < 2 ^ 31" by simp_all
  have "length (replicate 64 (0 :: u8)) = 64" by simp
  note t = derivation_transcripts_separate [OF p p _ _ this]
  have "hardened_data (master demo_wallet) (or 44 (2 ^ 31)) = hardened_data (master demo_wallet) (or 45 (2 ^ 31)) \<longleftrightarrow>
      ek_scalar (master demo_wallet) = ek_scalar (master demo_wallet) \<and> (44 :: u32) = 45"
    by (rule t [OF i(1,2), THEN conjunct2, THEN conjunct2, THEN conjunct2, THEN conjunct1])
  moreover have "normal_data A_GEN 4 = normal_data A_GEN 5 \<longleftrightarrow> px A_GEN = px A_GEN \<and> py A_GEN = py A_GEN \<and> (4 :: u32) = 5"
    by (rule t [OF i(3,4), THEN conjunct2, THEN conjunct2, THEN conjunct2, THEN conjunct2])
  moreover have "(44 :: u32) \<noteq> 45" "(4 :: u32) \<noteq> 5" by simp_all
  ultimately show ?thesis by (simp only: simp_thms)
qed

end
