(* ===== verification/Pokes.thy ===== *)
theory Pokes
  imports ChainSign Nouns
begin

text \<open>
  The causes sent to a composed kernel: \<^verbatim>\<open>crates/vesl-core/src/graft_pokes\<close>, one group of builders per graft.
  A poke is the noun that becomes the root of its slab; the jammed bytes of a noun come from a parameter
  \<open>jam\<close>.
\<close>

definition tagged :: "string \<Rightarrow> noun list \<Rightarrow> noun" where
  "tagged t args = tuple (make_tag_in (lit t) # args)"

definition slab_jam_to_bytes :: "(noun \<Rightarrow> bytes) \<Rightarrow> noun \<Rightarrow> bytes" where
  "slab_jam_to_bytes jam n = jam n"

subsection \<open>State grafts\<close>

definition build_batch_init_poke :: "u64 \<Rightarrow> noun" where
  "build_batch_init_poke threshold = tagged ''batch-init'' [atom_from_u64 threshold]"

definition build_batch_add_poke :: "bytes \<Rightarrow> noun" where
  "build_batch_add_poke intent_jammed = tagged ''batch-add'' [make_atom_in intent_jammed]"

definition build_batch_add_poke_from_noun :: "(noun \<Rightarrow> bytes) \<Rightarrow> noun \<Rightarrow> noun" where
  "build_batch_add_poke_from_noun jam intent = build_batch_add_poke (slab_jam_to_bytes jam intent)"

definition build_batch_flush_poke :: noun where
  "build_batch_flush_poke = tagged ''batch-flush'' [Atom 0]"

definition build_clock_tick_poke :: noun where
  "build_clock_tick_poke = tagged ''clock-tick'' [Atom 0]"

definition build_counter_increment_poke :: "ustr \<Rightarrow> noun" where
  "build_counter_increment_poke name = tagged ''counter-increment'' [make_tag_in name]"

definition build_counter_reset_poke :: "ustr \<Rightarrow> noun" where
  "build_counter_reset_poke name = tagged ''counter-reset'' [make_tag_in name]"

definition build_counter_set_poke :: "ustr \<Rightarrow> u64 \<Rightarrow> noun" where
  "build_counter_set_poke name x = tagged ''counter-set'' [make_tag_in name, atom_from_u64 x]"

definition build_forge_prove_poke :: "u64 \<Rightarrow> u64 \<Rightarrow> bytes \<Rightarrow> noun" where
  "build_forge_prove_poke h i bs = tagged ''forge-prove'' [atom_from_u64 h, atom_from_u64 i, make_atom_in bs]"

definition build_guard_register_poke :: "u64 \<Rightarrow> tip5_hash \<Rightarrow> noun" where
  "build_guard_register_poke h rt =
     tagged ''guard-register'' [atom_from_u64 h, make_atom_in (tip5_to_atom_le_bytes rt)]"

definition build_guard_check_poke :: "u64 \<Rightarrow> bytes \<Rightarrow> noun" where
  "build_guard_check_poke h bs = tagged ''guard-check'' [atom_from_u64 h, make_atom_in bs]"

definition build_kv_set_poke :: "ustr \<Rightarrow> bytes \<Rightarrow> noun" where
  "build_kv_set_poke key x = tagged ''kv-set'' [make_tag_in key, make_atom_in x]"

definition build_kv_delete_poke :: "ustr \<Rightarrow> noun" where
  "build_kv_delete_poke key = tagged ''kv-delete'' [make_tag_in key]"

definition build_log_append_poke :: "ustr \<Rightarrow> bytes \<Rightarrow> noun" where
  "build_log_append_poke t data_jammed = tagged ''log-append'' [make_tag_in t, make_atom_in data_jammed]"

definition build_log_append_poke_from_noun :: "(noun \<Rightarrow> bytes) \<Rightarrow> ustr \<Rightarrow> noun \<Rightarrow> noun" where
  "build_log_append_poke_from_noun jam t payload = build_log_append_poke t (slab_jam_to_bytes jam payload)"

definition build_mint_commit_poke :: "u64 \<Rightarrow> tip5_hash \<Rightarrow> noun" where
  "build_mint_commit_poke h rt =
     tagged ''mint-commit'' [atom_from_u64 h, make_atom_in (tip5_to_atom_le_bytes rt)]"

definition build_queue_push_poke :: "bytes \<Rightarrow> noun" where
  "build_queue_push_poke body_jammed = tagged ''queue-push'' [make_atom_in body_jammed]"

definition build_queue_push_poke_from_noun :: "(noun \<Rightarrow> bytes) \<Rightarrow> noun \<Rightarrow> noun" where
  "build_queue_push_poke_from_noun jam body = build_queue_push_poke (slab_jam_to_bytes jam body)"

definition build_queue_pop_poke :: noun where
  "build_queue_pop_poke = tagged ''queue-pop'' [Atom 0]"

definition build_queue_clear_poke :: noun where
  "build_queue_clear_poke = tagged ''queue-clear'' [Atom 0]"

definition build_cord_list_in :: "ustr list \<Rightarrow> noun" where
  "build_cord_list_in items = foldl (\<lambda>tail item. tuple [make_tag_in item, tail]) (Atom 0) (rev items)"

definition build_rbac_grant_poke :: "u64 \<Rightarrow> ustr list \<Rightarrow> noun" where
  "build_rbac_grant_poke key perms = tagged ''rbac-grant'' [atom_from_u64 key, build_cord_list_in perms]"

definition build_rbac_revoke_poke :: "u64 \<Rightarrow> ustr list \<Rightarrow> noun" where
  "build_rbac_revoke_poke key perms = tagged ''rbac-revoke'' [atom_from_u64 key, build_cord_list_in perms]"

definition build_registry_put_poke :: "u64 \<Rightarrow> bytes \<Rightarrow> noun" where
  "build_registry_put_poke key record_jammed =
     tagged ''registry-put'' [atom_from_u64 key, make_atom_in record_jammed]"

definition build_registry_update_poke :: "u64 \<Rightarrow> bytes \<Rightarrow> noun" where
  "build_registry_update_poke key record_jammed =
     tagged ''registry-update'' [atom_from_u64 key, make_atom_in record_jammed]"

definition build_registry_put_poke_from_noun :: "(noun \<Rightarrow> bytes) \<Rightarrow> u64 \<Rightarrow> noun \<Rightarrow> noun" where
  "build_registry_put_poke_from_noun jam key r = build_registry_put_poke key (slab_jam_to_bytes jam r)"

definition build_registry_update_poke_from_noun :: "(noun \<Rightarrow> bytes) \<Rightarrow> u64 \<Rightarrow> noun \<Rightarrow> noun" where
  "build_registry_update_poke_from_noun jam key r = build_registry_update_poke key (slab_jam_to_bytes jam r)"

definition build_registry_del_poke :: "u64 \<Rightarrow> noun" where
  "build_registry_del_poke key = tagged ''registry-del'' [atom_from_u64 key]"

datatype rule = NonEmpty

primrec build_rule :: "rule \<Rightarrow> noun" where
  "build_rule NonEmpty = tuple [make_tag_in (lit ''non-empty''), Atom 0]"

definition build_rules_list :: "rule list \<Rightarrow> noun" where
  "build_rules_list rules = foldl (\<lambda>tail r. tuple [build_rule r, tail]) (Atom 0) (rev rules)"

definition build_validate_init_poke :: "ustr \<Rightarrow> rule list \<Rightarrow> noun" where
  "build_validate_init_poke cause_tag rules =
     tagged ''validate-init'' [make_tag_in cause_tag, build_rules_list rules]"

definition build_validate_clear_poke :: "ustr \<Rightarrow> noun" where
  "build_validate_clear_poke cause_tag = tagged ''validate-clear'' [make_tag_in cause_tag]"


subsection \<open>The settlement graft\<close>

definition build_settle_register_poke :: "u64 \<Rightarrow> tip5_hash \<Rightarrow> noun" where
  "build_settle_register_poke h rt =
     tagged ''settle-register'' [atom_from_u64 h, make_atom_in (tip5_to_atom_le_bytes rt)]"

definition build_graft_single_leaf_payload_in :: "u64 \<Rightarrow> u64 \<Rightarrow> tip5_hash \<Rightarrow> noun \<Rightarrow> noun" where
  "build_graft_single_leaf_payload_in i h rt x =
     (let root_bytes = tip5_to_atom_le_bytes rt;
          state = tuple [make_tag_in (lit ''pending''), Atom 0];
          nt = tuple [atom_from_u64 i, atom_from_u64 h, make_atom_in root_bytes, state]
      in tuple [nt, x, make_atom_in root_bytes])"

definition build_graft_single_leaf_payload_jammed ::
  "(noun \<Rightarrow> bytes) \<Rightarrow> u64 \<Rightarrow> u64 \<Rightarrow> tip5_hash \<Rightarrow> bytes \<Rightarrow> bytes" where
  "build_graft_single_leaf_payload_jammed jam i h rt bs =
     slab_jam_to_bytes jam (build_graft_single_leaf_payload_in i h rt (make_atom_in bs))"

definition build_settle_poke_jammed :: "ustr \<Rightarrow> bytes \<Rightarrow> noun" where
  "build_settle_poke_jammed verb payload = tuple [make_tag_in verb, make_atom_in payload]"

definition build_settle_payload_poke ::
  "(noun \<Rightarrow> bytes) \<Rightarrow> string \<Rightarrow> u64 \<Rightarrow> u64 \<Rightarrow> tip5_hash \<Rightarrow> noun \<Rightarrow> noun" where
  "build_settle_payload_poke jam verb i h rt x =
     (let payload_bytes = slab_jam_to_bytes jam (build_graft_single_leaf_payload_in i h rt x)
      in tagged verb [make_atom_in payload_bytes])"

definition build_settle_note_poke_with_data :: "(noun \<Rightarrow> bytes) \<Rightarrow> u64 \<Rightarrow> u64 \<Rightarrow> tip5_hash \<Rightarrow> noun \<Rightarrow> noun" where
  "build_settle_note_poke_with_data jam = build_settle_payload_poke jam ''settle-note''"

definition build_settle_verify_poke_with_data :: "(noun \<Rightarrow> bytes) \<Rightarrow> u64 \<Rightarrow> u64 \<Rightarrow> tip5_hash \<Rightarrow> noun \<Rightarrow> noun" where
  "build_settle_verify_poke_with_data jam = build_settle_payload_poke jam ''settle-verify''"

definition build_settle_note_poke :: "(noun \<Rightarrow> bytes) \<Rightarrow> u64 \<Rightarrow> u64 \<Rightarrow> tip5_hash \<Rightarrow> bytes \<Rightarrow> noun" where
  "build_settle_note_poke jam i h rt bs = build_settle_note_poke_with_data jam i h rt (make_atom_in bs)"

definition build_settle_verify_poke :: "(noun \<Rightarrow> bytes) \<Rightarrow> u64 \<Rightarrow> u64 \<Rightarrow> tip5_hash \<Rightarrow> bytes \<Rightarrow> noun" where
  "build_settle_verify_poke jam i h rt bs = build_settle_verify_poke_with_data jam i h rt (make_atom_in bs)"

text \<open>The per-gate builders.  A public key at infinity makes the canonical encoder panic: \<open>None\<close>.\<close>

definition build_settle_note_schnorr_poke ::
  "(noun \<Rightarrow> bytes) \<Rightarrow> u64 \<Rightarrow> u64 \<Rightarrow> tip5_hash \<Rightarrow> bytes \<Rightarrow> chain_sig \<Rightarrow> cheetah_point \<Rightarrow> noun option" where
  "build_settle_note_schnorr_poke jam i h rt bs sg pk =
     map_option (\<lambda>pubkey_bytes. build_settle_note_poke_with_data jam i h rt
         (tuple [make_atom_in bs, make_atom_in (pack_schnorr_signature sg), make_atom_in pubkey_bytes]))
       (pubkey_canonical_bytes pk)"

definition build_settle_note_ed25519_poke ::
  "(noun \<Rightarrow> bytes) \<Rightarrow> u64 \<Rightarrow> u64 \<Rightarrow> tip5_hash \<Rightarrow> bytes \<Rightarrow> bytes \<Rightarrow> bytes \<Rightarrow> noun" where
  "build_settle_note_ed25519_poke jam i h rt bs sg pk =
     build_settle_note_poke_with_data jam i h rt (tuple [make_atom_in bs, make_atom_in sg, make_atom_in pk])"

definition build_proof_list :: "proof_node list \<Rightarrow> noun" where
  "build_proof_list pf =
     make_list_in (map (\<lambda>nd. tuple [make_atom_in (tip5_to_atom_le_bytes (hash nd)), make_loobean (side nd)]) pf)"

definition build_settle_note_membership_poke ::
  "(noun \<Rightarrow> bytes) \<Rightarrow> u64 \<Rightarrow> u64 \<Rightarrow> tip5_hash \<Rightarrow> bytes \<Rightarrow> proof_node list \<Rightarrow> noun" where
  "build_settle_note_membership_poke jam i h rt elem pf =
     build_settle_note_poke_with_data jam i h rt (tuple [make_atom_in elem, build_proof_list pf])"

definition build_settle_note_bounded_poke ::
  "(noun \<Rightarrow> bytes) \<Rightarrow> u64 \<Rightarrow> u64 \<Rightarrow> tip5_hash \<Rightarrow> u64 \<Rightarrow> u64 \<times> u64 \<Rightarrow> proof_node list \<Rightarrow> noun" where
  "build_settle_note_bounded_poke jam i h rt x bounds pf =
     (case bounds of (lo, hi) \<Rightarrow>
        build_settle_note_poke_with_data jam i h rt
          (tuple [atom_from_u64 x, tuple [atom_from_u64 lo, atom_from_u64 hi], build_proof_list pf]))"

definition build_settle_note_manifest_poke ::
  "(noun \<Rightarrow> bytes) \<Rightarrow> u64 \<Rightarrow> u64 \<Rightarrow> tip5_hash \<Rightarrow> (bytes \<times> bytes) list \<Rightarrow> proof_node list list \<Rightarrow> noun" where
  "build_settle_note_manifest_poke jam i h rt flds proofs =
     (let fields_list = make_list_in (map (\<lambda>(nm, x). tuple [make_atom_in nm, make_atom_in x]) flds);
          proofs_list = make_list_in (map build_proof_list proofs)
      in build_settle_note_poke_with_data jam i h rt (tuple [fields_list, proofs_list]))"

definition build_vesl_register_poke :: "u64 \<Rightarrow> tip5_hash \<Rightarrow> noun" where
  "build_vesl_register_poke = build_settle_register_poke"

definition build_vesl_settle_poke :: "(noun \<Rightarrow> bytes) \<Rightarrow> u64 \<Rightarrow> u64 \<Rightarrow> tip5_hash \<Rightarrow> bytes \<Rightarrow> noun" where
  "build_vesl_settle_poke = build_settle_note_poke"

definition build_vesl_verify_poke :: "(noun \<Rightarrow> bytes) \<Rightarrow> u64 \<Rightarrow> u64 \<Rightarrow> tip5_hash \<Rightarrow> bytes \<Rightarrow> noun" where
  "build_vesl_verify_poke = build_settle_verify_poke"


subsection \<open>Tags and causes\<close>

text \<open>The atom of a term.\<close>

definition tas :: "string \<Rightarrow> nat" where
  "tas s = le_value (utf8 (lit s))"

lemma make_tag_tas [simp]: "make_tag_in (lit s) = Atom (tas s)"
  by (simp add: make_tag_in_def tas_def)

lemma tagged_simps [simp]:
  "tagged t [] = Atom (tas t)" "tagged t [a] = Cell (Atom (tas t)) a"
  "tagged t [a, b] = Cell (Atom (tas t)) (Cell a b)" "tagged t [a, b, c] = Cell (Atom (tas t)) (Cell a (Cell b c))"
  "tagged t [a, b, c, d] = Cell (Atom (tas t)) (Cell a (Cell b (Cell c d)))"
  by (simp_all add: tagged_def)

definition ascii_term :: "string \<Rightarrow> bool" where
  "ascii_term s \<longleftrightarrow> s \<noteq> [] \<and> (\<forall>c\<in>set s. 0 < (of_char c :: nat) \<and> (of_char c :: nat) < 128)"

lemma utf8_ascii: "(\<forall>c\<in>set s. (of_char c :: nat) < 128) \<Longrightarrow> utf8 (lit s) = map (\<lambda>c. word_of_nat (of_char c)) s"
  by (induction s) (simp_all add: utf8_char_ascii)

definition char_byte :: "char \<Rightarrow> u8" where
  "char_byte c = word_of_nat (of_char c)"

lemma unat_char_byte: "(of_char c :: nat) < 128 \<Longrightarrow> unat (char_byte c) = of_char c"
  by (simp add: char_byte_def unsigned_of_nat take_bit_nat_eq_self)

lemma char_byte_inject:
  assumes "(of_char c :: nat) < 128" "(of_char d :: nat) < 128" "char_byte c = char_byte d"
  shows "c = d"
proof -
  have "(of_char c :: nat) = unat (char_byte d)" using unat_char_byte [OF assms(1)] assms(3) by argo
  also have "\<dots> = of_char d" by (rule unat_char_byte [OF assms(2)])
  finally show ?thesis by (simp only: of_char_eq_iff)
qed

lemma utf8_term:
  assumes "ascii_term s"
  shows "utf8 (lit s) = map char_byte s" "no_trailing_nul (utf8 (lit s))"
proof -
  show m: "utf8 (lit s) = map char_byte s"
    using assms by (simp add: utf8_ascii ascii_term_def char_byte_def)
  have c: "0 < (of_char (last s) :: nat)" "(of_char (last s) :: nat) < 128"
    using assms last_in_set [of s] unfolding ascii_term_def by blast+
  then have "unat (char_byte (last s)) \<noteq> 0" using unat_char_byte by simp
  then have "char_byte (last s) \<noteq> 0" by (metis unsigned_0)
  then show "no_trailing_nul (utf8 (lit s))"
    using assms by (simp add: m no_trailing_nul_def last_map ascii_term_def)
qed

lemma tas_inject:
  assumes "ascii_term s" "ascii_term t"
  shows "tas s = tas t \<longleftrightarrow> s = t"
proof
  assume "tas s = tas t"
  then have "map char_byte s = map char_byte t"
    using le_value_minimal_inject [of "utf8 (lit s)" "utf8 (lit t)"] utf8_term [OF assms(1)] utf8_term [OF assms(2)]
    by (simp add: tas_def)
  moreover have "inj_on char_byte (set s \<union> set t)"
    using assms char_byte_inject unfolding inj_on_def ascii_term_def by blast
  ultimately show "s = t" by (rule map_inj_on)
qed simp

end
