(* ===== verification/Graft.thy ===== *)
theory Graft
  imports Pokes Peeks
begin

text \<open>
  The kernel side of a settlement: the settle graft \<^verbatim>\<open>hoon/lib/settle-graft.hoon\<close> and the role graft
  \<^verbatim>\<open>hoon/lib/rbac-graft.hoon\<close>, as state machines over nouns.  Atoms are natural numbers; the finite maps
  and sets of Hoon are maps and sets.  The domain's verify gate and the virtual machine's \<open>cue\<close> are
  parameters; a crash under \<open>mule\<close> is \<open>None\<close>.
\<close>

subsection \<open>The settle graft\<close>

record settle_graft =
  epoch :: nat
  registered :: "nat \<rightharpoonup> nat"
  settled :: "nat set"
  settle_count :: nat
  prior_settled :: "nat set"

definition new_settle_graft :: settle_graft where
  "new_settle_graft = \<lparr>epoch = 0, registered = Map.empty, settled = {}, settle_count = 0, prior_settled = {}\<rparr>"

definition epoch_cap :: nat where
  "epoch_cap = 1000 * 1000"

definition registered_cap :: nat where
  "registered_cap = 10000 * 1000"

record settle_args =
  arg_id :: nat
  arg_hull :: nat
  arg_root :: nat
  arg_data :: noun
  arg_expected :: nat

text \<open>The mould of a payload: \<open>[note=[id hull root state=[%pending ~]] data expected-root]\<close>.\<close>

fun sieve_payload :: "noun \<Rightarrow> settle_args option" where
  "sieve_payload (Cell (Cell (Atom i) (Cell (Atom h) (Cell (Atom r) (Cell (Atom s) (Atom z))))) (Cell x (Atom e))) =
     (if s = tas ''pending'' \<and> z = 0
      then Some \<lparr>arg_id = i, arg_hull = h, arg_root = r, arg_data = x, arg_expected = e\<rparr> else None)"
| "sieve_payload _ = None"

type_synonym gate = "nat \<Rightarrow> noun \<Rightarrow> nat \<Rightarrow> bool option"

datatype settle_effect =
    SettleRegistered nat nat
  | SettleNoted nat nat nat
  | SettleVerified bool
  | SettleEpochRotated nat nat
  | SettleError string
  | SettleRegisterRejected nat nat
  | SettleDenied string

datatype settle_cause =
    CauseRegister nat nat
  | CauseNote nat
  | CauseVerify nat

definition parse_payload :: "(nat \<Rightarrow> noun option) \<Rightarrow> nat \<Rightarrow> settle_args option" where
  "parse_payload cue payload = (case cue payload of None \<Rightarrow> None | Some raw \<Rightarrow> sieve_payload raw)"

definition apply_settlement :: "settle_graft \<Rightarrow> settle_args \<Rightarrow> settle_effect list \<times> settle_graft" where
  "apply_settlement st args =
     (let noted = SettleNoted (arg_id args) (arg_hull args) (arg_root args)
      in if settle_count st < epoch_cap
         then ([noted], st\<lparr>settled := insert (arg_id args) (settled st), settle_count := settle_count st + 1\<rparr>)
         else ([SettleEpochRotated (epoch st) (epoch st + 1), noted],
               st\<lparr>epoch := epoch st + 1, prior_settled := settled st, settled := {arg_id args}, settle_count := 1\<rparr>))"

primrec settle_poke ::
  "(nat \<Rightarrow> noun option) \<Rightarrow> gate \<Rightarrow> settle_graft \<Rightarrow> settle_cause \<Rightarrow> settle_effect list \<times> settle_graft" where
  "settle_poke cue veri st (CauseRegister h r) =
     (case registered st h of
        Some existing \<Rightarrow> ([SettleRegisterRejected h existing], st)
      | None \<Rightarrow>
          if registered_cap \<le> card (dom (registered st))
          then ([SettleError ''settle-graft: registered map at capacity''], st)
          else ([SettleRegistered h r], st\<lparr>registered := (registered st)(h \<mapsto> r)\<rparr>))"
| "settle_poke cue veri st (CauseNote payload) =
     (case parse_payload cue payload of
        None \<Rightarrow> ([SettleError ''settle-graft: malformed payload''], st)
      | Some args \<Rightarrow>
          (case registered st (arg_hull args) of
             None \<Rightarrow> ([SettleError ''settle-graft: root not registered''], st)
           | Some r \<Rightarrow>
               if arg_expected args \<noteq> r then ([SettleError ''settle-graft: root mismatch''], st)
               else if arg_root args \<noteq> arg_expected args
               then ([SettleError ''settle-graft: note root does not match expected root''], st)
               else if arg_id args \<in> settled st then ([SettleError ''settle-graft: note already settled''], st)
               else if arg_id args \<in> prior_settled st
               then ([SettleError ''settle-graft: note already settled (prior epoch)''], st)
               else (case veri (arg_id args) (arg_data args) (arg_expected args) of
                       None \<Rightarrow> ([SettleError ''settle-graft: verify gate crashed''], st)
                     | Some ok \<Rightarrow>
                         if \<not> ok then ([SettleDenied ''settle-graft: verify gate returned false''], st)
                         else apply_settlement st args)))"
| "settle_poke cue veri st (CauseVerify payload) =
     (case parse_payload cue payload of
        None \<Rightarrow> ([SettleVerified False], st)
      | Some args \<Rightarrow>
          (case registered st (arg_hull args) of
             None \<Rightarrow> ([SettleVerified False], st)
           | Some r \<Rightarrow>
               if arg_expected args \<noteq> r \<or> arg_root args \<noteq> arg_expected args then ([SettleVerified False], st)
               else (case veri (arg_id args) (arg_data args) (arg_expected args) of
                       None \<Rightarrow> ([SettleVerified False], st)
                     | Some ok \<Rightarrow> ([SettleVerified ok], st))))"

text \<open>What the graft emits, as nouns.\<close>

primrec effect_noun :: "settle_effect \<Rightarrow> noun" where
  "effect_noun (SettleRegistered h r) = tagged ''settle-registered'' [Atom h, Atom r]"
| "effect_noun (SettleNoted i h r) =
     tagged ''settle-noted'' [Atom i, Atom h, Atom r, Cell (Atom (tas ''settled'')) (Atom 0)]"
| "effect_noun (SettleVerified ok) = tagged ''settle-verified'' [make_loobean ok]"
| "effect_noun (SettleEpochRotated a b) = tagged ''settle-epoch-rotated'' [Atom a, Atom b]"
| "effect_noun (SettleError m) = tagged ''settle-error'' [Atom (tas m)]"
| "effect_noun (SettleRegisterRejected h r) = tagged ''settle-register-rejected'' [Atom h, Atom r]"
| "effect_noun (SettleDenied m) = tagged ''settle-denied'' [Atom (tas m)]"

definition settle_peek :: "settle_graft \<Rightarrow> noun \<Rightarrow> noun option option" where
  "settle_peek st path =
     (let some = (\<lambda>n. Some (Some n)) in
      case path of
        Cell (Atom t) (Cell (Atom a) (Atom z)) \<Rightarrow>
          if z \<noteq> 0 then None
          else if t = tas ''settle-registered'' then some (make_loobean (registered st a \<noteq> None))
          else if t = tas ''settle-noted'' then some (make_loobean (a \<in> settled st \<or> a \<in> prior_settled st))
          else if t = tas ''settle-root''
          then some (case registered st a of None \<Rightarrow> Atom 0 | Some r \<Rightarrow> Cell (Atom 0) (Atom r))
          else None
      | Cell (Atom t) (Atom z) \<Rightarrow>
          if z \<noteq> 0 then None
          else if t = tas ''settle-epoch'' then some (Atom (epoch st))
          else if t = tas ''settle-count'' then some (Atom (settle_count st))
          else None
      | _ \<Rightarrow> None)"


subsection \<open>The role graft\<close>

type_synonym roles = "nat \<rightharpoonup> nat set"

definition roles_cap :: nat where
  "roles_cap = 10000 * 1000"

definition perms_per_role_cap :: nat where
  "perms_per_role_cap = 1000"

datatype rbac_effect =
    RbacGranted nat "nat set"
  | RbacRevoked nat "nat set"
  | RbacError string

datatype rbac_cause =
    CauseGrant nat "nat list"
  | CauseRevoke nat "nat list"

definition held_perms :: "roles \<Rightarrow> nat \<Rightarrow> nat set" where
  "held_perms rs key = (case rs key of None \<Rightarrow> {} | Some ps \<Rightarrow> ps)"

primrec rbac_poke :: "roles \<Rightarrow> rbac_cause \<Rightarrow> rbac_effect list \<times> roles" where
  "rbac_poke rs (CauseGrant key perms) =
     (let asked = set perms; held = held_perms rs key
      in if rs key = None \<and> roles_cap \<le> card (dom rs)
         then ([RbacError ''rbac-graft: roles map at capacity''], rs)
         else if perms_per_role_cap < card (held \<union> asked)
         then ([RbacError ''rbac-graft: perms-per-role at capacity''], rs)
         else ([RbacGranted key (asked - held)], rs(key \<mapsto> held \<union> asked)))"
| "rbac_poke rs (CauseRevoke key perms) =
     (let asked = set perms; held = held_perms rs key; remaining = held - asked
      in ([RbacRevoked key (asked \<inter> held)],
          if remaining = {} then rs(key := None) else rs(key \<mapsto> remaining)))"

definition rbac_peek :: "roles \<Rightarrow> noun \<Rightarrow> noun option option" where
  "rbac_peek rs path =
     (case path of
        Cell (Atom t) (Cell (Atom key) (Atom z)) \<Rightarrow>
          if t = tas ''rbac-perm-count'' \<and> z = 0
          then Some (Some (Cell (Atom 0) (Atom (card (held_perms rs key))))) else None
      | Cell (Atom t) (Cell (Atom key) (Cell (Atom perm) (Atom z))) \<Rightarrow>
          if t = tas ''rbac-has-perm'' \<and> z = 0
          then Some (Some (Cell (Atom 0) (make_loobean (perm \<in> held_perms rs key)))) else None
      | _ \<Rightarrow> None)"


subsection \<open>A kernel of the two grafts\<close>

text \<open>A composed kernel dispatches on the tag of the cause; any other cause has no effect.\<close>

record kernel_state =
  graft :: settle_graft
  perms :: roles

fun sieve_cause :: "noun \<Rightarrow> settle_cause option" where
  "sieve_cause (Cell (Atom t) (Cell (Atom h) (Atom r))) =
     (if t = tas ''settle-register'' then Some (CauseRegister h r) else None)"
| "sieve_cause (Cell (Atom t) (Atom payload)) =
     (if t = tas ''settle-note'' then Some (CauseNote payload)
      else if t = tas ''settle-verify'' then Some (CauseVerify payload) else None)"
| "sieve_cause _ = None"

definition kernel_poke ::
  "(nat \<Rightarrow> noun option) \<Rightarrow> gate \<Rightarrow> kernel_state \<Rightarrow> noun \<Rightarrow> noun list \<times> kernel_state" where
  "kernel_poke cue veri k n =
     (case sieve_cause n of
        None \<Rightarrow> ([], k)
      | Some c \<Rightarrow> (case settle_poke cue veri (graft k) c of (es, g) \<Rightarrow> (map effect_noun es, k\<lparr>graft := g\<rparr>)))"

text \<open>The answer of a peek: the path is unknown, bound to nothing, or bound to a value under \<open>[~ [~ _]]\<close>.\<close>

datatype peek_answer = PeekFailed | PeekAbsent | PeekFound noun

definition answer_of :: "noun option option \<Rightarrow> peek_answer" where
  "answer_of r = (case r of None \<Rightarrow> PeekFailed | Some None \<Rightarrow> PeekAbsent
      | Some (Some n) \<Rightarrow> PeekFound (Cell (Atom 0) (Cell (Atom 0) n)))"

definition kernel_peek :: "kernel_state \<Rightarrow> noun \<Rightarrow> peek_answer" where
  "kernel_peek k path =
     (case settle_peek (graft k) path of
        None \<Rightarrow> answer_of (rbac_peek (perms k) path)
      | Some r \<Rightarrow> answer_of (Some r))"


subsection \<open>The state of the settle graft\<close>

text \<open>The number of settlements since the first state.\<close>

definition clock :: "settle_graft \<Rightarrow> nat" where
  "clock st = epoch st * epoch_cap + settle_count st"

definition remembered :: "settle_graft \<Rightarrow> nat \<Rightarrow> bool" where
  "remembered st i \<longleftrightarrow> i \<in> settled st \<or> i \<in> prior_settled st"

definition graft_inv :: "settle_graft \<Rightarrow> bool" where
  "graft_inv st \<longleftrightarrow> finite (settled st) \<and> settle_count st = card (settled st) \<and> settle_count st \<le> epoch_cap \<and>
     settled st \<inter> prior_settled st = {} \<and> (epoch st = 0 \<or> 0 < settle_count st)"

lemma epoch_cap_pos [simp]: "0 < epoch_cap" "epoch_cap \<noteq> 0" "Suc 0 \<le> epoch_cap"
  by (simp_all add: epoch_cap_def)

lemma graft_inv_registered [simp]: "graft_inv (st\<lparr>registered := m\<rparr>) = graft_inv st"
  by (simp add: graft_inv_def)

lemma graft_inv_new: "graft_inv new_settle_graft"
  by (simp add: graft_inv_def new_settle_graft_def)

inductive settle_steps :: "(nat \<Rightarrow> noun option) \<Rightarrow> gate \<Rightarrow> settle_graft \<Rightarrow> settle_graft \<Rightarrow> bool"
  for cue veri where
  stay: "settle_steps cue veri st st"
| poke: "settle_steps cue veri st st' \<Longrightarrow> settle_steps cue veri st (snd (settle_poke cue veri st' c))"

text \<open>One settlement, from a state that accepts it.\<close>

lemma apply_settlement_inv:
  assumes "graft_inv st" "\<not> remembered st (arg_id args)"
  defines "st' \<equiv> snd (apply_settlement st args)"
  shows "graft_inv st'" "clock st' = clock st + 1" "remembered st' (arg_id args)" "arg_id args \<in> settled st'"
    "registered st' = registered st"
  using assms by (auto simp: apply_settlement_def graft_inv_def clock_def remembered_def Let_def card_gt_0_iff)

text \<open>What a cause can do: nothing, register a new root, or settle a note that is not remembered.\<close>

lemma settle_poke_cases:
  obtains "snd (settle_poke cue veri st c) = st"
  | h r where "c = CauseRegister h r" "registered st h = None"
      "settle_poke cue veri st c = ([SettleRegistered h r], st\<lparr>registered := (registered st)(h \<mapsto> r)\<rparr>)"
  | payload args where "c = CauseNote payload" "parse_payload cue payload = Some args"
      "registered st (arg_hull args) = Some (arg_expected args)" "arg_root args = arg_expected args"
      "\<not> remembered st (arg_id args)" "veri (arg_id args) (arg_data args) (arg_expected args) = Some True"
      "settle_poke cue veri st c = apply_settlement st args"
proof (cases c)
  case (CauseRegister h r)
  show ?thesis
  proof (cases "registered st h = None \<and> card (dom (registered st)) < registered_cap")
    case True
    then show ?thesis using that(2) [OF CauseRegister] CauseRegister by simp
  next
    case False
    then show ?thesis using that(1) CauseRegister by (auto split: option.splits)
  qed
next
  case (CauseNote payload)
  show ?thesis
  proof (cases "\<exists>args. parse_payload cue payload = Some args \<and>
      registered st (arg_hull args) = Some (arg_expected args) \<and> arg_root args = arg_expected args \<and>
      \<not> remembered st (arg_id args) \<and> veri (arg_id args) (arg_data args) (arg_expected args) = Some True")
    case True
    then obtain args where a: "parse_payload cue payload = Some args"
      "registered st (arg_hull args) = Some (arg_expected args)" "arg_root args = arg_expected args"
      "\<not> remembered st (arg_id args)" "veri (arg_id args) (arg_data args) (arg_expected args) = Some True" by blast
    then have "settle_poke cue veri st c = apply_settlement st args"
      using CauseNote by (simp add: remembered_def)
    with that(3) [OF CauseNote a] show ?thesis .
  next
    case False
    then have "snd (settle_poke cue veri st c) = st"
      using CauseNote by (auto simp: remembered_def split: option.split)
    with that(1) show ?thesis .
  qed
next
  case (CauseVerify payload)
  then show ?thesis using that(1) by (auto split: option.splits)
qed

declare settle_poke.simps [simp del]

lemma settle_poke_inv:
  assumes "graft_inv st"
  shows "graft_inv (snd (settle_poke cue veri st c))"
proof (rule settle_poke_cases [of cue veri st c])
  fix h r assume "settle_poke cue veri st c = ([SettleRegistered h r], st\<lparr>registered := (registered st)(h \<mapsto> r)\<rparr>)"
  with assms show ?thesis by simp
qed (use assms apply_settlement_inv(1) in auto)

lemma settle_steps_inv: "settle_steps cue veri st st' \<Longrightarrow> graft_inv st \<Longrightarrow> graft_inv st'"
  by (induction rule: settle_steps.induct) (simp_all add: settle_poke_inv)

text \<open>A root once registered stays.\<close>

lemma registered_kept:
  assumes "registered st h = Some r"
  shows "registered (snd (settle_poke cue veri st c)) h = Some r"
  by (rule settle_poke_cases [of cue veri st c])
    (use assms in \<open>auto simp: apply_settlement_def Let_def\<close>)

text \<open>The clock never goes back, and a note settled in an epoch is remembered through the next.\<close>

lemma epoch_mono: "epoch st \<le> epoch (snd (settle_poke cue veri st c))"
  by (rule settle_poke_cases [of cue veri st c]) (auto simp: apply_settlement_def Let_def)

lemma settled_kept:
  assumes "i \<in> settled st" "st' = snd (settle_poke cue veri st c)"
  shows "epoch st' = epoch st \<and> i \<in> settled st' \<or> epoch st' = epoch st + 1 \<and> i \<in> prior_settled st'"
  by (rule settle_poke_cases [of cue veri st c]) (use assms in \<open>auto simp: apply_settlement_def Let_def\<close>)

lemma prior_kept:
  assumes "i \<in> prior_settled st" "st' = snd (settle_poke cue veri st c)"
  shows "epoch st' = epoch st \<and> i \<in> prior_settled st' \<or> epoch st < epoch st'"
  by (rule settle_poke_cases [of cue veri st c]) (use assms in \<open>auto simp: apply_settlement_def Let_def\<close>)

lemma remembered_two_epochs:
  assumes "settle_steps cue veri st st'" "i \<in> settled st"
  shows "epoch st' = epoch st \<and> i \<in> settled st' \<or> epoch st' = epoch st + 1 \<and> i \<in> prior_settled st' \<or>
    epoch st + 2 \<le> epoch st'"
  using assms
proof (induction rule: settle_steps.induct)
  case (poke st st' c)
  then show ?case
    using settled_kept [OF _ refl, of i st' cue veri c] prior_kept [OF _ refl, of i st' cue veri c] epoch_mono [of st' cue veri c]
    by auto
qed simp

lemma remembered_within_cap:
  assumes "settle_steps cue veri st st'" "graft_inv st" "i \<in> settled st" "clock st' \<le> clock st + epoch_cap"
  shows "remembered st' i"
proof (rule ccontr)
  assume "\<not> remembered st' i"
  then have "epoch st + 2 \<le> epoch st'" using remembered_two_epochs [OF assms(1,3)] by (auto simp: remembered_def)
  then have "(epoch st + 2) * epoch_cap \<le> epoch st' * epoch_cap" by (rule mult_le_mono1)
  moreover have "0 < settle_count st'"
    using settle_steps_inv [OF assms(1,2)] \<open>epoch st + 2 \<le> epoch st'\<close> by (simp add: graft_inv_def)
  ultimately show False using assms(2,4) by (simp add: clock_def graft_inv_def)
qed

lemma noted_effect:
  assumes "SettleNoted i h r \<in> set (fst (settle_poke cue veri st c))"
  shows "\<exists>payload args. c = CauseNote payload \<and> parse_payload cue payload = Some args \<and>
    settle_poke cue veri st c = apply_settlement st args \<and> i = arg_id args \<and> h = arg_hull args \<and> r = arg_root args \<and>
    registered st h = Some r \<and> \<not> remembered st i \<and> veri i (arg_data args) r = Some True"
proof -
  obtain payload where c: "c = CauseNote payload"
    using assms by (cases c) (auto simp: settle_poke.simps split: option.splits if_splits)
  obtain args where a: "parse_payload cue payload = Some args"
    using assms by (cases "parse_payload cue payload") (simp_all add: c settle_poke.simps)
  have v: "registered st (arg_hull args) = Some (arg_expected args) \<and> arg_root args = arg_expected args \<and>
      \<not> remembered st (arg_id args) \<and> veri (arg_id args) (arg_data args) (arg_expected args) = Some True"
    using assms by (auto simp: c a settle_poke.simps remembered_def split: option.splits if_splits)
  then have s: "settle_poke cue veri st c = apply_settlement st args" by (simp add: c a settle_poke.simps remembered_def)
  then have "i = arg_id args" "h = arg_hull args" "r = arg_root args"
    using assms by (auto simp: apply_settlement_def Let_def split: if_splits)
  with c a v s show ?thesis by auto
qed

text \<open>A settled note is refused while the clock is within the cap; a remembered one at once.\<close>

lemma settled_not_again:
  assumes inv: "graft_inv st" and n: "SettleNoted i h r \<in> set (fst (settle_poke cue veri st c))"
    and s: "settle_steps cue veri (snd (settle_poke cue veri st c)) st'"
    and t: "clock st' \<le> clock (snd (settle_poke cue veri st c)) + epoch_cap"
  shows "SettleNoted i h' r' \<notin> set (fst (settle_poke cue veri st' c'))"
proof
  assume again: "SettleNoted i h' r' \<in> set (fst (settle_poke cue veri st' c'))"
  from inv have inv': "graft_inv (snd (settle_poke cue veri st c))" by (rule settle_poke_inv)
  from noted_effect [OF n] obtain args where "settle_poke cue veri st c = apply_settlement st args"
    "i = arg_id args" "\<not> remembered st i" by blast
  then have "i \<in> settled (snd (settle_poke cue veri st c))" using apply_settlement_inv(4) [OF inv, of args] by simp
  from remembered_within_cap [OF s inv' this t] have "remembered st' i" .
  with noted_effect [OF again] show False by blast
qed

lemma remembered_refused:
  assumes "parse_payload cue payload = Some args" "remembered st (arg_id args)"
  shows "snd (settle_poke cue veri st (CauseNote payload)) = st"
  by (rule settle_poke_cases [of cue veri st "CauseNote payload"]) (use assms in auto)


subsection \<open>The kernel reads what the builders write\<close>

definition cue_reads :: "(noun \<Rightarrow> bytes) \<Rightarrow> (nat \<Rightarrow> noun option) \<Rightarrow> noun \<Rightarrow> bool" where
  "cue_reads jam cue n \<longleftrightarrow> cue (le_value (jam n)) = Some n"

lemma tags_distinct [simp]:
  "tas ''settle-note'' \<noteq> tas ''settle-verify''" "tas ''settle-verify'' \<noteq> tas ''settle-note''"
  by (simp_all add: tas_inject ascii_term_def)

lemma sieve_register: "sieve_cause (build_settle_register_poke h rt) = Some (CauseRegister (unat h) (le_value (tip5_to_atom_le_bytes rt)))"
  by (simp add: build_settle_register_poke_def)

lemma sieve_note:
  "sieve_cause (build_settle_note_poke_with_data jam i h rt x) =
     Some (CauseNote (le_value (jam (build_graft_single_leaf_payload_in i h rt x))))"
  by (simp add: build_settle_note_poke_with_data_def build_settle_payload_poke_def slab_jam_to_bytes_def)

lemma sieve_payload_built:
  "sieve_payload (build_graft_single_leaf_payload_in i h rt x) =
     Some \<lparr>arg_id = unat i, arg_hull = unat h, arg_root = le_value (tip5_to_atom_le_bytes rt), arg_data = x,
           arg_expected = le_value (tip5_to_atom_le_bytes rt)\<rparr>"
  by (simp add: build_graft_single_leaf_payload_in_def Let_def del: lit_Cons)

lemma kernel_note:
  assumes "cue_reads jam cue (build_graft_single_leaf_payload_in i h rt x)"
    and "d = le_value (tip5_to_atom_le_bytes rt)"
  shows "kernel_poke cue veri k (build_settle_note_poke_with_data jam i h rt x) =
    (let args = \<lparr>arg_id = unat i, arg_hull = unat h, arg_root = d, arg_data = x, arg_expected = d\<rparr>;
         (es, g) = (case registered (graft k) (unat h) of
             None \<Rightarrow> ([SettleError ''settle-graft: root not registered''], graft k)
           | Some r \<Rightarrow>
               if d \<noteq> r then ([SettleError ''settle-graft: root mismatch''], graft k)
               else if unat i \<in> settled (graft k) then ([SettleError ''settle-graft: note already settled''], graft k)
               else if unat i \<in> prior_settled (graft k)
               then ([SettleError ''settle-graft: note already settled (prior epoch)''], graft k)
               else (case veri (unat i) x (d) of
                       None \<Rightarrow> ([SettleError ''settle-graft: verify gate crashed''], graft k)
                     | Some False \<Rightarrow> ([SettleDenied ''settle-graft: verify gate returned false''], graft k)
                     | Some True \<Rightarrow> apply_settlement (graft k) args))
     in (map effect_noun es, k\<lparr>graft := g\<rparr>))"
  using assms(1) unfolding assms(2)
  by (simp add: kernel_poke_def sieve_note settle_poke.simps parse_payload_def cue_reads_def sieve_payload_built Let_def
      split: option.split)

subsection \<open>Permissions\<close>

lemma held_perms_upd [simp]:
  "held_perms (rs(key \<mapsto> ps)) = (held_perms rs)(key := ps)" "held_perms (rs(key := None)) = (held_perms rs)(key := {})"
  by (simp_all add: held_perms_def fun_eq_iff)

lemma held_perms_grant:
  assumes "rbac_poke rs (CauseGrant key ps) = ([RbacGranted key added], rs')"
  shows "held_perms rs' = (held_perms rs)(key := held_perms rs key \<union> set ps) \<and> added = set ps - held_perms rs key"
proof -
  have "rs' = rs(key \<mapsto> held_perms rs key \<union> set ps) \<and> added = set ps - held_perms rs key"
    using assms by (auto simp: Let_def split: if_splits)
  then show ?thesis by simp
qed

lemma held_perms_revoke:
  "held_perms (snd (rbac_poke rs (CauseRevoke key ps))) = (held_perms rs)(key := held_perms rs key - set ps)"
  by (auto simp: Let_def fun_eq_iff)

text \<open>A grant of no permissions to an unknown key leaves an entry without permissions.\<close>

lemma empty_grant_keeps_entry:
  "rbac_poke Map.empty (CauseGrant key []) = ([RbacGranted key {}], [key \<mapsto> {}])"
  by (simp add: held_perms_def roles_cap_def)

lemma has_perm_answer:
  "kernel_peek k (tagged ''rbac-has-perm'' [Atom key, Atom p, Atom 0]) =
    PeekFound (Cell (Atom 0) (Cell (Atom 0) (Cell (Atom 0) (make_loobean (p \<in> held_perms (perms k) key)))))"
  by (simp add: kernel_peek_def settle_peek_def rbac_peek_def answer_of_def)


subsection \<open>Head tags\<close>

lemma head_tag:
  assumes "ne_law ne" "ascii_term s"
  shows "effect_head_tag ne (Cell (Atom (tas s)) n) = Some (lit s)"
proof -
  have "trim_trailing_zeros (ne (tas s)) = utf8 (lit s)"
    using utf8_term [OF assms(2)] by (intro trim_ne [OF assms(1)]) (simp_all add: tas_def)
  moreover have "utf8_lossy (utf8 (lit s)) = lit s"
  proof -
    have b: "unat (char_byte c) = of_char c \<and> (of_char c :: nat) < 128" if "c \<in> set s" for c
      using that assms(2) unat_char_byte [of c] by (simp add: ascii_term_def)
    then have "\<forall>b\<in>set (map char_byte s). unat b < 128" by auto
    then have "utf8_lossy (map char_byte s) = map unat (map char_byte s)" by (rule utf8_lossy_ascii)
    also have "\<dots> = lit s" using b by (simp add: lit_def)
    finally show ?thesis by (simp only: utf8_term(1) [OF assms(2)])
  qed
  ultimately show ?thesis by (simp add: effect_head_tag_def)
qed

text \<open>The tag of each effect, as text.\<close>

primrec effect_tag :: "settle_effect \<Rightarrow> string" where
  "effect_tag (SettleRegistered h r) = ''settle-registered''"
| "effect_tag (SettleNoted i h r) = ''settle-noted''"
| "effect_tag (SettleVerified ok) = ''settle-verified''"
| "effect_tag (SettleEpochRotated a b) = ''settle-epoch-rotated''"
| "effect_tag (SettleError m) = ''settle-error''"
| "effect_tag (SettleRegisterRejected h r) = ''settle-register-rejected''"
| "effect_tag (SettleDenied m) = ''settle-denied''"

lemma effect_head_noun:
  assumes "ne_law ne"
  shows "effect_head_tag ne (effect_noun e) = Some (lit (effect_tag e))"
proof -
  have "\<exists>n. effect_noun e = Cell (Atom (tas (effect_tag e))) n" by (cases e) simp_all
  then show ?thesis using head_tag [OF assms, of "effect_tag e"] by (cases e) (auto simp: ascii_term_def)
qed

lemma lit_inject [simp]: "lit s = lit t \<longleftrightarrow> s = t"
  by (simp add: lit_def inj_map_eq_map inj_def)



subsection \<open>What a client relies on\<close>

text \<open>The contract of a kernel that registers one root for each hull: no poke removes or changes a registered
  root, and the register cause is acknowledged only when the hull had none, with the root of the cause.\<close>

locale settle_kernel =
  fixes kpoke :: "'k \<Rightarrow> noun \<Rightarrow> noun list \<times> 'k"
    and root_of :: "'k \<Rightarrow> nat \<Rightarrow> nat option"
    and ne :: ne
  assumes root_kept: "root_of k h = Some r \<Longrightarrow> root_of (snd (kpoke k n)) h = Some r"
    and root_registered: "kpoke k (build_settle_register_poke i rt) = (e # es, k') \<Longrightarrow>
      effect_head_tag ne e = Some (lit ''settle-registered'') \<Longrightarrow>
      root_of k (unat i) = None \<and> root_of k' (unat i) = Some (le_value (tip5_to_atom_le_bytes rt))"

definition kernel_root :: "kernel_state \<Rightarrow> nat \<Rightarrow> nat option" where
  "kernel_root k h = registered (graft k) h"

lemma kernel_poke_state:
  "snd (kernel_poke cue veri k n) = k \<or> (\<exists>c. snd (kernel_poke cue veri k n) = k\<lparr>graft := snd (settle_poke cue veri (graft k) c)\<rparr>)"
  by (cases "sieve_cause n") (auto simp: kernel_poke_def case_prod_beta)

lemma kernel_root_kept: "kernel_root k h = Some r \<Longrightarrow> kernel_root (snd (kernel_poke cue veri k n)) h = Some r"
  using kernel_poke_state [of cue veri k n] registered_kept by (auto simp: kernel_root_def)

lemma kernel_register:
  "kernel_poke cue veri k (build_settle_register_poke h rt) =
    (let (es, g) = settle_poke cue veri (graft k) (CauseRegister (unat h) (le_value (tip5_to_atom_le_bytes rt)))
     in (map effect_noun es, k\<lparr>graft := g\<rparr>))"
  by (simp add: kernel_poke_def sieve_register Let_def)

lemma kernel_root_registered:
  assumes "ne_law ne" "kernel_poke cue veri k (build_settle_register_poke h rt) = (e # es, k')"
    and "effect_head_tag ne e = Some (lit ''settle-registered'')"
  shows "kernel_root k (unat h) = None \<and> kernel_root k' (unat h) = Some (le_value (tip5_to_atom_le_bytes rt))"
  using assms(2,3)
  by (auto simp: kernel_register settle_poke.simps kernel_root_def effect_head_noun [OF assms(1)]
      simp del: effect_noun.simps split: option.splits if_splits)

text \<open>The contract is for a lawful reader of atoms, so it is stated for the lawful ones.\<close>

definition lawful :: "ne \<Rightarrow> ne" where
  "lawful ne = (if ne_law ne then ne else demo_ne)"

lemma lawful_law: "ne_law (lawful ne)"
  by (simp add: lawful_def demo_ne_law)

lemma lawful_id: "ne_law ne \<Longrightarrow> lawful ne = ne"
  by (simp add: lawful_def)

interpretation graft_kernel: settle_kernel "kernel_poke cue veri" kernel_root "lawful ne" for cue veri ne
  by unfold_locales (use kernel_root_kept kernel_root_registered [OF lawful_law] in blast)+


subsection \<open>Properties\<close>

text \<open>C5: the replay window of the settle graft: a note that was settled is not settled again until more than
  \<open>epoch_cap\<close> other notes have been, whatever causes the kernel is poked with.\<close>

theorem graft_settles_once:
  assumes "settle_steps cue veri new_settle_graft st"
    and "SettleNoted i h r \<in> set (fst (settle_poke cue veri st c))"
    and "settle_steps cue veri (snd (settle_poke cue veri st c)) st'"
    and "clock st' \<le> clock (snd (settle_poke cue veri st c)) + epoch_cap"
  shows "SettleNoted i h' r' \<notin> set (fst (settle_poke cue veri st' c'))"
  by (rule settled_not_again [OF settle_steps_inv [OF assms(1) graft_inv_new] assms(2-4)])

definition demo_payload :: noun where
  "demo_payload = build_graft_single_leaf_payload_in 7 1 [1, 0, 0, 0, 0] (Atom 5)"

definition demo_graft :: settle_graft where
  "demo_graft = new_settle_graft\<lparr>registered := [1 \<mapsto> le_value (tip5_to_atom_le_bytes [1, 0, 0, 0, 0])]\<rparr>"

lemma demo_reachable: "settle_steps (\<lambda>_. Some demo_payload) (\<lambda>_ _ _. Some True) new_settle_graft demo_graft"
proof -
  let ?r = "le_value (tip5_to_atom_le_bytes [1, 0, 0, 0, 0])"
  have "snd (settle_poke (\<lambda>_. Some demo_payload) (\<lambda>_ _ _. Some True) new_settle_graft (CauseRegister 1 ?r)) = demo_graft"
    by (simp add: settle_poke.simps new_settle_graft_def demo_graft_def registered_cap_def)
  then show ?thesis using settle_steps.poke [OF settle_steps.stay] by metis
qed

lemma demo_settles:
  "settle_poke (\<lambda>_. Some demo_payload) (\<lambda>_ _ _. Some True) demo_graft (CauseNote 0) =
    apply_settlement demo_graft \<lparr>arg_id = 7, arg_hull = 1, arg_root = le_value (tip5_to_atom_le_bytes [1, 0, 0, 0, 0]),
      arg_data = Atom 5, arg_expected = le_value (tip5_to_atom_le_bytes [1, 0, 0, 0, 0])\<rparr>"
  by (simp add: settle_poke.simps parse_payload_def demo_payload_def sieve_payload_built demo_graft_def new_settle_graft_def)

theorem graft_settles_once_witness:
  "let cue = (\<lambda>_. Some demo_payload); veri = (\<lambda>_ _ _. Some True);
       st = snd (settle_poke cue veri demo_graft (CauseNote 0))
   in clock st = 1 \<and> SettleNoted 7 1 3 \<notin> set (fst (settle_poke cue veri st (CauseNote 0)))"
proof -
  let ?cue = "\<lambda>_. Some demo_payload" and ?veri = "\<lambda>_ _ _. Some True"
  let ?st = "snd (settle_poke ?cue ?veri demo_graft (CauseNote 0))"
  have n: "SettleNoted 7 1 (le_value (tip5_to_atom_le_bytes [1, 0, 0, 0, 0])) \<in> set (fst (settle_poke ?cue ?veri demo_graft (CauseNote 0)))"
    unfolding demo_settles by (simp add: apply_settlement_def Let_def demo_graft_def new_settle_graft_def)
  have c: "clock ?st = 1"
    unfolding demo_settles by (simp add: apply_settlement_def Let_def demo_graft_def new_settle_graft_def clock_def)
  have "SettleNoted 7 1 3 \<notin> set (fst (settle_poke ?cue ?veri ?st (CauseNote 0)))"
    by (rule graft_settles_once [OF demo_reachable n settle_steps.stay]) simp
  with c show ?thesis by (simp only: Let_def simp_thms)
qed

text \<open>C34: for a \<open>cue\<close> that reads what \<open>jam\<close> wrote, the kernel settles the note of a poke exactly when the hull's
  registered root is the root of the poke, the note is not remembered and the gate accepts its data; then it
  remembers the note, and otherwise its state does not change.\<close>

theorem settle_note_verdict:
  assumes "cue_reads jam cue (build_graft_single_leaf_payload_in i h rt x)" "is_digest rt"
    and "kernel_poke cue veri k (build_settle_note_poke_with_data jam i h rt x) = (es, k')"
  shows "(effect_noun (SettleNoted (unat i) (unat h) (digest_value rt)) \<in> set es \<longleftrightarrow>
      registered (graft k) (unat h) = Some (digest_value rt) \<and> \<not> remembered (graft k) (unat i) \<and>
      veri (unat i) x (digest_value rt) = Some True) \<and>
    (effect_noun (SettleNoted (unat i) (unat h) (digest_value rt)) \<in> set es \<longrightarrow> unat i \<in> settled (graft k')) \<and>
    (effect_noun (SettleNoted (unat i) (unat h) (digest_value rt)) \<notin> set es \<longrightarrow> k' = k)"
proof -
  let ?noted = "effect_noun (SettleNoted (unat i) (unat h) (digest_value rt))"
  let ?args = "\<lparr>arg_id = unat i, arg_hull = unat h, arg_root = digest_value rt, arg_data = x, arg_expected = digest_value rt\<rparr>"
  let ?ok = "registered (graft k) (unat h) = Some (digest_value rt) \<and> \<not> remembered (graft k) (unat i) \<and>
      veri (unat i) x (digest_value rt) = Some True"
  have d: "le_value (tip5_to_atom_le_bytes rt) = digest_value rt"
    using assms(2) by (intro tip5_to_atom_value) (simp add: is_digest_def)
  note kn = kernel_note [OF assms(1) d [symmetric], of veri k, unfolded assms(3)]
  show ?thesis
  proof (cases ?ok)
    case True
    then have "(es, k') = (map effect_noun (fst (apply_settlement (graft k) ?args)), k\<lparr>graft := snd (apply_settlement (graft k) ?args)\<rparr>)"
      using kn by (simp add: remembered_def Let_def case_prod_beta)
    then show ?thesis using True by (auto simp: apply_settlement_def Let_def)
  next
    case False
    have tags: "?noted \<noteq> effect_noun (SettleError m)" "?noted \<noteq> effect_noun (SettleDenied m)" for m
      by simp_all
    have "k' = k \<and> ?noted \<notin> set es"
      using kn False tags by (auto simp: remembered_def Let_def split: option.splits if_splits bool.splits)
    with False show ?thesis by blast
  qed
qed

theorem settle_note_verdict_witness:
  "\<exists>es k'. kernel_poke (\<lambda>_. Some demo_payload) (\<lambda>_ _ _. Some True) \<lparr>graft = demo_graft, perms = Map.empty\<rparr>
      (build_settle_note_poke_with_data (\<lambda>_. []) 7 1 [1, 0, 0, 0, 0] (Atom 5)) = (es, k') \<and> 7 \<in> settled (graft k')"
proof -
  let ?k = "\<lparr>graft = demo_graft, perms = Map.empty\<rparr>"
  obtain es k' where r: "kernel_poke (\<lambda>_. Some demo_payload) (\<lambda>_ _ _. Some True) ?k
      (build_settle_note_poke_with_data (\<lambda>_. []) 7 1 [1, 0, 0, 0, 0] (Atom 5)) = (es, k')" by fastforce
  have c: "cue_reads (\<lambda>_. []) (\<lambda>_. Some demo_payload) (build_graft_single_leaf_payload_in 7 1 [1, 0, 0, 0, 0] (Atom 5))"
    by (simp add: cue_reads_def demo_payload_def)
  have d: "is_digest [1, 0, 0, 0, 0]" by (simp add: is_digest_def)
  have "le_value (tip5_to_atom_le_bytes [1, 0, 0, 0, 0]) = digest_value [1, 0, 0, 0, 0]"
    by (rule tip5_to_atom_value) simp
  then have "registered (graft ?k) 1 = Some (digest_value [1, 0, 0, 0, 0])" "\<not> remembered (graft ?k) 7"
    by (simp_all add: demo_graft_def new_settle_graft_def remembered_def)
  with settle_note_verdict [OF c d r] have "7 \<in> settled (graft k')" by simp
  with r show ?thesis by blast
qed

end
