(* ===== verification/Config.thy ===== *)
theory Config
  imports Wallet
begin

text \<open>
  Settlement configuration: \<^verbatim>\<open>crates/vesl-core/src/config.rs\<close>, and the hull's wrapper of it in
  \<^verbatim>\<open>crates/vesl-hull/src/config.rs\<close> and \<^verbatim>\<open>signing.rs\<close>.  The value of the environment variable
  \<open>VESL_SEED_PHRASE\<close> is an argument, as are HMAC-SHA512 and the mnemonic parser; a key derivation that
  never returns is \<open>None\<close>.
\<close>

subsection \<open>Modes\<close>

datatype settlement_mode = Local | Fakenet | Dumbnet

primrec mode_display :: "settlement_mode \<Rightarrow> ustr" where
  "mode_display Local = lit ''local''"
| "mode_display Fakenet = lit ''fakenet''"
| "mode_display Dumbnet = lit ''dumbnet''"

text \<open>\<open>str::to_lowercase\<close>, as far as a comparison with an ASCII word sees it: the capitals of ASCII, and the
  one other character whose lower case is ASCII, the Kelvin sign.\<close>

definition lower_char :: "nat \<Rightarrow> nat" where
  "lower_char c = (if 65 \<le> c \<and> c \<le> 90 then c + 32 else if c = 0x212A then 107 else c)"

definition mode_from_str :: "ustr \<Rightarrow> settlement_mode option" where
  "mode_from_str s =
     (let t = map lower_char s
      in if t = lit ''local'' then Some Local
         else if t = lit ''fakenet'' then Some Fakenet
         else if t = lit ''dumbnet'' then Some Dumbnet
         else None)"


subsection \<open>Sources\<close>

record wallet_role_toml =
  rt_role :: "u32 option"
  rt_index :: "u32 option"

record wallet_toml =
  wt_seed_phrase :: "ustr option"
  wt_coin_type :: "u32 option"
  wt_account :: "u32 option"
  wt_intent :: "wallet_role_toml option"
  wt_payment :: "wallet_role_toml option"

record settlement_toml =
  st_mode :: "ustr option"
  st_chain_endpoint :: "ustr option"
  st_tx_fee :: "u64 option"
  st_coinbase_timelock_min :: "u64 option"
  st_accept_timeout_secs :: "u64 option"
  st_wallet :: "wallet_toml option"

record cli_overrides =
  cli_mode :: "settlement_mode option"
  cli_chain_endpoint :: "ustr option"
  cli_submit :: bool
  cli_tx_fee :: "u64 option"
  cli_coinbase_timelock_min :: "u64 option"
  cli_accept_timeout :: "u64 option"
  cli_seed_phrase :: "ustr option"
  cli_account :: "u32 option"


subsection \<open>The resolved wallet\<close>

record wallet_role_config =
  rc_role :: u32
  rc_index :: u32

record wallet_config =
  wc_seed_phrase :: "ustr option"
  wc_coin_type :: u32
  wc_account :: u32
  wc_intent :: wallet_role_config
  wc_payment :: wallet_role_config

definition default_shape :: wallet_config where
  "default_shape =
     \<lparr>wc_seed_phrase = None, wc_coin_type = VESL_COIN_TYPE_PLACEHOLDER, wc_account = 0,
      wc_intent = \<lparr>rc_role = ROLE_INTENT, rc_index = 0\<rparr>, wc_payment = \<lparr>rc_role = ROLE_X402, rc_index = 0\<rparr>\<rparr>"

definition or_keep :: "'a option \<Rightarrow> 'a \<Rightarrow> 'a" where
  "or_keep x d = (case x of None \<Rightarrow> d | Some y \<Rightarrow> y)"

definition override_role :: "wallet_role_toml option \<Rightarrow> wallet_role_config \<Rightarrow> wallet_role_config" where
  "override_role t c =
     (case t of
        None \<Rightarrow> c
      | Some r \<Rightarrow> c\<lparr>rc_role := or_keep (rt_role r) (rc_role c), rc_index := or_keep (rt_index r) (rc_index c)\<rparr>)"

definition apply_wallet_toml :: "wallet_toml \<Rightarrow> wallet_config \<Rightarrow> wallet_config" where
  "apply_wallet_toml t cfg =
     cfg\<lparr>wc_coin_type := or_keep (wt_coin_type t) (wc_coin_type cfg),
         wc_account := or_keep (wt_account t) (wc_account cfg),
         wc_intent := override_role (wt_intent t) (wc_intent cfg),
         wc_payment := override_role (wt_payment t) (wc_payment cfg)\<rparr>"

definition resolve_wallet :: "wallet_toml option \<Rightarrow> u32 option \<Rightarrow> ustr option \<Rightarrow> wallet_config option" where
  "resolve_wallet toml acct phrase =
     (if toml = None \<and> acct = None \<and> phrase = None then None
      else
        let cfg = default_shape;
            cfg = (case toml of None \<Rightarrow> cfg | Some t \<Rightarrow> apply_wallet_toml t cfg);
            cfg = (case acct of None \<Rightarrow> cfg | Some a \<Rightarrow> cfg\<lparr>wc_account := a\<rparr>)
        in Some (cfg\<lparr>wc_seed_phrase := phrase\<rparr>))"

type_synonym bip39 = "ustr \<Rightarrow> ustr + (ustr \<Rightarrow> bytes)"
type_synonym 'a signing_result = "(signing_error, 'a) outcome option"

definition build_wallet :: "mac \<Rightarrow> bip39 \<Rightarrow> wallet_config \<Rightarrow> vesl_wallet option signing_result" where
  "build_wallet hmac bip39 cfg =
     (case wc_seed_phrase cfg of
        None \<Rightarrow> Some (Ok None)
      | Some phrase \<Rightarrow>
          map_option (\<lambda>r. lift_wallet (and_then r (\<lambda>w. Ok (Some w))))
            (wallet_from_seed_phrase hmac bip39 phrase [] (wc_coin_type cfg)))"

definition intent_key_to_belts8 :: "private_key \<Rightarrow> u64 list" where
  "intent_key_to_belts8 k = (let belts = private_key_to_belts k in map (\<lambda>i. belts ! i) [0..<8])"

definition wallet_role_belts ::
  "mac \<Rightarrow> bip39 \<Rightarrow> wallet_config \<Rightarrow> u32 \<Rightarrow> u32 \<Rightarrow> u64 list option signing_result" where
  "wallet_role_belts hmac bip39 cfg r i =
     (case build_wallet hmac bip39 cfg of
        None \<Rightarrow> None
      | Some Panic \<Rightarrow> Some Panic
      | Some (Err e) \<Rightarrow> Some (Err e)
      | Some (Ok None) \<Rightarrow> Some (Ok None)
      | Some (Ok (Some w)) \<Rightarrow>
          map_option (\<lambda>r. lift_wallet (and_then r (\<lambda>d. Ok (Some (intent_key_to_belts8 (dk_private d))))))
            (derive hmac w (path_new (wc_coin_type cfg) (wc_account cfg) r i)))"


subsection \<open>The resolved configuration\<close>

record settlement_config =
  sc_mode :: settlement_mode
  sc_chain_endpoint :: "ustr option"
  sc_signing_key :: "u64 list option"
  sc_coinbase_timelock_min :: u64
  sc_tx_fee :: u64
  sc_auto_submit :: bool
  sc_accept_timeout_secs :: u64
  sc_wallet :: "wallet_config option"

datatype config_error =
    MissingEndpoint
  | IntentDerivation signing_error
  | DemoKeyOnDumbnet

definition local_config :: settlement_config where
  "local_config =
     \<lparr>sc_mode = Local, sc_chain_endpoint = None, sc_signing_key = None, sc_coinbase_timelock_min = 1,
      sc_tx_fee = 256, sc_auto_submit = False, sc_accept_timeout_secs = - 1, sc_wallet = None\<rparr>"

definition resolve_local :: "wallet_config option \<Rightarrow> settlement_config" where
  "resolve_local w =
     \<lparr>sc_mode = Local, sc_chain_endpoint = None, sc_signing_key = None, sc_coinbase_timelock_min = 1,
      sc_tx_fee = 256, sc_auto_submit = False, sc_accept_timeout_secs = - 1, sc_wallet = w\<rparr>"

text \<open>\<open>or\<close> on options: the first one that is there.\<close>

definition first_some :: "'a option \<Rightarrow> 'a option \<Rightarrow> 'a option" where
  "first_some x y = (case x of None \<Rightarrow> y | Some v \<Rightarrow> Some v)"

definition resolve_fakenet ::
  "cli_overrides \<Rightarrow> settlement_toml \<Rightarrow> u64 list option \<Rightarrow> wallet_config option \<Rightarrow> settlement_config" where
  "resolve_fakenet cli toml default_key w =
     \<lparr>sc_mode = Fakenet,
      sc_chain_endpoint = Some (or_keep (first_some (cli_chain_endpoint cli) (st_chain_endpoint toml))
        (lit ''http://localhost:9090'')),
      sc_signing_key = default_key,
      sc_coinbase_timelock_min = or_keep (first_some (cli_coinbase_timelock_min cli) (st_coinbase_timelock_min toml)) 1,
      sc_tx_fee = or_keep (first_some (cli_tx_fee cli) (st_tx_fee toml)) 256,
      sc_auto_submit = True,
      sc_accept_timeout_secs = or_keep (first_some (cli_accept_timeout cli) (st_accept_timeout_secs toml)) 300,
      sc_wallet = w\<rparr>"

type_synonym config_result = "(config_error, settlement_config) outcome option"

primrec derivation_failed :: "(signing_error, 'a) outcome \<Rightarrow> (config_error, 'a) outcome" where
  "derivation_failed (Ok x) = Ok x"
| "derivation_failed (Err e) = Err (IntentDerivation e)"
| "derivation_failed Panic = Panic"

definition resolve_dumbnet ::
  "mac \<Rightarrow> bip39 \<Rightarrow> cli_overrides \<Rightarrow> settlement_toml \<Rightarrow> wallet_config option \<Rightarrow> config_result" where
  "resolve_dumbnet hmac bip39 cli toml w =
     (case first_some (cli_chain_endpoint cli) (st_chain_endpoint toml) of
        None \<Rightarrow> Some (Err MissingEndpoint)
      | Some endpoint \<Rightarrow>
          map_option (\<lambda>r. and_then (derivation_failed r) (\<lambda>sk. Ok
            \<lparr>sc_mode = Dumbnet, sc_chain_endpoint = Some endpoint, sc_signing_key = sk,
             sc_coinbase_timelock_min = or_keep (first_some (cli_coinbase_timelock_min cli) (st_coinbase_timelock_min toml)) 1,
             sc_tx_fee = or_keep (first_some (cli_tx_fee cli) (st_tx_fee toml)) 256,
             sc_auto_submit = True,
             sc_accept_timeout_secs = or_keep (first_some (cli_accept_timeout cli) (st_accept_timeout_secs toml)) 900,
             sc_wallet = w\<rparr>))
            (case w of
               None \<Rightarrow> Some (Ok None)
             | Some c \<Rightarrow> wallet_role_belts hmac bip39 c (rc_role (wc_intent c)) (rc_index (wc_intent c))))"

definition resolve_mode :: "cli_overrides \<Rightarrow> settlement_toml \<Rightarrow> settlement_mode" where
  "resolve_mode cli toml =
     or_keep (first_some (cli_mode cli) (Option.bind (st_mode toml) mode_from_str))
       (if cli_chain_endpoint cli \<noteq> None \<or> cli_submit cli then Fakenet else Local)"

definition resolve_checked ::
  "mac \<Rightarrow> bip39 \<Rightarrow> ustr option \<Rightarrow> cli_overrides \<Rightarrow> settlement_toml \<Rightarrow> u64 list option \<Rightarrow> config_result" where
  "resolve_checked hmac bip39 env_phrase cli toml default_key =
     (let mode = resolve_mode cli toml;
          phrase = first_some (cli_seed_phrase cli)
            (first_some env_phrase (Option.bind (st_wallet toml) wt_seed_phrase));
          w = resolve_wallet (st_wallet toml) (cli_account cli) phrase
      in case mode of
           Local \<Rightarrow> Some (Ok (resolve_local w))
         | Fakenet \<Rightarrow> Some (Ok (resolve_fakenet cli toml default_key w))
         | Dumbnet \<Rightarrow> resolve_dumbnet hmac bip39 cli toml w)"

definition can_submit :: "settlement_config \<Rightarrow> bool" where
  "can_submit c \<longleftrightarrow> sc_auto_submit c \<and> sc_chain_endpoint c \<noteq> None \<and> sc_signing_key c \<noteq> None"

record chain_config =
  cc_endpoint :: ustr
  cc_poll_secs :: u64
  cc_accept_secs :: u64

definition chain_config_of :: "settlement_config \<Rightarrow> chain_config option" where
  "chain_config_of c =
     map_option (\<lambda>ep. \<lparr>cc_endpoint = ep, cc_poll_secs = 5, cc_accept_secs = sc_accept_timeout_secs c\<rparr>)
       (sc_chain_endpoint c)"

definition derive_role_belts ::
  "mac \<Rightarrow> bip39 \<Rightarrow> settlement_config \<Rightarrow> (wallet_config \<Rightarrow> u32 \<times> u32) \<Rightarrow> u64 list signing_result" where
  "derive_role_belts hmac bip39 c pick =
     (case sc_wallet c of
        None \<Rightarrow> Some (Err NoSeedPhrase)
      | Some w \<Rightarrow>
          (case pick w of (r, i) \<Rightarrow>
             map_option (\<lambda>res. and_then res (\<lambda>k. case k of None \<Rightarrow> Err NoSeedPhrase | Some b \<Rightarrow> Ok b))
               (wallet_role_belts hmac bip39 w r i)))"

definition intent_signer_belts :: "mac \<Rightarrow> bip39 \<Rightarrow> settlement_config \<Rightarrow> u64 list signing_result" where
  "intent_signer_belts hmac bip39 c =
     derive_role_belts hmac bip39 c (\<lambda>w. (rc_role (wc_intent w), rc_index (wc_intent w)))"

definition payment_signer_belts :: "mac \<Rightarrow> bip39 \<Rightarrow> settlement_config \<Rightarrow> u64 list signing_result" where
  "payment_signer_belts hmac bip39 c =
     derive_role_belts hmac bip39 c (\<lambda>w. (rc_role (wc_payment w), rc_index (wc_payment w)))"

definition config_display :: "settlement_config \<Rightarrow> ustr" where
  "config_display c =
     lit ''mode='' @ mode_display (sc_mode c) @
     (case sc_chain_endpoint c of None \<Rightarrow> [] | Some ep \<Rightarrow> lit '' endpoint='' @ ep) @
     (if sc_signing_key c \<noteq> None then lit '' key=present'' else [])"


subsection \<open>The hull\<close>

definition demo_signing_key :: "u64 list" where
  "demo_signing_key = [12345, 67890, 0, 0, 0, 0, 0, 0]"

definition is_demo_key :: "u64 list \<Rightarrow> bool" where
  "is_demo_key sk \<longleftrightarrow> sk = demo_signing_key"

record hull_role_toml =
  hr_role :: "u32 option"
  hr_index :: "u32 option"

record hull_wallet_toml =
  hw_seed_phrase :: "ustr option"
  hw_coin_type :: "u32 option"
  hw_account :: "u32 option"
  hw_intent :: "hull_role_toml option"
  hw_payment :: "hull_role_toml option"

record hull_rbac_toml =
  rbac_enabled_toml :: "bool option"

record hull_config =
  nock_home :: "ustr option"
  api_port :: "16 word option"
  hc_settlement_mode :: "ustr option"
  hc_chain_endpoint :: "ustr option"
  hc_tx_fee :: "u64 option"
  hc_coinbase_timelock_min :: "u64 option"
  hc_accept_timeout_secs :: "u64 option"
  hc_wallet :: "hull_wallet_toml option"
  hc_rbac :: "hull_rbac_toml option"

definition wallet_role_toml_from :: "hull_role_toml \<Rightarrow> wallet_role_toml" where
  "wallet_role_toml_from v = \<lparr>rt_role = hr_role v, rt_index = hr_index v\<rparr>"

definition wallet_toml_from :: "hull_wallet_toml \<Rightarrow> wallet_toml" where
  "wallet_toml_from v =
     \<lparr>wt_seed_phrase = hw_seed_phrase v, wt_coin_type = hw_coin_type v, wt_account = hw_account v,
      wt_intent = map_option wallet_role_toml_from (hw_intent v),
      wt_payment = map_option wallet_role_toml_from (hw_payment v)\<rparr>"

definition settlement_toml_from :: "hull_config \<Rightarrow> settlement_toml" where
  "settlement_toml_from v =
     \<lparr>st_mode = hc_settlement_mode v, st_chain_endpoint = hc_chain_endpoint v, st_tx_fee = hc_tx_fee v,
      st_coinbase_timelock_min = hc_coinbase_timelock_min v,
      st_accept_timeout_secs = hc_accept_timeout_secs v,
      st_wallet = map_option wallet_toml_from (hc_wallet v)\<rparr>"

definition hull_config_default :: hull_config where
  "hull_config_default =
     \<lparr>nock_home = None, api_port = None, hc_settlement_mode = None, hc_chain_endpoint = None, hc_tx_fee = None,
      hc_coinbase_timelock_min = None, hc_accept_timeout_secs = None, hc_wallet = None, hc_rbac = None\<rparr>"

text \<open>The file's contents, if it can be read, and the TOML parser.\<close>

definition load_config :: "(ustr \<Rightarrow> hull_config option) \<Rightarrow> ustr option \<Rightarrow> hull_config" where
  "load_config parse_toml contents =
     (case contents of
        None \<Rightarrow> hull_config_default
      | Some text \<Rightarrow> (case parse_toml text of None \<Rightarrow> hull_config_default | Some cfg \<Rightarrow> cfg))"

definition rbac_from_toml :: "hull_rbac_toml option \<Rightarrow> bool" where
  "rbac_from_toml t = or_keep (Option.bind t rbac_enabled_toml) False"

definition resolve_with_demo_key_checked ::
  "mac \<Rightarrow> bip39 \<Rightarrow> ustr option \<Rightarrow> cli_overrides \<Rightarrow> hull_config \<Rightarrow> config_result" where
  "resolve_with_demo_key_checked hmac bip39 env_phrase cli toml =
     map_option (\<lambda>r. and_then r (\<lambda>c.
         if sc_mode c = Dumbnet \<and> (case sc_signing_key c of None \<Rightarrow> False | Some sk \<Rightarrow> is_demo_key sk)
         then Err DemoKeyOnDumbnet
         else Ok c))
       (resolve_checked hmac bip39 env_phrase cli (settlement_toml_from toml) (Some demo_signing_key))"


subsection \<open>Keys of a configuration\<close>

lemma resolve_dumbnet_Ok:
  "resolve_dumbnet hmac bip39 cli toml w = Some (Ok c) \<Longrightarrow>
    sc_mode c = Dumbnet \<and> sc_auto_submit c \<and>
    (\<exists>ep. first_some (cli_chain_endpoint cli) (st_chain_endpoint toml) = Some ep \<and> sc_chain_endpoint c = Some ep) \<and>
    sc_tx_fee c = or_keep (first_some (cli_tx_fee cli) (st_tx_fee toml)) 256"
  by (auto simp: resolve_dumbnet_def split: option.splits)


lemma mode_round_trip: "mode_from_str (mode_display m) = Some m"
  by (cases m) (simp_all add: mode_from_str_def lower_char_def lit_def)

text \<open>A mode the file misspells is ignored, not reported: the configuration is that of a file without one.\<close>

lemma unknown_mode_ignored:
  "mode_from_str s = None \<Longrightarrow> resolve_mode cli (toml\<lparr>st_mode := Some s\<rparr>) = resolve_mode cli (toml\<lparr>st_mode := None\<rparr>)"
  by (simp add: resolve_mode_def)


subsection \<open>Properties\<close>

text \<open>The first value that is there, of a flag, the file and a default.\<close>

definition chosen :: "'a option \<Rightarrow> 'a option \<Rightarrow> 'a \<Rightarrow> 'a" where
  "chosen flag filed dflt = (case flag of Some v \<Rightarrow> v | None \<Rightarrow> (case filed of Some v \<Rightarrow> v | None \<Rightarrow> dflt))"

lemma chosen_eq: "or_keep (first_some x y) d = chosen x y d"
  by (simp add: or_keep_def first_some_def chosen_def split: option.split)

lemma resolved_phrase:
  "resolve_wallet toml acct phrase = Some w \<Longrightarrow> wc_seed_phrase w = phrase"
  "resolve_wallet toml acct phrase = None \<longleftrightarrow> toml = None \<and> acct = None \<and> phrase = None"
  by (auto simp: resolve_wallet_def Let_def split: if_splits)

lemma resolved_account:
  "resolve_wallet toml acct phrase = Some w \<Longrightarrow> wc_account w = chosen acct (Option.bind toml wt_account) 0"
  by (auto simp: resolve_wallet_def Let_def apply_wallet_toml_def or_keep_def default_shape_def chosen_def
      split: if_splits option.splits)

text \<open>A dumbnet configuration that resolved: its endpoint was configured, and its key is that of the wallet.\<close>

lemma resolve_dumbnet_fields:
  assumes "resolve_dumbnet hmac bip39 cli toml w = Some (Ok c)"
  shows "(cli_chain_endpoint cli \<noteq> None \<or> st_chain_endpoint toml \<noteq> None) \<and>
    (\<exists>sk. c = \<lparr>sc_mode = Dumbnet, sc_chain_endpoint = Some (chosen (cli_chain_endpoint cli) (st_chain_endpoint toml) d),
      sc_signing_key = sk,
      sc_coinbase_timelock_min = chosen (cli_coinbase_timelock_min cli) (st_coinbase_timelock_min toml) 1,
      sc_tx_fee = chosen (cli_tx_fee cli) (st_tx_fee toml) 256, sc_auto_submit = True,
      sc_accept_timeout_secs = chosen (cli_accept_timeout cli) (st_accept_timeout_secs toml) 900, sc_wallet = w\<rparr> \<and>
      (case w of None \<Rightarrow> sk = None
       | Some v \<Rightarrow> wallet_role_belts hmac bip39 v (rc_role (wc_intent v)) (rc_index (wc_intent v)) = Some (Ok sk)))"
proof -
  have failed: "derivation_failed r = Ok x \<longleftrightarrow> r = Ok x" for r and x :: 'x by (cases r) auto
  have first: "first_some x y = Some z \<Longrightarrow> (x \<noteq> None \<or> y \<noteq> None) \<and> z = chosen x y d" for x y :: "ustr option" and z
    by (auto simp: first_some_def chosen_def split: option.splits)
  obtain ep where ep: "first_some (cli_chain_endpoint cli) (st_chain_endpoint toml) = Some ep"
    using assms by (auto simp: resolve_dumbnet_def split: option.splits)
  show ?thesis using assms first [OF ep]
    by (cases w) (auto simp: resolve_dumbnet_def ep failed and_then_eq_Ok chosen_eq)
qed

text \<open>The key of a dumbnet configuration is the one at the intent path of its seed phrase.\<close>

lemma role_belts_derived:
  assumes "wallet_role_belts hmac bip39 cfg r i = Some (Ok (Some belts))"
  shows "\<exists>phrase w d. wc_seed_phrase cfg = Some phrase \<and>
    wallet_from_seed_phrase hmac bip39 phrase [] (wc_coin_type cfg) = Some (Ok w) \<and>
    derive hmac w (path_new (wc_coin_type cfg) (wc_account cfg) r i) = Some (Ok d) \<and>
    belts = intent_key_to_belts8 (dk_private d)"
proof -
  have lift: "lift_wallet r = Ok x \<longleftrightarrow> r = Ok x" for r and x :: 'a by (cases r) auto
  show ?thesis
    using assms
    by (auto simp: wallet_role_belts_def build_wallet_def lift and_then_eq_Ok split: option.splits outcome.splits)
qed

text \<open>C31: a resolved configuration is fixed by its sources. The mode is that of the flag, else the one the file
  spells, else fakenet when an endpoint or submission was asked for by a flag, else local. Outside local mode the
  endpoint, fee, time lock and timeout are those of the flag, else of the file, else the default of the mode; local mode
  has fixed values whatever the flags and the file say, and neither endpoint nor key. The seed phrase is that of the flag,
  else of the environment, else of the file. It can submit exactly when it is not local and has a key; the key of fakenet
  is the demo key; the key of dumbnet is never the demo key, and is the one derived from the seed phrase at the wallet's
  account and intent path.\<close>

theorem config_resolution:
  assumes "resolve_with_demo_key_checked hmac bip39 env cli toml = Some (Ok c)"
  shows "sc_mode c = chosen (cli_mode cli) (Option.bind (hc_settlement_mode toml) mode_from_str)
      (if cli_chain_endpoint cli \<noteq> None \<or> cli_submit cli then Fakenet else Local) \<and>
    (sc_mode c = Local \<longrightarrow> sc_chain_endpoint c = None \<and> sc_signing_key c = None \<and> sc_coinbase_timelock_min c = 1 \<and>
       sc_tx_fee c = 256 \<and> sc_accept_timeout_secs c = - 1) \<and>
    (sc_mode c \<noteq> Local \<longrightarrow>
       sc_coinbase_timelock_min c = chosen (cli_coinbase_timelock_min cli) (hc_coinbase_timelock_min toml) 1 \<and>
       sc_tx_fee c = chosen (cli_tx_fee cli) (hc_tx_fee toml) 256 \<and>
       sc_accept_timeout_secs c =
         chosen (cli_accept_timeout cli) (hc_accept_timeout_secs toml) (if sc_mode c = Fakenet then 300 else 900) \<and>
       sc_chain_endpoint c = Some (chosen (cli_chain_endpoint cli) (hc_chain_endpoint toml) (lit ''http://localhost:9090'')) \<and>
       (sc_mode c = Dumbnet \<longrightarrow> cli_chain_endpoint cli \<noteq> None \<or> hc_chain_endpoint toml \<noteq> None)) \<and>
    (sc_wallet c = None \<longleftrightarrow> hc_wallet toml = None \<and> cli_account cli = None \<and> cli_seed_phrase cli = None \<and> env = None) \<and>
    (\<forall>w. sc_wallet c = Some w \<longrightarrow>
       wc_account w = chosen (cli_account cli) (Option.bind (hc_wallet toml) hw_account) 0 \<and>
       wc_seed_phrase w = chosen (map_option Some (cli_seed_phrase cli)) (map_option Some env)
         (Option.bind (hc_wallet toml) hw_seed_phrase)) \<and>
    (can_submit c \<longleftrightarrow> sc_mode c \<noteq> Local \<and> sc_signing_key c \<noteq> None) \<and>
    (sc_mode c = Fakenet \<longrightarrow> sc_signing_key c = Some demo_signing_key) \<and>
    (sc_mode c = Dumbnet \<longrightarrow> sc_signing_key c \<noteq> Some demo_signing_key) \<and>
    (sc_mode c = Dumbnet \<and> sc_signing_key c = Some k \<longrightarrow>
       (\<exists>w phrase v d. sc_wallet c = Some w \<and> wc_seed_phrase w = Some phrase \<and>
          wallet_from_seed_phrase hmac bip39 phrase [] (wc_coin_type w) = Some (Ok v) \<and>
          derive hmac v (path_new (wc_coin_type w) (wc_account w) (rc_role (wc_intent w)) (rc_index (wc_intent w))) = Some (Ok d) \<and>
          k = intent_key_to_belts8 (dk_private d)))"
proof -
  let ?t = "settlement_toml_from toml"
  let ?phrase = "first_some (cli_seed_phrase cli) (first_some env (Option.bind (st_wallet ?t) wt_seed_phrase))"
  let ?w = "resolve_wallet (st_wallet ?t) (cli_account cli) ?phrase"
  from assms have r: "resolve_checked hmac bip39 env cli ?t (Some demo_signing_key) = Some (Ok c)"
    and d: "\<not> (sc_mode c = Dumbnet \<and> sc_signing_key c = Some demo_signing_key)"
    by (auto simp: resolve_with_demo_key_checked_def is_demo_key_def split: if_splits)
  have toml: "st_mode ?t = hc_settlement_mode toml" "st_chain_endpoint ?t = hc_chain_endpoint toml"
    "st_tx_fee ?t = hc_tx_fee toml" "st_coinbase_timelock_min ?t = hc_coinbase_timelock_min toml"
    "st_accept_timeout_secs ?t = hc_accept_timeout_secs toml"
    "Option.bind (st_wallet ?t) wt_account = Option.bind (hc_wallet toml) hw_account"
    "Option.bind (st_wallet ?t) wt_seed_phrase = Option.bind (hc_wallet toml) hw_seed_phrase"
    by (simp_all add: settlement_toml_from_def wallet_toml_from_def split: option.splits bind_splits)
  have wallet: "wc_account w = chosen (cli_account cli) (Option.bind (hc_wallet toml) hw_account) 0 \<and>
      wc_seed_phrase w = chosen (map_option Some (cli_seed_phrase cli)) (map_option Some env)
        (Option.bind (hc_wallet toml) hw_seed_phrase)" if "?w = Some w" for w
    using resolved_account [OF that] resolved_phrase(1) [OF that] unfolding toml
    by (simp add: chosen_def first_some_def split: option.split)
  have toml_none: "st_wallet ?t = None \<longleftrightarrow> hc_wallet toml = None" by (simp add: settlement_toml_from_def)
  have unknown: "?w = None \<longleftrightarrow> hc_wallet toml = None \<and> cli_account cli = None \<and> cli_seed_phrase cli = None \<and> env = None"
    unfolding resolved_phrase(2) toml_none toml by (auto simp: first_some_def split: option.split)
  have mode: "resolve_mode cli ?t = chosen (cli_mode cli) (Option.bind (hc_settlement_mode toml) mode_from_str)
      (if cli_chain_endpoint cli \<noteq> None \<or> cli_submit cli then Fakenet else Local)"
    by (simp only: resolve_mode_def chosen_eq toml)
  show ?thesis
  proof (cases "resolve_mode cli ?t")
    case Local
    then have "c = resolve_local ?w" using r by (simp add: resolve_checked_def Let_def)
    then show ?thesis using Local wallet unknown unfolding mode by (simp add: resolve_local_def can_submit_def)
  next
    case Fakenet
    then have "c = resolve_fakenet cli ?t (Some demo_signing_key) ?w" using r by (simp add: resolve_checked_def Let_def)
    then show ?thesis using Fakenet wallet unknown unfolding mode by (simp add: resolve_fakenet_def can_submit_def chosen_eq toml)
  next
    case Dumbnet
    then have dumb: "resolve_dumbnet hmac bip39 cli ?t ?w = Some (Ok c)" using r by (simp add: resolve_checked_def Let_def)
    from resolve_dumbnet_fields [OF this, where d="lit ''http://localhost:9090''"] obtain sk where
      ep: "cli_chain_endpoint cli \<noteq> None \<or> hc_chain_endpoint toml \<noteq> None"
      and c: "c = \<lparr>sc_mode = Dumbnet,
        sc_chain_endpoint = Some (chosen (cli_chain_endpoint cli) (hc_chain_endpoint toml) (lit ''http://localhost:9090'')),
        sc_signing_key = sk,
        sc_coinbase_timelock_min = chosen (cli_coinbase_timelock_min cli) (hc_coinbase_timelock_min toml) 1,
        sc_tx_fee = chosen (cli_tx_fee cli) (hc_tx_fee toml) 256, sc_auto_submit = True,
        sc_accept_timeout_secs = chosen (cli_accept_timeout cli) (hc_accept_timeout_secs toml) 900, sc_wallet = ?w\<rparr>"
      and sk: "case ?w of None \<Rightarrow> sk = None
        | Some v \<Rightarrow> wallet_role_belts hmac bip39 v (rc_role (wc_intent v)) (rc_index (wc_intent v)) = Some (Ok sk)"
      unfolding toml by blast
    have key: "\<exists>w phrase v d. ?w = Some w \<and> wc_seed_phrase w = Some phrase \<and>
          wallet_from_seed_phrase hmac bip39 phrase [] (wc_coin_type w) = Some (Ok v) \<and>
          derive hmac v (path_new (wc_coin_type w) (wc_account w) (rc_role (wc_intent w)) (rc_index (wc_intent w))) = Some (Ok d) \<and>
          k = intent_key_to_belts8 (dk_private d)" if "sk = Some k"
      using sk that role_belts_derived [of hmac bip39 _ _ _ k] by (fastforce split: option.splits)
    show ?thesis using d ep key unknown wallet Dumbnet unfolding mode by (simp add: c can_submit_def del: lit_Cons)
  qed
qed

theorem config_resolution_witness:
  "\<exists>c. resolve_with_demo_key_checked (\<lambda>_ _. []) (\<lambda>_. Inl []) None
      \<lparr>cli_mode = Some Fakenet, cli_chain_endpoint = None, cli_submit = False, cli_tx_fee = Some 7000,
       cli_coinbase_timelock_min = None, cli_accept_timeout = None, cli_seed_phrase = None, cli_account = None\<rparr>
      (hull_config_default\<lparr>hc_tx_fee := Some 5000\<rparr>) = Some (Ok c) \<and>
    sc_mode c = Fakenet \<and> can_submit c \<and> sc_tx_fee c = 7000"
proof -
  let ?cli = "\<lparr>cli_mode = Some Fakenet, cli_chain_endpoint = None, cli_submit = False, cli_tx_fee = Some 7000,
       cli_coinbase_timelock_min = None, cli_accept_timeout = None, cli_seed_phrase = None, cli_account = None\<rparr>"
  let ?toml = "hull_config_default\<lparr>hc_tx_fee := Some 5000\<rparr>"
  have m: "resolve_mode ?cli (settlement_toml_from ?toml) = Fakenet"
    by (simp add: resolve_mode_def or_keep_def first_some_def)
  obtain c where r: "resolve_with_demo_key_checked (\<lambda>_ _. []) (\<lambda>_. Inl []) None ?cli ?toml = Some (Ok c)"
    by (simp add: resolve_with_demo_key_checked_def resolve_checked_def m Let_def resolve_fakenet_def)
  have mode: "sc_mode c = Fakenet"
    by (rule config_resolution [OF r, THEN conjunct1, THEN trans]) (simp add: chosen_def)
  have "sc_tx_fee c = chosen (cli_tx_fee ?cli) (hc_tx_fee ?toml) 256"
    by (rule config_resolution [OF r, THEN conjunct2, THEN conjunct2, THEN conjunct1, THEN mp, THEN conjunct2, THEN conjunct1])
      (simp add: mode)
  then have "sc_tx_fee c = 7000" by (simp add: chosen_def)
  moreover have "can_submit c"
    unfolding config_resolution [OF r, THEN conjunct2, THEN conjunct2, THEN conjunct2, THEN conjunct2,
        THEN conjunct2, THEN conjunct1]
    using config_resolution [OF r, THEN conjunct2, THEN conjunct2, THEN conjunct2, THEN conjunct2,
        THEN conjunct2, THEN conjunct2, THEN conjunct1] mode by simp
  ultimately show ?thesis using r mode by blast
qed

end
