(* ===== verification/Gateway.thy ===== *)
theory Gateway
  imports Siwn Config "HOL-Library.Product_Lexorder" "HOL-Library.Multiset"
begin

text \<open>
  What stands in front of the service's handlers: the API key and the size of the body
  (\<^verbatim>\<open>crates/vesl-hull/src/api/auth.rs\<close>), the addresses a server may be bound to without a key and a client may
  speak plain text to (there and \<^verbatim>\<open>crates/nockchain-client-rs/src/lib.rs\<close>), and the summary of the grafts
  that composed the kernel (\<^verbatim>\<open>manifest_summary.rs\<close>).  The address parser of the standard library is modelled
  from its source.
\<close>

subsection \<open>Addresses\<close>

text \<open>A reader takes a prefix of the text and gives its value and the rest.\<close>

type_synonym 'a reader = "ustr \<Rightarrow> ('a \<times> ustr) option"

definition to_digit :: "nat \<Rightarrow> nat \<Rightarrow> nat option" where
  "to_digit radix c =
     (let d = (if 48 \<le> c \<and> c \<le> 57 then Some (c - 48)
               else if 97 \<le> c \<and> c \<le> 122 then Some (c - 87)
               else if 65 \<le> c \<and> c \<le> 90 then Some (c - 55) else None)
      in case d of None \<Rightarrow> None | Some v \<Rightarrow> if v < radix then Some v else None)"

definition digit_run :: "nat \<Rightarrow> ustr \<Rightarrow> ustr" where
  "digit_run radix s = takeWhile (\<lambda>c. to_digit radix c \<noteq> None) s"

definition run_value :: "nat \<Rightarrow> ustr \<Rightarrow> nat" where
  "run_value radix ds = foldl (\<lambda>v c. radix * v + the (to_digit radix c)) 0 ds"

definition read_number :: "nat \<Rightarrow> nat \<Rightarrow> bool \<Rightarrow> nat \<Rightarrow> nat reader" where
  "read_number radix max_digits allow_zero_prefix bound s =
     (let ds = digit_run radix s
      in if max_digits < length ds \<or> ds = [] then None
         else if \<not> allow_zero_prefix \<and> hd ds = 48 \<and> 1 < length ds then None
         else if bound \<le> run_value radix ds then None
         else Some (run_value radix ds, drop (length ds) s))"

definition read_given_char :: "nat \<Rightarrow> ustr \<Rightarrow> ustr option" where
  "read_given_char c s = (case s of [] \<Rightarrow> None | d # ds \<Rightarrow> if d = c then Some ds else None)"

definition read_separator :: "nat \<Rightarrow> nat \<Rightarrow> 'a reader \<Rightarrow> 'a reader" where
  "read_separator sep i inner s =
     (if 0 < i then Option.bind (read_given_char sep s) inner else inner s)"

fun read_octets :: "nat \<Rightarrow> nat \<Rightarrow> nat list reader" where
  "read_octets 0 i s = Some ([], s)"
| "read_octets (Suc k) i s =
     (case read_separator 46 i (read_number 10 3 False 256) s of
        None \<Rightarrow> None
      | Some (v, rest) \<Rightarrow> map_option (\<lambda>(vs, r). (v # vs, r)) (read_octets k (Suc i) rest))"

definition read_ipv4 :: "nat list reader" where
  "read_ipv4 = read_octets 4 0"

text \<open>The groups read, whether the last two came from a dotted address, and the rest.\<close>

fun read_groups :: "nat \<Rightarrow> nat \<Rightarrow> ustr \<Rightarrow> nat list \<times> bool \<times> ustr" where
  "read_groups 0 i s = ([], False, s)"
| "read_groups (Suc k) i s =
     (case (if 0 < k then read_separator 58 i read_ipv4 s else None) of
        Some (v4, rest) \<Rightarrow> ([256 * v4 ! 0 + v4 ! 1, 256 * v4 ! 2 + v4 ! 3], True, rest)
      | None \<Rightarrow>
          (case read_separator 58 i (read_number 16 4 True 65536) s of
             None \<Rightarrow> ([], False, s)
           | Some (g, rest) \<Rightarrow> (case read_groups k (Suc i) rest of (gs, v4, r) \<Rightarrow> (g # gs, v4, r))))"

definition read_ipv6 :: "nat list reader" where
  "read_ipv6 s =
     (case read_groups 8 0 s of
        (front, v4, rest) \<Rightarrow>
          if length front = 8 then Some (front, rest)
          else if v4 then None
          else case Option.bind (read_given_char 58 rest) (read_given_char 58) of
                 None \<Rightarrow> None
               | Some rest' \<Rightarrow>
                   (case read_groups (7 - length front) 0 rest' of
                      (back, _, r) \<Rightarrow> Some (front @ replicate (8 - length front - length back) 0 @ back, r)))"

datatype ip_addr = V4 "nat list" | V6 "nat list"

definition parse_ip :: "ustr \<Rightarrow> ip_addr option" where
  "parse_ip s =
     (case (case read_ipv4 s of Some (v, r) \<Rightarrow> Some (V4 v, r) | None \<Rightarrow> map_option (\<lambda>(v, r). (V6 v, r)) (read_ipv6 s)) of
        Some (a, []) \<Rightarrow> Some a
      | _ \<Rightarrow> None)"

primrec is_loopback :: "ip_addr \<Rightarrow> bool" where
  "is_loopback (V4 v) = (v ! 0 = 127)"
| "is_loopback (V6 v) = (v = [0, 0, 0, 0, 0, 0, 0, 1])"

definition loopback_text :: "ustr \<Rightarrow> bool" where
  "loopback_text h = (case parse_ip h of None \<Rightarrow> False | Some a \<Rightarrow> is_loopback a)"

text \<open>\<open>rsplit_once\<close> and \<open>split_once\<close> of the standard library.\<close>

definition before_last :: "nat \<Rightarrow> ustr \<Rightarrow> ustr" where
  "before_last c s =
     (if c \<in> set s then rev (tl (dropWhile (\<lambda>x. x \<noteq> c) (rev s))) else s)"

fun split_once :: "ustr \<Rightarrow> ustr \<Rightarrow> (ustr \<times> ustr) option" where
  "split_once p [] = (if p = [] then Some ([], []) else None)"
| "split_once p (c # s) =
     (if take (length p) (c # s) = p then Some ([], drop (length p) (c # s))
      else map_option (\<lambda>(a, b). (c # a, b)) (split_once p s))"

definition trim_brackets :: "ustr \<Rightarrow> ustr" where
  "trim_brackets s =
     (let b = (\<lambda>c. c = 91 \<or> c = 93) in rev (dropWhile b (rev (dropWhile b s))))"

definition is_loopback_bind :: "ustr \<Rightarrow> bool" where
  "is_loopback_bind bind_addr =
     (let h = trim_brackets (before_last 58 bind_addr)
      in h \<in> {lit ''127.0.0.1'', lit ''::1'', lit ''localhost''} \<or> loopback_text h)"

definition ascii_lower :: "nat \<Rightarrow> nat" where
  "ascii_lower c = (if 65 \<le> c \<and> c \<le> 90 then c + 32 else c)"

definition eq_ignore_ascii_case :: "ustr \<Rightarrow> ustr \<Rightarrow> bool" where
  "eq_ignore_ascii_case s t \<longleftrightarrow> map ascii_lower s = map ascii_lower t"

datatype endpoint_error = MissingScheme | PlaintextRemote ustr

definition endpoint_host :: "ustr \<Rightarrow> ustr" where
  "endpoint_host rest =
     (case rest of
        [] \<Rightarrow> []
      | c # v6 \<Rightarrow>
          if c = 91 then takeWhile (\<lambda>x. x \<noteq> 93) v6 else takeWhile (\<lambda>x. x \<noteq> 47 \<and> x \<noteq> 58) rest)"

definition reject_insecure_endpoint :: "ustr \<Rightarrow> endpoint_error + unit" where
  "reject_insecure_endpoint endpoint =
     (case split_once (lit ''://'') endpoint of
        None \<Rightarrow> Inl MissingScheme
      | Some (scheme, rest) \<Rightarrow>
          if eq_ignore_ascii_case scheme (lit ''https'') then Inr ()
          else
            let h = endpoint_host rest
            in if eq_ignore_ascii_case h (lit ''localhost'') \<or> loopback_text h then Inr () else Inl (PlaintextRemote h))"


subsection \<open>The API key\<close>

fun eq_bits :: "u8 \<Rightarrow> bytes \<Rightarrow> bytes \<Rightarrow> u8" where
  "eq_bits d (x # xs) (y # ys) = eq_bits (d OR (x XOR y)) xs ys"
| "eq_bits d _ _ = d"

definition constant_time_eq :: "bytes \<Rightarrow> bytes \<Rightarrow> bool" where
  "constant_time_eq a b \<longleftrightarrow> length a = length b \<and> eq_bits 0 a b = 0"

text \<open>\<open>HeaderValue::to_str\<close>: visible ASCII and tabs.\<close>

definition header_to_str :: "bytes \<Rightarrow> ustr option" where
  "header_to_str bs = (if list_all (\<lambda>b. 32 \<le> b \<and> b < 127 \<or> b = 9) bs then Some (map unat bs) else None)"

record request =
  req_path :: ustr
  authorization :: "bytes option"
  body_upper :: "nat option"

datatype refusal = Unauthorized | PayloadTooLarge

text \<open>The key of the environment is \<open>None\<close> when the variable is not set; \<open>no_auth\<close> is the flag set at start.\<close>

definition check_api_key :: "ustr option \<Rightarrow> bool \<Rightarrow> request \<Rightarrow> refusal + unit" where
  "check_api_key env no_auth req =
     (if req_path req = lit ''/health'' then Inr ()
      else if no_auth then Inr ()
      else case env of
             None \<Rightarrow> Inl Unauthorized
           | Some expected \<Rightarrow>
               if expected = [] then Inl Unauthorized
               else
                 let provided = Option.bind (Option.bind (authorization req) header_to_str) (strip_prefix (lit ''Bearer ''))
                 in (case provided of
                       None \<Rightarrow> Inl Unauthorized
                     | Some token \<Rightarrow> if constant_time_eq (utf8 token) (utf8 expected) then Inr () else Inl Unauthorized))"

definition HULL_BODY_LIMIT :: nat where "HULL_BODY_LIMIT = 4 * 1024 * 1024"

definition enforce_body_size_upfront :: "request \<Rightarrow> refusal + unit" where
  "enforce_body_size_upfront req =
     (case body_upper req of
        None \<Rightarrow> Inr ()
      | Some upper \<Rightarrow> if HULL_BODY_LIMIT < upper then Inl PayloadTooLarge else Inr ())"

text \<open>The layers are applied from the last one added.\<close>

definition enter :: "ustr option \<Rightarrow> bool \<Rightarrow> request \<Rightarrow> refusal + unit" where
  "enter env no_auth req = res_bind (check_api_key env no_auth req) (\<lambda>_. enforce_body_size_upfront req)"

datatype start_error = NoAuthExposed ustr | KeyNotSet

text \<open>The result is the value of the flag that turns authentication off, initially false.\<close>

definition check_auth_config_with_bind :: "ustr option \<Rightarrow> bool \<Rightarrow> ustr \<Rightarrow> start_error + bool" where
  "check_auth_config_with_bind env no_auth bind_addr =
     (if no_auth then (if \<not> is_loopback_bind bind_addr then Inl (NoAuthExposed bind_addr) else Inr True)
      else case env of
             None \<Rightarrow> Inl KeyNotSet
           | Some k \<Rightarrow> if k = [] then Inl KeyNotSet else Inr False)"

definition check_auth_config :: "ustr option \<Rightarrow> bool \<Rightarrow> start_error + bool" where
  "check_auth_config env no_auth = check_auth_config_with_bind env no_auth (lit ''127.0.0.1'')"


subsection \<open>The summary of the grafts\<close>

record manifest_summary =
  gate_of :: ustr
  graft_names :: "ustr list"
  manifest_shas :: "ustr \<rightharpoonup> ustr"

record gate_selection =
  single_gate :: "ustr option"
  gate_chain :: "ustr list option"

record graft_table =
  graft_name :: ustr
  priority :: "int option"
  gates :: "gate_selection option"

primrec join_with :: "ustr \<Rightarrow> ustr list \<Rightarrow> ustr" where
  "join_with sep [] = []"
| "join_with sep (x # xs) = (if xs = [] then x else x @ sep @ join_with sep xs)"

definition gate_resolve :: "gate_selection \<Rightarrow> ustr option" where
  "gate_resolve g =
     (case single_gate g of
        Some n \<Rightarrow> Some n
      | None \<Rightarrow> (case gate_chain g of Some chain \<Rightarrow> if chain \<noteq> [] then Some (join_with (lit ''&'') chain) else None
                | None \<Rightarrow> None))"

record discovered_graft =
  dg_name :: ustr
  dg_priority :: int
  dg_gate :: "ustr option"

text \<open>An entry of the directory: its extension and, if it can be read, its text.  Parsing gives the \<open>graft\<close>
  table of a well-formed manifest, if it has one.\<close>

record dir_entry =
  extension :: "ustr option"
  contents :: "ustr option"

definition discover :: "(ustr \<Rightarrow> graft_table option option) \<Rightarrow> dir_entry \<Rightarrow> (graft_table \<times> ustr) option" where
  "discover parse e =
     (if extension e \<noteq> Some (lit ''toml'') then None
      else case contents e of
             None \<Rightarrow> None
           | Some raw \<Rightarrow> (case parse raw of Some (Some g) \<Rightarrow> Some (g, raw) | _ \<Rightarrow> None))"

definition discovered :: "graft_table \<Rightarrow> discovered_graft" where
  "discovered g =
     \<lparr>dg_name = graft_name g, dg_priority = (case priority g of None \<Rightarrow> 0 | Some p \<Rightarrow> p),
      dg_gate = Option.bind (gates g) gate_resolve\<rparr>"

definition empty_summary :: manifest_summary where
  "empty_summary = \<lparr>gate_of = lit ''default-hash'', graft_names = [], manifest_shas = Map.empty\<rparr>"

datatype directory = Absent | Unreadable | Entries "dir_entry option list"

definition summarize :: "(bytes \<Rightarrow> ustr) \<Rightarrow> (graft_table \<times> ustr) list \<Rightarrow> manifest_summary" where
  "summarize sha256_hex found =
     (let shas = foldl (\<lambda>m (g, raw). m(graft_name g \<mapsto> sha256_hex (utf8 raw))) Map.empty found;
          by_priority = sort_key (\<lambda>d. (dg_priority d, dg_name d)) (map (\<lambda>(g, raw). discovered g) found)
      in \<lparr>gate_of = (case List.map_filter dg_gate by_priority of [] \<Rightarrow> lit ''default-hash'' | g # _ \<Rightarrow> g),
          graft_names = sorted_list_of_set (dom shas), manifest_shas = shas\<rparr>)"

text \<open>An entry of the listing that is \<open>None\<close> could not be listed; every other failure skips a file.\<close>

definition from_manifest_dir ::
  "(bytes \<Rightarrow> ustr) \<Rightarrow> (ustr \<Rightarrow> graft_table option option) \<Rightarrow> directory \<Rightarrow> manifest_summary option" where
  "from_manifest_dir sha256_hex parse d =
     (case d of
        Absent \<Rightarrow> Some empty_summary
      | Unreadable \<Rightarrow> None
      | Entries es \<Rightarrow>
          map_option (\<lambda>entries. summarize sha256_hex (List.map_filter (discover parse) entries)) (those es))"

subsection \<open>Readers\<close>

lemma eq_bits_zero: "length xs = length ys \<Longrightarrow> eq_bits d xs ys = 0 \<longleftrightarrow> d = 0 \<and> xs = ys"
proof (induction xs ys arbitrary: d rule: list_induct2)
  case (Cons x xs y ys)
  have "x XOR y = 0 \<longleftrightarrow> x = y" by (auto simp: bit_eq_iff bit_xor_iff)
  then have "d OR (x XOR y) = 0 \<longleftrightarrow> d = 0 \<and> x = y" by (simp add: or_eq_0_iff)
  with Cons show ?case by simp
qed simp

lemma constant_time_eq: "constant_time_eq a b \<longleftrightarrow> a = b"
  by (auto simp: constant_time_eq_def eq_bits_zero)

lemma to_digit_decimal: "48 \<le> c \<and> c \<le> 57 \<Longrightarrow> to_digit 10 c = Some (c - 48)"
  by (auto simp: to_digit_def)

lemma to_digit_stop: "c < 48 \<or> c = 58 \<Longrightarrow> to_digit r c = None"
  by (auto simp: to_digit_def)

lemma digit_run_decimal:
  assumes "rest = [] \<or> hd rest < 48 \<or> hd rest = 58"
  shows "digit_run 10 (decimal n @ rest) = decimal n"
proof -
  have "\<forall>c\<in>set (decimal n). to_digit 10 c \<noteq> None"
    using decimal_no_plus to_digit_decimal by fastforce
  moreover have "takeWhile (\<lambda>c. to_digit 10 c \<noteq> None) rest = []"
    using assms by (cases rest) (auto simp: to_digit_stop)
  ultimately show ?thesis by (simp add: digit_run_def takeWhile_append2)
qed

lemma run_value_decimal: "run_value 10 (decimal n) = n"
proof (induction n rule: decimal.induct)
  case (1 n)
  show ?case
  proof (cases "n < 10")
    case True
    then show ?thesis by (subst decimal.simps) (simp add: run_value_def to_digit_def)
  next
    case False
    with 1 have "foldl (\<lambda>v c. 10 * v + the (to_digit 10 c)) 0 (decimal (n div 10)) = n div 10" by (simp add: run_value_def)
    with False show ?thesis by (subst decimal.simps) (simp add: run_value_def to_digit_decimal)
  qed
qed

lemma decimal_length: "n < 10 ^ k \<Longrightarrow> 0 < k \<Longrightarrow> length (decimal n) \<le> k"
proof (induction k arbitrary: n)
  case (Suc k)
  show ?case
  proof (cases "n < 10")
    case True
    then show ?thesis by (subst decimal.simps) simp
  next
    case False
    then have "0 < k" using Suc.prems by (cases k) simp_all
    moreover have "n div 10 < 10 ^ k" using Suc.prems(1) by (simp add: div_less_iff_less_mult mult.commute)
    ultimately show ?thesis using Suc.IH [of "n div 10"] False by (subst decimal.simps) simp
  qed
qed simp

lemma decimal_zero_prefix: "hd (decimal n) = 48 \<Longrightarrow> length (decimal n) = 1"
proof (induction n rule: decimal.induct)
  case (1 n)
  show ?case
  proof (cases "n < 10")
    case True
    then show ?thesis by (subst decimal.simps) simp
  next
    case False
    then have "hd (decimal n) = hd (decimal (n div 10))" by (subst decimal.simps) simp
    with 1 False have "length (decimal (n div 10)) = 1" "hd (decimal (n div 10)) = 48" by auto
    then have "decimal (n div 10) = [48]" by (cases "decimal (n div 10)") auto
    then have "n div 10 = 0" using run_value_decimal [of "n div 10"] by (simp add: run_value_def to_digit_def)
    with False show ?thesis by simp
  qed
qed

lemma read_octet:
  assumes "n < 256" "rest = [] \<or> hd rest < 48 \<or> hd rest = 58"
  shows "read_number 10 3 False 256 (decimal n @ rest) = Some (n, rest)"
  using assms decimal_zero_prefix [of n] decimal_length [of n 3]
  by (auto simp: read_number_def Let_def digit_run_decimal run_value_decimal)

definition dotted :: "nat \<Rightarrow> nat \<Rightarrow> nat \<Rightarrow> nat \<Rightarrow> ustr" where
  "dotted a b c d = decimal a @ 46 # decimal b @ 46 # decimal c @ 46 # decimal d"

lemma read_dotted:
  assumes "a < 256" "b < 256" "c < 256" "d < 256" "rest = [] \<or> hd rest < 48 \<or> hd rest = 58"
  shows "read_ipv4 (dotted a b c d @ rest) = Some ([a, b, c, d], rest)"
proof -
  have four: "(4 :: nat) = Suc (Suc (Suc (Suc 0)))" by simp
  show ?thesis
    unfolding read_ipv4_def four using assms by (simp add: dotted_def read_separator_def read_given_char_def read_octet)
qed

lemma parse_dotted:
  assumes "a < 256" "b < 256" "c < 256" "d < 256"
  shows "parse_ip (dotted a b c d) = Some (V4 [a, b, c, d])"
  using read_dotted [OF assms, of "[]"] by (simp add: parse_ip_def)


text \<open>The name before the port.\<close>

lemma before_last_port: "58 \<notin> set port \<Longrightarrow> before_last 58 (h @ 58 # port) = h"
  by (simp add: before_last_def dropWhile_append2 dropWhile_append)

lemma dotted_chars: "x \<in> set (dotted a b c d) \<Longrightarrow> x = 46 \<or> 48 \<le> x \<and> x \<le> 57"
  using decimal_no_plus by (auto simp: dotted_def)

lemma trim_none: "(\<forall>x\<in>set s. x \<noteq> 91 \<and> x \<noteq> 93) \<Longrightarrow> trim_brackets s = s"
proof -
  assume a: "\<forall>x\<in>set s. x \<noteq> 91 \<and> x \<noteq> 93"
  have "dropWhile (\<lambda>c. c = 91 \<or> c = 93) s = s" using a by (cases s) auto
  moreover have "dropWhile (\<lambda>c. c = 91 \<or> c = 93) (rev s) = rev s" using a by (cases "rev s") (auto simp: rev_eq_Cons_iff)
  ultimately show ?thesis by (simp add: trim_brackets_def Let_def)
qed

lemma dotted_bind:
  assumes "a < 256" "b < 256" "c < 256" "d < 256" "58 \<notin> set port"
  shows "is_loopback_bind (dotted a b c d) \<longleftrightarrow> a = 127" "is_loopback_bind (dotted a b c d @ 58 # port) \<longleftrightarrow> a = 127"
proof -
  have t: "trim_brackets (dotted a b c d) = dotted a b c d" by (rule trim_none) (auto dest: dotted_chars)
  have n: "before_last 58 (dotted a b c d) = dotted a b c d" by (auto simp: before_last_def dest: dotted_chars)
  have l: "loopback_text (dotted a b c d) \<longleftrightarrow> a = 127"
    by (simp add: loopback_text_def parse_dotted [OF assms(1-4)])
  have d: "lit ''127.0.0.1'' = dotted 127 0 0 1" by (simp add: dotted_def decimal.simps lit_def)
  have "dotted a b c d = lit ''127.0.0.1'' \<Longrightarrow> a = 127"
    using parse_dotted [OF assms(1-4)] parse_dotted [of 127 0 0 1] by (simp add: d del: lit_Cons)
  moreover have "58 \<notin> set (dotted a b c d)" "108 \<notin> set (dotted a b c d)" by (auto dest: dotted_chars)
  then have "dotted a b c d \<noteq> lit ''::1''" "dotted a b c d \<noteq> lit ''localhost''" by (auto simp: lit_def)
  ultimately have "h = dotted a b c d \<Longrightarrow> h \<in> {lit ''127.0.0.1'', lit ''::1'', lit ''localhost''} \<or> loopback_text h \<longleftrightarrow> a = 127" for h
    using l by (auto simp del: lit_Cons)
  then show "is_loopback_bind (dotted a b c d) \<longleftrightarrow> a = 127" "is_loopback_bind (dotted a b c d @ 58 # port) \<longleftrightarrow> a = 127"
    using before_last_port [OF assms(5)] by (simp_all add: is_loopback_bind_def Let_def n t del: lit_Cons)
qed

text \<open>An IPv6 loopback address is not recognised as such, in brackets or bare, although the refusal names it; an
  address that is not one is taken for it.\<close>

lemmas address_eval = is_loopback_bind_def before_last_def trim_brackets_def loopback_text_def parse_ip_def read_ipv4_def
  read_ipv6_def read_separator_def read_given_char_def read_number_def digit_run_def run_value_def to_digit_def Let_def

lemma read_octets_4: "read_octets 4 = read_octets (Suc (Suc (Suc (Suc 0))))"
  by (simp add: numeral_eq_Suc)

lemma read_groups_8: "read_groups 8 = read_groups (Suc (Suc (Suc (Suc (Suc (Suc (Suc (Suc 0))))))))"
  by (simp add: numeral_eq_Suc)

lemma ipv6_loopback_refused: "\<not> is_loopback_bind (lit ''::1'')" "\<not> is_loopback_bind (lit ''[::1]'')"
  by (simp_all add: address_eval read_octets_4 read_groups_8)


lemma read_groups_7: "read_groups 7 = read_groups (Suc (Suc (Suc (Suc (Suc (Suc (Suc 0)))))))"
  by (simp add: numeral_eq_Suc)

lemma replicate_6: "replicate 6 x = [x, x, x, x, x, x]"
  by (simp add: numeral_eq_Suc)

lemma ipv6_other_accepted: "is_loopback_bind (lit ''[::1:5]'')" "parse_ip (lit ''::1:5'') = Some (V6 [0, 0, 0, 0, 0, 0, 1, 5])"
  by (simp_all add: address_eval read_octets_4 read_groups_8 read_groups_7 replicate_6)

text \<open>The user part of an authority is read as its host.\<close>

lemma userinfo_accepted: "reject_insecure_endpoint (lit ''http://localhost:x@node.example'') = Inr ()"
  by (simp add: reject_insecure_endpoint_def endpoint_host_def eq_ignore_ascii_case_def ascii_lower_def)


subsection \<open>The key of a request\<close>

definition visible :: "nat \<Rightarrow> bool" where
  "visible c \<longleftrightarrow> 32 \<le> c \<and> c < 127 \<or> c = 9"

lemma visible_byte: "(32 \<le> b \<and> b < 127 \<or> b = 9) \<longleftrightarrow> visible (unat b)" for b :: u8
  by (simp add: visible_def word_le_nat_alt word_less_nat_alt word_unat_eq_iff)

lemma utf8_visible: "\<forall>c\<in>set s. c < 128 \<Longrightarrow> utf8 s = map word_of_nat s"
  by (induction s) simp_all

lemma header_to_str: "header_to_str bs = Some s \<longleftrightarrow> (\<forall>c\<in>set s. visible c) \<and> bs = utf8 s"
proof
  assume "header_to_str bs = Some s"
  then have s: "s = map unat bs" "\<forall>b\<in>set bs. visible (unat b)"
    by (auto simp: header_to_str_def visible_byte list_all_iff split: if_splits)
  then have "\<forall>c\<in>set s. c < 128" by (auto simp: visible_def)
  then have "utf8 s = map word_of_nat s" by (rule utf8_visible)
  also have "\<dots> = bs" by (simp add: s(1) o_def)
  finally show "(\<forall>c\<in>set s. visible c) \<and> bs = utf8 s" using s by simp
next
  assume a: "(\<forall>c\<in>set s. visible c) \<and> bs = utf8 s"
  then have "\<forall>c\<in>set s. c < 128" by (auto simp: visible_def)
  then have b: "bs = map word_of_nat s" using a utf8_visible by simp
  have u: "unat (word_of_nat c :: u8) = c" if "c \<in> set s" for c
    using that a by (auto simp: visible_def unat_of_nat take_bit_nat_eq_self)
  then have "map unat bs = s" by (simp add: b map_idI)
  moreover have "list_all (\<lambda>b. visible (unat b)) (map word_of_nat s :: bytes)"
    using conjunct1 [OF a] u by (simp add: list_all_iff)
  then have "list_all (\<lambda>b. 32 \<le> b \<and> b < 127 \<or> b = 9) bs" by (simp only: b visible_byte)
  ultimately show "header_to_str bs = Some s" by (simp add: header_to_str_def)
qed

lemma key_presented:
  "(case Option.bind (Option.bind h header_to_str) (strip_prefix (lit ''Bearer '')) of
      None \<Rightarrow> False | Some token \<Rightarrow> constant_time_eq (utf8 token) (utf8 expected)) \<longleftrightarrow>
    (\<exists>token. h = Some (utf8 (lit ''Bearer '' @ token)) \<and> (\<forall>c\<in>set token. visible c) \<and> utf8 token = utf8 expected)"
proof -
  have v: "\<forall>c\<in>set (lit ''Bearer ''). visible c" by (simp add: visible_def)
  have "Option.bind (Option.bind h header_to_str) (strip_prefix (lit ''Bearer '')) = Some token \<longleftrightarrow>
      h = Some (utf8 (lit ''Bearer '' @ token)) \<and> (\<forall>c\<in>set token. visible c)" for token
  proof -
    have "strip_prefix p s = Some t \<longleftrightarrow> s = p @ t" for p s t :: ustr
      by (auto simp: strip_prefix_def) (metis append_take_drop_id)
    then show ?thesis using v by (auto simp: bind_eq_Some_conv header_to_str simp del: lit_Cons)
  qed
  moreover have "(case x of None \<Rightarrow> False | Some t \<Rightarrow> R t) \<longleftrightarrow> (\<exists>t. x = Some t \<and> R t)" for x :: "ustr option" and R
    by (cases x) auto
  ultimately show ?thesis by (simp only: constant_time_eq conj_assoc)
qed


subsection \<open>The order of the directory\<close>

lemma sort_key_permuted:
  assumes "mset xs = mset ys" "inj_on f (set xs)"
  shows "sort_key f xs = sort_key f ys"
proof -
  have m: "sort (map f zs) = map f (sort_key f zs)" for zs
  proof (rule properties_for_sort)
    show "mset (map f (sort_key f zs)) = mset (map f zs)" by (simp only: mset_map mset_sort)
    show "sorted (map f (sort_key f zs))" by (rule sorted_sort_key)
  qed
  have "sort (map f xs) = sort (map f ys)"
  proof (rule properties_for_sort)
    show "mset (sort (map f ys)) = mset (map f xs)" by (simp only: mset_map mset_sort assms(1))
    show "sorted (sort (map f ys))" by (rule sorted_sort)
  qed
  then have e: "map f (sort_key f xs) = map f (sort_key f ys)" by (simp only: m)
  have "set (sort_key f xs) \<union> set (sort_key f ys) = set xs"
    by (simp only: set_sort mset_eq_setD [OF assms(1)] Un_absorb)
  with assms(2) show ?thesis by (intro map_inj_on [OF e]) (simp only:)
qed

lemma shas_map_of:
  "foldl (\<lambda>m (g, raw). m(graft_name g \<mapsto> h raw)) m found = m ++ map_of (rev (map (\<lambda>(g, raw). (graft_name g, h raw)) found))"
  by (induction found rule: rev_induct) (auto simp: fun_eq_iff map_add_def)

lemma summarize_permuted:
  assumes "mset xs = mset ys" "distinct (map (\<lambda>(g, raw). graft_name g) xs)"
  shows "summarize sha256_hex xs = summarize sha256_hex ys"
proof -
  let ?p = "map (\<lambda>(g, raw). (graft_name g, sha256_hex (utf8 raw)))"
  have d: "distinct (map (\<lambda>(g, raw). graft_name g) ys)"
    using assms by (metis mset_eq_imp_distinct_iff mset_map)
  have fst_p: "fst \<circ> (\<lambda>(g, raw). (graft_name g, sha256_hex (utf8 raw))) = (\<lambda>(g, raw). graft_name g)" by auto
  have "map_of (rev (?p xs)) = map_of (rev (?p ys))"
    using assms(2) d mset_eq_setD [OF assms(1)]
    by (subst map_of_inject_set) (simp_all add: fst_p flip: rev_map)
  then have shas: "foldl (\<lambda>m (g, raw). m(graft_name g \<mapsto> sha256_hex (utf8 raw))) Map.empty xs =
      foldl (\<lambda>m (g, raw). m(graft_name g \<mapsto> sha256_hex (utf8 raw))) Map.empty ys"
    by (simp add: shas_map_of [where h = "\<lambda>raw. sha256_hex (utf8 raw)"])
  have "inj_on (\<lambda>d. (dg_priority d, dg_name d)) (set (map (\<lambda>(g, raw). discovered g) xs))"
    using assms(2) unfolding distinct_map by (fastforce simp: inj_on_def discovered_def)
  then have "sort_key (\<lambda>d. (dg_priority d, dg_name d)) (map (\<lambda>(g, raw). discovered g) xs) =
      sort_key (\<lambda>d. (dg_priority d, dg_name d)) (map (\<lambda>(g, raw). discovered g) ys)"
    by (intro sort_key_permuted) (simp_all add: assms(1))
  with shas show ?thesis by (simp add: summarize_def)
qed

lemma mset_map_filter: "mset xs = mset ys \<Longrightarrow> mset (List.map_filter f xs) = mset (List.map_filter f ys)"
proof -
  have "mset (List.map_filter f zs) = image_mset (the \<circ> f) (filter_mset (\<lambda>x. f x \<noteq> None) (mset zs))" for zs
    by (simp add: List.map_filter_def)
  then show "mset xs = mset ys \<Longrightarrow> mset (List.map_filter f xs) = mset (List.map_filter f ys)" by simp
qed

subsection \<open>Properties\<close>

text \<open>C32: a server that started checks no key only when it was told to, and then an IPv4 address it is bound to, with a
  port or without, is in the block 127 (IPv6 addresses are misjudged both ways, \<open>ipv6_loopback_refused\<close> and
  \<open>ipv6_other_accepted\<close>); a server that checks one has a key that is not empty. A request reaches a handler exactly when
  it announces no body over four megabytes and asks for the health check, or the server checks no key, or it presents the
  configured key after \<open>Bearer\<close>, byte for byte.\<close>

theorem gate_exact:
  assumes "check_auth_config_with_bind env no_auth bind_addr = Inr flag"
  shows "flag = no_auth \<and> (\<not> no_auth \<longrightarrow> (\<exists>key. env = Some key \<and> key \<noteq> [])) \<and>
    (no_auth \<and> a < 256 \<and> b < 256 \<and> c < 256 \<and> d < 256 \<and> 58 \<notin> set port \<and>
      (bind_addr = dotted a b c d \<or> bind_addr = dotted a b c d @ 58 # port) \<longrightarrow> a = 127) \<and>
    (enter env flag req = Inr () \<longleftrightarrow>
      (req_path req = lit ''/health'' \<or> no_auth \<or>
       (\<exists>key token. env = Some key \<and> key \<noteq> [] \<and> authorization req = Some (utf8 (lit ''Bearer '' @ token)) \<and>
          (\<forall>c\<in>set token. visible c) \<and> utf8 token = utf8 key)) \<and>
      (\<forall>n. body_upper req = Some n \<longrightarrow> n \<le> 4194304))"
proof -
  have f: "flag = no_auth" "no_auth \<longrightarrow> is_loopback_bind bind_addr" "\<not> no_auth \<longrightarrow> (\<exists>key. env = Some key \<and> key \<noteq> [])"
    using assms by (auto simp: check_auth_config_with_bind_def split: if_splits option.splits)
  have size: "enforce_body_size_upfront req = Inr () \<longleftrightarrow> (\<forall>n. body_upper req = Some n \<longrightarrow> n \<le> 4194304)"
    by (auto simp: enforce_body_size_upfront_def HULL_BODY_LIMIT_def split: option.split)
  have key: "check_api_key (Some key) False req = Inr () \<longleftrightarrow> req_path req = lit ''/health'' \<or>
      (\<exists>token. authorization req = Some (utf8 (lit ''Bearer '' @ token)) \<and> (\<forall>c\<in>set token. visible c) \<and> utf8 token = utf8 key)"
    if "key \<noteq> []" for key
    using that key_presented [where h = "authorization req" and expected = key]
    by (auto simp: check_api_key_def Let_def simp del: lit_Cons utf8_append split: option.splits if_splits)
  have "check_api_key env flag req = Inr () \<longleftrightarrow> req_path req = lit ''/health'' \<or> no_auth \<or>
       (\<exists>key token. env = Some key \<and> key \<noteq> [] \<and> authorization req = Some (utf8 (lit ''Bearer '' @ token)) \<and>
          (\<forall>c\<in>set token. visible c) \<and> utf8 token = utf8 key)"
  proof (cases no_auth)
    case True
    then show ?thesis using f by (simp add: check_api_key_def)
  next
    case False
    with f obtain k where k: "env = Some k" "k \<noteq> []" by blast
    show ?thesis unfolding k(1) f(1) using False key [OF k(2)] k(2) by auto
  qed
  moreover have "enter env flag req = Inr () \<longleftrightarrow>
      check_api_key env flag req = Inr () \<and> enforce_body_size_upfront req = Inr ()"
    by (auto simp: enter_def)
  moreover have "a = 127" if "no_auth" "a < 256" "b < 256" "c < 256" "d < 256" "58 \<notin> set port"
    "bind_addr = dotted a b c d \<or> bind_addr = dotted a b c d @ 58 # port"
    using that(7) f(2) that(1) dotted_bind [OF that(2-6)] by blast
  ultimately show ?thesis using f(1,3) size by blast
qed

theorem gate_exact_witness:
  "enter (Some (lit ''k'')) False \<lparr>req_path = lit ''/settle'', authorization = Some (utf8 (lit ''Bearer k'')), body_upper = Some 9\<rparr> = Inr ()"
proof -
  have "check_auth_config_with_bind (Some (lit ''k'')) False (lit ''0.0.0.0'') = Inr False"
    by (simp add: check_auth_config_with_bind_def)
  note exact = gate_exact [OF this, THEN conjunct2, THEN conjunct2, THEN conjunct2]
  have "enter (Some (lit ''k'')) False \<lparr>req_path = lit ''/settle'', authorization = Some (utf8 (lit ''Bearer k'')), body_upper = Some 9\<rparr> = Inr () \<longleftrightarrow>
    (\<exists>token. utf8 (lit ''Bearer k'') = utf8 (lit ''Bearer '' @ token) \<and> (\<forall>c\<in>set token. visible c) \<and> utf8 token = utf8 (lit ''k''))"
    unfolding exact by simp
  also have "\<dots>" by (rule exI [of _ "lit ''k''"]) (simp add: visible_def)
  finally show ?thesis by simp
qed

text \<open>A server that is bound to a dotted address, with a port or without, may start without a key exactly when
  the address is in the block 127.\<close>

theorem dotted_bind_exact:
  assumes "a < 256" "b < 256" "c < 256" "d < 256" "58 \<notin> set port"
  shows "(check_auth_config_with_bind env True (dotted a b c d) = Inr True \<longleftrightarrow> a = 127) \<and>
    (check_auth_config_with_bind env True (dotted a b c d @ 58 # port) = Inr True \<longleftrightarrow> a = 127)"
  using dotted_bind [OF assms] by (simp add: check_auth_config_with_bind_def)

theorem dotted_bind_exact_witness:
  "check_auth_config_with_bind None True (dotted 10 0 0 5 @ 58 # lit ''80'') \<noteq> Inr True"
  using dotted_bind_exact [of 10 0 0 5 "lit ''80''" None] by simp

text \<open>what the service reports of its grafts does not depend on the order in which the file system lists the
  directory, as long as no two manifests name the same graft.\<close>

theorem summary_order_irrelevant:
  assumes "mset es = mset es'"
    and "distinct (map (\<lambda>(g, raw). graft_name g) (List.map_filter (discover parse) es))"
  shows "from_manifest_dir sha256_hex parse (Entries (map Some es)) = from_manifest_dir sha256_hex parse (Entries (map Some es'))"
proof -
  have "those (map Some zs) = Some zs" for zs :: "dir_entry list" by (induction zs) simp_all
  then show ?thesis
    using summarize_permuted [OF mset_map_filter [OF assms(1)] assms(2)] by (simp add: from_manifest_dir_def)
qed

definition demo_entry :: "nat \<Rightarrow> dir_entry" where
  "demo_entry c = \<lparr>extension = Some (lit ''toml''), contents = Some [c]\<rparr>"

definition demo_parse :: "ustr \<Rightarrow> graft_table option option" where
  "demo_parse s = Some (Some \<lparr>graft_name = s, priority = None, gates = Some \<lparr>single_gate = Some s, gate_chain = None\<rparr>\<rparr>)"

theorem summary_order_irrelevant_witness:
  "from_manifest_dir (\<lambda>_. []) demo_parse (Entries (map Some [demo_entry 98, demo_entry 97])) =
   from_manifest_dir (\<lambda>_. []) demo_parse (Entries (map Some [demo_entry 97, demo_entry 98]))"
  by (rule summary_order_irrelevant) (simp_all add: demo_entry_def demo_parse_def discover_def List.map_filter_def)

end
