(* ===== verification/HullApi.thy ===== *)
theory HullApi
  imports Graft Gateway
begin

text \<open>
  The HTTP service: \<^verbatim>\<open>crates/vesl-hull/src\<close>: the payload builders of the gates (\<^verbatim>\<open>settle_builder.rs\<close>), the field
  verifier (\<^verbatim>\<open>verify.rs\<close>), the permission check (\<^verbatim>\<open>api/rbac.rs\<close>), the timed poke (\<^verbatim>\<open>api/poke.rs\<close>), the error
  mapping (\<^verbatim>\<open>api/error.rs\<close>), the shared state with its note counter (\<^verbatim>\<open>api/types.rs\<close>) and the handlers
  (\<^verbatim>\<open>api/handlers\<close>).  A handler holds the state's mutex for its whole body, so it is one step.  What a
  handler needs of the kernel is the locale \<open>settle_kernel\<close>, which the settle graft provides.  The \<open>hex\<close>
  crate, the JSON reader of proofs, and what became of a poke (\<open>delivery\<close>) are parameters.
\<close>

subsection \<open>Data\<close>

record field =
  f_key :: ustr
  f_value :: ustr

definition field_to_leaf_bytes :: "field \<Rightarrow> bytes" where
  "field_to_leaf_bytes f = utf8 (f_key f @ [58] @ f_value f)"

text \<open>\<open>serde_json::Value\<close>; \<open>JNumber\<close> is a number that is not an unsigned integer of 64 bits.  The keys of an
  object are distinct.\<close>

datatype json =
    JNull
  | JBool bool
  | JU64 u64
  | JNumber
  | JStr ustr
  | JArr "json list"
  | JObj "(ustr \<times> json) list"

definition json_get :: "json \<Rightarrow> string \<Rightarrow> json option" where
  "json_get v key = (case v of JObj m \<Rightarrow> map_of m (lit key) | _ \<Rightarrow> None)"

definition json_str :: "json \<Rightarrow> ustr option" where
  "json_str v = (case v of JStr s \<Rightarrow> Some s | _ \<Rightarrow> None)"

definition json_u64 :: "json \<Rightarrow> u64 option" where
  "json_u64 v = (case v of JU64 w \<Rightarrow> Some w | _ \<Rightarrow> None)"

definition json_array :: "json \<Rightarrow> json list option" where
  "json_array v = (case v of JArr xs \<Rightarrow> Some xs | _ \<Rightarrow> None)"

text \<open>The world outside: the kernel, and third-party functions.\<close>

record 'k host =
  h_poke :: "'k \<Rightarrow> noun \<Rightarrow> noun list \<times> 'k"
  h_peek :: "'k \<Rightarrow> noun \<Rightarrow> peek_answer"
  h_ne :: ne
  h_jam :: "noun \<Rightarrow> bytes"
  h_varlen :: "u64 list \<Rightarrow> tip5_hash"
  h_ten :: "u64 list \<Rightarrow> tip5_hash"
  hex_decode :: "ustr \<Rightarrow> bytes option"
  hex_encode :: "bytes \<Rightarrow> ustr"

datatype payload_builder = DefaultHash | ManifestVerify

record 'k app_state =
  app :: 'k
  committed :: "field list"
  app_tree :: "merkle_tree option"
  hull_id :: u64
  note_counter :: u64
  note_file :: "ustr option"
  settlement :: settlement_config
  manifest :: manifest_summary
  settle_builder :: payload_builder
  rbac_enabled :: bool
  kernel_ready :: bool


subsection \<open>The payload of a gate\<close>

datatype bad_request =
    InvalidHex
  | NoCommittedFields
  | NeedsTree
  | NeedsFields
  | NoFieldsGiven
  | MissingName nat
  | MissingValue nat
  | NotCommitted nat ustr ustr
  | FieldProof nat merkle_error

datatype builder_error = BadRequest bad_request | InternalError ustr

record settle_context =
  ctx_note_id :: u64
  ctx_hull_id :: u64
  ctx_root :: tip5_hash
  ctx_tree :: "merkle_tree option"
  ctx_fields :: "field list"

definition gate_name :: "payload_builder \<Rightarrow> ustr" where
  "gate_name b = (case b of DefaultHash \<Rightarrow> lit ''default-hash'' | ManifestVerify \<Rightarrow> lit ''manifest-verify'')"

definition payload_builder_for_gate :: "ustr \<Rightarrow> payload_builder" where
  "payload_builder_for_gate g =
     (if g = lit ''default-hash'' then DefaultHash else if g = lit ''manifest-verify'' then ManifestVerify
      else DefaultHash)"

definition default_hash_poke :: "'k host \<Rightarrow> settle_context \<Rightarrow> json \<Rightarrow> builder_error + noun" where
  "default_hash_poke w ctx body =
     res_bind
       (case Option.bind (json_get body ''data'') json_str of
          Some hex \<Rightarrow> (case hex_decode w hex of None \<Rightarrow> Inl (BadRequest InvalidHex) | Some bs \<Rightarrow> Inr bs)
        | None \<Rightarrow>
            (case ctx_fields ctx of
               [] \<Rightarrow> Inl (BadRequest NoCommittedFields)
             | f # _ \<Rightarrow> Inr (field_to_leaf_bytes f)))
       (\<lambda>leaf_bytes. Inr (build_settle_note_poke (h_jam w) (ctx_note_id ctx) (ctx_hull_id ctx) (ctx_root ctx) leaf_bytes))"

definition field_position :: "field list \<Rightarrow> ustr \<Rightarrow> ustr \<Rightarrow> nat option" where
  "field_position fs name x = find (\<lambda>j. f_key (fs ! j) = name \<and> f_value (fs ! j) = x) [0..<length fs]"

definition manifest_entry ::
  "settle_context \<Rightarrow> merkle_tree \<Rightarrow> nat \<times> json \<Rightarrow> builder_error + (bytes \<times> bytes) \<times> proof_node list" where
  "manifest_entry ctx t = (\<lambda>(i, spec).
     case Option.bind (json_get spec ''name'') json_str of
       None \<Rightarrow> Inl (BadRequest (MissingName i))
     | Some name \<Rightarrow>
         (case Option.bind (json_get spec ''value'') json_str of
            None \<Rightarrow> Inl (BadRequest (MissingValue i))
          | Some x \<Rightarrow>
              (case field_position (ctx_fields ctx) name x of
                 None \<Rightarrow> Inl (BadRequest (NotCommitted i name x))
               | Some idx \<Rightarrow>
                   let leaf = field_to_leaf_bytes \<lparr>f_key = name, f_value = x\<rparr>
                   in (case merkle_proof t idx of
                         Inl e \<Rightarrow> Inl (BadRequest (FieldProof i e))
                       | Inr pf \<Rightarrow> Inr ((utf8 name, leaf), pf)))))"

definition manifest_verify_poke :: "'k host \<Rightarrow> settle_context \<Rightarrow> json \<Rightarrow> builder_error + noun" where
  "manifest_verify_poke w ctx body =
     (case ctx_tree ctx of
        None \<Rightarrow> Inl (BadRequest NeedsTree)
      | Some t \<Rightarrow>
          (case Option.bind (json_get body ''fields'') json_array of
             None \<Rightarrow> Inl (BadRequest NeedsFields)
           | Some specs \<Rightarrow>
               if specs = [] then Inl (BadRequest NoFieldsGiven)
               else res_bind (collect (manifest_entry ctx t) (enumerate 0 specs)) (\<lambda>entries.
                 Inr (build_settle_note_manifest_poke (h_jam w) (ctx_note_id ctx) (ctx_hull_id ctx) (ctx_root ctx)
                        (map fst entries) (map snd entries)))))"

primrec build_payload :: "payload_builder \<Rightarrow> 'k host \<Rightarrow> settle_context \<Rightarrow> json \<Rightarrow> builder_error + noun" where
  "build_payload DefaultHash = default_hash_poke"
| "build_payload ManifestVerify = manifest_verify_poke"


subsection \<open>The field verifier\<close>

definition field_verify ::
  "'k host \<Rightarrow> (bytes \<Rightarrow> (field \<times> proof_node list) list option) \<Rightarrow> u64 \<Rightarrow> bytes \<Rightarrow> tip5_hash \<Rightarrow> bool" where
  "field_verify w read_json i bs rt =
     (case read_json bs of
        None \<Rightarrow> False
      | Some fwps \<Rightarrow>
          fwps \<noteq> [] \<and>
          list_all (\<lambda>(f, pf). verify_proof (h_varlen w) (h_ten w) (field_to_leaf_bytes f) pf rt) fwps)"

definition field_verifier :: "'k host \<Rightarrow> (bytes \<Rightarrow> (field \<times> proof_node list) list option) \<Rightarrow> noun verifier" where
  "field_verifier w read_json =
     \<lparr>verify_commitment = field_verify w read_json,
      build_settle_poke = (\<lambda>payload. Some (build_register_poke (note_hull (payload_note payload)) (expected_root payload)))\<rparr>"


subsection \<open>Errors\<close>

datatype http_error =
    EmptyFieldsArray
  | TooManyFields nat
  | FieldTooLarge nat
  | EmptyFieldKey nat
  | TreeBuildFailed merkle_error
  | MissingPubkey
  | PubkeyNotText
  | PubkeyNotHex
  | LacksPermission ustr ustr
  | KernelTimedOut
  | InternalFailure
  | UnparsableEffect ustr
  | AlreadyRegistered "ustr option"
  | RegisterRefused
  | NoEffects
  | GateDenial ustr
  | UnexpectedRejection ustr
  | UnexpectedDenial
  | UnexpectedEffect
  | HullNotInteger
  | NoteIdNotInteger
  | NoTreeCommitted
  | PayloadRefused builder_error
  | NoteRefused ustr
  | NoChain
  | NoEndpoint
  | ChainUnreachable
  | TxNotFound ustr
  | ChainFailure

definition refusal_status :: "ustr \<Rightarrow> nat" where
  "refusal_status cord =
     (if cord = lit ''settle-graft: malformed payload'' then 400
      else if cord \<in> set (map lit [''settle-graft: root not registered'', ''settle-graft: root mismatch'',
           ''settle-graft: note root does not match expected root'', ''settle-graft: note already settled'',
           ''settle-graft: note already settled (prior epoch)'']) then 409
      else if cord = lit ''settle-graft: verify gate crashed'' then 502
      else 409)"

primrec status_of :: "http_error \<Rightarrow> nat" where
  "status_of EmptyFieldsArray = 400"
| "status_of (TooManyFields n) = 400"
| "status_of (FieldTooLarge i) = 400"
| "status_of (EmptyFieldKey i) = 400"
| "status_of (TreeBuildFailed e) = 400"
| "status_of MissingPubkey = 400"
| "status_of PubkeyNotText = 400"
| "status_of PubkeyNotHex = 400"
| "status_of (LacksPermission key p) = 403"
| "status_of KernelTimedOut = 504"
| "status_of InternalFailure = 500"
| "status_of (UnparsableEffect t) = 502"
| "status_of (AlreadyRegistered r) = 409"
| "status_of RegisterRefused = 409"
| "status_of NoEffects = 409"
| "status_of (GateDenial r) = 409"
| "status_of (UnexpectedRejection t) = 502"
| "status_of UnexpectedDenial = 502"
| "status_of UnexpectedEffect = 502"
| "status_of HullNotInteger = 400"
| "status_of NoteIdNotInteger = 400"
| "status_of NoTreeCommitted = 400"
| "status_of (PayloadRefused e) = (case e of BadRequest r \<Rightarrow> 400 | InternalError m \<Rightarrow> 500)"
| "status_of (NoteRefused cord) = refusal_status cord"
| "status_of NoChain = 400"
| "status_of NoEndpoint = 400"
| "status_of ChainUnreachable = 502"
| "status_of (TxNotFound t) = 404"
| "status_of ChainFailure = 502"

datatype app_error = AppPokeFailed | AppPeekFailed

primrec crash_to_error :: "app_error poke_crash_error \<Rightarrow> http_error" where
  "crash_to_error Timeout = KernelTimedOut"
| "crash_to_error (KernelPoke e) = InternalFailure"
| "crash_to_error (UnexpectedTag t raw) = UnparsableEffect t"

definition decode_register_rejected_existing_root :: "'k host \<Rightarrow> noun \<Rightarrow> ustr option" where
  "decode_register_rejected_existing_root w effect =
     (case effect of
        Cell _ (Cell _ (Atom a)) \<Rightarrow>
          let bs = trim_trailing_zeros (h_ne w a) in Some (if bs = [] then lit ''00'' else hex_encode w bs)
      | _ \<Rightarrow> None)"


subsection \<open>Permissions\<close>

function trim_start_matches :: "ustr \<Rightarrow> ustr \<Rightarrow> ustr" where
  "trim_start_matches p s =
     (if p \<noteq> [] \<and> s \<noteq> [] \<and> take (length p) s = p then trim_start_matches p (drop (length p) s) else s)"
  by pat_completeness auto
termination by (relation "measure (\<lambda>(p, s). length s)") auto

declare trim_start_matches.simps [simp del]

definition build_rbac_has_perm_peek_path :: "'k host \<Rightarrow> ustr \<Rightarrow> ustr \<Rightarrow> noun option" where
  "build_rbac_has_perm_peek_path w pubkey_hex perm =
     (let stripped = trim_start_matches (lit ''0X'') (trim_start_matches (lit ''0x'') pubkey_hex)
      in map_option (\<lambda>bs. tuple [make_tag_in (lit ''rbac-has-perm''), make_atom_in bs, make_tag_in perm, Atom 0])
           (hex_decode w stripped))"

definition check_rbac_perm :: "'k host \<Rightarrow> 'k \<Rightarrow> ustr \<Rightarrow> ustr \<Rightarrow> http_error + app_error poke_outcome" where
  "check_rbac_perm w k pubkey_hex perm =
     (case build_rbac_has_perm_peek_path w pubkey_hex perm of
        None \<Rightarrow> Inl PubkeyNotHex
      | Some path \<Rightarrow>
          Inr (case h_peek w k path of
                 PeekFound slab \<Rightarrow>
                   (case peek_loobean (h_ne w) slab of
                      Some True \<Rightarrow> Accepted []
                    | Some False \<Rightarrow> Rejected (RbacDenied pubkey_hex perm)
                    | None \<Rightarrow> Crashed (UnexpectedTag
                        (lit ''rbac-has-perm: non-loobean result for pubkey '' @ pubkey_hex) []))
               | PeekAbsent \<Rightarrow> Rejected (RbacDenied pubkey_hex perm)
               | PeekFailed \<Rightarrow> Crashed (KernelPoke AppPeekFailed)))"

definition extract_pubkey_header :: "bytes option \<Rightarrow> http_error + ustr" where
  "extract_pubkey_header hdr =
     (case hdr of
        None \<Rightarrow> Inl MissingPubkey
      | Some bs \<Rightarrow> (case header_to_str bs of None \<Rightarrow> Inl PubkeyNotText | Some s \<Rightarrow> Inr s))"

definition handle_rbac_outcome :: "app_error poke_outcome \<Rightarrow> (http_error, unit) outcome" where
  "handle_rbac_outcome out =
     (case out of
        Accepted effects \<Rightarrow> Ok ()
      | Rejected (RbacDenied key perm) \<Rightarrow> Err (LacksPermission key perm)
      | Rejected _ \<Rightarrow> Panic
      | Crashed e \<Rightarrow> Err (crash_to_error e))"

definition rbac_precheck ::
  "'k host \<Rightarrow> bytes option \<Rightarrow> ustr \<Rightarrow> 'k app_state \<Rightarrow> (http_error, unit) outcome" where
  "rbac_precheck w hdr perm st =
     (if \<not> rbac_enabled st then Ok ()
      else case extract_pubkey_header hdr of
             Inl e \<Rightarrow> Err e
           | Inr key \<Rightarrow>
               (case check_rbac_perm w (app st) key perm of
                  Inl e \<Rightarrow> Err e
                | Inr out \<Rightarrow> handle_rbac_outcome out))"


subsection \<open>The timed poke\<close>

text \<open>What became of a poke: the kernel answered, or the driver gave up or failed, and then the kernel may
  have run the poke all the same.\<close>

datatype delivery = Delivered | TimedOut bool | DriverFailed bool

definition poke_kernel_with_timeout ::
  "'k host \<Rightarrow> delivery \<Rightarrow> 'k \<Rightarrow> noun \<Rightarrow> app_error poke_outcome \<times> 'k" where
  "poke_kernel_with_timeout w d k cause =
     (case h_poke w k cause of
        (effects, k') \<Rightarrow>
          (case d of
             Delivered \<Rightarrow> (classify_effects (h_ne w) effects, k')
           | TimedOut did \<Rightarrow> (Crashed Timeout, if did then k' else k)
           | DriverFailed did \<Rightarrow> (Crashed (KernelPoke AppPokeFailed), if did then k' else k)))"


subsection \<open>Commit\<close>

definition MAX_FIELDS :: nat where "MAX_FIELDS = 500"
definition MAX_FIELD_BYTES :: nat where "MAX_FIELD_BYTES = 100000"

fun check_fields :: "nat \<Rightarrow> field list \<Rightarrow> http_error + unit" where
  "check_fields i [] = Inr ()"
| "check_fields i (f # fs) =
     (if MAX_FIELD_BYTES < length (utf8 (f_key f)) \<or> MAX_FIELD_BYTES < length (utf8 (f_value f)) then Inl (FieldTooLarge i)
      else if f_key f = [] then Inl (EmptyFieldKey i)
      else check_fields (Suc i) fs)"

text \<open>\<open>{:016x}\<close> of the formatter.\<close>

definition hex_digit :: "nat \<Rightarrow> nat" where
  "hex_digit n = (if n < 10 then 48 + n else 87 + n)"

definition hex16 :: "u64 \<Rightarrow> ustr" where
  "hex16 x = map (\<lambda>i. hex_digit (unat x div 16 ^ i mod 16)) (rev [0..<16])"

definition format_tip5 :: "tip5_hash \<Rightarrow> ustr" where
  "format_tip5 h =
     lit ''['' @ hex16 (h ! 0) @ lit ''.'' @ hex16 (h ! 1) @ lit ''.'' @ hex16 (h ! 2) @ lit ''.'' @ hex16 (h ! 3) @
     lit ''.'' @ hex16 (h ! 4) @ lit '']''"

record commit_response =
  field_count :: nat
  commit_root :: ustr

definition register_verdict :: "'k host \<Rightarrow> app_error poke_outcome \<Rightarrow> (http_error, unit) outcome" where
  "register_verdict w out =
     (case out of
        Accepted effects \<Rightarrow>
          (case effects of
             [] \<Rightarrow> Panic
           | first # _ \<Rightarrow>
               if effect_head_tag (h_ne w) first = Some (lit ''settle-registered'') then Ok () else Err UnexpectedEffect)
      | Rejected (KernelRejected tag raw) \<Rightarrow>
          if tag = lit ''settle-register-rejected''
          then (case raw of [] \<Rightarrow> Panic | first # _ \<Rightarrow> Err (AlreadyRegistered (decode_register_rejected_existing_root w first)))
          else Err (UnexpectedRejection tag)
      | Rejected (KernelError cord raw) \<Rightarrow> Err RegisterRefused
      | Rejected Unknown \<Rightarrow> Err NoEffects
      | Rejected (GateDenied reason raw) \<Rightarrow> Err UnexpectedDenial
      | Rejected (RbacDenied key perm) \<Rightarrow> Panic
      | Crashed e \<Rightarrow> Err (crash_to_error e))"

definition commit_handler ::
  "'k host \<Rightarrow> delivery \<Rightarrow> bytes option \<Rightarrow> field list \<Rightarrow> 'k app_state \<Rightarrow>
    (http_error, commit_response) outcome \<times> 'k app_state" where
  "commit_handler w d hdr fs st =
     (if fs = [] then (Err EmptyFieldsArray, st)
      else if MAX_FIELDS < length fs then (Err (TooManyFields (length fs)), st)
      else
        case check_fields 0 fs of
          Inl e \<Rightarrow> (Err e, st)
        | Inr _ \<Rightarrow>
            (case merkle_build (h_varlen w) (h_ten w) (map field_to_leaf_bytes fs) of
               Inl e \<Rightarrow> (Err (TreeBuildFailed e), st)
             | Inr t \<Rightarrow>
                 (case rbac_precheck w hdr (lit ''commit'') st of
                    Err e \<Rightarrow> (Err e, st)
                  | Panic \<Rightarrow> (Panic, st)
                  | Ok _ \<Rightarrow>
                      let (out, k) = poke_kernel_with_timeout w d (app st)
                            (build_settle_register_poke (hull_id st) (merkle_root t));
                          st' = st\<lparr>app := k\<rparr>
                      in (case register_verdict w out of
                            Err e \<Rightarrow> (Err e, st')
                          | Panic \<Rightarrow> (Panic, st')
                          | Ok _ \<Rightarrow> (Ok \<lparr>field_count = length fs, commit_root = format_tip5 (merkle_root t)\<rparr>,
                                     st'\<lparr>committed := fs, app_tree := Some t\<rparr>)))))"


subsection \<open>Settle\<close>

text \<open>A number of the request's envelope, or its default when it is absent or null.\<close>

definition envelope_u64 :: "json \<Rightarrow> string \<Rightarrow> u64 \<Rightarrow> http_error \<Rightarrow> http_error + u64" where
  "envelope_u64 body key dflt err =
     (case json_get body key of
        None \<Rightarrow> Inr dflt
      | Some JNull \<Rightarrow> Inr dflt
      | Some v \<Rightarrow> (case json_u64 v of None \<Rightarrow> Inl err | Some x \<Rightarrow> Inr x))"

record settle_response =
  response_note_id :: u64
  response_root :: ustr
  effects_count :: nat

definition settle_verdict :: "'k host \<Rightarrow> app_error poke_outcome \<Rightarrow> (http_error, noun list) outcome" where
  "settle_verdict w out =
     (case out of
        Accepted effects \<Rightarrow>
          (case effects of
             [] \<Rightarrow> Panic
           | first # _ \<Rightarrow>
               if effect_head_tag (h_ne w) first = Some (lit ''settle-noted'') then Ok effects else Err UnexpectedEffect)
      | Rejected (KernelError cord raw) \<Rightarrow> Err (NoteRefused cord)
      | Rejected (GateDenied reason raw) \<Rightarrow> Err (GateDenial reason)
      | Rejected Unknown \<Rightarrow> Err NoEffects
      | Rejected (KernelRejected tag raw) \<Rightarrow> Err (UnexpectedRejection tag)
      | Rejected (RbacDenied key perm) \<Rightarrow> Panic
      | Crashed e \<Rightarrow> Err (crash_to_error e))"

text \<open>The counter's file is replaced atomically, or kept when it cannot be written.\<close>

definition save_note_counter :: "bool \<Rightarrow> ustr option \<Rightarrow> u64 \<Rightarrow> ustr option" where
  "save_note_counter written file counter = (if written then Some (decimal (unat counter)) else file)"

definition load_note_counter :: "ustr option \<Rightarrow> u64" where
  "load_note_counter file =
     (case file of
        None \<Rightarrow> 0
      | Some s \<Rightarrow> or_keep (parse_u64 (rev (dropWhile white_space (rev (dropWhile white_space s))))) 0)"

definition settle_poke_of ::
  "'k host \<Rightarrow> json \<Rightarrow> 'k app_state \<Rightarrow> http_error + u64 \<times> noun \<times> tip5_hash" where
  "settle_poke_of w body st =
     res_bind (envelope_u64 body ''hull'' (hull_id st) HullNotInteger) (\<lambda>h.
     res_bind (envelope_u64 body ''note_id'' (note_counter st + 1) NoteIdNotInteger) (\<lambda>i.
       case app_tree st of
         None \<Rightarrow> Inl NoTreeCommitted
       | Some t \<Rightarrow>
           let rt = merkle_root t;
               ctx = \<lparr>ctx_note_id = i, ctx_hull_id = h, ctx_root = rt, ctx_tree = Some t, ctx_fields = committed st\<rparr>
           in (case build_payload (settle_builder st) w ctx body of
                 Inl e \<Rightarrow> Inl (PayloadRefused e)
               | Inr poke \<Rightarrow> Inr (i, poke, rt))))"

definition settle_handler ::
  "'k host \<Rightarrow> delivery \<Rightarrow> bool \<Rightarrow> bytes option \<Rightarrow> json \<Rightarrow> 'k app_state \<Rightarrow>
    (http_error, settle_response) outcome \<times> 'k app_state" where
  "settle_handler w d written hdr body st =
     (case rbac_precheck w hdr (lit ''settle'') st of
        Err e \<Rightarrow> (Err e, st)
      | Panic \<Rightarrow> (Panic, st)
      | Ok _ \<Rightarrow>
          (case settle_poke_of w body st of
             Inl e \<Rightarrow> (Err e, st)
           | Inr (i, poke, rt) \<Rightarrow>
               let (out, k) = poke_kernel_with_timeout w d (app st) poke;
                   st' = st\<lparr>app := k\<rparr>
               in (case settle_verdict w out of
                     Err e \<Rightarrow> (Err e, st')
                   | Panic \<Rightarrow> (Panic, st')
                   | Ok effects \<Rightarrow>
                       let counter = note_counter st + 1
                       in (Ok \<lparr>response_note_id = i, response_root = format_tip5 rt, effects_count = length effects\<rparr>,
                           st'\<lparr>note_counter := counter, note_file := save_note_counter written (note_file st) counter\<rparr>))))"


subsection \<open>Verify, status and health\<close>

record verify_response =
  valid :: bool
  verified_key :: ustr
  verified_root :: ustr

definition verify_handler :: "'k host \<Rightarrow> field \<Rightarrow> ustr \<Rightarrow> 'k app_state \<Rightarrow> http_error + verify_response" where
  "verify_handler w f root_hex st =
     (case app_tree st of
        None \<Rightarrow> Inl NoTreeCommitted
      | Some t \<Rightarrow>
          let rt = merkle_root t;
              current = format_tip5 rt;
              target = (if root_hex = [] then current else root_hex);
              ok = (case field_position (committed st) (f_key f) (f_value f) of
                      None \<Rightarrow> False
                    | Some idx \<Rightarrow>
                        (case merkle_proof t idx of
                           Inl _ \<Rightarrow> False
                         | Inr pf \<Rightarrow> verify_proof (h_varlen w) (h_ten w) (field_to_leaf_bytes f) pf rt \<and> target = current))
          in Inr \<lparr>valid = ok, verified_key = f_key f, verified_root = target\<rparr>)"

record status_response =
  has_tree :: bool
  status_field_count :: nat
  status_root :: "ustr option"
  notes_settled :: u64
  status_hull_id :: u64
  status_mode :: ustr
  status_gate :: ustr
  status_grafts :: "ustr list"
  status_shas :: "ustr \<rightharpoonup> ustr"

definition status_handler :: "'k app_state \<Rightarrow> status_response" where
  "status_handler st =
     \<lparr>has_tree = app_tree st \<noteq> None, status_field_count = length (committed st),
      status_root = map_option (\<lambda>t. format_tip5 (merkle_root t)) (app_tree st), notes_settled = note_counter st,
      status_hull_id = hull_id st, status_mode = mode_display (sc_mode (settlement st)),
      status_gate = gate_of (manifest st), status_grafts = graft_names (manifest st),
      status_shas = manifest_shas (manifest st)\<rparr>"

definition health_handler :: "'k app_state \<Rightarrow> nat \<times> ustr \<times> ustr option" where
  "health_handler st =
     (if kernel_ready st then (200, lit ''ok'', None) else (503, lit ''booting'', Some (lit ''initializing'')))"

end
