(* ===== verification/Service.thy ===== *)
theory Service
  imports HullApi
begin

text \<open>
  The HTTP service and its kernel together: the runs of the service as a step relation over the handlers of
  \<^verbatim>\<open>HullApi\<close>, what holds of its state under the contract \<open>settle_kernel\<close>, and the same for the kernel of the two
  grafts.
\<close>

subsection \<open>Runs of the service\<close>

text \<open>A request is one step, since a handler holds the mutex throughout; a poke the driver gave up on, or one of
  another client of the kernel, may run between two requests.\<close>

inductive hull_steps :: "'k host \<Rightarrow> 'k app_state \<Rightarrow> 'k app_state \<Rightarrow> bool" for w where
  start: "hull_steps w st st"
| commit: "hull_steps w st st' \<Longrightarrow> hull_steps w st (snd (commit_handler w d hdr fs st'))"
| settle: "hull_steps w st st' \<Longrightarrow> hull_steps w st (snd (settle_handler w d written hdr body st'))"
| kernel: "hull_steps w st st' \<Longrightarrow> hull_steps w st (st'\<lparr>app := snd (h_poke w (app st') n)\<rparr>)"

definition root_atom :: "merkle_tree \<Rightarrow> nat" where
  "root_atom t = le_value (tip5_to_atom_le_bytes (merkle_root t))"

text \<open>What the service believes is what the kernel holds: its tree is the tree of its fields, and the kernel has
  the root of the tree registered for the hull.\<close>

definition in_sync :: "('k \<Rightarrow> nat \<Rightarrow> nat option) \<Rightarrow> 'k host \<Rightarrow> 'k app_state \<Rightarrow> bool" where
  "in_sync root_of w st \<longleftrightarrow>
     (\<forall>t. app_tree st = Some t \<longrightarrow>
        merkle_build (h_varlen w) (h_ten w) (map field_to_leaf_bytes (committed st)) = Inr t \<and>
        length (committed st) \<le> MAX_FIELDS \<and> root_of (app st) (unat (hull_id st)) = Some (root_atom t))"

lemma classify_accepted: "classify_effects ne es = Accepted es' \<Longrightarrow> es' = es \<and> es \<noteq> []"
  by (auto simp: classify_effects_def Let_def split: list.splits option.splits if_splits)

lemma timed_poke_accepted:
  assumes "poke_kernel_with_timeout w d k n = (Accepted es, k')"
  shows "h_poke w k n = (es, k') \<and> es \<noteq> []"
  using assms by (auto simp: poke_kernel_with_timeout_def split: prod.splits delivery.splits dest: classify_accepted)

lemma timed_poke_state:
  assumes "poke_kernel_with_timeout w d k n = (out, k')"
  shows "k' = k \<or> k' = snd (h_poke w k n)"
  using assms by (auto simp: poke_kernel_with_timeout_def split: prod.splits delivery.splits if_splits)

lemma register_verdict_Ok:
  "register_verdict w out = Ok u \<longleftrightarrow>
    (\<exists>e es. out = Accepted (e # es) \<and> effect_head_tag (h_ne w) e = Some (lit ''settle-registered''))"
  by (auto simp: register_verdict_def split: poke_outcome.splits list.splits rejection_reason.splits if_splits)

lemma settle_verdict_Ok:
  "settle_verdict w out = Ok es \<longleftrightarrow>
    (\<exists>e es'. es = e # es' \<and> out = Accepted es \<and> effect_head_tag (h_ne w) e = Some (lit ''settle-noted''))"
  by (auto simp: settle_verdict_def split: poke_outcome.splits list.splits rejection_reason.splits if_splits)

lemma commit_early:
  assumes "commit_handler w d hdr fs st = (r, st')"
    and "\<nexists>t. fs \<noteq> [] \<and> \<not> MAX_FIELDS < length fs \<and> check_fields 0 fs = Inr () \<and>
      merkle_build (h_varlen w) (h_ten w) (map field_to_leaf_bytes fs) = Inr t \<and>
      rbac_precheck w hdr (lit ''commit'') st = Ok ()"
  shows "st' = st \<and> (\<nexists>x. r = Ok x)"
proof (cases "fs = [] \<or> MAX_FIELDS < length fs")
  case True
  with assms(1) show ?thesis by (auto simp: commit_handler_def split: if_splits)
next
  case False
  show ?thesis
  proof (cases "check_fields 0 fs")
    case (Inl e)
    with False assms(1) show ?thesis by (simp add: commit_handler_def) blast
  next
    case c: (Inr u)
    show ?thesis
    proof (cases "merkle_build (h_varlen w) (h_ten w) (map field_to_leaf_bytes fs)")
      case (Inl e)
      with False c assms(1) show ?thesis by (simp add: commit_handler_def) blast
    next
      case m: (Inr t)
      with False c assms(2) have "rbac_precheck w hdr (lit ''commit'') st \<noteq> Ok ()" by auto
      with False c m assms(1) show ?thesis
        by (cases "rbac_precheck w hdr (lit ''commit'') st") (auto simp: commit_handler_def simp del: lit_Cons)
    qed
  qed
qed

lemma commit_poked:
  assumes "fs \<noteq> []" "\<not> MAX_FIELDS < length fs" "check_fields 0 fs = Inr ()"
    and "merkle_build (h_varlen w) (h_ten w) (map field_to_leaf_bytes fs) = Inr t"
    and "rbac_precheck w hdr (lit ''commit'') st = Ok ()"
    and "poke_kernel_with_timeout w d (app st) (build_settle_register_poke (hull_id st) (merkle_root t)) = (out, k)"
  shows "commit_handler w d hdr fs st =
    (case register_verdict w out of
       Err e \<Rightarrow> (Err e, st\<lparr>app := k\<rparr>)
     | Panic \<Rightarrow> (Panic, st\<lparr>app := k\<rparr>)
     | Ok _ \<Rightarrow> (Ok \<lparr>field_count = length fs, commit_root = format_tip5 (merkle_root t)\<rparr>,
                st\<lparr>app := k, committed := fs, app_tree := Some t\<rparr>))"
  unfolding commit_handler_def by (simp only: assms Let_def if_False sum.case outcome.case prod.case)

text \<open>A commit answers an error and leaves all but the kernel as it was, or the kernel acknowledged the root of
  the tree it stores.\<close>

definition kernel_only :: "'k host \<Rightarrow> 'k app_state \<Rightarrow> 'k app_state \<Rightarrow> bool" where
  "kernel_only w st st' \<longleftrightarrow> st' = st \<or> (\<exists>n. st' = st\<lparr>app := snd (h_poke w (app st) n)\<rparr>)"

lemma kernel_only_timed:
  "poke_kernel_with_timeout w d (app st) n = (out, k) \<Longrightarrow> kernel_only w st (st\<lparr>app := k\<rparr>)"
  using timed_poke_state [of w d "app st" n out k] by (auto simp: kernel_only_def)

lemma commit_cases:
  assumes "commit_handler w d hdr fs st = (r, st')"
  shows "(\<nexists>x. r = Ok x) \<and> kernel_only w st st' \<or>
    (\<exists>t e es k. length fs \<le> MAX_FIELDS \<and> merkle_build (h_varlen w) (h_ten w) (map field_to_leaf_bytes fs) = Inr t \<and>
      r = Ok \<lparr>field_count = length fs, commit_root = format_tip5 (merkle_root t)\<rparr> \<and>
      h_poke w (app st) (build_settle_register_poke (hull_id st) (merkle_root t)) = (e # es, k) \<and>
      effect_head_tag (h_ne w) e = Some (lit ''settle-registered'') \<and>
      st' = st\<lparr>app := k, committed := fs, app_tree := Some t\<rparr>)"
proof (cases "\<exists>t. fs \<noteq> [] \<and> \<not> MAX_FIELDS < length fs \<and> check_fields 0 fs = Inr () \<and>
      merkle_build (h_varlen w) (h_ten w) (map field_to_leaf_bytes fs) = Inr t \<and>
      rbac_precheck w hdr (lit ''commit'') st = Ok ()")
  case False
  with commit_early [OF assms] show ?thesis by (auto simp: kernel_only_def)
next
  case True
  then obtain t where t: "fs \<noteq> []" "\<not> MAX_FIELDS < length fs" "check_fields 0 fs = Inr ()"
    "merkle_build (h_varlen w) (h_ten w) (map field_to_leaf_bytes fs) = Inr t"
    "rbac_precheck w hdr (lit ''commit'') st = Ok ()" by blast
  obtain out k where p: "poke_kernel_with_timeout w d (app st) (build_settle_register_poke (hull_id st) (merkle_root t)) = (out, k)"
    by (rule surj_pair [THEN exE], erule exE)
  note r = commit_poked [OF t p, unfolded assms]
  show ?thesis
  proof (cases "register_verdict w out")
    case (Ok u)
    then obtain e es where o: "out = Accepted (e # es)" "effect_head_tag (h_ne w) e = Some (lit ''settle-registered'')"
      by (simp add: register_verdict_Ok del: lit_Cons) blast
    have "h_poke w (app st) (build_settle_register_poke (hull_id st) (merkle_root t)) = (e # es, k)"
      using timed_poke_accepted [OF p [unfolded o(1)]] by (rule conjunct1)
    moreover have "r = Ok \<lparr>field_count = length fs, commit_root = format_tip5 (merkle_root t)\<rparr> \<and>
        st' = st\<lparr>app := k, committed := fs, app_tree := Some t\<rparr>"
      using r Ok by simp
    moreover have "length fs \<le> MAX_FIELDS" using t(2) by simp
    ultimately show ?thesis using t(4) o(2) by blast
  next
    case (Err e)
    with r kernel_only_timed [OF p] show ?thesis by simp
  next
    case Panic
    with r kernel_only_timed [OF p] show ?thesis by simp
  qed
qed

text \<open>A settlement answers an error, or the kernel noted it; the fields and the tree stay.\<close>

lemma settle_poked:
  assumes "rbac_precheck w hdr (lit ''settle'') st = Ok ()" "settle_poke_of w body st = Inr (i, poke, rt)"
    and "poke_kernel_with_timeout w d (app st) poke = (out, k)"
  shows "settle_handler w d written hdr body st =
    (case settle_verdict w out of
       Err e \<Rightarrow> (Err e, st\<lparr>app := k\<rparr>)
     | Panic \<Rightarrow> (Panic, st\<lparr>app := k\<rparr>)
     | Ok es \<Rightarrow> (Ok \<lparr>response_note_id = i, response_root = format_tip5 rt, effects_count = length es\<rparr>,
                 st\<lparr>app := k, note_counter := note_counter st + 1,
                    note_file := save_note_counter written (note_file st) (note_counter st + 1)\<rparr>))"
  unfolding settle_handler_def by (simp only: assms Let_def sum.case outcome.case prod.case)

lemma settle_early:
  assumes "settle_handler w d written hdr body st = (r, st')"
    and "\<not> (rbac_precheck w hdr (lit ''settle'') st = Ok () \<and> (\<exists>x. settle_poke_of w body st = Inr x))"
  shows "st' = st \<and> (\<nexists>x. r = Ok x)"
proof (cases "rbac_precheck w hdr (lit ''settle'') st")
  case (Ok u)
  with assms(2) obtain e where "settle_poke_of w body st = Inl e" by (cases "settle_poke_of w body st") auto
  with Ok assms(1) show ?thesis by (auto simp: settle_handler_def simp del: lit_Cons)
qed (use assms(1) in \<open>auto simp: settle_handler_def simp del: lit_Cons\<close>)

lemma settle_cases:
  assumes "settle_handler w d written hdr body st = (r, st')"
  shows "(\<nexists>x. r = Ok x) \<and> kernel_only w st st' \<or>
    (\<exists>i poke rt e es k. settle_poke_of w body st = Inr (i, poke, rt) \<and>
      r = Ok \<lparr>response_note_id = i, response_root = format_tip5 rt, effects_count = length (e # es)\<rparr> \<and>
      h_poke w (app st) poke = (e # es, k) \<and> effect_head_tag (h_ne w) e = Some (lit ''settle-noted'') \<and>
      st' = st\<lparr>app := k, note_counter := note_counter st + 1,
         note_file := save_note_counter written (note_file st) (note_counter st + 1)\<rparr>)"
proof (cases "rbac_precheck w hdr (lit ''settle'') st = Ok () \<and> (\<exists>x. settle_poke_of w body st = Inr x)")
  case False
  with settle_early [OF assms] show ?thesis by (auto simp: kernel_only_def)
next
  case True
  then obtain x where x: "rbac_precheck w hdr (lit ''settle'') st = Ok ()" "settle_poke_of w body st = Inr x" by blast
  obtain i poke rt where "x = (i, poke, rt)" by (rule prod_cases3)
  with x have t: "rbac_precheck w hdr (lit ''settle'') st = Ok ()" "settle_poke_of w body st = Inr (i, poke, rt)"
    by simp_all
  obtain out k where p: "poke_kernel_with_timeout w d (app st) poke = (out, k)"
    by (rule surj_pair [THEN exE], erule exE)
  note r = settle_poked [OF t p, of written, unfolded assms]
  show ?thesis
  proof (cases "settle_verdict w out")
    case (Ok fx)
    then obtain e es where o: "fx = e # es" "out = Accepted (e # es)" "effect_head_tag (h_ne w) e = Some (lit ''settle-noted'')"
      by (simp add: settle_verdict_Ok del: lit_Cons) blast
    have "h_poke w (app st) poke = (e # es, k)" using timed_poke_accepted [OF p [unfolded o(2)]] by (rule conjunct1)
    moreover have "r = Ok \<lparr>response_note_id = i, response_root = format_tip5 rt, effects_count = length (e # es)\<rparr> \<and>
      st' = st\<lparr>app := k, note_counter := note_counter st + 1,
         note_file := save_note_counter written (note_file st) (note_counter st + 1)\<rparr>"
      using r Ok o(1) by simp
    ultimately show ?thesis using t(2) o(3) by blast
  next
    case (Err e)
    with r kernel_only_timed [OF p] show ?thesis by simp
  next
    case Panic
    with r kernel_only_timed [OF p] show ?thesis by simp
  qed
qed

lemma settle_keeps:
  assumes "settle_handler w d written hdr body st = (r, st')"
  shows "committed st' = committed st \<and> app_tree st' = app_tree st \<and> hull_id st' = hull_id st"
  using settle_cases [OF assms]
proof (elim disjE exE conjE)
  assume "kernel_only w st st'"
  then show ?thesis by (auto simp: kernel_only_def)
qed simp


subsection \<open>Under the contract of the kernel\<close>

context settle_kernel
begin

lemma sync_kernel:
  assumes "in_sync root_of w st" "h_poke w = kpoke" "kernel_only w st st'"
  shows "in_sync root_of w st'"
  using assms root_kept by (auto simp: in_sync_def kernel_only_def)

lemma sync_commit:
  assumes s: "in_sync root_of w st" and w: "h_poke w = kpoke" "h_ne w = ne"
    and c: "commit_handler w d hdr fs st = (r, st')"
  shows "in_sync root_of w st'"
  using commit_cases [OF c]
proof (elim disjE exE conjE)
  fix t e es k
  assume n: "length fs \<le> MAX_FIELDS" and t: "merkle_build (h_varlen w) (h_ten w) (map field_to_leaf_bytes fs) = Inr t"
    "h_poke w (app st) (build_settle_register_poke (hull_id st) (merkle_root t)) = (e # es, k)"
    "effect_head_tag (h_ne w) e = Some (lit ''settle-registered'')"
    "st' = st\<lparr>app := k, committed := fs, app_tree := Some t\<rparr>"
  have "root_of k (unat (hull_id st)) = Some (root_atom t)"
    using root_registered [OF t(2,3) [unfolded w]] by (simp add: root_atom_def)
  with n t(1,4) show ?thesis by (simp add: in_sync_def)
qed (rule sync_kernel [OF s w(1)])

lemma sync_settle:
  assumes s: "in_sync root_of w st" and w: "h_poke w = kpoke"
    and c: "settle_handler w d written hdr body st = (r, st')"
  shows "in_sync root_of w st'"
  using settle_cases [OF c]
proof (elim disjE exE conjE)
  fix poke e es k
  assume k: "h_poke w (app st) poke = (e # es, k)"
    "st' = st\<lparr>app := k, note_counter := note_counter st + 1,
         note_file := save_note_counter written (note_file st) (note_counter st + 1)\<rparr>"
  then have "kernel_only w st (st\<lparr>app := k\<rparr>)" by (auto simp: kernel_only_def intro!: exI [of _ poke])
  then have "in_sync root_of w (st\<lparr>app := k\<rparr>)" by (rule sync_kernel [OF s w])
  with k(2) show ?thesis by (simp add: in_sync_def)
qed (rule sync_kernel [OF s w])

lemma sync_steps:
  assumes "hull_steps w st st'" "in_sync root_of w st" "h_poke w = kpoke" "h_ne w = ne"
  shows "in_sync root_of w st'"
  using assms(1,2)
proof (induction rule: hull_steps.induct)
  case (commit st st' d hdr fs)
  show ?case by (rule sync_commit [OF commit.IH [OF commit.prems] assms(3,4) prod.collapse [symmetric]])
next
  case (settle st st' d written hdr body)
  show ?case by (rule sync_settle [OF settle.IH [OF settle.prems] assms(3) prod.collapse [symmetric]])
next
  case (kernel st st' n)
  have "kernel_only w st' (st'\<lparr>app := snd (h_poke w (app st') n)\<rparr>)" by (auto simp: kernel_only_def)
  then show ?case by (rule sync_kernel [OF kernel.IH [OF kernel.prems] assms(3)])
qed simp

text \<open>Once a tree is committed, nothing replaces it.\<close>

lemma commit_refused:
  assumes s: "in_sync root_of w st" and w: "h_poke w = kpoke" "h_ne w = ne" and t: "app_tree st = Some t"
    and c: "commit_handler w d hdr fs st = (r, st')"
  shows "(\<nexists>x. r = Ok x) \<and> kernel_only w st st'"
  using commit_cases [OF c]
proof (elim disjE exE conjE)
  fix t' e es k
  assume "h_poke w (app st) (build_settle_register_poke (hull_id st) (merkle_root t')) = (e # es, k)"
    "effect_head_tag (h_ne w) e = Some (lit ''settle-registered'')"
  then have "root_of (app st) (unat (hull_id st)) = None" using root_registered w by blast
  then show ?thesis using s t by (simp add: in_sync_def)
qed (rule conjI)

lemma committed_stays:
  assumes "hull_steps w st st'" "in_sync root_of w st" "h_poke w = kpoke" "h_ne w = ne" "app_tree st = Some t"
  shows "committed st' = committed st \<and> app_tree st' = Some t"
  using assms(1,2,5)
proof (induction rule: hull_steps.induct)
  case (commit st st' d hdr fs)
  then have t: "app_tree st' = Some t" "committed st' = committed st" by simp_all
  have s: "in_sync root_of w st'" using sync_steps [OF commit.hyps commit.prems(1) assms(3,4)] .
  have "kernel_only w st' (snd (commit_handler w d hdr fs st'))"
    using commit_refused [OF s assms(3,4) t(1) prod.collapse [symmetric]] by (rule conjunct2)
  with t show ?case by (auto simp: kernel_only_def)
next
  case (settle st st' d written hdr body)
  then show ?case using settle_keeps [OF prod.collapse [symmetric], of w d written hdr body st'] by simp
qed simp_all

end


subsection \<open>Over the two grafts\<close>

text \<open>A host whose kernel is composed of the two grafts, whose atoms read as their value and whose \<open>cue\<close> reads
  what its \<open>jam\<close> writes.\<close>

definition graft_host :: "(nat \<Rightarrow> noun option) \<Rightarrow> gate \<Rightarrow> kernel_state host \<Rightarrow> bool" where
  "graft_host cue veri w \<longleftrightarrow>
     h_poke w = kernel_poke cue veri \<and> h_peek w = kernel_peek \<and> ne_law (h_ne w) \<and> (\<forall>n. cue_reads (h_jam w) cue n)"

lemma graft_hostD:
  assumes "graft_host cue veri w"
  shows "h_poke w = kernel_poke cue veri" "h_peek w = kernel_peek" "ne_law (h_ne w)" "h_ne w = lawful (h_ne w)"
    "cue_reads (h_jam w) cue n"
  using assms by (simp_all add: graft_host_def lawful_id)

lemma graft_sync:
  assumes "graft_host cue veri w" "app_tree st0 = None" "hull_steps w st0 st"
  shows "in_sync kernel_root w st"
  using assms(2)
  by (intro graft_kernel.sync_steps [OF assms(3) _ graft_hostD(1,4) [OF assms(1)]]) (simp add: in_sync_def)

lemma graft_moves:
  assumes "graft_host cue veri w" "kernel_only w st st'"
  shows "settle_steps cue veri (graft (app st)) (graft (app st'))"
proof -
  have one: "settle_steps cue veri g (snd (settle_poke cue veri g c))" for g c
    using settle_steps.poke [OF settle_steps.stay] .
  have "settle_steps cue veri (graft k) (graft (snd (kernel_poke cue veri k n)))" for k n
    using kernel_poke_state [of cue veri k n] one settle_steps.stay by auto
  then show ?thesis
    using assms(2) by (auto simp: kernel_only_def graft_hostD(1) [OF assms(1)] intro: settle_steps.stay)
qed

text \<open>Every settle poke carries a payload of one leaf.\<close>

lemma payload_form:
  assumes "build_payload b w ctx body = Inr poke"
  shows "\<exists>x. poke = build_settle_note_poke_with_data (h_jam w) (ctx_note_id ctx) (ctx_hull_id ctx) (ctx_root ctx) x"
proof (cases b)
  case DefaultHash
  with assms show ?thesis by (auto simp: default_hash_poke_def build_settle_note_poke_def)
next
  case ManifestVerify
  with assms show ?thesis
    by (auto simp: manifest_verify_poke_def build_settle_note_manifest_poke_def Let_def
        split: option.splits if_splits)
qed

lemma settle_poke_form:
  assumes "settle_poke_of w body st = Inr (i, poke, rt)"
  shows "\<exists>t h x. app_tree st = Some t \<and> rt = merkle_root t \<and> poke = build_settle_note_poke_with_data (h_jam w) i h rt x \<and>
    envelope_u64 body ''hull'' (hull_id st) HullNotInteger = Inr h \<and>
    envelope_u64 body ''note_id'' (note_counter st + 1) NoteIdNotInteger = Inr i"
proof (cases "app_tree st")
  case None
  with assms show ?thesis by (auto simp: settle_poke_of_def)
next
  case (Some t)
  with assms obtain h j where h: "envelope_u64 body ''hull'' (hull_id st) HullNotInteger = Inr h"
      "envelope_u64 body ''note_id'' (note_counter st + 1) NoteIdNotInteger = Inr j"
    and c: "(case build_payload (settle_builder st) w \<lparr>ctx_note_id = j, ctx_hull_id = h, ctx_root = merkle_root t,
        ctx_tree = Some t, ctx_fields = committed st\<rparr> body of
      Inl e \<Rightarrow> Inl (PayloadRefused e) | Inr poke \<Rightarrow> Inr (j, poke, merkle_root t)) = Inr (i, poke, rt)"
    by (auto simp: settle_poke_of_def Let_def)
  from c have b: "build_payload (settle_builder st) w \<lparr>ctx_note_id = i, ctx_hull_id = h, ctx_root = merkle_root t,
        ctx_tree = Some t, ctx_fields = committed st\<rparr> body = Inr poke" "rt = merkle_root t" "j = i"
    by (simp_all split: sum.split_asm)
  from payload_form [OF b(1)] Some h b(2,3) show ?thesis by simp
qed

text \<open>How the service answers each of the graft's effects.\<close>

lemma suffix_lit: "suffix (lit s) (lit t) \<longleftrightarrow> suffix s t"
proof
  assume "suffix (lit s) (lit t)"
  then obtain zs where "suffix zs t" "map of_char s = (map of_char zs :: ustr)" unfolding lit_def using suffix_map_rightE by blast
  then have "lit s = lit zs" by (simp only: lit_def)
  with \<open>suffix zs t\<close> show "suffix s t" by simp
qed (simp add: lit_def map_mono_suffix)

lemma classify_tag:
  assumes "effect_head_tag ne e = Some (lit s)"
  shows "classify_effects ne (e # es) =
    (if suffix ''-error'' s then Rejected (KernelError (cord_or_default (decode_effect_cord ne e)) (e # es))
     else if suffix ''-rejected'' s then Rejected (KernelRejected (lit s) (e # es))
     else if suffix ''-denied'' s then Rejected (GateDenied (cord_or_default (decode_effect_cord ne e)) (e # es))
     else Accepted (e # es))"
  using assms by (simp add: classify_effects_def suffix_lit del: lit_Cons)

lemma effect_cord:
  assumes "ne_law ne" "ascii_term m"
  shows "decode_effect_cord ne (Cell h (Atom (tas m))) = Some (lit m)"
  using head_tag [OF assms] by (simp add: effect_head_tag_def decode_effect_cord_def)

lemma tag_suffixes [simp]:
  "suffix ''-error'' ''settle-error''" "suffix ''-denied'' ''settle-denied''"
  "\<not> suffix ''-error'' ''settle-denied''" "\<not> suffix ''-rejected'' ''settle-denied''"
  "\<not> suffix ''-error'' ''settle-noted''" "\<not> suffix ''-rejected'' ''settle-noted''" "\<not> suffix ''-denied'' ''settle-noted''"
  "\<not> suffix ''-error'' ''settle-epoch-rotated''" "\<not> suffix ''-rejected'' ''settle-epoch-rotated''"
  "\<not> suffix ''-denied'' ''settle-epoch-rotated''"
  by (simp_all add: suffix_to_prefix)

lemma settle_answers:
  assumes "ne_law (h_ne w)"
  shows "ascii_term m \<Longrightarrow>
      settle_verdict w (classify_effects (h_ne w) (effect_noun (SettleError m) # es)) = Err (NoteRefused (lit m))"
    and "ascii_term m \<Longrightarrow>
      settle_verdict w (classify_effects (h_ne w) (effect_noun (SettleDenied m) # es)) = Err (GateDenial (lit m))"
    and "settle_verdict w (classify_effects (h_ne w) (effect_noun (SettleNoted i h r) # es)) =
      Ok (effect_noun (SettleNoted i h r) # es)"
    and "settle_verdict w (classify_effects (h_ne w) (effect_noun (SettleEpochRotated a b) # es)) = Err UnexpectedEffect"
proof -
  note t = effect_head_noun [OF assms] and c = classify_tag [OF effect_head_noun [OF assms]]
  show "settle_verdict w (classify_effects (h_ne w) (effect_noun (SettleNoted i h r) # es)) =
      Ok (effect_noun (SettleNoted i h r) # es)"
    unfolding c by (simp add: settle_verdict_def t del: effect_noun.simps lit_Cons)
  show "settle_verdict w (classify_effects (h_ne w) (effect_noun (SettleEpochRotated a b) # es)) = Err UnexpectedEffect"
    unfolding c by (simp add: settle_verdict_def t del: effect_noun.simps lit_Cons)
  assume m: "ascii_term m"
  have d: "decode_effect_cord (h_ne w) (effect_noun (SettleError m)) = Some (lit m)"
    "decode_effect_cord (h_ne w) (effect_noun (SettleDenied m)) = Some (lit m)"
    by (simp_all add: effect_cord [OF assms m])
  show "settle_verdict w (classify_effects (h_ne w) (effect_noun (SettleError m) # es)) = Err (NoteRefused (lit m))"
    unfolding c by (simp add: settle_verdict_def d cord_or_default_def del: effect_noun.simps lit_Cons)
  show "settle_verdict w (classify_effects (h_ne w) (effect_noun (SettleDenied m) # es)) = Err (GateDenial (lit m))"
    unfolding c by (simp add: settle_verdict_def d cord_or_default_def del: effect_noun.simps lit_Cons)
qed


text \<open>The whole answer to a settle request for the service's own hull.\<close>

definition settle_answer ::
  "gate \<Rightarrow> settle_graft \<Rightarrow> u64 \<Rightarrow> noun \<Rightarrow> merkle_tree \<Rightarrow> (http_error, settle_response) outcome" where
  "settle_answer veri g i x t =
     (if unat i \<in> settled g then Err (NoteRefused (lit ''settle-graft: note already settled''))
      else if unat i \<in> prior_settled g then Err (NoteRefused (lit ''settle-graft: note already settled (prior epoch)''))
      else case veri (unat i) x (root_atom t) of
             None \<Rightarrow> Err (NoteRefused (lit ''settle-graft: verify gate crashed''))
           | Some False \<Rightarrow> Err (GateDenial (lit ''settle-graft: verify gate returned false''))
           | Some True \<Rightarrow>
               if settle_count g < epoch_cap
               then Ok \<lparr>response_note_id = i, response_root = format_tip5 (merkle_root t), effects_count = 1\<rparr>
               else Err UnexpectedEffect)"

lemma graft_cords [simp]:
  "ascii_term ''settle-graft: note already settled''" "ascii_term ''settle-graft: note already settled (prior epoch)''"
  "ascii_term ''settle-graft: verify gate crashed''" "ascii_term ''settle-graft: verify gate returned false''"
  by (simp_all add: ascii_term_def)

lemma settle_answered:
  assumes g: "graft_host cue veri w" and s: "in_sync kernel_root w st" and t: "app_tree st = Some t"
    and rb: "rbac_precheck w hdr (lit ''settle'') st = Ok ()"
    and b: "envelope_u64 body ''hull'' (hull_id st) HullNotInteger = Inr (hull_id st)"
    and p: "settle_poke_of w body st = Inr (i, poke, rt)"
  shows "\<exists>x. poke = build_settle_note_poke_with_data (h_jam w) i (hull_id st) (merkle_root t) x \<and>
    fst (settle_handler w Delivered written hdr body st) = settle_answer veri (graft (app st)) i x t"
proof -
  note gw = graft_hostD [OF g]
  from b settle_poke_form [OF p] t obtain x where x: "rt = merkle_root t"
    "poke = build_settle_note_poke_with_data (h_jam w) i (hull_id st) (merkle_root t) x"
    by (simp del: lit_Cons) blast
  have r: "registered (graft (app st)) (unat (hull_id st)) = Some (root_atom t)"
    using s t by (simp add: in_sync_def kernel_root_def)
  let ?g = "graft (app st)"
  let ?args = "\<lparr>arg_id = unat i, arg_hull = unat (hull_id st), arg_root = root_atom t, arg_data = x, arg_expected = root_atom t\<rparr>"
  let ?es = "if unat i \<in> settled ?g then [SettleError ''settle-graft: note already settled'']
    else if unat i \<in> prior_settled ?g then [SettleError ''settle-graft: note already settled (prior epoch)'']
    else case veri (unat i) x (root_atom t) of
           None \<Rightarrow> [SettleError ''settle-graft: verify gate crashed'']
         | Some False \<Rightarrow> [SettleDenied ''settle-graft: verify gate returned false'']
         | Some True \<Rightarrow> fst (apply_settlement ?g ?args)"
  have kn: "fst (kernel_poke cue veri (app st) poke) = map effect_noun ?es"
    unfolding x(2) kernel_note [OF gw(5) root_atom_def] r
    by (simp add: Let_def case_prod_beta del: effect_noun.simps split: option.split bool.split)
  obtain out k where o: "poke_kernel_with_timeout w Delivered (app st) poke = (out, k)"
    by (rule surj_pair [THEN exE], erule exE)
  then have out: "out = classify_effects (h_ne w) (fst (kernel_poke cue veri (app st) poke))"
    by (auto simp: poke_kernel_with_timeout_def gw(1) split: prod.splits)
  have "fst (settle_handler w Delivered written hdr body st) = settle_answer veri (graft (app st)) i x t"
    unfolding settle_poked [OF rb p o] out kn
    by (simp add: settle_answer_def Let_def x(1) settle_answers [OF gw(3)] apply_settlement_def
        del: effect_noun.simps lit_Cons split: option.split bool.split)
  with x show ?thesis by blast
qed

lemma settle_steps_trans:
  assumes "settle_steps cue veri b c" "settle_steps cue veri a b"
  shows "settle_steps cue veri a c"
  using assms by (induction rule: settle_steps.induct) (auto intro: settle_steps.poke)

lemma commit_moves:
  assumes "graft_host cue veri w" "commit_handler w d hdr fs st = (r, st')"
  shows "settle_steps cue veri (graft (app st)) (graft (app st'))"
  using commit_cases [OF assms(2)]
proof (elim disjE exE conjE)
  fix t e es k
  assume "h_poke w (app st) (build_settle_register_poke (hull_id st) (merkle_root t)) = (e # es, k)"
    "st' = st\<lparr>app := k, committed := fs, app_tree := Some t\<rparr>"
  then have "kernel_only w st (st\<lparr>app := app st'\<rparr>)" by (auto simp: kernel_only_def) (metis snd_conv)
  from graft_moves [OF assms(1) this] show ?thesis by simp
qed (rule graft_moves [OF assms(1)])

lemma settle_moves:
  assumes "graft_host cue veri w" "settle_handler w d written hdr body st = (r, st')"
  shows "settle_steps cue veri (graft (app st)) (graft (app st'))"
  using settle_cases [OF assms(2)]
proof (elim disjE exE conjE)
  fix poke e es k
  assume "h_poke w (app st) poke = (e # es, k)"
    "st' = st\<lparr>app := k, note_counter := note_counter st + 1,
         note_file := save_note_counter written (note_file st) (note_counter st + 1)\<rparr>"
  then have "kernel_only w st (st\<lparr>app := app st'\<rparr>)" by (auto simp: kernel_only_def) (metis snd_conv)
  from graft_moves [OF assms(1) this] show ?thesis by simp
qed (rule graft_moves [OF assms(1)])

lemma hull_moves:
  assumes "hull_steps w st st'" "graft_host cue veri w"
  shows "settle_steps cue veri (graft (app st)) (graft (app st'))"
  using assms(1)
proof (induction rule: hull_steps.induct)
  case (commit st st' d hdr fs)
  show ?case by (rule settle_steps_trans [OF commit_moves [OF assms(2) prod.collapse [symmetric]] commit.IH])
next
  case (settle st st' d written hdr body)
  show ?case by (rule settle_steps_trans [OF settle_moves [OF assms(2) prod.collapse [symmetric]] settle.IH])
next
  case (kernel st st' n)
  have "kernel_only w st' (st'\<lparr>app := snd (h_poke w (app st') n)\<rparr>)" by (auto simp: kernel_only_def)
  from settle_steps_trans [OF graft_moves [OF assms(2) this] kernel.IH] show ?case .
qed (rule settle_steps.stay)

text \<open>An acknowledged settlement is one the kernel noted, under the identifier of the answer.\<close>

lemma settle_ok_noted:
  assumes g: "graft_host cue veri w" and c: "settle_handler w d written hdr body st = (Ok resp, st')"
  shows "\<exists>c h r. SettleNoted (unat (response_note_id resp)) h r \<in> set (fst (settle_poke cue veri (graft (app st)) c)) \<and>
    graft (app st') = snd (settle_poke cue veri (graft (app st)) c)"
proof -
  note gw = graft_hostD [OF g]
  from settle_cases [OF c] obtain i poke rt e es k where s: "settle_poke_of w body st = Inr (i, poke, rt)"
    "response_note_id resp = i" "h_poke w (app st) poke = (e # es, k)"
    "effect_head_tag (h_ne w) e = Some (lit ''settle-noted'')" "app st' = k" by auto
  from settle_poke_form [OF s(1)] obtain h x where p: "poke = build_settle_note_poke_with_data (h_jam w) i h rt x" by blast
  let ?pay = "build_graft_single_leaf_payload_in i h rt x"
  let ?c = "CauseNote (le_value (h_jam w ?pay))"
  obtain fx g' where f: "settle_poke cue veri (graft (app st)) ?c = (fx, g')" by (rule surj_pair [THEN exE], erule exE)
  have k: "map effect_noun fx = e # es" "k = (app st)\<lparr>graft := g'\<rparr>"
    using s(3) by (simp_all add: gw(1) p kernel_poke_def sieve_note f)
  then obtain e0 fx' where e0: "fx = e0 # fx'" "e = effect_noun e0" by (cases fx) auto
  have "effect_tag e0 = ''settle-noted''"
    using s(4) effect_head_noun [OF gw(3), of e0] by (simp add: e0(2) del: lit_Cons effect_noun.simps)
  then obtain j h' r where n: "e0 = SettleNoted j h' r" by (cases e0) simp_all
  have m: "SettleNoted j h' r \<in> set (fst (settle_poke cue veri (graft (app st)) ?c))" by (simp add: f e0(1) n)
  have "parse_payload cue (le_value (h_jam w ?pay)) = Some \<lparr>arg_id = unat i, arg_hull = unat h,
      arg_root = le_value (tip5_to_atom_le_bytes rt), arg_data = x, arg_expected = le_value (tip5_to_atom_le_bytes rt)\<rparr>"
    using gw(5) [of ?pay] by (simp add: parse_payload_def cue_reads_def sieve_payload_built)
  with noted_effect [OF m] have "j = unat i" by auto
  with m f k(2) s(2,5) show ?thesis by (intro exI [of _ ?c]) auto
qed

text \<open>The key of the header holds a permission.\<close>

definition holds_role :: "kernel_state host \<Rightarrow> bytes option \<Rightarrow> string \<Rightarrow> kernel_state app_state \<Rightarrow> bool" where
  "holds_role w hdr perm st \<longleftrightarrow>
     (case Option.bind hdr header_to_str of
        None \<Rightarrow> False
      | Some key \<Rightarrow>
          (case hex_decode w (trim_start_matches (lit ''0X'') (trim_start_matches (lit ''0x'') key)) of
             None \<Rightarrow> False
           | Some bs \<Rightarrow> tas perm \<in> held_perms (perms (app st)) (le_value bs)))"

lemma rbac_precheck_role:
  assumes "graft_host cue veri w" "ascii_term perm" "rbac_enabled st"
  shows "rbac_precheck w hdr (lit perm) st = Ok () \<longleftrightarrow> holds_role w hdr perm st"
proof -
  note gw = graft_hostD [OF assms(1)]
  have "trim_trailing_zeros (h_ne w 0) = []" "trim_trailing_zeros (h_ne w 1) = [1]"
    using trim_ne [OF gw(3), of "[]" 0] trim_ne [OF gw(3), of "[1]" 1] by (simp_all add: no_trailing_nul_def)
  then have l: "peek_loobean (h_ne w) (Cell (Atom 0) (Cell (Atom 0) (Cell (Atom 0) (make_loobean b)))) = Some b" for b
    by (simp add: peek_loobean_def strip_triple_unit_envelope_def make_loobean_def loobean_of_def)
  have t: "tuple [make_tag_in (lit ''rbac-has-perm''), make_atom_in bs, make_tag_in (lit perm), Atom 0] =
      tagged ''rbac-has-perm'' [Atom (le_value bs), Atom (tas perm), Atom 0]" for bs
    by (simp add: tagged_def make_atom_in_def del: lit_Cons)
  show ?thesis
    using assms(3)
    by (auto simp: rbac_precheck_def extract_pubkey_header_def holds_role_def check_rbac_perm_def
        build_rbac_has_perm_peek_path_def Let_def gw(2) t has_perm_answer [unfolded tagged_simps] l handle_rbac_outcome_def
        simp del: lit_Cons split: option.split bool.splits)
qed


subsection \<open>A concrete service\<close>

text \<open>A host whose \<open>jam\<close> is an enumeration of the nouns, and whose hash is constant.\<close>

definition demo_host :: "gate \<Rightarrow> kernel_state host" where
  "demo_host veri =
     \<lparr>h_poke = kernel_poke (\<lambda>a. Some (from_nat a)) veri, h_peek = kernel_peek, h_ne = demo_ne,
      h_jam = (\<lambda>n. demo_ne (to_nat n)), h_varlen = (\<lambda>_. [1, 0, 0, 0, 0]), h_ten = (\<lambda>_. [1, 0, 0, 0, 0]),
      hex_decode = (\<lambda>_. None), hex_encode = (\<lambda>_. [])\<rparr>"

lemma demo_graft_host: "graft_host (\<lambda>a. Some (from_nat a)) veri (demo_host veri)"
proof -
  have "le_value (demo_ne a) = a" for a using demo_ne_law by (simp add: ne_law_def)
  then show ?thesis by (simp add: graft_host_def demo_host_def demo_ne_law cue_reads_def)
qed

definition demo_service :: "kernel_state app_state" where
  "demo_service =
     \<lparr>app = \<lparr>graft = new_settle_graft, perms = Map.empty\<rparr>, committed = [], app_tree = None, hull_id = 1, note_counter = 0,
      note_file = None, settlement = resolve_local None, manifest = empty_summary, settle_builder = DefaultHash, rbac_enabled = False,
      kernel_ready = True\<rparr>"

definition demo_fields :: "field list" where
  "demo_fields = [\<lparr>f_key = [97], f_value = [98]\<rparr>]"

definition demo_tree :: merkle_tree where
  "demo_tree = projr (merkle_build (\<lambda>_. [1, 0, 0, 0, 0]) (\<lambda>_. [1, 0, 0, 0, 0]) (map field_to_leaf_bytes demo_fields))"

lemma demo_tree_built:
  "merkle_build (\<lambda>_. [1, 0, 0, 0, 0]) (\<lambda>_. [1, 0, 0, 0, 0]) (map field_to_leaf_bytes demo_fields) = Inr demo_tree"
  by (simp add: demo_tree_def merkle_build_def demo_fields_def Let_def)

definition demo_committed :: "kernel_state app_state" where
  "demo_committed = demo_service\<lparr>
     app := \<lparr>graft = new_settle_graft\<lparr>registered := [1 \<mapsto> root_atom demo_tree]\<rparr>, perms = Map.empty\<rparr>,
     committed := demo_fields, app_tree := Some demo_tree\<rparr>"

lemma registered_suffixes [simp]:
  "\<not> suffix ''-error'' ''settle-registered''" "\<not> suffix ''-rejected'' ''settle-registered''"
  "\<not> suffix ''-denied'' ''settle-registered''"
  by (simp_all add: suffix_to_prefix)

lemma demo_commit:
  "commit_handler (demo_host veri) Delivered None demo_fields demo_service =
    (Ok \<lparr>field_count = 1, commit_root = format_tip5 (merkle_root demo_tree)\<rparr>, demo_committed)"
proof -
  have poke: "kernel_poke (\<lambda>a. Some (from_nat a)) veri (app demo_service) (build_settle_register_poke (hull_id demo_service) (merkle_root demo_tree)) =
      ([effect_noun (SettleRegistered 1 (root_atom demo_tree))], app demo_committed)"
    by (simp add: kernel_register settle_poke.simps demo_service_def demo_committed_def new_settle_graft_def registered_cap_def
        root_atom_def)
  have c: "classify_effects demo_ne [effect_noun (SettleRegistered a b)] = Accepted [effect_noun (SettleRegistered a b)]" for a b
    unfolding classify_tag [OF effect_head_noun [OF demo_ne_law]] by simp
  have p: "poke_kernel_with_timeout (demo_host veri) Delivered (app demo_service)
      (build_settle_register_poke (hull_id demo_service) (merkle_root demo_tree)) =
      (Accepted [effect_noun (SettleRegistered 1 (root_atom demo_tree))], app demo_committed)"
    by (simp add: poke_kernel_with_timeout_def demo_host_def poke c del: effect_noun.simps)
  have v: "register_verdict (demo_host veri) (Accepted [effect_noun (SettleRegistered 1 (root_atom demo_tree))]) = Ok ()"
    by (simp add: register_verdict_Ok demo_host_def effect_head_noun [OF demo_ne_law] del: effect_noun.simps lit_Cons)
  have f: "demo_fields \<noteq> []" "\<not> MAX_FIELDS < length demo_fields" "check_fields 0 demo_fields = Inr ()"
    "merkle_build (h_varlen (demo_host veri)) (h_ten (demo_host veri)) (map field_to_leaf_bytes demo_fields) = Inr demo_tree"
    using demo_tree_built by (simp_all add: demo_host_def) (simp_all add: demo_fields_def MAX_FIELDS_def MAX_FIELD_BYTES_def utf8_def utf8_char_def)
  have r: "rbac_precheck (demo_host veri) None (lit ''commit'') demo_service = Ok ()"
    by (simp add: rbac_precheck_def demo_service_def)
  have "commit_handler (demo_host veri) Delivered None demo_fields demo_service =
     (Ok \<lparr>field_count = length demo_fields, commit_root = format_tip5 (merkle_root demo_tree)\<rparr>,
      demo_service\<lparr>app := app demo_committed, committed := demo_fields, app_tree := Some demo_tree\<rparr>)"
    unfolding commit_poked [OF f(1-4) r p] v by simp
  then show ?thesis by (simp add: demo_committed_def demo_fields_def)
qed


subsection \<open>Properties\<close>

text \<open>C4: the service agrees with its kernel: from a start without a tree, whatever requests are answered, timed
  out or lost and whatever else the kernel is poked with, a tree the service holds is the tree of its fields and
  its root is the one the kernel has registered for the hull.\<close>

theorem service_in_sync:
  assumes "graft_host cue veri w" "app_tree st0 = None" "hull_steps w st0 st" "app_tree st = Some t"
  shows "merkle_build (h_varlen w) (h_ten w) (map field_to_leaf_bytes (committed st)) = Inr t \<and>
    registered (graft (app st)) (unat (hull_id st)) = Some (root_atom t)"
  using graft_sync [OF assms(1-3)] assms(4) by (simp add: in_sync_def kernel_root_def)

lemma demo_run: "app_tree demo_service = None" "hull_steps (demo_host veri) demo_service demo_committed"
  using hull_steps.commit [OF hull_steps.start, where w = "demo_host veri" and d = Delivered and hdr = None and fs = demo_fields and st = demo_service]
  by (simp_all add: demo_commit) (simp add: demo_service_def)

theorem service_in_sync_witness: "registered (graft (app demo_committed)) 1 = Some (root_atom demo_tree)"
proof -
  have t: "app_tree demo_committed = Some demo_tree" "hull_id demo_committed = 1"
    by (simp_all add: demo_committed_def demo_service_def)
  from service_in_sync [OF demo_graft_host demo_run t(1)] t(2) show ?thesis by simp
qed

text \<open>a hull is committed once: after an acknowledged commit its fields and its tree never change, and every
  later commit is refused.\<close>

theorem commit_single_shot:
  assumes "graft_host cue veri w" "app_tree st0 = None" "hull_steps w st0 st"
    and "commit_handler w d hdr fs st = (Ok resp, st')" "hull_steps w st' st''"
  shows "committed st'' = fs \<and> app_tree st'' = app_tree st' \<and> fst (commit_handler w d' hdr' fs' st'') \<noteq> Ok resp'"
proof -
  note gw = graft_hostD [OF assms(1)]
  from commit_cases [OF assms(4)] obtain t where t: "committed st' = fs" "app_tree st' = Some t" by auto
  have s: "in_sync kernel_root w st'"
    by (rule graft_kernel.sync_commit [OF graft_sync [OF assms(1-3)] gw(1,4) assms(4)])
  note k = graft_kernel.committed_stays [OF assms(5) s gw(1,4) t(2)]
  have s'': "in_sync kernel_root w st''" by (rule graft_kernel.sync_steps [OF assms(5) s gw(1,4)])
  have "fst (commit_handler w d' hdr' fs' st'') \<noteq> Ok resp'"
    using graft_kernel.commit_refused [OF s'' gw(1,4) conjunct2 [OF k] prod.collapse [symmetric]] by blast
  with k t show ?thesis by simp
qed

theorem commit_single_shot_witness:
  "\<nexists>resp. fst (commit_handler (demo_host (\<lambda>_ _ _. None)) Delivered None demo_fields demo_committed) = Ok resp"
  using commit_single_shot [OF demo_graft_host demo_run(1) hull_steps.start demo_commit hull_steps.start] by blast

text \<open>C19: with the role check enabled, a request whose key does not hold the permission in the role graft is
  answered with an error and changes nothing, the kernel included.\<close>

theorem role_needed:
  assumes "graft_host cue veri w" "rbac_enabled st"
  shows "(\<not> holds_role w hdr ''commit'' st \<longrightarrow>
      snd (commit_handler w d hdr fs st) = st \<and> fst (commit_handler w d hdr fs st) \<noteq> Ok x) \<and>
    (\<not> holds_role w hdr ''settle'' st \<longrightarrow>
      snd (settle_handler w d written hdr body st) = st \<and> fst (settle_handler w d written hdr body st) \<noteq> Ok y)"
proof -
  have a: "ascii_term ''commit''" "ascii_term ''settle''" by (simp_all add: ascii_term_def)
  show ?thesis
    using commit_early [OF prod.collapse [symmetric], where w = w and d = d and hdr = hdr and fs = fs and st = st]
      settle_early [OF prod.collapse [symmetric], where w = w and d = d and written = written and hdr = hdr and body = body and st = st]
      rbac_precheck_role [OF assms(1) a(1) assms(2), of hdr] rbac_precheck_role [OF assms(1) a(2) assms(2), of hdr]
    by blast
qed

theorem role_needed_witness:
  "snd (commit_handler (demo_host (\<lambda>_ _ _. None)) Delivered None demo_fields (demo_service\<lparr>rbac_enabled := True\<rparr>)) =
    demo_service\<lparr>rbac_enabled := True\<rparr>"
proof -
  have "rbac_enabled (demo_service\<lparr>rbac_enabled := True\<rparr>)" by simp
  moreover have "\<not> holds_role (demo_host (\<lambda>_ _ _. None)) None ''commit'' (demo_service\<lparr>rbac_enabled := True\<rparr>)"
    by (simp add: holds_role_def)
  ultimately show ?thesis using role_needed [OF demo_graft_host] by blast
qed

lemma rbac_off: "\<not> rbac_enabled st \<Longrightarrow> rbac_precheck w hdr perm st = Ok ()"
  by (simp add: rbac_precheck_def)

text \<open>A request without a \<open>hull\<close> field names the service's own hull.\<close>

lemma own_hull: "json_get body ''hull'' = None \<Longrightarrow> envelope_u64 body ''hull'' h e = Inr h"
  by (simp add: envelope_u64_def)

lemma settle_not_delivered:
  assumes "rbac_precheck w hdr (lit ''settle'') st = Ok ()" "settle_poke_of w body st = Inr (i, poke, rt)"
  shows "fst (settle_handler w (TimedOut did) written hdr body st) = Err KernelTimedOut"
    "fst (settle_handler w (DriverFailed did) written hdr body st) = Err InternalFailure"
proof -
  obtain es k where k: "h_poke w (app st) poke = (es, k)" by (rule surj_pair [THEN exE], erule exE)
  have "poke_kernel_with_timeout w (TimedOut did) (app st) poke = (Crashed Timeout, if did then k else app st)"
    "poke_kernel_with_timeout w (DriverFailed did) (app st) poke = (Crashed (KernelPoke AppPokeFailed), if did then k else app st)"
    by (simp_all add: poke_kernel_with_timeout_def k)
  from this [THEN settle_poked [OF assms, of _ _ _ written]]
  show "fst (settle_handler w (TimedOut did) written hdr body st) = Err KernelTimedOut"
    "fst (settle_handler w (DriverFailed did) written hdr body st) = Err InternalFailure"
    by (simp_all add: settle_verdict_def)
qed

text \<open>C17: the answer to a settle request of a service that has committed a tree, when the role check lets the request
  pass, its body names no other hull than the service's, and its payload builds. A poke that the driver gave up on is
  answered by the timeout, one that failed by an internal error; one that the kernel answered by the table
  \<open>settle_answer\<close> of the note's state in the kernel, the verdict of the gate on the data of the payload and the room left
  in the epoch: the kernel's refusals for the hull and the root cannot occur.\<close>

theorem settle_answer_exact:
  assumes "graft_host cue veri w" "app_tree st0 = None" "hull_steps w st0 st" "app_tree st = Some t"
    and "rbac_precheck w hdr (lit ''settle'') st = Ok ()"
    and "envelope_u64 body ''hull'' (hull_id st) HullNotInteger = Inr (hull_id st)"
    and "settle_poke_of w body st = Inr (i, poke, rt)"
  shows "\<exists>x. poke = build_settle_note_poke_with_data (h_jam w) i (hull_id st) (merkle_root t) x \<and>
    fst (settle_handler w d written hdr body st) =
      (case d of
         Delivered \<Rightarrow> settle_answer veri (graft (app st)) i x t
       | TimedOut did \<Rightarrow> Err KernelTimedOut
       | DriverFailed did \<Rightarrow> Err InternalFailure)"
proof -
  from settle_answered [OF assms(1) graft_sync [OF assms(1-3)] assms(4-7)] obtain x where
    x: "poke = build_settle_note_poke_with_data (h_jam w) i (hull_id st) (merkle_root t) x"
    "fst (settle_handler w Delivered written hdr body st) = settle_answer veri (graft (app st)) i x t" by blast
  show ?thesis
    using x settle_not_delivered [OF assms(5,7)] by (intro exI [of _ x]) (simp split: delivery.split)
qed

lemma demo_request:
  assumes "committed st = demo_fields" "app_tree st = Some demo_tree" "settle_builder st = DefaultHash"
  shows "settle_poke_of (demo_host veri) (JObj []) st =
    Inr (note_counter st + 1, build_settle_note_poke (h_jam (demo_host veri)) (note_counter st + 1) (hull_id st)
      (merkle_root demo_tree) (field_to_leaf_bytes \<lparr>f_key = [97], f_value = [98]\<rparr>), merkle_root demo_tree)"
  by (simp add: assms settle_poke_of_def envelope_u64_def json_get_def default_hash_poke_def demo_fields_def Let_def)

lemma demo_state [simp]:
  "committed demo_committed = demo_fields" "app_tree demo_committed = Some demo_tree"
  "settle_builder demo_committed = DefaultHash" "\<not> rbac_enabled demo_committed" "note_counter demo_committed = 0"
  "app_tree demo_service = None" "hull_id demo_committed = 1"
  "graft (app demo_committed) = new_settle_graft\<lparr>registered := [1 \<mapsto> root_atom demo_tree]\<rparr>"
  "graft (app demo_service) = new_settle_graft"
  by (simp_all add: demo_committed_def demo_service_def)

theorem settle_answer_exact_witness:
  "fst (settle_handler (demo_host (\<lambda>_ _ _. Some True)) Delivered True None (JObj []) demo_committed) =
    Ok \<lparr>response_note_id = 1, response_root = format_tip5 (merkle_root demo_tree), effects_count = 1\<rparr>"
proof -
  have b: "json_get (JObj []) ''hull'' = None" by (simp add: json_get_def)
  from settle_answer_exact [OF demo_graft_host demo_run demo_state(2) rbac_off [OF demo_state(4)] own_hull [OF b]
      demo_request [OF demo_state(1-3)], where d = Delivered]
  obtain x where "fst (settle_handler (demo_host (\<lambda>_ _ _. Some True)) Delivered True None (JObj []) demo_committed) =
      settle_answer (\<lambda>_ _ _. Some True) (graft (app demo_committed)) (note_counter demo_committed + 1) x demo_tree"
    unfolding delivery.case by blast
  then show ?thesis by (simp add: settle_answer_def new_settle_graft_def)
qed

text \<open>C18: a note settled over HTTP is not settled over HTTP again until more than \<open>epoch_cap\<close> other notes are,
  whatever happens in between.\<close>

theorem acknowledged_once:
  assumes "graft_host cue veri w" "graft (app st0) = new_settle_graft" "hull_steps w st0 st"
    and "settle_handler w d written hdr body st = (Ok resp, st1)" "hull_steps w st1 st2"
    and "clock (graft (app st2)) \<le> clock (graft (app st1)) + epoch_cap"
    and "settle_handler w d' written' hdr' body' st2 = (Ok resp', st3)"
  shows "response_note_id resp' \<noteq> response_note_id resp"
proof
  assume same: "response_note_id resp' = response_note_id resp"
  have r: "settle_steps cue veri new_settle_graft (graft (app st))" using hull_moves [OF assms(3,1)] assms(2) by simp
  have m: "settle_steps cue veri (graft (app st1)) (graft (app st2))" by (rule hull_moves [OF assms(5,1)])
  from settle_ok_noted [OF assms(1,4)] obtain c h rt where
    n: "SettleNoted (unat (response_note_id resp)) h rt \<in> set (fst (settle_poke cue veri (graft (app st)) c))"
       "graft (app st1) = snd (settle_poke cue veri (graft (app st)) c)" by blast
  from settle_ok_noted [OF assms(1,7)] obtain c' h' rt' where
    "SettleNoted (unat (response_note_id resp')) h' rt' \<in> set (fst (settle_poke cue veri (graft (app st2)) c'))" by blast
  moreover have "graft_inv (graft (app st))" using settle_steps_inv [OF r graft_inv_new] .
  ultimately show False
    using settled_not_again [OF _ n(1) m [unfolded n(2)] assms(6) [unfolded n(2)]] same by auto
qed

lemma demo_settle:
  assumes "in_sync kernel_root (demo_host (\<lambda>_ _ _. Some True)) st" "\<not> rbac_enabled st" "committed st = demo_fields"
    and "app_tree st = Some demo_tree" "settle_builder st = DefaultHash"
    and "\<not> remembered (graft (app st)) (unat (note_counter st + 1))" "settle_count (graft (app st)) < epoch_cap"
  shows "\<exists>st'. settle_handler (demo_host (\<lambda>_ _ _. Some True)) Delivered True None (JObj []) st =
    (Ok \<lparr>response_note_id = note_counter st + 1, response_root = format_tip5 (merkle_root demo_tree), effects_count = 1\<rparr>, st')"
proof -
  let ?w = "demo_host (\<lambda>_ _ _. Some True)"
  have b: "json_get (JObj []) ''hull'' = None" by (simp add: json_get_def)
  from settle_answered [OF demo_graft_host assms(1,4) rbac_off [OF assms(2)] own_hull [OF b] demo_request [OF assms(3-5)]]
  obtain x where "fst (settle_handler ?w Delivered True None (JObj []) st) =
      settle_answer (\<lambda>_ _ _. Some True) (graft (app st)) (note_counter st + 1) x demo_tree" by blast
  then have "fst (settle_handler ?w Delivered True None (JObj []) st) =
    Ok \<lparr>response_note_id = note_counter st + 1, response_root = format_tip5 (merkle_root demo_tree), effects_count = 1\<rparr>"
    using assms(6,7) by (simp add: settle_answer_def remembered_def)
  then show ?thesis by (metis prod.collapse)
qed

theorem acknowledged_once_witness:
  "\<exists>st1 r1 r2 st2. settle_handler (demo_host (\<lambda>_ _ _. Some True)) Delivered True None (JObj []) demo_committed = (Ok r1, st1) \<and>
    settle_handler (demo_host (\<lambda>_ _ _. Some True)) Delivered True None (JObj []) st1 = (Ok r2, st2) \<and>
    response_note_id r2 \<noteq> response_note_id r1"
proof -
  let ?w = "demo_host (\<lambda>_ _ _. Some True)" and ?cue = "\<lambda>a. Some (from_nat a :: noun)" and ?veri = "\<lambda>_ _ _. Some True"
  have s: "in_sync kernel_root ?w demo_committed" by (rule graft_sync [OF demo_graft_host demo_run])
  have "\<not> remembered (graft (app demo_committed)) (unat (note_counter demo_committed + 1))"
    "settle_count (graft (app demo_committed)) < epoch_cap"
    by (simp_all add: remembered_def new_settle_graft_def)
  from demo_settle [OF s demo_state(4,1,2,3) this] obtain st1 r1 where
    h: "settle_handler ?w Delivered True None (JObj []) demo_committed = (Ok r1, st1)" and r1: "response_note_id r1 = 1"
    by auto
  have st1: "\<not> rbac_enabled st1" "committed st1 = demo_fields" "app_tree st1 = Some demo_tree" "settle_builder st1 = DefaultHash"
    "note_counter st1 = 1"
    using settle_cases [OF h] by auto
  from settle_ok_noted [OF demo_graft_host h] obtain c hl rt where
    n: "SettleNoted (unat (response_note_id r1)) hl rt \<in> set (fst (settle_poke ?cue ?veri (graft (app demo_committed)) c))"
    and g: "graft (app st1) = snd (settle_poke ?cue ?veri (graft (app demo_committed)) c)" by blast
  from noted_effect [OF n] obtain args where "settle_poke ?cue ?veri (graft (app demo_committed)) c =
      apply_settlement (graft (app demo_committed)) args" "arg_id args = 1" by (auto simp: r1)
  with g have g1: "settled (graft (app st1)) = {1}" "prior_settled (graft (app st1)) = {}" "settle_count (graft (app st1)) = 1"
    "clock (graft (app st1)) = 1"
    by (simp_all add: apply_settlement_def Let_def new_settle_graft_def clock_def)
  have s1: "in_sync kernel_root ?w st1"
    by (rule graft_kernel.sync_settle [OF s _ h]) (simp add: demo_host_def)
  have "\<not> remembered (graft (app st1)) (unat (note_counter st1 + 1))" "settle_count (graft (app st1)) < epoch_cap"
    by (simp_all add: remembered_def g1 st1(5)) (simp add: epoch_cap_def)
  from demo_settle [OF s1 st1(1-4) this] obtain r2 st2 where
    r: "settle_handler ?w Delivered True None (JObj []) st1 = (Ok r2, st2)" by blast
  have "response_note_id r2 \<noteq> response_note_id r1"
    using acknowledged_once [OF demo_graft_host demo_state(9) demo_run(2) h hull_steps.start _ r] by simp
  with h r show ?thesis by blast
qed

text \<open>A settle request without a note identifier, when the kernel remembers the next one of the counter.\<close>

lemma remembered_next_refused:
  assumes "graft_host cue veri w" "remembered (graft (app st)) (unat (note_counter st + 1))"
    and "json_get body ''note_id'' = None"
  shows "snd (settle_handler w d written hdr body st) = st \<and> fst (settle_handler w d written hdr body st) \<noteq> Ok resp"
proof -
  note gw = graft_hostD [OF assms(1)]
  obtain r st' where h: "settle_handler w d written hdr body st = (r, st')" by (rule surj_pair [THEN exE], erule exE)
  have auto_id: "i = note_counter st + 1" if "settle_poke_of w body st = Inr (i, poke, rt)" for i poke rt
    using settle_poke_form [OF that] by (auto simp: envelope_u64_def assms(3))
  have refused: "snd (h_poke w (app st) poke) = app st" if p: "settle_poke_of w body st = Inr (i, poke, rt)" for i poke rt
  proof -
    from settle_poke_form [OF p] obtain h x where f: "poke = build_settle_note_poke_with_data (h_jam w) i h rt x" by blast
    let ?pay = "build_graft_single_leaf_payload_in i h rt x"
    have "parse_payload cue (le_value (h_jam w ?pay)) = Some \<lparr>arg_id = unat i, arg_hull = unat h,
        arg_root = le_value (tip5_to_atom_le_bytes rt), arg_data = x, arg_expected = le_value (tip5_to_atom_le_bytes rt)\<rparr>"
      using gw(5) [of ?pay] by (simp add: parse_payload_def cue_reads_def sieve_payload_built)
    from remembered_refused [OF this, of "graft (app st)" veri]
    have "snd (settle_poke cue veri (graft (app st)) (CauseNote (le_value (h_jam w ?pay)))) = graft (app st)"
      using assms(2) auto_id [OF p] by simp
    then show ?thesis by (simp add: gw(1) f kernel_poke_def sieve_note case_prod_beta)
  qed
  have no: "r \<noteq> Ok x" for x
  proof
    assume "r = Ok x"
    with h have ok: "settle_handler w d written hdr body st = (Ok x, st')" by simp
    from settle_cases [OF ok] obtain i poke rt where "settle_poke_of w body st = Inr (i, poke, rt)" "response_note_id x = i"
      by auto
    with auto_id have "response_note_id x = note_counter st + 1" by blast
    moreover obtain c h rt where "SettleNoted (unat (response_note_id x)) h rt \<in> set (fst (settle_poke cue veri (graft (app st)) c))"
      using settle_ok_noted [OF assms(1) ok] by blast
    then have "\<not> remembered (graft (app st)) (unat (response_note_id x))" by (blast dest: noted_effect)
    ultimately show False using assms(2) by simp
  qed
  have "st' = st"
  proof (cases "rbac_precheck w hdr (lit ''settle'') st = Ok () \<and> (\<exists>x. settle_poke_of w body st = Inr x)")
    case False
    with settle_early [OF h] show ?thesis by blast
  next
    case True
    then obtain x where x: "rbac_precheck w hdr (lit ''settle'') st = Ok ()" "settle_poke_of w body st = Inr x" by blast
    obtain i poke rt where "x = (i, poke, rt)" by (rule prod_cases3)
    with x have t: "rbac_precheck w hdr (lit ''settle'') st = Ok ()" "settle_poke_of w body st = Inr (i, poke, rt)"
      by simp_all
    obtain out k where o: "poke_kernel_with_timeout w d (app st) poke = (out, k)" by (rule surj_pair [THEN exE], erule exE)
    have "k = app st" using timed_poke_state [OF o] refused [OF t(2)] by simp
    with settle_poked [OF t o, of written, unfolded h] no show ?thesis by (cases "settle_verdict w out") simp_all
  qed
  with h no show ?thesis by simp
qed

text \<open>Settle requests without a note identifier, one after the other.\<close>

inductive automatic_requests :: "'k host \<Rightarrow> 'k app_state \<Rightarrow> 'k app_state \<Rightarrow> bool" for w :: "'k host" where
  None_yet: "automatic_requests w st st"
| One_more: "automatic_requests w st st' \<Longrightarrow> json_get body ''note_id'' = None \<Longrightarrow>
    automatic_requests w st (snd (settle_handler w d written hdr body st'))"

lemma automatic_requests_stuck:
  assumes "automatic_requests w st st'" "graft_host cue veri w" "remembered (graft (app st)) (unat (note_counter st + 1))"
  shows "st' = st"
  using assms by (induction rule: automatic_requests.induct) (simp_all add: remembered_next_refused)

text \<open>The one answer of the grafts that the service takes for a surprise is a rotation of the epoch, and then the note of
  the request is settled.\<close>

lemma unexpected_classified:
  assumes "ne_law ne" "classify_effects ne (map effect_noun fx) = Accepted (e # es)"
    and "effect_head_tag ne e \<noteq> Some (lit ''settle-noted'')"
  shows "\<exists>f fx'. fx = f # fx' \<and> effect_tag f \<notin> {''settle-noted'', ''settle-error'', ''settle-denied''}"
proof -
  from classify_accepted [OF assms(2)] obtain f fx' where f: "fx = f # fx'" "e = effect_noun f" by (cases fx) auto
  note t = effect_head_noun [OF assms(1), of f]
  have "effect_tag f \<noteq> ''settle-noted''" using assms(3) f(2) t by auto
  moreover have "effect_tag f \<noteq> ''settle-error''" "effect_tag f \<noteq> ''settle-denied''"
    using assms(2) t by (auto simp: f(1) classify_tag simp del: effect_noun.simps lit_Cons)
  ultimately show ?thesis using f(1) by blast
qed

lemma odd_effect_rotates:
  assumes "fst (settle_poke cue veri g (CauseNote payload)) = f # fx"
    and "effect_tag f \<notin> {''settle-noted'', ''settle-error'', ''settle-denied''}" "parse_payload cue payload = Some args"
  shows "remembered (snd (settle_poke cue veri g (CauseNote payload))) (arg_id args)"
  using assms by (auto simp: settle_poke.simps apply_settlement_def remembered_def Let_def split: option.splits if_splits bool.splits)

lemma crash_expected: "crash_to_error x \<noteq> UnexpectedEffect"
  by (cases x) simp_all

lemma settle_verdict_unexpected:
  assumes "settle_verdict w out = Err UnexpectedEffect"
  shows "\<exists>e es. out = Accepted (e # es) \<and> effect_head_tag (h_ne w) e \<noteq> Some (lit ''settle-noted'')"
proof (cases out)
  case (Accepted es)
  with assms show ?thesis by (cases es) (auto simp: settle_verdict_def simp del: lit_Cons split: if_splits)
next
  case (Rejected r)
  with assms show ?thesis by (cases r) (simp_all add: settle_verdict_def)
next
  case (Crashed e)
  with assms crash_expected show ?thesis by (simp add: settle_verdict_def)
qed

lemma rbac_outcome_expected: "handle_rbac_outcome out \<noteq> Err UnexpectedEffect"
proof (cases out)
  case (Rejected r)
  then show ?thesis by (cases r) (simp_all add: handle_rbac_outcome_def)
qed (simp_all add: handle_rbac_outcome_def crash_expected)

lemma rbac_expected: "rbac_precheck w hdr perm st \<noteq> Err UnexpectedEffect"
proof -
  have "extract_pubkey_header hdr \<noteq> Inl UnexpectedEffect"
    by (auto simp: extract_pubkey_header_def split: option.splits)
  moreover have "check_rbac_perm w k key perm \<noteq> Inl UnexpectedEffect" for k key
    by (auto simp: check_rbac_perm_def Let_def simp del: lit_Cons split: option.splits sum.splits if_splits)
  ultimately show ?thesis
    using rbac_outcome_expected by (auto simp: rbac_precheck_def simp del: lit_Cons split: sum.splits)
qed

lemma settle_poke_expected: "settle_poke_of w body st \<noteq> Inl UnexpectedEffect"
proof -
  have e: "envelope_u64 body key dflt err \<noteq> Inl UnexpectedEffect" if "err \<noteq> UnexpectedEffect" for key dflt err
    using that by (auto simp: envelope_u64_def split: option.splits json.splits if_splits)
  show ?thesis
    using e [of HullNotInteger "''hull''" "hull_id st"] e [of NoteIdNotInteger "''note_id''" "note_counter st + 1"]
    by (cases "envelope_u64 body ''hull'' (hull_id st) HullNotInteger";
        cases "envelope_u64 body ''note_id'' (note_counter st + 1) NoteIdNotInteger")
      (auto simp: settle_poke_of_def Let_def split: option.splits sum.splits)
qed

lemma settle_early_expected:
  assumes "settle_handler w d written hdr body st = (Err UnexpectedEffect, st')"
  shows "rbac_precheck w hdr (lit ''settle'') st = Ok () \<and> (\<exists>x. settle_poke_of w body st = Inr x)"
proof (cases "rbac_precheck w hdr (lit ''settle'') st")
  case (Ok u)
  then show ?thesis
    using assms settle_poke_expected [of w body st] by (cases "settle_poke_of w body st") (auto simp: settle_handler_def)
qed (use assms rbac_expected [of w hdr "lit ''settle''" st] in \<open>auto simp: settle_handler_def\<close>)

lemma unexpected_means_settled:
  assumes g: "graft_host cue veri w" and h: "settle_handler w d written hdr body st = (Err UnexpectedEffect, st')"
    and a: "json_get body ''note_id'' = None"
  shows "note_counter st' = note_counter st \<and> remembered (graft (app st')) (unat (note_counter st + 1))"
proof -
  note gw = graft_hostD [OF g]
  obtain x where x: "rbac_precheck w hdr (lit ''settle'') st = Ok ()" "settle_poke_of w body st = Inr x"
    using settle_early_expected [OF h] by blast
  obtain i poke rt where "x = (i, poke, rt)" by (rule prod_cases3)
  with x have t: "rbac_precheck w hdr (lit ''settle'') st = Ok ()" "settle_poke_of w body st = Inr (i, poke, rt)"
    by simp_all
  obtain out k where o: "poke_kernel_with_timeout w d (app st) poke = (out, k)" by (rule surj_pair [THEN exE], erule exE)
  have v: "settle_verdict w out = Err UnexpectedEffect" and st': "st' = st\<lparr>app := k\<rparr>"
    using settle_poked [OF t o, of written, unfolded h] by (auto split: outcome.splits)
  from settle_verdict_unexpected [OF v] obtain e es where
    e: "out = Accepted (e # es)" "effect_head_tag (h_ne w) e \<noteq> Some (lit ''settle-noted'')" by blast
  from settle_poke_form [OF t(2)] a obtain h x where p: "poke = build_settle_note_poke_with_data (h_jam w) i h rt x"
    and i: "i = note_counter st + 1" by (auto simp: envelope_u64_def)
  let ?pay = "build_graft_single_leaf_payload_in i h rt x"
  let ?c = "CauseNote (le_value (h_jam w ?pay))"
  obtain fx g' where f: "settle_poke cue veri (graft (app st)) ?c = (fx, g')" by (rule surj_pair [THEN exE], erule exE)
  have k: "kernel_poke cue veri (app st) poke = (map effect_noun fx, (app st)\<lparr>graft := g'\<rparr>)"
    by (simp add: p kernel_poke_def sieve_note f)
  have "classify_effects (h_ne w) (map effect_noun fx) = (Accepted (e # es) :: app_error poke_outcome)" "k = (app st)\<lparr>graft := g'\<rparr>"
    using o timed_poke_accepted [OF o [unfolded e(1)]] e(1)
    by (auto simp: poke_kernel_with_timeout_def gw(1) k split: delivery.splits)
  from unexpected_classified [OF gw(3) this(1) e(2)] this(2) obtain f1 fx' where
    f1: "fx = f1 # fx'" "effect_tag f1 \<notin> {''settle-noted'', ''settle-error'', ''settle-denied''}"
    and g': "graft k = g'" by auto
  have "parse_payload cue (le_value (h_jam w ?pay)) = Some \<lparr>arg_id = unat i, arg_hull = unat h,
      arg_root = le_value (tip5_to_atom_le_bytes rt), arg_data = x, arg_expected = le_value (tip5_to_atom_le_bytes rt)\<rparr>"
    using gw(5) [of ?pay] by (simp add: parse_payload_def cue_reads_def sieve_payload_built)
  from odd_effect_rotates [OF _ f1(2) this, of veri "graft (app st)" fx'] have "remembered g' (unat i)"
    by (simp only: f f1(1) fst_conv snd_conv settle_args.simps)
  then show ?thesis by (simp add: st' g' i)
qed

text \<open>An explicit identifier two ahead of the counter that is settled is the next one of the counter.\<close>

lemma two_ahead_means_settled:
  assumes "graft_host cue veri w" "settle_handler w d written hdr body st = (Ok resp, st')"
    and "response_note_id resp = note_counter st + 2"
  shows "remembered (graft (app st')) (unat (note_counter st' + 1))"
proof -
  from settle_ok_noted [OF assms(1,2)] obtain c h r where
    n: "SettleNoted (unat (response_note_id resp)) h r \<in> set (fst (settle_poke cue veri (graft (app st)) c))"
    and g: "graft (app st') = snd (settle_poke cue veri (graft (app st)) c)" by blast
  from noted_effect [OF n] g have "remembered (graft (app st')) (unat (response_note_id resp))"
    by (auto simp: apply_settlement_def remembered_def Let_def)
  moreover have "note_counter st' = note_counter st + 1" using settle_cases [OF assms(2)] by auto
  ultimately show ?thesis by (simp add: assms(3) add.assoc)
qed

text \<open>C33: two settle requests after which the automatic identifiers are stuck: one without a note identifier that the
  service answers with the error for an unexpected effect (on the two grafts this is the settlement that rotates the
  epoch: the kernel settles the note and names the rotation first), and one that settled the explicit identifier two ahead
  of the counter. From then on requests without a note identifier never get past: any number of them leaves the
  service and the kernel as they are, and each is refused.\<close>

theorem automatic_ids_wedge:
  assumes "graft_host cue veri w" "settle_handler w d written hdr body st = (r, st1)"
    and "r = Err UnexpectedEffect \<and> json_get body ''note_id'' = None \<or>
      (\<exists>resp. r = Ok resp \<and> response_note_id resp = note_counter st + 2)"
    and "automatic_requests w st1 st2" "json_get body' ''note_id'' = None"
  shows "st2 = st1 \<and> fst (settle_handler w d' written' hdr' body' st2) \<noteq> Ok resp'"
proof -
  have m: "remembered (graft (app st1)) (unat (note_counter st1 + 1))"
    using assms(3)
  proof (elim disjE conjE exE)
    assume "r = Err UnexpectedEffect" "json_get body ''note_id'' = None"
    then show ?thesis using unexpected_means_settled [OF assms(1), of d written hdr body st st1] assms(2) by simp
  qed (use two_ahead_means_settled [OF assms(1)] assms(2) in blast)
  then have "st2 = st1" using automatic_requests_stuck [OF assms(4,1)] by blast
  with remembered_next_refused [OF assms(1) m assms(5)] show ?thesis by simp
qed

definition demo_full :: "kernel_state app_state" where
  "demo_full = demo_committed\<lparr>app := (app demo_committed)\<lparr>graft := (graft (app demo_committed))\<lparr>settle_count := epoch_cap\<rparr>\<rparr>\<rparr>"

theorem automatic_ids_wedge_witness:
  "\<exists>st1. settle_handler (demo_host (\<lambda>_ _ _. Some True)) Delivered True None (JObj []) demo_full = (Err UnexpectedEffect, st1) \<and>
    snd (settle_handler (demo_host (\<lambda>_ _ _. Some True)) Delivered True None (JObj []) st1) = st1"
proof -
  let ?w = "demo_host (\<lambda>_ _ _. Some True)"
  have b: "json_get (JObj []) ''hull'' = None" "json_get (JObj []) ''note_id'' = None" by (simp_all add: json_get_def)
  have st: "committed demo_full = demo_fields" "app_tree demo_full = Some demo_tree" "settle_builder demo_full = DefaultHash"
    "\<not> rbac_enabled demo_full"
    by (simp_all add: demo_full_def demo_service_def)
  have "in_sync kernel_root ?w demo_committed" by (rule graft_sync [OF demo_graft_host demo_run])
  then have "in_sync kernel_root ?w demo_full"
    by (simp add: in_sync_def demo_full_def kernel_root_def)
  from settle_answered [OF demo_graft_host this st(2) rbac_off [OF st(4)] own_hull [OF b(1)] demo_request [OF st(1-3)]]
  obtain x where "fst (settle_handler ?w Delivered True None (JObj []) demo_full) =
      settle_answer (\<lambda>_ _ _. Some True) (graft (app demo_full)) (note_counter demo_full + 1) x demo_tree" by blast
  then have "fst (settle_handler ?w Delivered True None (JObj []) demo_full) = Err UnexpectedEffect"
    by (simp add: settle_answer_def demo_full_def new_settle_graft_def)
  then obtain st1 where h: "settle_handler ?w Delivered True None (JObj []) demo_full = (Err UnexpectedEffect, st1)"
    by (metis prod.collapse)
  have "automatic_requests ?w st1 (snd (settle_handler ?w Delivered True None (JObj []) st1))"
    by (intro automatic_requests.intros b(2))
  from automatic_ids_wedge [OF demo_graft_host h _ this b(2)] b(2) h show ?thesis by blast
qed

lemma field_position:
  "field_position fs (f_key f) (f_value f) = None \<Longrightarrow> f \<notin> set fs"
  "field_position fs (f_key f) (f_value f) = Some i \<Longrightarrow> i < length fs \<and> fs ! i = f"
  for f :: field
proof -
  have e: "g = f" if "f_key g = f_key f" "f_value g = f_value f" for g :: field
    using that by (cases g, cases f) simp
  show "field_position fs (f_key f) (f_value f) = None \<Longrightarrow> f \<notin> set fs"
    by (auto simp: field_position_def find_None_iff in_set_conv_nth)
  show "field_position fs (f_key f) (f_value f) = Some i \<Longrightarrow> i < length fs \<and> fs ! i = f"
    using e by (auto simp: field_position_def find_Some_iff)
qed

text \<open>the answer of the verify request is exact: a field is valid when it is among the committed fields and the
  request names no root or the current one.\<close>

theorem verify_exact:
  assumes "graft_host cue veri w" "digest_fn (h_varlen w)" "digest_fn (h_ten w)"
    and "app_tree st0 = None" "hull_steps w st0 st" "app_tree st = Some t"
  shows "\<exists>v. verify_handler w f root_hex st = Inr v \<and>
    (valid v \<longleftrightarrow> f \<in> set (committed st) \<and> (root_hex = [] \<or> root_hex = format_tip5 (merkle_root t)))"
proof -
  have b: "merkle_build (h_varlen w) (h_ten w) (map field_to_leaf_bytes (committed st)) = Inr t"
    "length (committed st) \<le> 500"
    using graft_sync [OF assms(1,4,5)] assms(6) by (simp_all add: in_sync_def MAX_FIELDS_def)
  have n: "length (map field_to_leaf_bytes (committed st)) \<le> 2 ^ 64" using b(2) by simp
  show ?thesis
  proof (cases "field_position (committed st) (f_key f) (f_value f)")
    case None
    with field_position(1) [OF None] assms(6) show ?thesis by (simp add: verify_handler_def Let_def)
  next
    case (Some i)
    from field_position(2) [OF Some] have i: "i < length (committed st)" "committed st ! i = f" by simp_all
    then have "i < length (map field_to_leaf_bytes (committed st))" by simp
    from merkle_complete [OF assms(2,3) b(1) this n] obtain path where
      "merkle_proof t i = Inr path" "verify_proof (h_varlen w) (h_ten w) (field_to_leaf_bytes f) path (merkle_root t)"
      using i by auto
    with Some assms(6) nth_mem [OF i(1)] i(2) show ?thesis by (simp add: verify_handler_def Let_def)
  qed
qed

lemma demo_digest: "digest_fn (\<lambda>_. [1, 0, 0, 0, 0])"
  by (simp add: digest_fn_def is_digest_def)

theorem verify_exact_witness:
  "\<exists>v. verify_handler (demo_host (\<lambda>_ _ _. None)) \<lparr>f_key = [97], f_value = [98]\<rparr> [] demo_committed = Inr v \<and> valid v"
  using verify_exact [OF demo_graft_host _ _ demo_run demo_state(2), of "\<lambda>_ _ _. None" "\<lparr>f_key = [97], f_value = [98]\<rparr>" "[]"]
  by (simp add: demo_host_def demo_digest demo_fields_def)

text \<open>The counter's file is read back as it was written.\<close>

lemma note_counter_round_trip: "load_note_counter (save_note_counter True file c) = c"
proof -
  have d: "dropWhile white_space s = s" if "s \<noteq> []" "48 \<le> hd s" "hd s \<le> 57" for s
    using that by (cases s) (simp_all add: white_space_def)
  have r: "48 \<le> x \<and> x \<le> 57" if "x \<in> set (decimal (unat c))" for x using that decimal_no_plus by blast
  have "dropWhile white_space (decimal (unat c)) = decimal (unat c)"
    by (rule d) (use r [OF hd_in_set] in simp_all)
  moreover have "dropWhile white_space (rev (decimal (unat c))) = rev (decimal (unat c))"
    by (rule d) (use r [OF last_in_set] in \<open>simp_all add: hd_rev\<close>)
  ultimately show ?thesis
    using parse_decimal [of "unat c"] unsigned_less [of c, where 'a = nat]
    by (simp add: load_note_counter_def save_note_counter_def or_keep_def)
qed

text \<open>Two fields with the same leaf: a proof of one is a proof of the other, so the field verifier accepts a field
  that was not committed.\<close>

lemma leaf_ambiguous:
  "field_to_leaf_bytes \<lparr>f_key = a @ [58] @ b, f_value = c\<rparr> = field_to_leaf_bytes \<lparr>f_key = a, f_value = b @ [58] @ c\<rparr>"
  by (simp add: field_to_leaf_bytes_def)

lemma field_verify_ambiguous:
  "field_verify w (\<lambda>_. Some [(\<lparr>f_key = a @ [58] @ b, f_value = c\<rparr>, pf)]) i bs rt =
   field_verify w (\<lambda>_. Some [(\<lparr>f_key = a, f_value = b @ [58] @ c\<rparr>, pf)]) i bs rt"
  by (simp add: field_verify_def leaf_ambiguous [simplified])

text \<open>The request that rotates the epoch: the kernel settles it and the service answers 502.\<close>

lemma rotation_answer:
  assumes "unat i \<notin> settled g" "unat i \<notin> prior_settled g" "veri (unat i) x (root_atom t) = Some True" "epoch_cap \<le> settle_count g"
  shows "settle_answer veri g i x t = Err UnexpectedEffect \<and> status_of UnexpectedEffect = 502 \<and>
    remembered (snd (apply_settlement g args)) (arg_id args)"
  using assms by (simp add: settle_answer_def apply_settlement_def Let_def remembered_def)

end
