(* ===== verification/TxBuild.thy ===== *)
theory TxBuild
  imports Seeds Graft
begin

text \<open>
  Assembling a transaction: \<^verbatim>\<open>crates/vesl-core/src/tx_builder.rs\<close> (the jammed seeds and spends, and the hashes the
  kernel is asked for) and the receipt of \<^verbatim>\<open>verify_tx.rs\<close>.  The encoders of the transaction engine are the fields
  of a record; the ordered sets and maps of the engine may fail, and the ordering of a set copies its items by
  recursion, so a noun that is too deep aborts the process: \<open>Panic\<close>.  A spend is data this code never reads.
\<close>

subsection \<open>Encoders\<close>

type_synonym note_name = "dig \<times> dig"

record 's codec =
  seed_noun :: "seed \<Rightarrow> noun"
  order_seeds :: "seed list \<Rightarrow> (ustr, noun) outcome"
  name_noun :: "note_name \<Rightarrow> noun"
  spend_noun :: "'s \<Rightarrow> noun"
  order_spends :: "(note_name \<times> 's) list \<Rightarrow> (ustr, noun) outcome"
  hash_from_noun :: "noun \<Rightarrow> dig option"
  tx_jam :: "noun \<Rightarrow> bytes"

datatype build_error =
    NoSeeds
  | SeedTooDeep nat nat
  | SeedsUnordered ustr
  | NotOneSeed nat
  | NoSpends
  | SameInput nat nat
  | SpendsUnordered ustr
  | NotOneSpend nat
  | PokeTimedOut
  | PokeFailed
  | NoEffects
  | UnexpectedTag ustr
  | EffectNotTagged
  | HashUndecodable

primrec map_err :: "('e \<Rightarrow> 'f) \<Rightarrow> ('e, 'a) outcome \<Rightarrow> ('f, 'a) outcome" where
  "map_err f (Ok x) = Ok x"
| "map_err f (Err e) = Err (f e)"
| "map_err f Panic = Panic"

definition sum_result :: "'e + 'a \<Rightarrow> ('e, 'a) outcome" where
  "sum_result r = (case r of Inl e \<Rightarrow> Err e | Inr x \<Rightarrow> Ok x)"

definition MAX_SEED_NOUN_DEPTH :: nat where "MAX_SEED_NOUN_DEPTH = 1024"

fun refuse_deep :: "'s codec \<Rightarrow> nat \<Rightarrow> seed list \<Rightarrow> build_error + unit" where
  "refuse_deep c i [] = Inr ()"
| "refuse_deep c i (s # ss) =
     (let d = noun_depth (seed_noun c s)
      in if MAX_SEED_NOUN_DEPTH < d then Inl (SeedTooDeep i d) else refuse_deep c (Suc i) ss)"

definition refuse_deep_seeds :: "'s codec \<Rightarrow> seed list \<Rightarrow> build_error + unit" where
  "refuse_deep_seeds c seeds = refuse_deep c 0 seeds"

definition jam_seeds_canonical :: "'s codec \<Rightarrow> seed list \<Rightarrow> (build_error, bytes) outcome" where
  "jam_seeds_canonical c seeds =
     (if seeds = [] then Err NoSeeds
      else and_then (sum_result (refuse_deep_seeds c seeds)) (\<lambda>_.
           and_then (map_err SeedsUnordered (order_seeds c seeds)) (\<lambda>n. Ok (tx_jam c n))))"

definition jam_seeds_manual :: "'s codec \<Rightarrow> seed list \<Rightarrow> (build_error, bytes) outcome" where
  "jam_seeds_manual c seeds =
     (if seeds = [] then Err NoSeeds
      else if length seeds \<noteq> 1 then Err (NotOneSeed (length seeds))
      else Ok (tx_jam c (tuple [seed_noun c (seeds ! 0), Atom 0, Atom 0])))"

definition jam_seeds :: "'s codec \<Rightarrow> seed list \<Rightarrow> (build_error, bytes) outcome" where
  "jam_seeds c seeds =
     (if length seeds = 1 \<and> seed_data (seeds ! 0) \<noteq> [] then jam_seeds_manual c seeds else jam_seeds_canonical c seeds)"

fun refuse_seen :: "'s codec \<Rightarrow> bytes list \<Rightarrow> (note_name \<times> 's) list \<Rightarrow> build_error + unit" where
  "refuse_seen c seen [] = Inr ()"
| "refuse_seen c seen ((name, _) # spends) =
     (let key = tx_jam c (name_noun c name)
      in case find (\<lambda>j. seen ! j = key) [0..<length seen] of
           Some first \<Rightarrow> Inl (SameInput first (length seen))
         | None \<Rightarrow> refuse_seen c (seen @ [key]) spends)"

definition refuse_duplicate_input_names :: "'s codec \<Rightarrow> (note_name \<times> 's) list \<Rightarrow> build_error + unit" where
  "refuse_duplicate_input_names c spends = refuse_seen c [] spends"

definition jam_spends_canonical :: "'s codec \<Rightarrow> (note_name \<times> 's) list \<Rightarrow> (build_error, bytes) outcome" where
  "jam_spends_canonical c spends =
     (if spends = [] then Err NoSpends
      else and_then (sum_result (refuse_duplicate_input_names c spends)) (\<lambda>_.
           and_then (map_err SpendsUnordered (order_spends c spends)) (\<lambda>n. Ok (tx_jam c n))))"

definition jam_spends :: "'s codec \<Rightarrow> (note_name \<times> 's) list \<Rightarrow> (build_error, bytes) outcome" where
  "jam_spends c spends = jam_spends_canonical c spends"

definition jam_spends_manual :: "'s codec \<Rightarrow> (note_name \<times> 's) list \<Rightarrow> (build_error, bytes) outcome" where
  "jam_spends_manual c spends =
     (if spends = [] then Err NoSpends
      else if length spends \<noteq> 1 then Err (NotOneSpend (length spends))
      else
        let (name, spend) = spends ! 0;
            kv = tuple [name_noun c name, spend_noun c spend]
        in Ok (tx_jam c (tuple [kv, Atom 0, Atom 0])))"


subsection \<open>Hashes of the kernel\<close>

definition bytes_to_atom :: "bytes \<Rightarrow> noun" where
  "bytes_to_atom bs = (if bs = [] then Atom 0 else Atom (le_value bs))"

definition extract_hash_from_effect :: "'s codec \<Rightarrow> ne \<Rightarrow> noun list \<Rightarrow> string \<Rightarrow> (build_error, dig) outcome" where
  "extract_hash_from_effect c ne effects expected_tag =
     (case effects of
        [] \<Rightarrow> Err NoEffects
      | effect # _ \<Rightarrow>
          (case effect_head_tag ne effect of
             None \<Rightarrow> Err EffectNotTagged
           | Some tag \<Rightarrow>
               if tag \<noteq> lit expected_tag then Err (UnexpectedTag tag)
               else (case effect of
                       Atom _ \<Rightarrow> Panic
                     | Cell _ hash_noun \<Rightarrow>
                         (case hash_from_noun c hash_noun of None \<Rightarrow> Err HashUndecodable | Some h \<Rightarrow> Ok h))))"

text \<open>The kernel is poked once, within a bound on the time.\<close>

datatype poke_result = Answered "noun list" | TimedOut | Failed

definition ask_hash ::
  "'s codec \<Rightarrow> ne \<Rightarrow> (noun \<Rightarrow> poke_result) \<Rightarrow> string \<Rightarrow> noun list \<Rightarrow> (build_error, dig) outcome" where
  "ask_hash c ne poke tag args =
     (case poke (tuple (make_tag_in (lit tag) # args)) of
        TimedOut \<Rightarrow> Err PokeTimedOut
      | Failed \<Rightarrow> Err PokeFailed
      | Answered effects \<Rightarrow> extract_hash_from_effect c ne effects tag)"

definition kernel_sig_hash_with_timeout ::
  "'s codec \<Rightarrow> ne \<Rightarrow> (noun \<Rightarrow> poke_result) \<Rightarrow> seed list \<Rightarrow> u64 \<Rightarrow> (build_error, dig) outcome" where
  "kernel_sig_hash_with_timeout c ne poke seeds fee =
     and_then (jam_seeds c seeds) (\<lambda>seeds_jammed.
       ask_hash c ne poke ''sig-hash'' [bytes_to_atom seeds_jammed, atom_from_u64 fee])"

definition kernel_tx_id_with_timeout ::
  "'s codec \<Rightarrow> ne \<Rightarrow> (noun \<Rightarrow> poke_result) \<Rightarrow> (note_name \<times> 's) list \<Rightarrow> (build_error, dig) outcome" where
  "kernel_tx_id_with_timeout c ne poke spends =
     and_then (jam_spends c spends) (\<lambda>spends_jammed. ask_hash c ne poke ''tx-id'' [bytes_to_atom spends_jammed])"

definition kernel_note_hash_with_timeout ::
  "'s codec \<Rightarrow> ne \<Rightarrow> (noun \<Rightarrow> poke_result) \<Rightarrow> ('n \<Rightarrow> noun) \<Rightarrow> 'n \<Rightarrow> (build_error, dig) outcome" where
  "kernel_note_hash_with_timeout c ne poke note_noun n =
     ask_hash c ne poke ''note-hash'' [bytes_to_atom (tx_jam c (note_noun n))]"

definition kernel_lock_root_with_timeout ::
  "'s codec \<Rightarrow> ne \<Rightarrow> (noun \<Rightarrow> poke_result) \<Rightarrow> (lock \<Rightarrow> noun) \<Rightarrow> lock \<Rightarrow> (build_error, dig) outcome" where
  "kernel_lock_root_with_timeout c ne poke lock_noun l =
     ask_hash c ne poke ''lock-root'' [bytes_to_atom (tx_jam c (lock_noun l))]"


subsection \<open>Receipts\<close>

record tx_input =
  in_name :: ustr
  in_amount :: u64
  in_source :: ustr
  coinbase :: bool

record tx_output =
  out_name :: ustr
  out_value :: "u64 option"
  lock_summary :: ustr

datatype block_result =
    InBlock ustr u64 ustr u64
  | BlockPending
  | BlockNotFound

record tx_details =
  td_tx_id :: ustr
  td_block_id :: ustr
  td_height :: u64
  td_timestamp :: u64
  td_version :: u64
  td_size :: u64
  td_total_input :: u64
  td_total_output :: "u64 option"
  td_fee :: "u64 option"
  td_inputs :: "tx_input list"
  td_outputs :: "tx_output list"
  td_parent :: ustr

datatype details_result = Found tx_details | DetailsPending | DetailsNotFound

datatype 'e verify_error = TxMissing ustr | ChainError 'e

record receipt =
  tx_hash :: ustr
  accepted :: bool
  block_id :: "ustr option"
  block_height :: "u64 option"
  timestamp :: "u64 option"
  fee_paid :: "u64 option"
  amount_total :: "u64 option"
  inputs :: "tx_input list"
  outputs :: "tx_output list"
  primary_lock_summary :: "ustr option"

text \<open>The two queries of a client; the second is made only when the first found the transaction.\<close>

definition fetch_receipt ::
  "(ustr \<Rightarrow> 'e + block_result) \<Rightarrow> (ustr \<Rightarrow> 'e + details_result) \<Rightarrow> ustr \<Rightarrow> 'e verify_error + receipt" where
  "fetch_receipt get_block get_details tx =
     (case get_block tx of
        Inl e \<Rightarrow> Inl (ChainError e)
      | Inr BlockNotFound \<Rightarrow> Inl (TxMissing tx)
      | Inr block \<Rightarrow>
          (case get_details tx of
             Inl e \<Rightarrow> Inl (ChainError e)
           | Inr DetailsNotFound \<Rightarrow> Inl (TxMissing tx)
           | Inr details \<Rightarrow>
               let (acc, bid, height, time_block) =
                     (case block of InBlock b h p t \<Rightarrow> (True, Some b, Some h, Some t) | _ \<Rightarrow> (False, None, None, None));
                   (fee, total, ins, outs, time_details) =
                     (case details of
                        Found d \<Rightarrow> (td_fee d, td_total_output d, td_inputs d, td_outputs d, Some (td_timestamp d))
                      | _ \<Rightarrow> (None, None, [], [], None))
               in Inr \<lparr>tx_hash = tx, accepted = acc, block_id = bid, block_height = height,
                       timestamp = (case time_block of Some t \<Rightarrow> Some t | None \<Rightarrow> time_details),
                       fee_paid = fee, amount_total = total, inputs = ins, outputs = outs,
                       primary_lock_summary = (if length outs = 1 then Some (lock_summary (outs ! 0)) else None)\<rparr>))"


subsection \<open>What the engine and the machine promise\<close>

text \<open>The ordering of a set survives seeds up to a depth, the map of the engine reads back as the entries it was
  built from with the later of two equal keys kept, and a jammed noun is read back from its atom.\<close>

definition stack_law :: "'s codec \<Rightarrow> nat \<Rightarrow> bool" where
  "stack_law c wall \<longleftrightarrow> (\<forall>ss. (\<forall>s\<in>set ss. depth (seed_noun c s) \<le> wall) \<longrightarrow> order_seeds c ss \<noteq> Panic)"

definition entry_nouns :: "'s codec \<Rightarrow> (note_name \<times> 's) list \<Rightarrow> (noun \<times> noun) list" where
  "entry_nouns c spends = map (\<lambda>(name, spend). (name_noun c name, spend_noun c spend)) spends"

definition zmap_law :: "'s codec \<Rightarrow> (noun \<Rightarrow> noun \<Rightarrow> noun option) \<Rightarrow> bool" where
  "zmap_law c entries \<longleftrightarrow>
     (\<forall>spends. order_spends c spends \<noteq> Panic \<and>
        (\<forall>n. order_spends c spends = Ok n \<longrightarrow> entries n = map_of (rev (entry_nouns c spends))))"

definition jam_law :: "'s codec \<Rightarrow> (nat \<Rightarrow> noun option) \<Rightarrow> bool" where
  "jam_law c cue \<longleftrightarrow> (\<forall>n. cue (le_value (tx_jam c n)) = Some n)"

text \<open>The engine's one-element set and map are the nodes without children that the manual encoders write.\<close>

definition one_node_law :: "'s codec \<Rightarrow> bool" where
  "one_node_law c \<longleftrightarrow>
     (\<forall>s. order_seeds c [s] = Ok (tuple [seed_noun c s, Atom 0, Atom 0])) \<and>
     (\<forall>k s. order_spends c [(k, s)] = Ok (tuple [tuple [name_noun c k, spend_noun c s], Atom 0, Atom 0]))"


subsection \<open>Seeds\<close>

lemma noun_depth_depth: "noun_depth n = depth n"
  using depth_pos [of n] by (simp add: noun_depth_def depth_loop_max)

lemma and_then_Err: "and_then r f = Err e \<longleftrightarrow> r = Err e \<or> (\<exists>x. r = Ok x \<and> f x = Err e)"
  by (cases r) auto

lemma and_then_Panic: "and_then r f = Panic \<longleftrightarrow> r = Panic \<or> (\<exists>x. r = Ok x \<and> f x = Panic)"
  by (cases r) auto

lemma map_err_iff [simp]:
  "map_err f r = Ok x \<longleftrightarrow> r = Ok x" "map_err f r = Panic \<longleftrightarrow> r = Panic" "map_err f r = Err g \<longleftrightarrow> (\<exists>e. r = Err e \<and> g = f e)"
  by (cases r; auto)+

lemma sum_result_iff [simp]:
  "sum_result r = Ok x \<longleftrightarrow> r = Inr x" "sum_result r \<noteq> Panic" "sum_result r = Err e \<longleftrightarrow> r = Inl e"
  by (cases r; auto simp: sum_result_def)+

lemma refuse_deep_Inr: "refuse_deep c k ss = Inr () \<longleftrightarrow> (\<forall>s\<in>set ss. depth (seed_noun c s) \<le> MAX_SEED_NOUN_DEPTH)"
  by (induction ss arbitrary: k) (auto simp: noun_depth_depth Let_def)

lemma refuse_deep_Inl:
  "refuse_deep c k ss = Inl e \<longleftrightarrow>
     (\<exists>i<length ss. e = SeedTooDeep (k + i) (depth (seed_noun c (ss ! i))) \<and>
        MAX_SEED_NOUN_DEPTH < depth (seed_noun c (ss ! i)) \<and>
        (\<forall>j<i. depth (seed_noun c (ss ! j)) \<le> MAX_SEED_NOUN_DEPTH))"
  by (induction ss arbitrary: k) (auto simp: noun_depth_depth Let_def Ex_less_Suc2 All_less_Suc2)

definition by_hand :: "seed list \<Rightarrow> bool" where
  "by_hand seeds \<longleftrightarrow> length seeds = 1 \<and> seed_data (seeds ! 0) \<noteq> []"

lemma manual_not_Panic: "jam_seeds_manual c seeds \<noteq> Panic" "jam_seeds_manual c seeds \<noteq> Err (SeedTooDeep i d)"
  by (simp_all add: jam_seeds_manual_def)

lemma jam_seeds_Ok:
  "jam_seeds c seeds = Ok bs \<longleftrightarrow>
     (if by_hand seeds then bs = tx_jam c (tuple [seed_noun c (seeds ! 0), Atom 0, Atom 0])
      else seeds \<noteq> [] \<and> (\<forall>s\<in>set seeds. depth (seed_noun c s) \<le> MAX_SEED_NOUN_DEPTH) \<and>
        (\<exists>n. order_seeds c seeds = Ok n \<and> bs = tx_jam c n))"
  by (auto simp: jam_seeds_def by_hand_def jam_seeds_manual_def jam_seeds_canonical_def refuse_deep_seeds_def refuse_deep_Inr)

text \<open>C24: No seeds abort the process. The depth is measured before the recursive ordering sees a noun, and the bound
  is below the depth the ordering survives; what is refused for depth is exactly the first seed past the bound, of
  seeds that the ordering would have to copy, and the refusal names its position and its depth.\<close>

theorem jam_seeds_never_aborts:
  assumes "stack_law c wall" "MAX_SEED_NOUN_DEPTH \<le> wall"
  shows "jam_seeds c seeds \<noteq> Panic \<and>
    (jam_seeds c seeds = Err (SeedTooDeep i d) \<longleftrightarrow>
       \<not> by_hand seeds \<and> i < length seeds \<and> d = depth (seed_noun c (seeds ! i)) \<and> MAX_SEED_NOUN_DEPTH < d \<and>
       (\<forall>j<i. depth (seed_noun c (seeds ! j)) \<le> MAX_SEED_NOUN_DEPTH))"
proof (cases "by_hand seeds")
  case True
  then show ?thesis by (simp add: jam_seeds_def by_hand_def manual_not_Panic)
next
  case False
  have "order_seeds c seeds \<noteq> Panic" if "\<forall>s\<in>set seeds. depth (seed_noun c s) \<le> MAX_SEED_NOUN_DEPTH"
    using assms that by (force simp: stack_law_def)
  with False show ?thesis
    by (auto simp: jam_seeds_def by_hand_def jam_seeds_canonical_def and_then_Panic and_then_Err refuse_deep_seeds_def
        refuse_deep_Inr refuse_deep_Inl)
qed

text \<open>The encoder by hand and the encoder of the engine agree where both apply.\<close>

theorem one_element_encoders_agree:
  assumes "one_node_law c"
  shows "(depth (seed_noun c s) \<le> MAX_SEED_NOUN_DEPTH \<longrightarrow> jam_seeds_manual c [s] = jam_seeds_canonical c [s]) \<and>
    jam_spends_manual c [(k, v)] = jam_spends_canonical c [(k, v)]"
  using assms by (cases k)
    (simp add: one_node_law_def jam_seeds_manual_def jam_seeds_canonical_def refuse_deep_seeds_def sum_result_def
      noun_depth_depth jam_spends_manual_def jam_spends_canonical_def refuse_duplicate_input_names_def)


subsection \<open>Spends\<close>

abbreviation name_keys :: "'s codec \<Rightarrow> (note_name \<times> 's) list \<Rightarrow> bytes list" where
  "name_keys c spends \<equiv> map (\<lambda>(name, _). tx_jam c (name_noun c name)) spends"

text \<open>A list repeats itself first at a place when what comes before it is distinct.\<close>

definition first_repeat :: "'a list \<Rightarrow> nat \<Rightarrow> nat \<Rightarrow> bool" where
  "first_repeat xs i j \<longleftrightarrow> i < j \<and> j < length xs \<and> xs ! i = xs ! j \<and> distinct (take j xs)"

lemma first_repeat_unique:
  assumes "first_repeat xs i j" "first_repeat xs i' j'"
  shows "i = i' \<and> j = j'"
proof -
  have late: "\<not> b < d" if "first_repeat xs a b" "first_repeat xs c d" for a b c d
  proof
    assume "b < d"
    then have "take d xs ! a = take d xs ! b" "a < length (take d xs)" "b < length (take d xs)" "a \<noteq> b"
      using that by (auto simp: first_repeat_def)
    then show False using that(2) by (meson first_repeat_def nth_eq_iff_index_eq)
  qed
  then have "j = j'" using assms by (meson linorder_neqE_nat)
  moreover have "take j xs ! i = take j xs ! i'" "i < length (take j xs)" "i' < length (take j xs)"
    using assms \<open>j = j'\<close> by (auto simp: first_repeat_def)
  ultimately show ?thesis using assms(1) by (meson first_repeat_def nth_eq_iff_index_eq)
qed

lemma first_repeat_exists: "\<not> distinct xs \<Longrightarrow> \<exists>i j. first_repeat xs i j"
proof (induction xs rule: rev_induct)
  case (snoc x xs)
  show ?case
  proof (cases "distinct xs")
    case True
    with snoc.prems obtain i where "i < length xs" "xs ! i = x" by (auto simp: in_set_conv_nth)
    with True have "first_repeat (xs @ [x]) i (length xs)" by (simp add: first_repeat_def nth_append)
    then show ?thesis by blast
  next
    case False
    with snoc.IH obtain i j where "first_repeat xs i j" by blast
    then have "first_repeat (xs @ [x]) i j" by (auto simp: first_repeat_def nth_append)
    then show ?thesis by blast
  qed
qed simp

lemma find_index_None: "find (\<lambda>j. xs ! j = x) [0..<length xs] = None \<longleftrightarrow> x \<notin> set xs"
  by (auto simp: find_None_iff in_set_conv_nth)

lemma find_index_Some: "find (\<lambda>j. xs ! j = x) [0..<length xs] = Some i \<Longrightarrow> i < length xs \<and> xs ! i = x"
  by (auto simp: find_Some_iff)

lemma refuse_seen_Inl:
  "distinct seen \<Longrightarrow> refuse_seen c seen spends = Inl e \<Longrightarrow>
   \<exists>i j. e = SameInput i j \<and> first_repeat (seen @ name_keys c spends) i j"
proof (induction c seen spends rule: refuse_seen.induct)
  case (2 c seen name spend spends)
  let ?key = "tx_jam c (name_noun c name)"
  show ?case
  proof (cases "find (\<lambda>j. seen ! j = ?key) [0..<length seen]")
    case None
    then have "distinct (seen @ [?key])" using "2.prems"(1) by (simp add: find_index_None)
    with None 2 show ?thesis by simp
  next
    case (Some i)
    with "2.prems" have "e = SameInput i (length seen)" by simp
    moreover have "first_repeat (seen @ name_keys c ((name, spend) # spends)) i (length seen)"
      using find_index_Some [OF Some] "2.prems"(1) by (auto simp: first_repeat_def nth_append)
    ultimately show ?thesis by blast
  qed
qed simp

lemma refuse_seen_Inr: "refuse_seen c seen spends = Inr () \<Longrightarrow> distinct seen \<Longrightarrow> distinct (seen @ name_keys c spends)"
proof (induction c seen spends rule: refuse_seen.induct)
  case (2 c seen name spend spends)
  then show ?case by (auto simp: Let_def find_index_None split: option.splits)
qed simp

text \<open>The keys that are compared are jammed names; a jammed noun is read back, so they are compared as nouns.\<close>

definition name_nouns :: "'s codec \<Rightarrow> (note_name \<times> 's) list \<Rightarrow> noun list" where
  "name_nouns c spends = map (\<lambda>(name, _). name_noun c name) spends"

lemma entry_names: "map fst (entry_nouns c spends) = name_nouns c spends"
  by (simp add: entry_nouns_def name_nouns_def case_prod_beta comp_def)

lemma first_repeat_map: "inj f \<Longrightarrow> first_repeat (map f xs) i j \<longleftrightarrow> first_repeat xs i j"
  by (auto simp: first_repeat_def take_map distinct_map inj_eq intro: inj_on_subset)

lemma jam_inj: "jam_law c cue \<Longrightarrow> inj (tx_jam c)"
  by (rule injI) (metis jam_law_def option.inject)

lemma name_keys_nouns: "name_keys c spends = map (tx_jam c) (name_nouns c spends)"
  by (simp add: name_nouns_def case_prod_beta comp_def)

lemma refused_names:
  assumes "jam_law c cue"
  shows "refuse_duplicate_input_names c spends = Inr () \<longleftrightarrow> distinct (name_nouns c spends)"
    and "refuse_duplicate_input_names c spends = Inl e \<longleftrightarrow> (\<exists>i j. e = SameInput i j \<and> first_repeat (name_nouns c spends) i j)"
proof -
  have distinct: "distinct (name_keys c spends) \<longleftrightarrow> distinct (name_nouns c spends)"
    using jam_inj [OF assms] by (auto simp: name_keys_nouns distinct_map intro: inj_on_subset)
  have repeats: "first_repeat (name_keys c spends) i j \<longleftrightarrow> first_repeat (name_nouns c spends) i j" for i j
    using jam_inj [OF assms] by (simp add: name_keys_nouns first_repeat_map)
  have clash: "\<not> distinct xs" if "first_repeat xs i j" for xs :: "noun list" and i j
    using that by (metis first_repeat_def less_trans nat_neq_iff nth_eq_iff_index_eq)
  have fwd: "\<exists>i j. e = SameInput i j \<and> first_repeat (name_nouns c spends) i j"
    if "refuse_duplicate_input_names c spends = Inl e" for e
    using refuse_seen_Inl [of "[]" c spends e] that by (auto simp: refuse_duplicate_input_names_def repeats simp del: map_map)
  show Inr: "refuse_duplicate_input_names c spends = Inr () \<longleftrightarrow> distinct (name_nouns c spends)"
  proof
    assume "distinct (name_nouns c spends)"
    with fwd clash show "refuse_duplicate_input_names c spends = Inr ()"
      by (cases "refuse_duplicate_input_names c spends") (blast, simp)
  qed (use refuse_seen_Inr [of c "[]"] distinct in \<open>simp add: refuse_duplicate_input_names_def\<close>)
  show "refuse_duplicate_input_names c spends = Inl e \<longleftrightarrow> (\<exists>i j. e = SameInput i j \<and> first_repeat (name_nouns c spends) i j)"
  proof
    assume "\<exists>i j. e = SameInput i j \<and> first_repeat (name_nouns c spends) i j"
    then obtain i j where e: "e = SameInput i j" "first_repeat (name_nouns c spends) i j" by blast
    then obtain e' where "refuse_duplicate_input_names c spends = Inl e'"
      using Inr clash by (cases "refuse_duplicate_input_names c spends") auto
    with fwd e first_repeat_unique show "refuse_duplicate_input_names c spends = Inl e" by blast
  qed (rule fwd)
qed

lemma entries_complete:
  assumes "distinct (name_nouns c spends)"
  shows "\<forall>(name, spend)\<in>set spends. map_of (rev (entry_nouns c spends)) (name_noun c name) = Some (spend_noun c spend)"
    and "card (dom (map_of (rev (entry_nouns c spends)))) = length spends"
proof -
  let ?es = "rev (entry_nouns c spends)"
  have keys: "distinct (map fst ?es)"
    using assms by (simp add: entry_names rev_map [symmetric])
  then show "\<forall>(name, spend)\<in>set spends. map_of ?es (name_noun c name) = Some (spend_noun c spend)"
    by (auto simp: entry_nouns_def intro!: map_of_is_SomeI)
  have "dom (map_of ?es) = set (map fst ?es)" by (simp add: dom_map_of_conv_image_fst)
  with keys show "card (dom (map_of ?es)) = length spends"
    by (metis distinct_card entry_nouns_def length_map length_rev)
qed

text \<open>An engine whose sets and maps are lists of their nouns, with an enumeration of the nouns for \<open>jam\<close>.\<close>

definition dig_noun :: "dig \<Rightarrow> noun" where
  "dig_noun d = foldr (\<lambda>w n. Cell (Atom (unat w)) n) d (Atom 0)"

definition demo_seed :: "seed \<Rightarrow> noun" where
  "demo_seed s = foldr (\<lambda>w n. Cell (Atom 0) n) (parent_hash s) (Atom (unat (gift s)))"

definition demo_name :: "note_name \<Rightarrow> noun" where
  "demo_name name = Cell (dig_noun (fst name)) (dig_noun (snd name))"

definition demo_codec :: "nat codec" where
  "demo_codec =
     \<lparr>seed_noun = demo_seed,
      order_seeds = (\<lambda>ss. if \<exists>s\<in>set ss. 2048 < depth (demo_seed s) then Panic else Ok (Atom (length ss))),
      name_noun = demo_name, spend_noun = Atom,
      order_spends = (\<lambda>es. Ok (foldl (\<lambda>n (name, s). Cell (Cell (demo_name name) (Atom s)) n) (Atom 0) es)),
      hash_from_noun = (\<lambda>n. case n of Atom a \<Rightarrow> Some [of_nat a] | _ \<Rightarrow> None),
      tx_jam = (\<lambda>n. demo_ne (to_nat n))\<rparr>"

lemma demo_sel:
  "seed_noun demo_codec = demo_seed" "name_noun demo_codec = demo_name" "spend_noun demo_codec = Atom"
  "order_seeds demo_codec ss = (if \<exists>s\<in>set ss. 2048 < depth (demo_seed s) then Panic else Ok (Atom (length ss)))"
  "order_spends demo_codec es = Ok (foldl (\<lambda>n (name, s). Cell (Cell (demo_name name) (Atom s)) n) (Atom 0) es)"
  "hash_from_noun demo_codec n = (case n of Atom a \<Rightarrow> Some [of_nat a] | _ \<Rightarrow> None)"
  "tx_jam demo_codec n = demo_ne (to_nat n)"
  by (simp_all add: demo_codec_def)

fun demo_entries :: "noun \<Rightarrow> noun \<Rightarrow> noun option" where
  "demo_entries (Cell (Cell k v) n) = (demo_entries n)(k \<mapsto> v)"
| "demo_entries _ = Map.empty"

lemma demo_zmap: "zmap_law demo_codec demo_entries"
proof -
  have "demo_entries (foldl (\<lambda>n (name, s). Cell (Cell (demo_name name) (Atom s)) n) n es) =
      demo_entries n ++ map_of (rev (entry_nouns demo_codec es))" for es n
    by (induction es arbitrary: n) (auto simp: entry_nouns_def demo_sel)
  from this [where n = "Atom 0"] show ?thesis by (simp add: zmap_law_def demo_sel)
qed

lemma demo_jam: "jam_law demo_codec (\<lambda>a. Some (from_nat a))"
  using demo_ne_law by (simp add: jam_law_def demo_sel ne_law_def)

lemma demo_stack: "stack_law demo_codec 2048"
  by (auto simp: stack_law_def demo_sel not_le)

definition demo_spends :: "(note_name \<times> nat) list" where
  "demo_spends = [(([1], [2]), 5), (([1], [3]), 6)]"

definition demo_map :: noun where
  "demo_map = Cell (Cell (demo_name ([1], [3])) (Atom 6)) (Cell (Cell (demo_name ([1], [2])) (Atom 5)) (Atom 0))"

lemma demo_spends_jammed: "jam_spends demo_codec demo_spends = Ok (demo_ne (to_nat demo_map))"
proof -
  have "refuse_duplicate_input_names demo_codec demo_spends = Inr ()"
    by (simp add: refused_names(1) [OF demo_jam] name_nouns_def demo_spends_def demo_sel demo_name_def dig_noun_def)
  moreover have "order_spends demo_codec demo_spends = Ok demo_map"
    by (simp add: demo_sel demo_spends_def demo_map_def)
  moreover have "demo_spends \<noteq> []" by (simp add: demo_spends_def)
  ultimately show ?thesis by (simp add: jam_spends_def jam_spends_canonical_def demo_sel)
qed

text \<open>C23: A jammed set of spends is the spends it was given. The atom is read back as a map that holds every spend
  under its input note and nothing else, one entry for each; the engine's map would drop a spend of an input named
  twice, and exactly such lists are refused, with the positions of the first repeated name.\<close>

theorem jam_spends_faithful:
  assumes "zmap_law c entries" "jam_law c cue"
  shows "(jam_spends c spends = Err (SameInput i j) \<longleftrightarrow> first_repeat (name_nouns c spends) i j) \<and>
    (jam_spends c spends = Ok bs \<longrightarrow>
       (\<exists>n. cue (le_value bs) = Some n \<and>
          (\<forall>(name, spend)\<in>set spends. entries n (name_noun c name) = Some (spend_noun c spend)) \<and>
          card (dom (entries n)) = length spends))"
proof -
  have "spends \<noteq> []" if "first_repeat (name_nouns c spends) i j"
    using that by (auto simp: first_repeat_def name_nouns_def)
  then have dup: "jam_spends c spends = Err (SameInput i j) \<longleftrightarrow> first_repeat (name_nouns c spends) i j"
    by (auto simp: jam_spends_def jam_spends_canonical_def and_then_Err refused_names [OF assms(2)])
  have "\<exists>n. cue (le_value bs) = Some n \<and>
      (\<forall>(name, spend)\<in>set spends. entries n (name_noun c name) = Some (spend_noun c spend)) \<and>
      card (dom (entries n)) = length spends" if ok: "jam_spends c spends = Ok bs"
  proof -
    obtain n where n: "order_spends c spends = Ok n" "bs = tx_jam c n" "distinct (name_nouns c spends)"
      using ok by (auto simp: jam_spends_def jam_spends_canonical_def refused_names [OF assms(2)] split: if_splits)
    then have "entries n = map_of (rev (entry_nouns c spends))" "cue (le_value bs) = Some n"
      using assms by (simp_all add: zmap_law_def jam_law_def)
    with entries_complete [OF n(3)] show ?thesis by auto
  qed
  with dup show ?thesis by blast
qed

lemma first_repeat_ends: "first_repeat [a, b, a] 0 2 \<longleftrightarrow> a \<noteq> b"
  by (auto simp: first_repeat_def numeral_2_eq_2)

theorem jam_spends_faithful_witness:
  "card (dom (demo_entries demo_map)) = length demo_spends \<and>
   jam_spends demo_codec [(([1], [2]), 5), (([1], [3]), 6), (([1], [2]), 7)] = Err (SameInput 0 2)"
proof
  have "from_nat (le_value (demo_ne (to_nat demo_map))) = demo_map"
    using demo_jam by (simp add: jam_law_def demo_sel)
  then show "card (dom (demo_entries demo_map)) = length demo_spends"
    using jam_spends_faithful [OF demo_zmap demo_jam, THEN conjunct2, rule_format, OF demo_spends_jammed] by auto
  have "demo_name ([1], [2]) \<noteq> demo_name ([1], [3])" by (simp add: demo_name_def dig_noun_def)
  then show "jam_spends demo_codec [(([1], [2]), 5), (([1], [3]), 6), (([1], [2]), 7)] = Err (SameInput 0 2)"
    by (simp only: jam_spends_faithful [OF demo_zmap demo_jam, THEN conjunct1] name_nouns_def list.map case_prod_conv
        demo_sel first_repeat_ends) simp
qed


subsection \<open>Hashes\<close>

lemma extract_hash_iff:
  "extract_hash_from_effect c ne effects tag = Ok h \<longleftrightarrow>
     (\<exists>a answer rest. effects = Cell (Atom a) answer # rest \<and>
        utf8_lossy (trim_trailing_zeros (ne a)) = lit tag \<and> hash_from_noun c answer = Some h)"
  by (auto simp: extract_hash_from_effect_def effect_head_tag_def split: list.splits noun.splits option.splits)

lemma extract_hash_not_Panic: "extract_hash_from_effect c ne effects tag \<noteq> Panic"
  by (auto simp: extract_hash_from_effect_def effect_head_tag_def split: list.splits noun.splits option.splits)

lemma ask_hash_iff:
  "ask_hash c ne poke tag args = Ok h \<longleftrightarrow>
     (\<exists>a answer rest. poke (tuple (make_tag_in (lit tag) # args)) = Answered (Cell (Atom a) answer # rest) \<and>
        utf8_lossy (trim_trailing_zeros (ne a)) = lit tag \<and> hash_from_noun c answer = Some h)"
  by (auto simp: ask_hash_def extract_hash_iff split: poke_result.splits)

lemma ask_hash_not_Panic: "ask_hash c ne poke tag args \<noteq> Panic"
  by (auto simp: ask_hash_def extract_hash_not_Panic split: poke_result.splits)

text \<open>The identifier of a transaction is the kernel's answer to its spends. One is returned exactly when the
  spends could be jammed and the kernel, poked with the tag and their atom, answers in time with a first effect of
  that very tag whose tail is a digest; no answer of a kernel makes the call panic.\<close>

theorem tx_id_is_kernels_answer:
  assumes "zmap_law c entries"
  shows "kernel_tx_id_with_timeout c ne poke spends \<noteq> Panic \<and>
    (kernel_tx_id_with_timeout c ne poke spends = Ok h \<longleftrightarrow>
       (\<exists>bs a answer rest. jam_spends c spends = Ok bs \<and>
          poke (Cell (make_tag_in (lit ''tx-id'')) (Atom (le_value bs))) = Answered (Cell (Atom a) answer # rest) \<and>
          utf8_lossy (trim_trailing_zeros (ne a)) = lit ''tx-id'' \<and> hash_from_noun c answer = Some h))"
proof -
  have arg: "bytes_to_atom bs = Atom (le_value bs)" for bs by (simp add: bytes_to_atom_def)
  have "jam_spends c spends \<noteq> Panic"
    using assms by (auto simp: jam_spends_def jam_spends_canonical_def zmap_law_def and_then_Panic)
  then show ?thesis
    by (simp add: kernel_tx_id_with_timeout_def ask_hash_iff ask_hash_not_Panic and_then_Panic arg)
qed


theorem tx_id_is_kernels_answer_witness:
  "kernel_tx_id_with_timeout demo_codec demo_ne
     (\<lambda>_. Answered [Cell (make_tag_in (lit ''tx-id'')) (Atom 7)]) demo_spends = Ok [7]"
proof -
  have tag: "make_tag_in (lit ''tx-id'') = Atom (tas ''tx-id'')"
    by (simp only: make_tag_in_def make_atom_value tas_def)
  have "effect_head_tag demo_ne (Cell (Atom (tas ''tx-id'')) (Atom 7)) = Some (lit ''tx-id'')"
    by (rule head_tag [OF demo_ne_law]) (simp add: ascii_term_def)
  then have "utf8_lossy (trim_trailing_zeros (demo_ne (tas ''tx-id''))) = lit ''tx-id''"
    by (simp only: effect_head_tag_def noun.case option.inject)
  with tag demo_spends_jammed show ?thesis
    by (subst tx_id_is_kernels_answer [OF demo_zmap, THEN conjunct2]) (simp add: demo_sel del: lit_Cons)
qed

theorem jam_seeds_never_aborts_witness:
  "jam_seeds demo_codec [\<lparr>output_source = None, seed_root = [], seed_data = [], gift = 1, parent_hash = replicate 1100 0\<rparr>] =
     Err (SeedTooDeep 0 1101)"
proof -
  have "depth (demo_seed \<lparr>output_source = None, seed_root = [], seed_data = [], gift = 1, parent_hash = replicate n 0\<rparr>) = Suc n" for n
    by (induction n) (auto simp: demo_seed_def)
  from this [of 1100] show ?thesis
    by (subst jam_seeds_never_aborts [OF demo_stack, THEN conjunct2])
      (simp_all add: MAX_SEED_NOUN_DEPTH_def by_hand_def demo_sel)
qed


subsection \<open>Receipts\<close>

lemma only_output: "(if length xs = 1 then Some (f (xs ! 0)) else None) = (case xs of [x] \<Rightarrow> Some (f x) | _ \<Rightarrow> None)"
  by (auto split: list.splits)

text \<open>A receipt attests what the node answered, and only that. It is marked accepted exactly when the node puts the
  transaction in a block, and then carries that block's identifier, height and time; the amounts and the notes are the
  node's details or absent; one lock is named exactly for a single output; and a transaction that either answer does
  not know has no receipt.\<close>

theorem receipt_exact:
  "fetch_receipt get_block get_details tx = Inr r \<longleftrightarrow>
     (\<exists>block details. get_block tx = Inr block \<and> block \<noteq> BlockNotFound \<and> get_details tx = Inr details \<and>
        details \<noteq> DetailsNotFound \<and> tx_hash r = tx \<and>
        (\<forall>b h p t. block = InBlock b h p t \<longrightarrow>
           accepted r \<and> block_id r = Some b \<and> block_height r = Some h \<and> timestamp r = Some t) \<and>
        (block = BlockPending \<longrightarrow> \<not> accepted r \<and> block_id r = None \<and> block_height r = None \<and>
           timestamp r = (case details of Found d \<Rightarrow> Some (td_timestamp d) | _ \<Rightarrow> None)) \<and>
        (\<forall>d. details = Found d \<longrightarrow> fee_paid r = td_fee d \<and> amount_total r = td_total_output d \<and>
           inputs r = td_inputs d \<and> outputs r = td_outputs d) \<and>
        (details = DetailsPending \<longrightarrow> fee_paid r = None \<and> amount_total r = None \<and> inputs r = [] \<and> outputs r = []) \<and>
        primary_lock_summary r = (case outputs r of [out] \<Rightarrow> Some (lock_summary out) | _ \<Rightarrow> None))"
  by (cases r; cases "get_block tx"; cases "get_details tx")
    (auto simp: fetch_receipt_def only_output simp del: One_nat_def split: block_result.splits details_result.splits)

theorem receipt_exact_witness:
  "fetch_receipt (\<lambda>_. Inr (InBlock [1] 2 [3] 4) :: unit + block_result) (\<lambda>_. Inr DetailsPending) [5] =
     Inr \<lparr>tx_hash = [5], accepted = True, block_id = Some [1], block_height = Some 2, timestamp = Some 4, fee_paid = None,
          amount_total = None, inputs = [], outputs = [], primary_lock_summary = None\<rparr>"
  by (subst receipt_exact) simp

end
