(* ===== verification/NodeClient.thy ===== *)
theory NodeClient
  imports TxBuild HullApi
begin

text \<open>
  The clients of a node and of a wallet: \<^verbatim>\<open>crates/nockchain-client-rs\<close> (\<^verbatim>\<open>note_data.rs\<close>, \<^verbatim>\<open>types.rs\<close>, \<^verbatim>\<open>chain.rs\<close>,
  \<^verbatim>\<open>wallet.rs\<close>) and the receipt handler of the service.  A message of the wire is a record of what was set in it; the
  node is the functions that answer its requests, and time is a number of units since the start of the clock.
\<close>

subsection \<open>Entries of note data\<close>

datatype entry_error =
    OffField ustr
  | OffFieldLimb ustr field_range_error
  | KeyMissing ustr
  | TypedPayload ustr
  | NotAnAtom ustr
  | ListTooShort ustr nat
  | LimbNotAtom ustr nat

type_synonym note_entry = "ustr \<times> data_value"

definition try_atom :: "ustr \<Rightarrow> u64 \<Rightarrow> entry_error + noun" where
  "try_atom key value = (if based_check value then Inr (Atom (unat value)) else Inl (OffField key))"

definition u64_entry :: "ustr \<Rightarrow> u64 \<Rightarrow> entry_error + note_entry" where
  "u64_entry key value = res_bind (try_atom key value) (\<lambda>n. Inr (key, NounValue n))"

definition tip5_entry :: "ustr \<Rightarrow> tip5_hash \<Rightarrow> entry_error + note_entry" where
  "tip5_entry key h =
     (case check_tip5_limbs h of
        Inl e \<Rightarrow> Inl (OffFieldLimb key e)
      | Inr _ \<Rightarrow> res_bind (collect (try_atom key) h) (\<lambda>limbs. Inr (key, NounValue (make_list_in limbs))))"

definition u64_to_noun :: "u64 \<Rightarrow> noun" where
  "u64_to_noun val = (if val \<le> 2 ^ 63 - 1 then Atom (unat val) else Atom (le_value (to_le_bytes val)))"

definition find_entry :: "note_data \<Rightarrow> ustr \<Rightarrow> entry_error + note_entry" where
  "find_entry data key =
     (case find (\<lambda>e. fst e = key) data of None \<Rightarrow> Inl (KeyMissing key) | Some e \<Rightarrow> Inr e)"

definition entry_noun :: "note_entry \<Rightarrow> entry_error + noun" where
  "entry_noun e = (case snd e of NounValue n \<Rightarrow> Inr n | TypedValue _ \<Rightarrow> Inl (TypedPayload (fst e)))"

definition find_u64_entry :: "note_data \<Rightarrow> ustr \<Rightarrow> entry_error + u64" where
  "find_u64_entry data key =
     res_bind (find_entry data key) (\<lambda>e. res_bind (entry_noun e) (\<lambda>n.
       case n of Atom a \<Rightarrow> Inr (word_of_nat a) | Cell _ _ \<Rightarrow> Inl (NotAnAtom key)))"

fun read_limbs :: "ustr \<Rightarrow> nat \<Rightarrow> nat \<Rightarrow> noun \<Rightarrow> entry_error + u64 list" where
  "read_limbs key i 0 node = Inr []"
| "read_limbs key i (Suc k) (Atom a) = Inl (ListTooShort key i)"
| "read_limbs key i (Suc k) (Cell (Cell x y) t) = Inl (LimbNotAtom key i)"
| "read_limbs key i (Suc k) (Cell (Atom a) t) =
     res_bind (read_limbs key (Suc i) k t) (\<lambda>ls. Inr (word_of_nat a # ls))"

definition find_hash_entry :: "note_data \<Rightarrow> ustr \<Rightarrow> entry_error + tip5_hash" where
  "find_hash_entry data key =
     res_bind (find_entry data key) (\<lambda>e. res_bind (entry_noun e) (\<lambda>n. read_limbs key 0 5 n))"


subsection \<open>Messages of the wire\<close>

record pb_hash =
  belt_1 :: "u64 option"
  belt_2 :: "u64 option"
  belt_3 :: "u64 option"
  belt_4 :: "u64 option"
  belt_5 :: "u64 option"

datatype note_version =
    PbV1 "u64 option" "(ustr \<times> bytes) list option"
  | PbLegacy "u64 option"

type_synonym pb_note = "note_version option"

record balance_entry =
  be_name :: "(pb_hash option \<times> pb_hash option) option"
  be_note :: "pb_note option"

record utxo =
  first_name :: dig
  last_name :: dig
  amount :: u64
  is_v1 :: bool
  utxo_data :: "note_data option"

definition MAX_BLOB_LEN :: nat where "MAX_BLOB_LEN = 2 ^ 20"

text \<open>\<open>from_based\<close> is the engine's copy of a noun; it recurses on the stack and may abort.\<close>

definition decode_note_data_value ::
  "(bytes \<Rightarrow> noun option) \<Rightarrow> (noun \<Rightarrow> (unit, noun) outcome) \<Rightarrow> bytes \<Rightarrow> (unit, data_value option) outcome" where
  "decode_note_data_value cue_into from_based blob =
     (if MAX_BLOB_LEN < length blob then Ok None
      else case cue_into blob of
             None \<Rightarrow> Ok None
           | Some n \<Rightarrow>
               (case from_based n of
                  Ok m \<Rightarrow> Ok (Some (NounValue m))
                | Err _ \<Rightarrow> Ok None
                | Panic \<Rightarrow> Panic))"

fun decode_entries ::
  "(bytes \<Rightarrow> noun option) \<Rightarrow> (noun \<Rightarrow> (unit, noun) outcome) \<Rightarrow> (ustr \<times> bytes) list \<Rightarrow> (unit, note_data) outcome" where
  "decode_entries cue_into from_based [] = Ok []"
| "decode_entries cue_into from_based ((key, blob) # es) =
     and_then (decode_note_data_value cue_into from_based blob) (\<lambda>v.
     and_then (decode_entries cue_into from_based es) (\<lambda>rest.
       Ok (case v of None \<Rightarrow> rest | Some value \<Rightarrow> (key, value) # rest)))"

definition extract_note_data ::
  "(bytes \<Rightarrow> noun option) \<Rightarrow> (noun \<Rightarrow> (unit, noun) outcome) \<Rightarrow> pb_note \<Rightarrow> (unit, note_data option) outcome" where
  "extract_note_data cue_into from_based note =
     (case note of
        Some (PbV1 _ (Some entries)) \<Rightarrow>
          and_then (decode_entries cue_into from_based entries) (\<lambda>data. Ok (if data = [] then None else Some data))
      | _ \<Rightarrow> Ok None)"

definition or_zero :: "u64 option \<Rightarrow> u64" where
  "or_zero b = (case b of None \<Rightarrow> 0 | Some v \<Rightarrow> v)"

definition chain_hash_from_pb :: "pb_hash \<Rightarrow> dig option" where
  "chain_hash_from_pb h =
     (let limbs = map or_zero [belt_1 h, belt_2 h, belt_3 h, belt_4 h, belt_5 h]
      in case check_tip5_limbs limbs of Inl _ \<Rightarrow> None | Inr _ \<Rightarrow> Some limbs)"

definition extract_utxo ::
  "(bytes \<Rightarrow> noun option) \<Rightarrow> (noun \<Rightarrow> (unit, noun) outcome) \<Rightarrow> balance_entry \<Rightarrow> (unit, utxo option) outcome" where
  "extract_utxo cue_into from_based entry =
     (case (be_name entry, be_note entry) of
        (Some (pb_first, pb_last), Some note) \<Rightarrow>
          (case (Option.bind pb_first chain_hash_from_pb, Option.bind pb_last chain_hash_from_pb) of
             (Some fname, Some lname) \<Rightarrow>
               (case note of
                  Some (PbV1 assets _) \<Rightarrow>
                    (case assets of
                       None \<Rightarrow> Ok None
                     | Some amt \<Rightarrow>
                         and_then (extract_note_data cue_into from_based note) (\<lambda>nd.
                           Ok (Some \<lparr>first_name = fname, last_name = lname, amount = amt, is_v1 = True, utxo_data = nd\<rparr>)))
                | Some (PbLegacy assets) \<Rightarrow>
                    (case assets of
                       None \<Rightarrow> Ok None
                     | Some amt \<Rightarrow>
                         Ok (Some \<lparr>first_name = fname, last_name = lname, amount = amt, is_v1 = False, utxo_data = None\<rparr>))
                | None \<Rightarrow> Ok None)
           | _ \<Rightarrow> Ok None)
      | _ \<Rightarrow> Ok None)"

fun extract_spendable_utxos ::
  "(bytes \<Rightarrow> noun option) \<Rightarrow> (noun \<Rightarrow> (unit, noun) outcome) \<Rightarrow> balance_entry list \<Rightarrow> (unit, utxo list) outcome" where
  "extract_spendable_utxos cue_into from_based [] = Ok []"
| "extract_spendable_utxos cue_into from_based (entry # notes) =
     and_then (extract_utxo cue_into from_based entry) (\<lambda>u.
     and_then (extract_spendable_utxos cue_into from_based notes) (\<lambda>us.
       Ok (case u of None \<Rightarrow> us | Some x \<Rightarrow> x # us)))"


subsection \<open>Queries of a transaction\<close>

datatype grpc_code = CodeNotFound | CodeInvalidArgument | CodeOther nat

datatype 'a explorer = ExFound 'a | ExPending | ExError ustr | ExEmpty

datatype 'a rpc = RpcOk 'a | RpcErr grpc_code

record pb_block =
  b_block_id :: "pb_hash option"
  b_parent :: "pb_hash option"
  b_height :: u64
  b_timestamp :: u64

record pb_input =
  i_name :: ustr
  i_amount :: "u64 option"
  i_source :: ustr
  i_coinbase :: bool

record pb_output =
  o_name :: ustr
  o_amount :: "u64 option"
  o_lock :: ustr

record pb_details =
  d_tx_id :: ustr
  d_block_id :: "pb_hash option"
  d_parent :: "pb_hash option"
  d_height :: u64
  d_timestamp :: u64
  d_version :: u64
  d_size :: u64
  d_total_input :: "u64 option"
  d_total_output :: "u64 option"
  d_fee :: "u64 option"
  d_inputs :: "pb_input list"
  d_outputs :: "pb_output list"

datatype chain_error =
    HashUnset string
  | BeltUnset string nat
  | RpcFailed grpc_code
  | NodeError ustr
  | EmptyResponse
  | CheckFailed
  | SubmitFailed
  | BalanceFailed
  | BadPkh
  | FirstNameFailed

definition belt_or :: "string \<Rightarrow> nat \<Rightarrow> u64 option \<Rightarrow> chain_error + u64" where
  "belt_or field i b = (case b of None \<Rightarrow> Inl (BeltUnset field i) | Some v \<Rightarrow> Inr v)"

definition pb_hash_to_base58 :: "(u64 list \<Rightarrow> ustr) \<Rightarrow> pb_hash option \<Rightarrow> string \<Rightarrow> chain_error + ustr" where
  "pb_hash_to_base58 b58 h field =
     (case h of
        None \<Rightarrow> Inl (HashUnset field)
      | Some h \<Rightarrow>
          res_bind (belt_or field 1 (belt_1 h)) (\<lambda>b1. res_bind (belt_or field 2 (belt_2 h)) (\<lambda>b2.
          res_bind (belt_or field 3 (belt_3 h)) (\<lambda>b3. res_bind (belt_or field 4 (belt_4 h)) (\<lambda>b4.
          res_bind (belt_or field 5 (belt_5 h)) (\<lambda>b5. Inr (b58 [b1, b2, b3, b4, b5])))))))"

definition get_transaction_block ::
  "(u64 list \<Rightarrow> ustr) \<Rightarrow> (ustr \<Rightarrow> pb_block explorer rpc) \<Rightarrow> ustr \<Rightarrow> chain_error + block_result" where
  "get_transaction_block b58 rpc tx =
     (case rpc tx of
        RpcErr code \<Rightarrow>
          if code = CodeNotFound \<or> code = CodeInvalidArgument then Inr BlockNotFound else Inl (RpcFailed code)
      | RpcOk (ExFound b) \<Rightarrow>
          res_bind (pb_hash_to_base58 b58 (b_block_id b) ''block_id'') (\<lambda>block.
          res_bind (pb_hash_to_base58 b58 (b_parent b) ''parent'') (\<lambda>par.
            Inr (InBlock block (b_height b) par (b_timestamp b))))
      | RpcOk ExPending \<Rightarrow> Inr BlockPending
      | RpcOk (ExError m) \<Rightarrow> Inl (NodeError m)
      | RpcOk ExEmpty \<Rightarrow> Inl EmptyResponse)"

definition input_view :: "pb_input \<Rightarrow> tx_input" where
  "input_view i = \<lparr>in_name = i_name i, in_amount = or_zero (i_amount i), in_source = i_source i, coinbase = i_coinbase i\<rparr>"

definition output_view :: "pb_output \<Rightarrow> tx_output" where
  "output_view o' = \<lparr>out_name = o_name o', out_value = o_amount o', lock_summary = o_lock o'\<rparr>"

definition get_transaction_details ::
  "(u64 list \<Rightarrow> ustr) \<Rightarrow> (ustr \<Rightarrow> pb_details explorer rpc) \<Rightarrow> ustr \<Rightarrow> chain_error + details_result" where
  "get_transaction_details b58 rpc tx =
     (case rpc tx of
        RpcErr code \<Rightarrow>
          if code = CodeNotFound \<or> code = CodeInvalidArgument then Inr DetailsNotFound else Inl (RpcFailed code)
      | RpcOk (ExFound d) \<Rightarrow>
          res_bind (pb_hash_to_base58 b58 (d_block_id d) ''block_id'') (\<lambda>block.
          res_bind (pb_hash_to_base58 b58 (d_parent d) ''parent'') (\<lambda>par.
            Inr (Found \<lparr>td_tx_id = d_tx_id d, td_block_id = block, td_height = d_height d, td_timestamp = d_timestamp d,
                        td_version = d_version d, td_size = d_size d, td_total_input = or_zero (d_total_input d),
                        td_total_output = d_total_output d, td_fee = d_fee d, td_inputs = map input_view (d_inputs d),
                        td_outputs = map output_view (d_outputs d), td_parent = par\<rparr>)))
      | RpcOk ExPending \<Rightarrow> Inr DetailsPending
      | RpcOk (ExError m) \<Rightarrow> Inl (NodeError m)
      | RpcOk ExEmpty \<Rightarrow> Inl EmptyResponse)"


subsection \<open>Waiting for a block\<close>

text \<open>The responses to the polls of one transaction, the time each check takes and the time a sleep oversleeps; an
  instant past \<open>horizon\<close> is not representable.  A run that never returns is \<open>None\<close>, otherwise it is the answer, the
  number of checks made and the time of return.\<close>

record polling =
  check_answer :: "nat \<Rightarrow> unit + bool option"
  check_time :: "nat \<Rightarrow> nat"
  oversleep :: "nat \<Rightarrow> nat"

definition check_accepted :: "unit + bool option \<Rightarrow> chain_error + bool" where
  "check_accepted resp =
     (case resp of Inl _ \<Rightarrow> Inl CheckFailed | Inr (Some acc) \<Rightarrow> Inr acc | Inr None \<Rightarrow> Inr False)"

partial_function (option) wait_loop ::
  "polling \<Rightarrow> nat \<Rightarrow> nat \<Rightarrow> nat \<Rightarrow> nat \<Rightarrow> nat \<Rightarrow> (unit, bool \<times> nat \<times> nat) outcome option" where
  "wait_loop env horizon poll deadline k now =
     (let now = now + check_time env k
      in if check_accepted (check_answer env k) = Inr True then Some (Ok (True, Suc k, now))
         else if horizon < now + poll then Some Panic
         else if deadline < now + poll then Some (Ok (False, Suc k, now))
         else wait_loop env horizon poll deadline (Suc k) (now + poll + oversleep env k))"

definition wait_for_acceptance ::
  "polling \<Rightarrow> nat \<Rightarrow> nat \<Rightarrow> nat \<Rightarrow> nat \<Rightarrow> (unit, bool \<times> nat \<times> nat) outcome option" where
  "wait_for_acceptance env horizon poll timeout now =
     (if horizon < now + timeout then Some Panic else wait_loop env horizon poll (now + timeout) 0 now)"

definition submit_and_wait ::
  "(unit + unit) \<Rightarrow> polling \<Rightarrow> nat \<Rightarrow> nat \<Rightarrow> nat \<Rightarrow> nat \<Rightarrow> (chain_error, bool \<times> nat \<times> nat) outcome option" where
  "submit_and_wait sent env horizon poll timeout now =
     (case sent of
        Inl _ \<Rightarrow> Some (Err SubmitFailed)
      | Inr _ \<Rightarrow> map_option (map_err (\<lambda>_. CheckFailed)) (wait_for_acceptance env horizon poll timeout now))"


subsection \<open>Balances\<close>

datatype selector = ByAddress ustr | ByFirstName ustr

definition get_balance :: "(selector \<Rightarrow> unit + 'n list) \<Rightarrow> ustr \<Rightarrow> chain_error + 'n list" where
  "get_balance query addr = (case query (ByAddress addr) of Inl _ \<Rightarrow> Inl BalanceFailed | Inr b \<Rightarrow> Inr b)"

definition get_balance_flexible :: "(selector \<Rightarrow> unit + 'n list) \<Rightarrow> ustr \<Rightarrow> chain_error + 'n list" where
  "get_balance_flexible query addr =
     (case query (ByAddress addr) of
        Inr b \<Rightarrow> Inr b
      | Inl _ \<Rightarrow> (case query (ByFirstName addr) of Inl _ \<Rightarrow> Inl BalanceFailed | Inr b \<Rightarrow> Inr b))"

text \<open>The engine's conditions and first names; the codec of base58.\<close>

record names =
  parse_pkh :: "ustr \<Rightarrow> dig option"
  show_hash :: "dig \<Rightarrow> ustr"
  coinbase_condition :: "dig \<Rightarrow> u64 \<Rightarrow> spend_condition"
  simple_condition :: "dig \<Rightarrow> spend_condition"
  condition_first_name :: "spend_condition \<Rightarrow> dig option"

definition compute_coinbase_first_name :: "names \<Rightarrow> ustr \<Rightarrow> u64 \<Rightarrow> chain_error + ustr" where
  "compute_coinbase_first_name nm pkh_b58 relative_min =
     (case parse_pkh nm pkh_b58 of
        None \<Rightarrow> Inl BadPkh
      | Some pkh \<Rightarrow>
          (case condition_first_name nm (coinbase_condition nm pkh relative_min) of
             None \<Rightarrow> Inl FirstNameFailed
           | Some fname \<Rightarrow> Inr (show_hash nm fname)))"

definition compute_simple_first_name :: "names \<Rightarrow> ustr \<Rightarrow> chain_error + ustr" where
  "compute_simple_first_name nm pkh_b58 =
     (case parse_pkh nm pkh_b58 of
        None \<Rightarrow> Inl BadPkh
      | Some pkh \<Rightarrow>
          (case condition_first_name nm (simple_condition nm pkh) of
             None \<Rightarrow> Inl FirstNameFailed
           | Some fname \<Rightarrow> Inr (show_hash nm fname)))"

definition get_balance_by_pkh ::
  "names \<Rightarrow> (selector \<Rightarrow> unit + 'n list) \<Rightarrow> ustr \<Rightarrow> u64 \<Rightarrow> chain_error + 'n list" where
  "get_balance_by_pkh nm query pkh_b58 timelock_min =
     res_bind (compute_coinbase_first_name nm pkh_b58 timelock_min) (\<lambda>coinbase_fn.
     res_bind (compute_simple_first_name nm pkh_b58) (\<lambda>simple_fn.
       let fallback = (case query (ByFirstName simple_fn) of Inl _ \<Rightarrow> Inl BalanceFailed | Inr b \<Rightarrow> Inr b)
       in case query (ByFirstName coinbase_fn) of
            Inr bal \<Rightarrow> if bal \<noteq> [] then Inr bal else fallback
          | Inl _ \<Rightarrow> fallback))"


subsection \<open>The wallet's endpoint\<close>

record wallet_client =
  pid_counter :: u32

datatype peek_reply = PeekData bytes | PeekInternal | PeekUnreachable

definition new_wallet_client :: wallet_client where
  "new_wallet_client = \<lparr>pid_counter = 0\<rparr>"

definition next_pid :: "wallet_client \<Rightarrow> int \<times> wallet_client" where
  "next_pid w = (let p = pid_counter w + 1 in (sint p, w\<lparr>pid_counter := p\<rparr>))"

definition build_peek_path :: "(noun \<Rightarrow> bytes) \<Rightarrow> ustr list \<Rightarrow> bytes" where
  "build_peek_path jam segments = jam (make_list_in (map make_cord_in segments))"

definition build_sign_hash_poke :: "(noun \<Rightarrow> bytes) \<Rightarrow> ustr \<Rightarrow> u64 \<Rightarrow> bool \<Rightarrow> bytes" where
  "build_sign_hash_poke jam hash_b58 key_index hardened =
     jam (tuple [make_tag_in (lit ''sign-hash''), make_cord_in hash_b58, u64_to_noun key_index,
                 if hardened then Atom 0 else Atom 1])"

definition build_create_tx_poke :: "(noun \<Rightarrow> bytes) \<Rightarrow> ustr \<Rightarrow> ustr \<Rightarrow> ustr \<Rightarrow> u64 \<Rightarrow> u64 \<Rightarrow> bytes" where
  "build_create_tx_poke jam input_first input_last recipient amount_nicks fee_nicks =
     jam (tuple
       [make_tag_in (lit ''create-tx''),
        tuple [tuple [make_cord_in input_first, make_cord_in input_last], Atom 0],
        tuple [tuple [u64_to_noun amount_nicks, make_cord_in recipient], Atom 0],
        u64_to_noun fee_nicks, Atom 1, Atom 0, tuple [tuple [Atom 0, Atom 1], Atom 0], Atom 1, Atom 1,
        make_tag_in (lit ''auto'')])"

definition check_ready ::
  "(noun \<Rightarrow> bytes) \<Rightarrow> (int \<Rightarrow> bytes \<Rightarrow> peek_reply) \<Rightarrow> wallet_client \<Rightarrow> (chain_error + bool) \<times> wallet_client" where
  "check_ready jam peek w =
     (case next_pid w of
        (pid, w') \<Rightarrow>
          (case peek pid (build_peek_path jam [lit ''show'']) of
             PeekData _ \<Rightarrow> Inr True
           | PeekInternal \<Rightarrow> Inr True
           | PeekUnreachable \<Rightarrow> Inl CheckFailed, w'))"

definition peek_balance_at ::
  "string \<Rightarrow> (noun \<Rightarrow> bytes) \<Rightarrow> (int \<Rightarrow> bytes \<Rightarrow> peek_reply) \<Rightarrow> ustr \<Rightarrow> wallet_client \<Rightarrow> (chain_error + bytes) \<times> wallet_client" where
  "peek_balance_at tag jam peek key w =
     (case next_pid w of
        (pid, w') \<Rightarrow>
          (case peek pid (build_peek_path jam [lit tag, key]) of
             PeekData d \<Rightarrow> Inr d
           | PeekInternal \<Rightarrow> Inl BalanceFailed
           | PeekUnreachable \<Rightarrow> Inl BalanceFailed, w'))"

definition peek_balance ::
  "(noun \<Rightarrow> bytes) \<Rightarrow> (int \<Rightarrow> bytes \<Rightarrow> peek_reply) \<Rightarrow> ustr \<Rightarrow> wallet_client \<Rightarrow> (chain_error + bytes) \<times> wallet_client" where
  "peek_balance = peek_balance_at ''balance-by-pubkey''"

definition peek_balance_by_name ::
  "(noun \<Rightarrow> bytes) \<Rightarrow> (int \<Rightarrow> bytes \<Rightarrow> peek_reply) \<Rightarrow> ustr \<Rightarrow> wallet_client \<Rightarrow> (chain_error + bytes) \<times> wallet_client" where
  "peek_balance_by_name = peek_balance_at ''balance-by-first-name''"

definition request_sign_hash ::
  "(noun \<Rightarrow> bytes) \<Rightarrow> (int \<Rightarrow> bytes \<Rightarrow> unit + bool) \<Rightarrow> ustr \<Rightarrow> u64 \<Rightarrow> bool \<Rightarrow> wallet_client \<Rightarrow>
   (chain_error + bool) \<times> wallet_client" where
  "request_sign_hash jam poke hash_b58 key_index hardened w =
     (case next_pid w of
        (pid, w') \<Rightarrow>
          (case poke pid (build_sign_hash_poke jam hash_b58 key_index hardened) of
             Inl _ \<Rightarrow> Inl SubmitFailed | Inr acked \<Rightarrow> Inr acked, w'))"

definition request_create_tx ::
  "(noun \<Rightarrow> bytes) \<Rightarrow> (int \<Rightarrow> bytes \<Rightarrow> unit + bool) \<Rightarrow> ustr \<Rightarrow> ustr \<Rightarrow> ustr \<Rightarrow> u64 \<Rightarrow> u64 \<Rightarrow> wallet_client \<Rightarrow>
   (chain_error + bool) \<times> wallet_client" where
  "request_create_tx jam poke input_first input_last recipient amount_nicks fee_nicks w =
     (case next_pid w of
        (pid, w') \<Rightarrow>
          (case poke pid (build_create_tx_poke jam input_first input_last recipient amount_nicks fee_nicks) of
             Inl _ \<Rightarrow> Inl SubmitFailed | Inr acked \<Rightarrow> Inr acked, w'))"


subsection \<open>The receipt handler\<close>

text \<open>The network: whether the two services of an endpoint can be reached, and what they answer.\<close>

record network =
  public_up :: "ustr \<Rightarrow> bool"
  block_up :: "ustr \<Rightarrow> bool"
  rpc_block :: "ustr \<Rightarrow> ustr \<Rightarrow> pb_block explorer rpc"
  rpc_details :: "ustr \<Rightarrow> ustr \<Rightarrow> pb_details explorer rpc"

datatype connect_error = Insecure endpoint_error | PublicDown | BlockDown

definition chain_connect :: "network \<Rightarrow> chain_config \<Rightarrow> connect_error + chain_config" where
  "chain_connect net cfg =
     (case reject_insecure_endpoint (cc_endpoint cfg) of
        Inl e \<Rightarrow> Inl (Insecure e)
      | Inr _ \<Rightarrow>
          if \<not> public_up net (cc_endpoint cfg) then Inl PublicDown
          else if \<not> block_up net (cc_endpoint cfg) then Inl BlockDown
          else Inr cfg)"

definition verify_tx_handler ::
  "network \<Rightarrow> (u64 list \<Rightarrow> ustr) \<Rightarrow> 'k app_state \<Rightarrow> ustr \<Rightarrow> http_error + receipt" where
  "verify_tx_handler net b58 st tx =
     (if sc_mode (settlement st) = Local then Inl NoChain
      else case chain_config_of (settlement st) of
             None \<Rightarrow> Inl NoEndpoint
           | Some cfg \<Rightarrow>
               (case chain_connect net cfg of
                  Inl _ \<Rightarrow> Inl ChainUnreachable
                | Inr client \<Rightarrow>
                    (case fetch_receipt (get_transaction_block b58 (rpc_block net (cc_endpoint client)))
                            (get_transaction_details b58 (rpc_details net (cc_endpoint client))) tx of
                       Inr r \<Rightarrow> Inr r
                     | Inl (TxMissing _) \<Rightarrow> Inl (TxNotFound tx)
                     | Inl (ChainError _) \<Rightarrow> Inl ChainFailure)))"


subsection \<open>Note data reads back\<close>

lemma try_atom_Inr [simp]: "try_atom key v = Inr n \<longleftrightarrow> based v \<and> n = Atom (unat v)"
  by (auto simp: try_atom_def based_check_iff)

lemma u64_entry_Inr: "u64_entry key v = Inr e \<longleftrightarrow> based v \<and> e = (key, NounValue (Atom (unat v)))"
  by (auto simp: u64_entry_def res_bind_def try_atom_def based_check_iff)

lemma collect_try_atom: "\<forall>v\<in>set h. based v \<Longrightarrow> collect (try_atom key) h = Inr (map (\<lambda>v. Atom (unat v)) h)"
  by (induction h) (simp_all add: res_bind_def try_atom_def based_check_iff)

lemma make_list_in_Cons: "make_list_in (x # xs) = Cell x (make_list_in xs)" "make_list_in [] = Atom 0"
  by (simp_all add: make_list_in_def)

lemma tip5_entry_Inr:
  "tip5_entry key h = Inr e \<longleftrightarrow>
     (\<forall>v\<in>set h. based v) \<and> e = (key, NounValue (make_list_in (map (\<lambda>v. Atom (unat v)) h)))"
proof (cases "\<forall>v\<in>set h. based v")
  case True
  then have "check_tip5_limbs h = Inr ()" by (simp only: check_tip5_limbs_iff)
  with True show ?thesis by (auto simp: tip5_entry_def collect_try_atom res_bind_def)
next
  case False
  then have "check_tip5_limbs h \<noteq> Inr ()" by (simp add: check_tip5_limbs_iff)
  then obtain x where "check_tip5_limbs h = Inl x" by (cases "check_tip5_limbs h") auto
  with False show ?thesis by (simp add: tip5_entry_def)
qed

lemma find_entry_first:
  "key \<notin> fst ` set before \<Longrightarrow> find_entry (before @ (key, v) # after) key = Inr (key, v)"
  by (induction before) (auto simp: find_entry_def)

lemma read_limbs_list: "read_limbs key i (length h) (make_list_in (map (\<lambda>v. Atom (unat v)) h)) = Inr h"
  by (induction h arbitrary: i) (simp_all add: make_list_in_Cons res_bind_def)

text \<open>C28: What is written into note data is read back. An entry is built exactly when the number, or every limb of the
  digest, is a canonical field element, and the first entry under a key is the one found: the number or the digest it was
  built from, and an error that names the mismatch when it is read as the other kind.\<close>

theorem note_data_round_trip:
  assumes "key \<notin> fst ` set before"
  shows "(based v \<longleftrightarrow> (\<exists>e. u64_entry key v = Inr e)) \<and>
    (u64_entry key v = Inr e \<longrightarrow> find_u64_entry (before @ e # after) key = Inr v \<and>
            find_hash_entry (before @ e # after) key = Inl (ListTooShort key 0)) \<and>
    ((\<forall>x\<in>set h. based x) \<longleftrightarrow> (\<exists>e. tip5_entry key h = Inr e)) \<and>
    (length h = 5 \<longrightarrow> tip5_entry key h = Inr e' \<longrightarrow> find_hash_entry (before @ e' # after) key = Inr h \<and>
            find_u64_entry (before @ e' # after) key = Inl (NotAnAtom key))"
proof -
  have "find_hash_entry (before @ e' # after) key = Inr h \<and> find_u64_entry (before @ e' # after) key = Inl (NotAnAtom key)"
    if h: "length h = 5" "tip5_entry key h = Inr e'"
  proof -
    obtain a t where "h = a # t" using h(1) by (cases h) auto
    moreover have e': "e' = (key, NounValue (make_list_in (map (\<lambda>v. Atom (unat v)) h)))"
      using h(2) by (simp add: tip5_entry_Inr)
    ultimately have "find_u64_entry (before @ e' # after) key = Inl (NotAnAtom key)"
      using assms by (simp add: find_u64_entry_def find_entry_first res_bind_def entry_noun_def make_list_in_Cons)
    moreover have "read_limbs key 0 5 (make_list_in (map (\<lambda>v. Atom (unat v)) h)) = Inr h"
      using read_limbs_list [of key 0 h] h(1) by simp
    ultimately show ?thesis
      using assms e' by (simp add: find_hash_entry_def find_entry_first res_bind_def entry_noun_def)
  qed
  moreover have "(\<forall>x\<in>set h. based x) \<longleftrightarrow> (\<exists>e. tip5_entry key h = Inr e)" by (simp add: tip5_entry_Inr)
  ultimately show ?thesis
    using assms
    by (auto simp: u64_entry_Inr find_u64_entry_def find_hash_entry_def find_entry_first res_bind_def entry_noun_def
        numeral_eq_Suc)
qed

theorem note_data_round_trip_witness:
  "find_hash_entry [([97], NounValue (Atom 7)), ([98], NounValue (make_list_in (map (\<lambda>v. Atom (unat v)) [1, 2, 3, 4, 5 :: u64])))] [98] =
     Inr [1, 2, 3, 4, 5]"
  using note_data_round_trip [where key = "[98]" and before = "[([97], NounValue (Atom 7))]" and after = "[]"
      and h = "[1, 2, 3, 4, 5 :: u64]" and e' = "([98], NounValue (make_list_in (map (\<lambda>v. Atom (unat v)) [1, 2, 3, 4, 5 :: u64])))"]
  by (simp add: tip5_entry_Inr)

text \<open>The reader of a digest stops after five items: the terminator is not looked at, so longer lists and lists that
  end in any noun are read as the digest of their first five items.\<close>

lemma unterminated_digest_read:
  "find_hash_entry [(key, NounValue (Cell (Atom 1) (Cell (Atom 2) (Cell (Atom 3) (Cell (Atom 4) (Cell (Atom 5) rest))))))] key =
     Inr [1, 2, 3, 4, 5]"
  by (simp add: find_hash_entry_def find_entry_def entry_noun_def res_bind_def numeral_eq_Suc)


subsection \<open>Outputs of a balance\<close>

primrec based_noun :: "noun \<Rightarrow> bool" where
  "based_noun (Atom a) \<longleftrightarrow> a < unat PRIME"
| "based_noun (Cell h t) \<longleftrightarrow> based_noun h \<and> based_noun t"

text \<open>The engine copies a noun of field elements unchanged and refuses any other, as long as its depth is within the
  stack.\<close>

definition copy_law :: "nat \<Rightarrow> (noun \<Rightarrow> (unit, noun) outcome) \<Rightarrow> bool" where
  "copy_law wall from_based \<longleftrightarrow>
     (\<forall>n. from_based n = (if wall < depth n then Panic else if based_noun n then Ok n else Err ()))"

text \<open>
  What a complete entry of a balance says, apart from the code: both names are set, with every limb (an unset one is zero)
  below the prime, and the note has an amount.  Of its data, what is read are the blobs within the cap that are nouns of
  field elements.
\<close>

definition hash_limbs :: "pb_hash \<Rightarrow> dig" where
  "hash_limbs h = map (\<lambda>b. case b of None \<Rightarrow> 0 | Some v \<Rightarrow> v) [belt_1 h, belt_2 h, belt_3 h, belt_4 h, belt_5 h]"

definition attests :: "balance_entry \<Rightarrow> dig \<Rightarrow> dig \<Rightarrow> u64 \<Rightarrow> bool \<Rightarrow> bool" where
  "attests e f l a v \<longleftrightarrow>
     (\<exists>pf pl. be_name e = Some (Some pf, Some pl) \<and> f = hash_limbs pf \<and> l = hash_limbs pl) \<and>
     (\<forall>x\<in>set (f @ l). unat x < 2 ^ 64 - 2 ^ 32 + 1) \<and>
     (if v then \<exists>data. be_note e = Some (Some (PbV1 (Some a) data)) else be_note e = Some (Some (PbLegacy (Some a))))"

definition complete_entry :: "balance_entry \<Rightarrow> bool" where
  "complete_entry e \<longleftrightarrow> (\<exists>f l a v. attests e f l a v)"

definition blobs :: "balance_entry \<Rightarrow> (ustr \<times> bytes) list" where
  "blobs e = (case be_note e of Some (Some (PbV1 _ (Some es))) \<Rightarrow> es | _ \<Rightarrow> [])"

definition legible :: "(bytes \<Rightarrow> noun option) \<Rightarrow> bytes \<Rightarrow> noun option" where
  "legible cue_into b = (if length b \<le> 2 ^ 20 then cue_into b else None)"

definition readable_data :: "(bytes \<Rightarrow> noun option) \<Rightarrow> (ustr \<times> bytes) list \<Rightarrow> note_data" where
  "readable_data cue_into es =
     [(k, NounValue (the (legible cue_into b))). (k, b) \<leftarrow> es, \<exists>n. legible cue_into b = Some n \<and> based_noun n]"

definition reads :: "(bytes \<Rightarrow> noun option) \<Rightarrow> balance_entry \<Rightarrow> utxo \<Rightarrow> bool" where
  "reads cue_into e u \<longleftrightarrow> attests e (first_name u) (last_name u) (amount u) (is_v1 u) \<and>
     utxo_data u = (let d = readable_data cue_into (blobs e) in if d = [] then None else Some d)"

definition too_deep :: "nat \<Rightarrow> (bytes \<Rightarrow> noun option) \<Rightarrow> (ustr \<times> bytes) list \<Rightarrow> bool" where
  "too_deep wall cue_into es \<longleftrightarrow> (\<exists>(k, b)\<in>set es. \<exists>n. legible cue_into b = Some n \<and> wall < depth n)"

lemma too_deep_Nil [simp]: "\<not> too_deep wall cue_into []"
  by (simp add: too_deep_def)

lemma decode_value_exact:
  "copy_law wall from_based \<Longrightarrow> decode_note_data_value cue_into from_based b =
     (case legible cue_into b of None \<Rightarrow> Ok None
      | Some n \<Rightarrow> if wall < depth n then Panic else Ok (if based_noun n then Some (NounValue n) else None))"
  by (auto simp: decode_note_data_value_def copy_law_def legible_def MAX_BLOB_LEN_def split: option.splits)

lemma decode_entries_exact:
  "copy_law wall from_based \<Longrightarrow> decode_entries cue_into from_based es =
     (if too_deep wall cue_into es then Panic else Ok (readable_data cue_into es))"
proof (induction es)
  case (Cons e es)
  obtain k b where "e = (k, b)" by (cases e)
  with Cons show ?case
    by (auto simp: decode_value_exact too_deep_def readable_data_def split: option.splits)
qed (simp add: too_deep_def readable_data_def)

lemma chain_hash_exact:
  "chain_hash_from_pb h = (if \<forall>x\<in>set (hash_limbs h). unat x < 2 ^ 64 - 2 ^ 32 + 1 then Some (hash_limbs h) else None)"
proof -
  have limbs: "map or_zero [belt_1 h, belt_2 h, belt_3 h, belt_4 h, belt_5 h] = hash_limbs h"
    by (simp add: hash_limbs_def or_zero_def)
  have "based x \<longleftrightarrow> unat x < 2 ^ 64 - 2 ^ 32 + 1" for x
    using of_nat_less_iff [of "unat x" "2 ^ 64 - 2 ^ 32 + 1", where 'a = int] by simp
  then have "check_tip5_limbs (hash_limbs h) = Inr () \<longleftrightarrow> (\<forall>x\<in>set (hash_limbs h). unat x < 2 ^ 64 - 2 ^ 32 + 1)"
    using check_tip5_limbs_iff [of "hash_limbs h"] by simp
  then show ?thesis unfolding chain_hash_from_pb_def limbs Let_def by (auto split: sum.splits)
qed

lemma attests_unique: "attests e f l a v \<Longrightarrow> attests e f' l' a' v' \<Longrightarrow> f' = f \<and> l' = l \<and> a' = a \<and> v' = v"
  by (auto simp: attests_def split: if_splits)

lemma complete_entry_iff:
  "complete_entry e \<longleftrightarrow>
     (\<exists>pf pl. be_name e = Some (Some pf, Some pl) \<and> (\<forall>x\<in>set (hash_limbs pf @ hash_limbs pl). unat x < 2 ^ 64 - 2 ^ 32 + 1)) \<and>
     (\<exists>a data. be_note e = Some (Some (PbV1 (Some a) data)) \<or> be_note e = Some (Some (PbLegacy (Some a))))"
  unfolding complete_entry_def attests_def ex_bool_eq by auto

lemma extract_utxo_exact:
  assumes "copy_law wall from_based"
  shows "\<not> complete_entry e \<Longrightarrow> extract_utxo cue_into from_based e = Ok None"
    and "complete_entry e \<Longrightarrow> too_deep wall cue_into (blobs e) \<Longrightarrow> extract_utxo cue_into from_based e = Panic"
    and "complete_entry e \<Longrightarrow> \<not> too_deep wall cue_into (blobs e) \<Longrightarrow>
      \<exists>u. extract_utxo cue_into from_based e = Ok (Some u) \<and> reads cue_into e u"
proof -
  note exact = extract_utxo_def extract_note_data_def decode_entries_exact [OF assms] chain_hash_exact
  show "extract_utxo cue_into from_based e = Ok None" if "\<not> complete_entry e"
    using that
    by (auto simp: exact complete_entry_iff bind_eq_Some_conv split: option.splits prod.splits note_version.splits if_splits)
  show "extract_utxo cue_into from_based e = Panic" if "complete_entry e" "too_deep wall cue_into (blobs e)"
    using that by (auto simp: exact complete_entry_iff attests_def blobs_def split: if_splits option.splits)
  assume e: "complete_entry e" "\<not> too_deep wall cue_into (blobs e)"
  then have "case extract_utxo cue_into from_based e of Ok (Some u) \<Rightarrow> reads cue_into e u | _ \<Rightarrow> False"
    unfolding complete_entry_iff
    by (auto simp: exact attests_def blobs_def reads_def readable_data_def [symmetric] Let_def split: option.splits)
      (simp_all add: readable_data_def)
  then show "\<exists>u. extract_utxo cue_into from_based e = Ok (Some u) \<and> reads cue_into e u"
    by (auto split: outcome.splits option.splits)
qed

text \<open>C26: What is taken from the balance of an untrusted node is exactly what the complete entries say, in their order:
  their names limb by limb, their amounts, and the data that is legible and made of field elements. Entries with a name
  that is missing or has a limb off the field, or without an amount, are left out and never reduced. The one exception:
  a complete entry with a blob within the cap whose noun is deeper than the engine's copy survives aborts the whole
  extraction, wherever it stands.\<close>

theorem utxos_exact:
  assumes "copy_law wall from_based"
  shows "(extract_spendable_utxos cue_into from_based es = Panic \<longleftrightarrow>
            (\<exists>e\<in>set es. complete_entry e \<and> too_deep wall cue_into (blobs e))) \<and>
    (extract_spendable_utxos cue_into from_based es = Ok us \<longleftrightarrow>
       \<not> (\<exists>e\<in>set es. complete_entry e \<and> too_deep wall cue_into (blobs e)) \<and> list_all2 (reads cue_into) (filter complete_entry es) us)"
proof (induction es arbitrary: us)
  case (Cons e es)
  have reads: "reads cue_into e u \<Longrightarrow> reads cue_into e u' \<Longrightarrow> u = u'" for u u'
    using attests_unique by (fastforce simp: reads_def)
  consider "\<not> complete_entry e" | "complete_entry e" "too_deep wall cue_into (blobs e)"
    | u where "complete_entry e" "\<not> too_deep wall cue_into (blobs e)" "extract_utxo cue_into from_based e = Ok (Some u)" "reads cue_into e u"
    using extract_utxo_exact [OF assms] by blast
  then show ?case
  proof cases
    case 1
    then have "extract_spendable_utxos cue_into from_based (e # es) = extract_spendable_utxos cue_into from_based es"
      using extract_utxo_exact(1) [OF assms 1] by (cases "extract_spendable_utxos cue_into from_based es") auto
    with Cons 1 show ?thesis by simp
  next
    case 2
    with extract_utxo_exact(2) [OF assms 2] show ?thesis by auto
  next
    case 3
    have "(\<exists>us'. us = u # us' \<and> list_all2 (reads cue_into) (filter complete_entry es) us') \<longleftrightarrow>
        list_all2 (reads cue_into) (filter complete_entry (e # es)) us"
      using 3(1,4) reads by (auto simp: list_all2_Cons1)
    with 3 Cons show ?thesis
      by (cases "extract_spendable_utxos cue_into from_based es") (auto simp del: filter.simps)
  qed
qed (auto)

definition demo_copy :: "noun \<Rightarrow> (unit, noun) outcome" where
  "demo_copy n = (if 2072 < depth n then Panic else if based_noun n then Ok n else Err ())"

definition demo_hash :: pb_hash where
  "demo_hash = \<lparr>belt_1 = Some 1, belt_2 = Some 2, belt_3 = Some 3, belt_4 = None, belt_5 = Some 5\<rparr>"

lemma depth_chain: "depth ((Cell (Atom 0) ^^ k) (Atom 0)) = Suc k"
  by (induction k) simp_all

theorem utxos_exact_witness:
  "extract_spendable_utxos (\<lambda>_. Some (Atom 7)) demo_copy
      [\<lparr>be_name = Some (Some (demo_hash\<lparr>belt_1 := Some 18446744073709551615\<rparr>), Some demo_hash), be_note = Some (Some (PbV1 (Some 8) None))\<rparr>,
       \<lparr>be_name = Some (Some demo_hash, Some demo_hash), be_note = Some (Some (PbV1 (Some 9) (Some [([97], [7])])))\<rparr>] =
    Ok [\<lparr>first_name = [1, 2, 3, 0, 5], last_name = [1, 2, 3, 0, 5], amount = 9, is_v1 = True,
         utxo_data = Some [([97], NounValue (Atom 7))]\<rparr>] \<and>
   extract_spendable_utxos (\<lambda>_. Some ((Cell (Atom 0) ^^ 2072) (Atom 0))) demo_copy
      [\<lparr>be_name = Some (Some demo_hash, Some demo_hash), be_note = Some (Some (PbV1 (Some 9) (Some [([97], [7])])))\<rparr>] = Panic"
proof -
  have law: "copy_law 2072 demo_copy" by (simp add: copy_law_def demo_copy_def)
  note spec = complete_entry_iff reads_def attests_def blobs_def readable_data_def legible_def too_deep_def hash_limbs_def
    demo_hash_def
  show ?thesis
    unfolding utxos_exact [OF law, THEN conjunct2] utxos_exact [OF law, THEN conjunct1]
    by (simp add: spec depth_chain PRIME_def del: funpow.simps)
qed

text \<open>A hash of the wire with a belt that was not set is taken for the hash with a zero there.\<close>

lemma unset_belt_is_zero:
  "belt_4 h = None \<Longrightarrow> chain_hash_from_pb h = chain_hash_from_pb (h\<lparr>belt_4 := Some 0\<rparr>)"
  by (simp add: chain_hash_from_pb_def or_zero_def)

subsection \<open>Waiting ends\<close>

abbreviation seen_at :: "polling \<Rightarrow> nat \<Rightarrow> bool" where
  "seen_at env k \<equiv> check_accepted (check_answer env k) = Inr True"

lemma wait_loop_ends:
  assumes "0 < poll" "\<forall>k. check_time env k \<le> c" "\<forall>k. oversleep env k \<le> d" "deadline + d + c + poll \<le> horizon"
  shows "now \<le> deadline + d \<Longrightarrow>
    \<exists>b n t. wait_loop env horizon poll deadline k now = Some (Ok (b, k + Suc n, t)) \<and>
      (n = 0 \<or> now + n * poll \<le> deadline) \<and> t \<le> deadline + d + c \<and>
      (\<forall>i<n. \<not> seen_at env (k + i)) \<and> (b \<longleftrightarrow> seen_at env (k + n)) \<and> (\<not> b \<longrightarrow> deadline < t + poll)"
proof (induction "deadline - now" arbitrary: k now rule: less_induct)
  case less
  let ?now = "now + check_time env k"
  have clock: "?now + poll \<le> horizon" "?now \<le> deadline + d + c"
    using less.prems assms(4) assms(2)[rule_format, of k] by linarith+
  note step = wait_loop.simps [of env horizon poll deadline k now]
  consider "seen_at env k" | "\<not> seen_at env k" "deadline < ?now + poll" | "\<not> seen_at env k" "?now + poll \<le> deadline"
    by linarith
  then show ?case
  proof cases
    case 1
    then show ?thesis using step clock by (intro exI [of _ True] exI [of _ 0] exI [of _ ?now]) simp
  next
    case 2
    then show ?thesis using step clock by (intro exI [of _ False] exI [of _ 0] exI [of _ ?now]) simp
  next
    case 3
    let ?next = "?now + poll + oversleep env k"
    have "deadline - ?next < deadline - now" "?next \<le> deadline + d"
      using 3 assms(1) assms(3)[rule_format, of k] by linarith+
    from less.hyps [OF this, of "Suc k"] obtain b n t where
      w: "wait_loop env horizon poll deadline (Suc k) ?next = Some (Ok (b, Suc k + Suc n, t))"
      and n: "n = 0 \<or> ?next + n * poll \<le> deadline" and t: "t \<le> deadline + d + c"
      and pre: "\<forall>i<n. \<not> seen_at env (Suc k + i)" and b: "b \<longleftrightarrow> seen_at env (Suc k + n)"
      and late: "\<not> b \<longrightarrow> deadline < t + poll" by blast
    have "wait_loop env horizon poll deadline k now = Some (Ok (b, k + Suc (Suc n), t))"
      using step 3 clock w by simp
    moreover have "now + Suc n * poll \<le> deadline" using n 3 by (auto simp: algebra_simps)
    moreover have "\<forall>i<Suc n. \<not> seen_at env (k + i)" using pre 3 by (simp add: All_less_Suc2)
    ultimately show ?thesis using t b late by (intro exI [of _ b] exI [of _ "Suc n"] exI [of _ t]) simp
  qed
qed

text \<open>C27: Waiting for a block ends, with the truth. With a poll interval that is not zero and a clock that is not about
  to end, the wait returns after at most one check more than the intervals that fit into the timeout, whatever the
  node answers and however long the checks take; the answer is yes exactly when the last check saw the transaction in
  a block, no check before it did, and a no is given only when another interval would pass the deadline.\<close>

theorem wait_for_acceptance_ends:
  assumes "0 < poll" "\<forall>k. check_time env k \<le> c" "\<forall>k. oversleep env k \<le> d" "start + timeout + d + c + poll \<le> horizon"
  shows "\<exists>b n t. wait_for_acceptance env horizon poll timeout start = Some (Ok (b, Suc n, t)) \<and>
    n \<le> timeout div poll \<and> t \<le> start + timeout + d + c \<and> (b \<longleftrightarrow> seen_at env n) \<and> (\<forall>i<n. \<not> seen_at env i) \<and>
    (\<not> b \<longrightarrow> start + timeout < t + poll)"
proof -
  obtain b n t where w: "wait_loop env horizon poll (start + timeout) 0 start = Some (Ok (b, 0 + Suc n, t))"
      "n = 0 \<or> start + n * poll \<le> start + timeout" "t \<le> start + timeout + d + c"
      "\<forall>i<n. \<not> seen_at env (0 + i)" "b \<longleftrightarrow> seen_at env (0 + n)" "\<not> b \<longrightarrow> start + timeout < t + poll"
    using wait_loop_ends [OF assms, of start 0] by auto
  moreover have "n \<le> timeout div poll"
    using w(2) assms(1) by (auto simp: less_eq_div_iff_mult_less_eq)
  ultimately show ?thesis
    using assms(4) by (intro exI [of _ b] exI [of _ n] exI [of _ t]) (simp add: wait_for_acceptance_def)
qed

theorem wait_for_acceptance_ends_witness:
  "\<exists>b n t. wait_for_acceptance \<lparr>check_answer = (\<lambda>k. if k < 3 then Inl () else Inr (Some True)),
      check_time = (\<lambda>_. 1), oversleep = (\<lambda>_. 0)\<rparr> 1000 5 120 0 = Some (Ok (b, Suc n, t)) \<and> n \<le> 24"
  using wait_for_acceptance_ends [of 5 "\<lparr>check_answer = (\<lambda>k. if k < 3 then Inl () else Inr (Some True)),
      check_time = (\<lambda>_. 1), oversleep = (\<lambda>_. 0)\<rparr>" 1 0 0 120 1000]
  by simp blast


subsection \<open>The wallet's requests\<close>

primrec pids :: "nat \<Rightarrow> wallet_client \<Rightarrow> int list" where
  "pids 0 w = []"
| "pids (Suc n) w = (case next_pid w of (pid, w') \<Rightarrow> pid # pids n w')"

lemma pids_counter: "pids n w = map (\<lambda>i. sint (pid_counter w + 1 + word_of_nat i)) [0..<n]"
proof (induction n arbitrary: w)
  case (Suc n)
  have "[0..<Suc n] = 0 # map Suc [0..<n]" by (simp add: upt_conv_Cons map_Suc_upt)
  then show ?case by (simp add: Suc next_pid_def Let_def comp_def algebra_simps)
qed simp

text \<open>The identifiers of the wallet's requests do not collide. The counter runs through the whole range of its
  width, so that any two of the next two to the thirty-second requests carry different identifiers, across the wrap
  from the largest to the smallest one and from zero of a new client on.\<close>

theorem pids_distinct:
  assumes "n \<le> 2 ^ 32"
  shows "distinct (pids n w)"
proof -
  have "inj_on (\<lambda>i. sint (pid_counter w + 1 + word_of_nat i)) (set [0..<n])"
  proof (rule inj_onI)
    fix i j
    assume ij: "i \<in> set [0..<n]" "j \<in> set [0..<n]"
      and "sint (pid_counter w + 1 + word_of_nat i) = sint (pid_counter w + 1 + word_of_nat j)"
    then have "(word_of_nat i :: u32) = word_of_nat j" by (auto dest!: signed_word_eqI)
    then have "i mod 2 ^ 32 = j mod 2 ^ 32" using unat_of_nat [of i, where 'a = 32] unat_of_nat [of j, where 'a = 32] by simp
    with ij assms show "i = j" by simp
  qed
  then show ?thesis by (simp add: pids_counter distinct_map)
qed

theorem pids_distinct_witness: "distinct (pids 3 (new_wallet_client\<lparr>pid_counter := 2 ^ 31 - 2\<rparr>))"
  by (rule pids_distinct) simp

text \<open>Texts of a wallet: base58 is visible ASCII.\<close>

definition plain :: "ustr \<Rightarrow> bool" where
  "plain s \<longleftrightarrow> (\<forall>c\<in>set s. 0 < c \<and> c < 128)"

lemma plain_utf8:
  assumes "plain s"
  shows "utf8 s = map word_of_nat s" "no_trailing_nul (utf8 s)"
proof -
  have ascii: "\<forall>c\<in>set s. c < 128" "\<forall>c\<in>set s. 0 < c" using assms by (simp_all add: plain_def)
  show u: "utf8 s = map word_of_nat s" by (rule utf8_visible [OF ascii(1)])
  show "no_trailing_nul (utf8 s)"
  proof (cases "s = []")
    case False
    then have "0 < last s" "last s < 128" using ascii by simp_all
    then have "unat (word_of_nat (last s) :: u8) \<noteq> 0" by (simp add: unat_of_nat)
    then have "(word_of_nat (last s) :: u8) \<noteq> 0" by (metis unsigned_0)
    with False show ?thesis by (simp add: u no_trailing_nul_def last_map)
  qed (simp add: no_trailing_nul_def)
qed

lemma plain_inject:
  assumes "plain s" "plain t"
  shows "le_value (utf8 s) = le_value (utf8 t) \<longleftrightarrow> s = t"
proof
  assume "le_value (utf8 s) = le_value (utf8 t)"
  then have "map word_of_nat s = (map word_of_nat t :: u8 list)"
    using le_value_minimal_inject plain_utf8 assms by metis
  then have "map unat (map word_of_nat s :: u8 list) = map unat (map word_of_nat t :: u8 list)" by simp
  moreover have "map unat (map word_of_nat r :: u8 list) = r" if "plain r" for r
  proof -
    have "c mod 256 = c" if "c \<in> set r" for c
      using that \<open>plain r\<close> by (auto simp: plain_def)
    then show ?thesis by (simp add: comp_def unat_of_nat map_idI)
  qed
  ultimately show "s = t" using assms by simp
qed simp

lemma u64_to_noun_value: "u64_to_noun val = Atom (unat val)"
  by (simp add: u64_to_noun_def codec)

text \<open>A request to sign or to spend says what it is for. For texts of visible characters and the machine's own
  injective coding, the bytes of a signing request determine the hash, the key and whether it is hardened, those of a
  transaction request the note that is spent, the recipient, the amount and the fee, at any size of the numbers; and
  no signing request is a transaction request.\<close>

theorem wallet_pokes_bind:
  assumes "inj jam" "\<forall>s\<in>{h, h', f, f', l, l', r, r'}. plain s"
  shows "(build_sign_hash_poke jam h k hard = build_sign_hash_poke jam h' k' hard' \<longleftrightarrow> h = h' \<and> k = k' \<and> hard = hard') \<and>
    (build_create_tx_poke jam f l r a fee = build_create_tx_poke jam f' l' r' a' fee' \<longleftrightarrow>
       f = f' \<and> l = l' \<and> r = r' \<and> a = a' \<and> fee = fee') \<and>
    build_sign_hash_poke jam h k hard \<noteq> build_create_tx_poke jam f l r a fee"
proof -
  have tags: "tas ''sign-hash'' \<noteq> tas ''create-tx''" by (simp add: tas_inject ascii_term_def)
  have cords: "le_value (utf8 h) = le_value (utf8 h') \<longleftrightarrow> h = h'" "le_value (utf8 f) = le_value (utf8 f') \<longleftrightarrow> f = f'"
      "le_value (utf8 l) = le_value (utf8 l') \<longleftrightarrow> l = l'" "le_value (utf8 r) = le_value (utf8 r') \<longleftrightarrow> r = r'"
    using assms(2) by (simp_all add: plain_inject)
  have nums: "unat x = unat y \<longleftrightarrow> x = y" for x y :: u64 by (simp add: word_unat_eq_iff)
  have sign: "build_sign_hash_poke jam h k hard = jam (Cell (Atom (tas ''sign-hash'')) (Cell (Atom (le_value (utf8 h)))
      (Cell (Atom (unat k)) (if hard then Atom 0 else Atom 1))))" for h k hard
    by (simp add: build_sign_hash_poke_def u64_to_noun_value make_cord_in_def del: lit_Cons)
  have spend: "build_create_tx_poke jam f l r a fee = jam (Cell (Atom (tas ''create-tx''))
      (Cell (Cell (Cell (Atom (le_value (utf8 f))) (Atom (le_value (utf8 l)))) (Atom 0))
      (Cell (Cell (Cell (Atom (unat a)) (Atom (le_value (utf8 r)))) (Atom 0))
      (Cell (Atom (unat fee)) (Cell (Atom 1) (Cell (Atom 0) (Cell (Cell (Cell (Atom 0) (Atom 1)) (Atom 0))
      (Cell (Atom 1) (Cell (Atom 1) (Atom (tas ''auto'')))))))))))" for f l r a fee
    by (simp add: build_create_tx_poke_def u64_to_noun_value make_cord_in_def del: lit_Cons)
  show ?thesis
    unfolding sign spend inj_eq [OF assms(1)] noun.inject cords nums using tags by auto
qed

theorem wallet_pokes_bind_witness:
  "build_sign_hash_poke (\<lambda>n. demo_ne (to_nat n)) [97] 0 True \<noteq> build_sign_hash_poke (\<lambda>n. demo_ne (to_nat n)) [97] (2 ^ 63) True"
proof -
  have "inj (\<lambda>n :: noun. demo_ne (to_nat n))"
  proof (rule injI)
    fix m n :: noun
    assume "demo_ne (to_nat m) = demo_ne (to_nat n)"
    then have "le_value (demo_ne (to_nat m)) = le_value (demo_ne (to_nat n))" by simp
    then show "m = n" using demo_ne_law by (simp add: ne_law_def)
  qed
  from wallet_pokes_bind [OF this, of "[97]" "[97]" "[97]" "[97]" "[97]" "[97]" "[97]" "[97]" 0 True "2 ^ 63" True]
  show ?thesis by (simp add: plain_def)
qed


subsection \<open>Receipts are attested\<close>

text \<open>An endpoint that may be contacted: encrypted, or one whose host reads as this machine.\<close>

definition endpoint_trusted :: "ustr \<Rightarrow> bool" where
  "endpoint_trusted ep \<longleftrightarrow>
     (\<exists>scheme rest. split_once (lit ''://'') ep = Some (scheme, rest) \<and>
        (eq_ignore_ascii_case scheme (lit ''https'') \<or>
         eq_ignore_ascii_case (endpoint_host rest) (lit ''localhost'') \<or> loopback_text (endpoint_host rest)))"

lemma reject_insecure_iff: "reject_insecure_endpoint ep = Inr () \<longleftrightarrow> endpoint_trusted ep"
  by (auto simp: reject_insecure_endpoint_def endpoint_trusted_def Let_def split: option.splits)

lemma block_InBlock:
  "get_transaction_block b58 rpc tx = Inr (InBlock i h p t) \<longleftrightarrow>
     (\<exists>b. rpc tx = RpcOk (ExFound b) \<and> h = b_height b \<and> t = b_timestamp b \<and>
        pb_hash_to_base58 b58 (b_block_id b) ''block_id'' = Inr i \<and> pb_hash_to_base58 b58 (b_parent b) ''parent'' = Inr p)"
  by (auto simp: get_transaction_block_def res_bind_def split: rpc.splits explorer.splits sum.splits if_splits)

lemma block_other:
  "get_transaction_block b58 rpc tx = Inr BlockPending \<longleftrightarrow> rpc tx = RpcOk ExPending"
  "get_transaction_block b58 rpc tx = Inr BlockNotFound \<longleftrightarrow> rpc tx \<in> {RpcErr CodeNotFound, RpcErr CodeInvalidArgument}"
  by (auto simp: get_transaction_block_def res_bind_def split: rpc.splits explorer.splits sum.splits if_splits)

lemma details_NotFound:
  "get_transaction_details b58 rpc tx = Inr DetailsNotFound \<longleftrightarrow> rpc tx \<in> {RpcErr CodeNotFound, RpcErr CodeInvalidArgument}"
  by (auto simp: get_transaction_details_def res_bind_def split: rpc.splits explorer.splits sum.splits if_splits)

lemma fetch_receipt_block:
  assumes "fetch_receipt get_block get_details tx = Inr r"
  shows "(\<exists>i h p t. get_block tx = Inr (InBlock i h p t) \<and> accepted r \<and> block_id r = Some i \<and> block_height r = Some h \<and>
             timestamp r = Some t) \<or>
         (get_block tx = Inr BlockPending \<and> \<not> accepted r \<and> block_id r = None \<and> block_height r = None)"
    and "tx_hash r = tx"
  using assms
  by (auto simp: fetch_receipt_def Let_def split: sum.splits block_result.splits details_result.splits)

lemma fetch_receipt_missing:
  assumes "fetch_receipt get_block get_details tx = Inl (TxMissing t)"
  shows "t = tx \<and> (get_block tx = Inr BlockNotFound \<or> get_details tx = Inr DetailsNotFound)"
  using assms
  by (auto simp: fetch_receipt_def Let_def split: sum.splits block_result.splits details_result.splits)

lemma handler_reaches:
  assumes "chain_connect net cfg = Inr client"
  shows "client = cfg \<and> endpoint_trusted (cc_endpoint cfg)"
  using assms reject_insecure_iff [of "cc_endpoint cfg"]
  by (auto simp: chain_connect_def split: sum.splits if_splits)

text \<open>C25: The service vouches only for what a trusted node attests. A receipt is given only when the settlement is
  connected to a chain, for an endpoint that is encrypted or whose host reads as
  this machine, and it is marked accepted exactly when
  that node puts this transaction in a block, whose height, time and identifier it carries; otherwise the node holds it
  pending. A transaction is reported unknown only when that node answers one of
  the two queries with not found or with invalid argument (a malformed identifier is reported as an unknown one), and
  whenever a node that is reached answers the first query so.\<close>

theorem verify_tx_attested:
  "(verify_tx_handler net b58 st tx = Inr r \<longrightarrow>
      sc_mode (settlement st) \<noteq> Local \<and>
      (\<exists>ep. sc_chain_endpoint (settlement st) = Some ep \<and> endpoint_trusted ep \<and> tx_hash r = tx \<and>
         (if accepted r
          then \<exists>b i. rpc_block net ep tx = RpcOk (ExFound b) \<and> block_height r = Some (b_height b) \<and>
                 timestamp r = Some (b_timestamp b) \<and> block_id r = Some i \<and>
                 pb_hash_to_base58 b58 (b_block_id b) ''block_id'' = Inr i
          else rpc_block net ep tx = RpcOk ExPending \<and> block_height r = None \<and> block_id r = None))) \<and>
   (verify_tx_handler net b58 st tx = Inl (TxNotFound t) \<longrightarrow>
      t = tx \<and> (\<exists>ep code. sc_chain_endpoint (settlement st) = Some ep \<and> endpoint_trusted ep \<and>
         code \<in> {CodeNotFound, CodeInvalidArgument} \<and>
         (rpc_block net ep tx = RpcErr code \<or> rpc_details net ep tx = RpcErr code))) \<and>
   (sc_mode (settlement st) \<noteq> Local \<and> chain_config_of (settlement st) = Some cfg \<and> endpoint_trusted (cc_endpoint cfg) \<and>
      public_up net (cc_endpoint cfg) \<and> block_up net (cc_endpoint cfg) \<and>
      rpc_block net (cc_endpoint cfg) tx \<in> {RpcErr CodeNotFound, RpcErr CodeInvalidArgument} \<longrightarrow>
      verify_tx_handler net b58 st tx = Inl (TxNotFound tx))"
proof -
  let ?get_block = "\<lambda>ep. get_transaction_block b58 (rpc_block net ep)"
  let ?get_details = "\<lambda>ep. get_transaction_details b58 (rpc_details net ep)"
  have reach: "\<exists>ep. sc_mode (settlement st) \<noteq> Local \<and> sc_chain_endpoint (settlement st) = Some ep \<and> endpoint_trusted ep \<and>
      (case res of Inr r \<Rightarrow> fetch_receipt (?get_block ep) (?get_details ep) tx = Inr r
       | Inl e \<Rightarrow> e = TxNotFound tx \<and> (\<exists>t. fetch_receipt (?get_block ep) (?get_details ep) tx = Inl (TxMissing t)))"
    if "verify_tx_handler net b58 st tx = res" "case res of Inr _ \<Rightarrow> True | Inl e \<Rightarrow> e = TxNotFound t" for res
    using that
    by (auto simp: verify_tx_handler_def chain_config_of_def split: if_splits option.splits sum.splits verify_error.splits
        dest!: handler_reaches)
  show ?thesis
  proof (intro conjI impI)
    assume "verify_tx_handler net b58 st tx = Inr r"
    from reach [OF this] obtain ep where ep: "sc_mode (settlement st) \<noteq> Local" "sc_chain_endpoint (settlement st) = Some ep"
        "endpoint_trusted ep" "fetch_receipt (?get_block ep) (?get_details ep) tx = Inr r" by auto
    note got = fetch_receipt_block [OF ep(4)]
    show "sc_mode (settlement st) \<noteq> Local" by (rule ep(1))
    show "\<exists>ep. sc_chain_endpoint (settlement st) = Some ep \<and> endpoint_trusted ep \<and> tx_hash r = tx \<and>
         (if accepted r
          then \<exists>b i. rpc_block net ep tx = RpcOk (ExFound b) \<and> block_height r = Some (b_height b) \<and>
                 timestamp r = Some (b_timestamp b) \<and> block_id r = Some i \<and>
                 pb_hash_to_base58 b58 (b_block_id b) ''block_id'' = Inr i
          else rpc_block net ep tx = RpcOk ExPending \<and> block_height r = None \<and> block_id r = None)"
      using ep(2,3) got by (auto simp: block_InBlock block_other)
  next
    assume "verify_tx_handler net b58 st tx = Inl (TxNotFound t)"
    from reach [OF this] obtain ep u where ep: "sc_chain_endpoint (settlement st) = Some ep" "endpoint_trusted ep" "t = tx"
        "fetch_receipt (?get_block ep) (?get_details ep) tx = Inl (TxMissing u)" by auto
    from fetch_receipt_missing [OF ep(4)] show "t = tx" "\<exists>ep code. sc_chain_endpoint (settlement st) = Some ep \<and>
        endpoint_trusted ep \<and> code \<in> {CodeNotFound, CodeInvalidArgument} \<and>
        (rpc_block net ep tx = RpcErr code \<or> rpc_details net ep tx = RpcErr code)"
      using ep(1-3) by (auto simp: block_other details_NotFound)
  next
    assume a: "sc_mode (settlement st) \<noteq> Local \<and> chain_config_of (settlement st) = Some cfg \<and>
      endpoint_trusted (cc_endpoint cfg) \<and> public_up net (cc_endpoint cfg) \<and> block_up net (cc_endpoint cfg) \<and>
      rpc_block net (cc_endpoint cfg) tx \<in> {RpcErr CodeNotFound, RpcErr CodeInvalidArgument}"
    then have "?get_block (cc_endpoint cfg) tx = Inr BlockNotFound" by (simp only: block_other)
    then show "verify_tx_handler net b58 st tx = Inl (TxNotFound tx)"
      using a by (simp add: verify_tx_handler_def chain_connect_def reject_insecure_iff [THEN iffD2] fetch_receipt_def)
  qed
qed

definition demo_net :: network where
  "demo_net =
     \<lparr>public_up = (\<lambda>_. True), block_up = (\<lambda>_. True),
      rpc_block = (\<lambda>_ _. RpcOk (ExFound \<lparr>b_block_id = Some (demo_hash\<lparr>belt_4 := Some 4\<rparr>),
                                      b_parent = Some (demo_hash\<lparr>belt_4 := Some 9\<rparr>), b_height = 42, b_timestamp = 1000\<rparr>)),
      rpc_details = (\<lambda>_ _. RpcOk ExPending)\<rparr>"

definition demo_state :: "unit app_state" where
  "demo_state =
     \<lparr>app = (), committed = [], app_tree = None, hull_id = 1, note_counter = 0, note_file = None,
      settlement = (resolve_local None)\<lparr>sc_mode := Fakenet, sc_chain_endpoint := Some (lit ''https://n'')\<rparr>,
      manifest = empty_summary, settle_builder = DefaultHash, rbac_enabled = False, kernel_ready = True\<rparr>"

theorem verify_tx_attested_witness:
  "\<exists>r. verify_tx_handler demo_net (map unat) demo_state [120] = Inr r \<and> endpoint_trusted (lit ''https://n'') \<and>
     block_height r = Some 42"
proof -
  have "reject_insecure_endpoint (lit ''https://n'') = Inr ()"
    by (simp add: reject_insecure_endpoint_def eq_ignore_ascii_case_def ascii_lower_def)
  then obtain r where r: "verify_tx_handler demo_net (map unat) demo_state [120] = Inr r" "accepted r"
    by (auto simp: verify_tx_handler_def demo_state_def chain_config_of_def chain_connect_def demo_net_def fetch_receipt_def
        get_transaction_block_def get_transaction_details_def pb_hash_to_base58_def belt_or_def demo_hash_def res_bind_def
        simp del: lit_Cons)
  then show ?thesis
    using verify_tx_attested [THEN conjunct1, rule_format, OF r(1)]
    by (auto simp: demo_state_def demo_net_def simp del: lit_Cons)
qed

end
