(* ===== verification/GraftManifest.thy ===== *)
theory GraftManifest
  imports Prelude "HOL-Library.List_Lexorder" "HOL-Library.Product_Lexorder" "HOL-Library.Multiset"
begin

text \<open>
  The packages of the composer \<^verbatim>\<open>tools/graft-inject\<close>: the operations of \<open>str\<close> it uses, its markers (\<^verbatim>\<open>marker.rs\<close>),
  manifests with their validation and discovery (\<^verbatim>\<open>manifest.rs\<close>) and the selection of a gate (\<^verbatim>\<open>gates.rs\<close>).  The TOML
  parser and SHA-256 are parameters; a directory is the list of its files in the order it is read.
\<close>

subsection \<open>Text\<close>

definition trim_start :: "ustr \<Rightarrow> ustr" where
  "trim_start s = dropWhile white_space s"

definition trim :: "ustr \<Rightarrow> ustr" where
  "trim s = rev (dropWhile white_space (rev (trim_start s)))"

definition starts_with :: "ustr \<Rightarrow> ustr \<Rightarrow> bool" where
  "starts_with s p \<longleftrightarrow> take (length p) s = p"

definition strip_prefix :: "ustr \<Rightarrow> ustr \<Rightarrow> ustr option" where
  "strip_prefix p s = (if starts_with s p then Some (drop (length p) s) else None)"

definition strip_suffix :: "ustr \<Rightarrow> ustr \<Rightarrow> ustr option" where
  "strip_suffix p s = map_option rev (strip_prefix (rev p) (rev s))"

definition ends_with :: "ustr \<Rightarrow> ustr \<Rightarrow> bool" where
  "ends_with s p \<longleftrightarrow> starts_with (rev s) (rev p)"

fun contains :: "ustr \<Rightarrow> ustr \<Rightarrow> bool" where
  "contains [] p = (p = [])"
| "contains (c # s) p = (starts_with (c # s) p \<or> contains s p)"

text \<open>\<open>str::replace\<close> of a pattern that is not empty.\<close>

function replace_all :: "ustr \<Rightarrow> ustr \<Rightarrow> ustr \<Rightarrow> ustr" where
  "replace_all p new s =
     (if s = [] \<or> p = [] then s
      else if starts_with s p then new @ replace_all p new (drop (length p) s)
      else hd s # replace_all p new (tl s))"
  by pat_completeness auto
termination
  by (relation "measure (\<lambda>(p, new, s). length s)") auto

declare replace_all.simps [simp del]

text \<open>\<open>str::lines\<close>: a line ends at a line feed, with a carriage return before it; what is left is a last line.\<close>

definition without_cr :: "ustr \<Rightarrow> ustr" where
  "without_cr l = (if l \<noteq> [] \<and> last l = 13 then butlast l else l)"

fun split_lines :: "ustr \<Rightarrow> ustr \<Rightarrow> ustr list" where
  "split_lines cur [] = (if cur = [] then [] else [cur])"
| "split_lines cur (c # s) = (if c = 10 then without_cr cur # split_lines [] s else split_lines (cur @ [c]) s)"

definition str_lines :: "ustr \<Rightarrow> ustr list" where
  "str_lines s = split_lines [] s"

fun join :: "ustr \<Rightarrow> ustr list \<Rightarrow> ustr" where
  "join sep [] = []"
| "join sep [l] = l"
| "join sep (l # m # ls) = l @ sep @ join sep (m # ls)"

text \<open>\<open>str::split_whitespace\<close>.\<close>

function words_of :: "ustr \<Rightarrow> ustr list" where
  "words_of s =
     (let t = dropWhile white_space s
      in if t = [] then [] else takeWhile (\<lambda>c. \<not> white_space c) t # words_of (dropWhile (\<lambda>c. \<not> white_space c) t))"
  by pat_completeness auto
termination
proof (relation "measure length")
  fix s t :: ustr
  assume "t = dropWhile white_space s" "t \<noteq> []"
  then have "\<not> white_space (hd t)" by (simp add: hd_dropWhile)
  then have "length (dropWhile (\<lambda>c. \<not> white_space c) t) < length t"
    using \<open>t \<noteq> []\<close> by (cases t) (simp_all add: le_imp_less_Suc length_dropWhile_le)
  also have "length t \<le> length s" unfolding \<open>t = _\<close> by (rule length_dropWhile_le)
  finally show "(dropWhile (\<lambda>c. \<not> white_space c) t, s) \<in> measure length" by simp
qed simp

declare words_of.simps [simp del]


subsection \<open>Facts on text\<close>

named_theorems text_simps \<open>trimming, prefixes and splitting of lines\<close>

lemma starts_with_iff: "starts_with s p \<longleftrightarrow> (\<exists>t. s = p @ t)"
  unfolding starts_with_def by (metis append_eq_conv_conj append_take_drop_id)

lemma starts_with_append [text_simps]: "starts_with (p @ t) p"
  by (simp add: starts_with_iff)

lemma starts_with_trans: "starts_with s p \<Longrightarrow> starts_with p q \<Longrightarrow> starts_with s q"
  by (auto simp: starts_with_iff)

lemma starts_with_hd: "starts_with s p \<Longrightarrow> p \<noteq> [] \<Longrightarrow> s \<noteq> [] \<and> hd s = hd p"
  by (auto simp: starts_with_iff)

lemma strip_prefix_eq_Some: "strip_prefix p s = Some t \<longleftrightarrow> s = p @ t"
  by (auto simp: strip_prefix_def starts_with_iff)

lemma strip_prefix_eq_None: "strip_prefix p s = None \<longleftrightarrow> \<not> starts_with s p"
  by (simp add: strip_prefix_def)

lemma strip_prefix_self [text_simps]: "strip_prefix p (p @ t) = Some t"
  by (simp add: strip_prefix_eq_Some)

lemma strip_suffix_eq_Some: "strip_suffix p s = Some t \<longleftrightarrow> s = t @ p"
  by (auto simp: strip_suffix_def strip_prefix_eq_Some) (metis rev_append rev_rev_ident)

lemma trim_start_append [text_simps]: "list_all white_space w \<Longrightarrow> trim_start (w @ s) = trim_start s"
  by (simp add: trim_start_def list_all_iff dropWhile_append2)

lemma trim_append [text_simps]: "list_all white_space w \<Longrightarrow> trim (w @ s) = trim s"
  by (simp add: trim_def text_simps)

lemma trim_start_id: "s \<noteq> [] \<Longrightarrow> \<not> white_space (hd s) \<Longrightarrow> trim_start s = s"
  by (cases s) (simp_all add: trim_start_def)

lemma trim_id: "s \<noteq> [] \<Longrightarrow> \<not> white_space (hd s) \<Longrightarrow> \<not> white_space (last s) \<Longrightarrow> trim s = s"
  by (cases s rule: rev_cases) (simp_all add: trim_def trim_start_id)

lemma trim_prefix: "starts_with (trim_start s) (trim s)"
proof -
  have "trim_start s = trim s @ rev (takeWhile white_space (rev (trim_start s)))"
    unfolding trim_def by (metis rev_append rev_rev_ident takeWhile_dropWhile_id)
  then show ?thesis by (auto simp: starts_with_iff)
qed

lemma ends_with_iff: "ends_with s p \<longleftrightarrow> (\<exists>t. s = t @ p)"
  by (auto simp: ends_with_def starts_with_iff) (metis rev_append rev_rev_ident)

lemma in_map_filter: "x \<in> set (List.map_filter f xs) \<longleftrightarrow> (\<exists>l\<in>set xs. f l = Some x)"
  by (induction xs) (auto simp: List.map_filter_simps split: option.splits)

lemma split_at_first:
  "c \<notin> set n \<Longrightarrow> c \<notin> set n' \<Longrightarrow> n @ c # x = n' @ c # y \<longleftrightarrow> n = n' \<and> x = y"
proof (induction n arbitrary: n')
  case Nil then show ?case by (cases n') auto
next
  case (Cons a n) then show ?case by (cases n') auto
qed


subsection \<open>Markers\<close>

datatype marker =
    Imports
  | State
  | Cause
  | PokePrelude
  | Poke
  | PokePostlude
  | Peek
  | DomainEffect
  | EffectUnion
  | LoadDefaults

definition all_markers :: "marker list" where
  "all_markers =
     [Imports, State, Cause, PokePrelude, Poke, PokePostlude, Peek, DomainEffect, EffectUnion, LoadDefaults]"

primrec label :: "marker \<Rightarrow> ustr" where
  "label Imports = lit ''imports''"
| "label State = lit ''state''"
| "label Cause = lit ''cause''"
| "label PokePrelude = lit ''poke-prelude''"
| "label Poke = lit ''poke''"
| "label PokePostlude = lit ''poke-postlude''"
| "label Peek = lit ''peek''"
| "label DomainEffect = lit ''domain-effect''"
| "label EffectUnion = lit ''effect-union''"
| "label LoadDefaults = lit ''load-defaults''"


subsection \<open>Manifests\<close>

record gate_selection =
  gate :: "ustr option"
  gate_chain :: "ustr list option"

record graft_types =
  effect_type :: "ustr option"
  cause_type :: "ustr option"

record graft_blocks =
  b_imports :: "ustr option"
  b_state :: "ustr option"
  b_cause :: "ustr option"
  b_poke_prelude :: "ustr option"
  b_poke :: "ustr option"
  b_poke_postlude :: "ustr option"
  b_peek :: "ustr option"

record graft =
  g_name :: ustr
  g_version :: ustr
  g_priority :: int
  g_after :: "ustr list"
  g_blocks :: graft_blocks
  g_gates :: "gate_selection option"
  g_types :: "graft_types option"
  g_schema :: "u32 option"
  g_sha :: ustr

primrec block :: "marker \<Rightarrow> graft \<Rightarrow> ustr option" where
  "block Imports g = b_imports (g_blocks g)"
| "block State g = b_state (g_blocks g)"
| "block Cause g = b_cause (g_blocks g)"
| "block PokePrelude g = b_poke_prelude (g_blocks g)"
| "block Poke g = b_poke (g_blocks g)"
| "block PokePostlude g = b_poke_postlude (g_blocks g)"
| "block Peek g = b_peek (g_blocks g)"
| "block DomainEffect g = None"
| "block EffectUnion g = None"
| "block LoadDefaults g = None"

definition trimmed_body :: "ustr \<Rightarrow> ustr" where
  "trimmed_body body = rev (dropWhile (\<lambda>c. c = 10) (rev (dropWhile (\<lambda>c. c = 10) body)))"

definition sha256_short :: "graft \<Rightarrow> ustr" where
  "sha256_short g = take 12 (g_sha g)"

definition lowercase :: "nat \<Rightarrow> bool" where
  "lowercase c \<longleftrightarrow> 97 \<le> c \<and> c \<le> 122"

definition is_valid_graft_name :: "ustr \<Rightarrow> bool" where
  "is_valid_graft_name name =
     (case name of
        [] \<Rightarrow> False
      | c # cs \<Rightarrow> lowercase c \<and> list_all (\<lambda>d. lowercase d \<or> 48 \<le> d \<and> d \<le> 57 \<or> d = 45) cs)"

datatype manifest_error =
    Unparsable ustr
  | InvalidName ustr ustr
  | BothGates ustr
  | InvalidGateName ustr ustr
  | UnknownGate ustr ustr
  | EmptyChain ustr
  | NoPokeBlock ustr
  | NoDefaultGate ustr
  | InvalidTypeName ustr ustr
  | DuplicateName ustr ustr ustr
  | DuplicateType ustr ustr ustr

text \<open>What the parser makes of a file: the table \<open>[graft]\<close> may be missing, or be no table.\<close>

datatype toml_result = TomlBad | NoGraftTable | GraftTable graft

definition load_manifest :: "(ustr \<Rightarrow> toml_result) \<Rightarrow> (ustr \<Rightarrow> ustr) \<Rightarrow> ustr \<Rightarrow> ustr \<Rightarrow> manifest_error + graft option" where
  "load_manifest toml sha path raw =
     (case toml raw of
        TomlBad \<Rightarrow> Inl (Unparsable path)
      | NoGraftTable \<Rightarrow> Inr None
      | GraftTable g \<Rightarrow> Inr (Some (g\<lparr>g_sha := sha raw\<rparr>)))"


subsection \<open>Gates\<close>

definition TIER_1A_GATES :: "ustr list" where
  "TIER_1A_GATES =
     map lit [''sig-verify-ed25519'', ''sig-verify-schnorr'', ''manifest-verify'', ''set-membership-verify'',
       ''bounded-value-verify'']"

definition validate_gate_name :: "ustr \<Rightarrow> ustr \<Rightarrow> manifest_error + unit" where
  "validate_gate_name path name =
     (if \<not> is_valid_graft_name name then Inl (InvalidGateName path name)
      else if name \<notin> set TIER_1A_GATES then Inl (UnknownGate path name)
      else Inr ())"

definition validate_gate_selection :: "ustr \<Rightarrow> graft \<Rightarrow> manifest_error + unit" where
  "validate_gate_selection path g =
     (case g_gates g of
        None \<Rightarrow> Inr ()
      | Some sel \<Rightarrow>
          if gate sel \<noteq> None \<and> gate_chain sel \<noteq> None then Inl (BothGates path)
          else
            res_bind (case gate sel of None \<Rightarrow> Inr () | Some name \<Rightarrow> validate_gate_name path name) (\<lambda>_.
              case gate_chain sel of
                None \<Rightarrow> Inr ()
              | Some chain \<Rightarrow>
                  if chain = [] then Inl (EmptyChain path)
                  else res_bind (collect (validate_gate_name path) chain) (\<lambda>_. Inr ())))"

definition NL :: ustr where "NL = [10]"

definition DEFAULT_HASH_GATE_BLOCK :: ustr where
  "DEFAULT_HASH_GATE_BLOCK =
     join NL (map lit
       [''=/  hash-gate=verify-gate'', ''  |=  [note-id=@ data=* expected-root=@]'', ''  ^-  ?'',
        ''  =((hash-leaf ;;(@ data)) expected-root)''])"

definition chain_call :: "ustr \<Rightarrow> ustr" where
  "chain_call name = lit ''('' @ name @ lit '':vesl-gates note-id data expected-root)''"

definition build_chain_block :: "ustr list \<Rightarrow> ustr" where
  "build_chain_block chain =
     join NL (map lit
       [''=/  hash-gate=verify-gate'', ''  |=  [note-id=@ data=* expected-root=@]'', ''  ^-  ?'', ''  ?&'']) @
     concat (map (\<lambda>i. (if i = 0 then lit ''  '' else NL @ lit ''      '') @ chain_call (chain ! i)) [0..<length chain]) @
     NL @ lit ''  =='' "

definition apply_gate_selection :: "ustr \<Rightarrow> graft \<Rightarrow> manifest_error + graft" where
  "apply_gate_selection path g =
     (case (case g_gates g of
              None \<Rightarrow> None
            | Some sel \<Rightarrow>
                (case gate sel of
                   Some name \<Rightarrow> Some (lit ''=/  hash-gate=verify-gate  '' @ name @ lit '':vesl-gates'')
                 | None \<Rightarrow> map_option build_chain_block (gate_chain sel))) of
        None \<Rightarrow> Inr g
      | Some new_block \<Rightarrow>
          (case b_poke (g_blocks g) of
             None \<Rightarrow> Inl (NoPokeBlock path)
           | Some poke \<Rightarrow>
               if \<not> contains poke DEFAULT_HASH_GATE_BLOCK then Inl (NoDefaultGate path)
               else
                 let poke' = replace_all DEFAULT_HASH_GATE_BLOCK new_block poke;
                     imports' = map_option
                       (\<lambda>body. if list_ex (\<lambda>l. trim l = lit ''/+  vesl-gates'') (str_lines body) then body
                               else lit ''/+  vesl-gates'' @ NL @ body) (b_imports (g_blocks g))
                 in Inr (g\<lparr>g_blocks := (g_blocks g)\<lparr>b_poke := Some poke', b_imports := imports'\<rparr>\<rparr>)))"


subsection \<open>Discovery\<close>

definition validate_types :: "ustr \<Rightarrow> graft \<Rightarrow> manifest_error + unit" where
  "validate_types path g =
     (case g_types g of
        None \<Rightarrow> Inr ()
      | Some t \<Rightarrow>
          res_bind
            (case effect_type t of
               Some name \<Rightarrow> ensure (is_valid_graft_name name) (InvalidTypeName path name)
             | None \<Rightarrow> Inr ()) (\<lambda>_.
            case cause_type t of
              Some name \<Rightarrow> ensure (is_valid_graft_name name) (InvalidTypeName path name)
            | None \<Rightarrow> Inr ()))"

text \<open>The maps from names to paths and from types to grafts are association lists.\<close>

fun unique_types :: "(graft_types \<Rightarrow> ustr option) \<Rightarrow> (ustr \<times> ustr) list \<Rightarrow> graft list \<Rightarrow> manifest_error + unit" where
  "unique_types field by_type [] = Inr ()"
| "unique_types field by_type (g # gs) =
     (case Option.bind (g_types g) field of
        None \<Rightarrow> unique_types field by_type gs
      | Some name \<Rightarrow>
          (case map_of by_type name of
             Some prev \<Rightarrow> Inl (DuplicateType name prev (g_name g))
           | None \<Rightarrow> unique_types field ((name, g_name g) # by_type) gs))"

definition validate_unique_type_names :: "graft list \<Rightarrow> manifest_error + unit" where
  "validate_unique_type_names gs =
     res_bind (unique_types effect_type [] gs) (\<lambda>_. unique_types cause_type [] gs)"

text \<open>\<open>Path::extension\<close> of the standard library: what follows the last dot of the file name, unless the dot begins it.\<close>

definition file_extension :: "ustr \<Rightarrow> ustr option" where
  "file_extension path =
     (let name = rev (takeWhile (\<lambda>c. c \<noteq> 47) (rev path));
          ext = rev (takeWhile (\<lambda>c. c \<noteq> 46) (rev name))
      in if 46 \<notin> set name \<or> length name = Suc (length ext) \<or> name = lit ''..'' then None else Some ext)"

fun discover ::
  "(ustr \<Rightarrow> toml_result) \<Rightarrow> (ustr \<Rightarrow> ustr) \<Rightarrow> (ustr \<times> ustr) list \<Rightarrow> graft list \<Rightarrow> (ustr \<times> ustr) list \<Rightarrow>
   manifest_error + graft list" where
  "discover toml sha seen grafts [] = Inr grafts"
| "discover toml sha seen grafts ((path, raw) # files) =
     (if file_extension path \<noteq> Some (lit ''toml'') then discover toml sha seen grafts files
      else
        res_bind (load_manifest toml sha path raw) (\<lambda>loaded.
          case loaded of
            None \<Rightarrow> discover toml sha seen grafts files
          | Some g \<Rightarrow>
              res_bind (ensure (is_valid_graft_name (g_name g)) (InvalidName path (g_name g))) (\<lambda>_.
              res_bind (validate_gate_selection path g) (\<lambda>_.
              res_bind (apply_gate_selection path g) (\<lambda>g.
              res_bind (validate_types path g) (\<lambda>_.
                case map_of seen (g_name g) of
                  Some prev \<Rightarrow> Inl (DuplicateName (g_name g) prev path)
                | None \<Rightarrow> discover toml sha ((g_name g, path) # seen) (grafts @ [g]) files))))))"

definition graft_order :: "graft \<Rightarrow> graft \<Rightarrow> bool" where
  "graft_order a b \<longleftrightarrow> g_priority a < g_priority b \<or> g_priority a = g_priority b \<and> g_name a \<le> g_name b"

fun insert_graft :: "graft \<Rightarrow> graft list \<Rightarrow> graft list" where
  "insert_graft g [] = [g]"
| "insert_graft g (h # hs) = (if graft_order g h then g # h # hs else h # insert_graft g hs)"

definition sort_grafts :: "graft list \<Rightarrow> graft list" where
  "sort_grafts gs = foldr insert_graft gs []"

definition discover_grafts ::
  "(ustr \<Rightarrow> toml_result) \<Rightarrow> (ustr \<Rightarrow> ustr) \<Rightarrow> (ustr \<times> ustr) list \<Rightarrow> manifest_error + graft list" where
  "discover_grafts toml sha files =
     res_bind (discover toml sha [] [] files) (\<lambda>grafts.
       let grafts = sort_grafts grafts in res_bind (validate_unique_type_names grafts) (\<lambda>_. Inr grafts))"

record schema_skew =
  skew_graft :: ustr
  skew_manifest :: u32
  skew_binary :: u32

definition MANIFEST_SCHEMA_VERSION :: u32 where "MANIFEST_SCHEMA_VERSION = 1"

definition check_schema_compat :: "graft list \<Rightarrow> schema_skew list" where
  "check_schema_compat grafts =
     List.map_filter (\<lambda>g.
       case g_schema g of
         None \<Rightarrow> None
       | Some declared \<Rightarrow>
           if MANIFEST_SCHEMA_VERSION < declared
           then Some \<lparr>skew_graft = g_name g, skew_manifest = declared, skew_binary = MANIFEST_SCHEMA_VERSION\<rparr>
           else None) grafts"


subsection \<open>Discovery does not depend on the directory\<close>

definition sort_rank :: "graft \<Rightarrow> int \<times> ustr" where
  "sort_rank g = (g_priority g, g_name g)"

lemma graft_order_rank: "graft_order a b \<longleftrightarrow> sort_rank a \<le> sort_rank b"
  by (auto simp: graft_order_def sort_rank_def)

lemma insert_graft_insort: "insert_graft g gs = insort_key sort_rank g gs"
  by (induction gs) (simp_all add: graft_order_rank)

lemma sort_grafts_sort: "sort_grafts gs = sort_key sort_rank gs"
  unfolding sort_grafts_def by (induction gs) (simp_all add: insert_graft_insort)

lemma sort_grafts_mset:
  assumes "mset gs = mset hs" "distinct (map g_name gs)"
  shows "sort_grafts gs = sort_grafts hs"
proof -
  have "inj_on sort_rank (set gs)"
    using assms(2) by (auto simp: distinct_map inj_on_def sort_rank_def)
  then show ?thesis
    unfolding sort_grafts_sort using assms(1)
    by (intro sort_key_inj_key_eq) (simp_all add: sorted_sort_key)
qed

text \<open>What is made of one file, whatever files stand beside it.\<close>

definition load_file ::
  "(ustr \<Rightarrow> toml_result) \<Rightarrow> (ustr \<Rightarrow> ustr) \<Rightarrow> ustr \<times> ustr \<Rightarrow> manifest_error + graft option" where
  "load_file toml sha entry =
     (case entry of (path, raw) \<Rightarrow>
        if file_extension path \<noteq> Some (lit ''toml'') then Inr None
        else
          res_bind (load_manifest toml sha path raw) (\<lambda>loaded.
            case loaded of
              None \<Rightarrow> Inr None
            | Some g \<Rightarrow>
                res_bind (ensure (is_valid_graft_name (g_name g)) (InvalidName path (g_name g))) (\<lambda>_.
                res_bind (validate_gate_selection path g) (\<lambda>_.
                res_bind (apply_gate_selection path g) (\<lambda>g.
                res_bind (validate_types path g) (\<lambda>_. Inr (Some g)))))))"

definition loaded :: "graft option list \<Rightarrow> graft list" where
  "loaded os = List.map_filter id os"

lemma loaded_simps [simp]: "loaded [] = []" "loaded (None # os) = loaded os" "loaded (Some g # os) = g # loaded os"
  by (simp_all add: loaded_def List.map_filter_simps)

lemma discover_Cons:
  "discover toml sha seen grafts (entry # files) =
     res_bind (load_file toml sha entry) (\<lambda>l.
       case l of
         None \<Rightarrow> discover toml sha seen grafts files
       | Some g \<Rightarrow>
           (case map_of seen (g_name g) of
              Some prev \<Rightarrow> Inl (DuplicateName (g_name g) prev (fst entry))
            | None \<Rightarrow> discover toml sha ((g_name g, fst entry) # seen) (grafts @ [g]) files))"
  by (cases entry) (auto simp: load_file_def res_bind_def split: sum.splits option.splits)

lemma ex_map_Inr_Cons: "f x = Inr l \<Longrightarrow>
    (\<exists>os. map f (x # xs) = map Inr os \<and> Q os) \<longleftrightarrow> (\<exists>os. map f xs = map Inr os \<and> Q (l # os))"
  by (simp add: map_eq_Cons_conv Cons_eq_map_conv) blast

lemma discover_iff:
  "discover toml sha seen grafts files = Inr gs \<longleftrightarrow>
     (\<exists>os. map (load_file toml sha) files = map Inr os \<and> gs = grafts @ loaded os \<and>
        distinct (map g_name (loaded os)) \<and> g_name ` set (loaded os) \<inter> fst ` set seen = {})"
proof (induction files arbitrary: seen grafts)
  case Nil then show ?case by auto
next
  case (Cons entry files)
  show ?case
  proof (cases "load_file toml sha entry")
    case (Inl e) then show ?thesis by (auto simp: discover_Cons)
  next
    case (Inr l)
    show ?thesis
    proof (cases l)
      case None
      then show ?thesis unfolding ex_map_Inr_Cons [where f = "load_file toml sha" and x = entry, OF Inr] discover_Cons Inr by (simp add: Cons.IH)
    next
      case (Some g)
      have seen: "map_of seen (g_name g) = None \<longleftrightarrow> g_name g \<notin> fst ` set seen" by (simp add: map_of_eq_None_iff)
      show ?thesis
      proof (cases "map_of seen (g_name g)")
        case None
        then show ?thesis
          unfolding ex_map_Inr_Cons [where f = "load_file toml sha" and x = entry, OF Inr] discover_Cons Inr using Some seen by (auto simp: Cons.IH)
      next
        case (Some prev)
        then have "g_name g \<in> fst ` set seen" using seen by auto
        then show ?thesis
          unfolding ex_map_Inr_Cons [where f = "load_file toml sha" and x = entry, OF Inr] discover_Cons Inr using Some \<open>l = Some g\<close> by auto
      qed
    qed
  qed
qed

lemma map_Inr_perm: "map f xs = map Inr os \<Longrightarrow> mset xs = mset ys \<Longrightarrow> \<exists>os'. map f ys = map Inr os' \<and> mset os' = mset os"
proof -
  assume f: "map f xs = map Inr os" and xy: "mset xs = mset ys"
  have "set xs = set ys" using xy by (metis set_mset_mset)
  have "f x \<in> range Inr" if "x \<in> set xs" for x
  proof -
    have "f x \<in> set (map f xs)" using that by simp
    then show ?thesis unfolding f by auto
  qed
  then have "f x = Inr (projr (f x))" if "x \<in> set ys" for x using that \<open>set xs = set ys\<close> by force
  then have "map f ys = map Inr (map (projr \<circ> f) ys)" by simp
  moreover have "os = map (projr \<circ> f) xs" using arg_cong [OF f, of "map projr"] by (simp add: comp_def)
  then have "mset (map (projr \<circ> f) ys) = mset os" using xy by (simp add: mset_map)
  ultimately show ?thesis by blast
qed

lemma mset_loaded: "mset os = mset os' \<Longrightarrow> mset (loaded os) = mset (loaded os')"
  by (simp add: loaded_def List.map_filter_def flip: mset_filter) (metis mset_filter mset_map)

lemma distinct_names_mset: "mset gs = mset hs \<Longrightarrow> distinct (map g_name gs) \<longleftrightarrow> distinct (map g_name hs)"
  by (metis mset_eq_imp_distinct_iff mset_map)

lemma discover_grafts_sound:
  assumes "discover_grafts toml sha files = Inr gs"
  shows "distinct (map g_name gs)" "sorted (map sort_rank gs)"
proof -
  obtain hs where hs: "discover toml sha [] [] files = Inr hs" "gs = sort_grafts hs"
    using assms by (auto simp: discover_grafts_def Let_def)
  then have "distinct (map g_name hs)" by (auto simp: discover_iff)
  then show "distinct (map g_name gs)" "sorted (map sort_rank gs)"
    using hs(2) distinct_names_mset [of gs hs] by (simp_all add: sort_grafts_sort sorted_sort_key)
qed

text \<open>C29: Discovery depends on the set of manifests, not on the order in which the directory lists them: if it succeeds for one
order it succeeds for every order with the same list of grafts, which is sorted by priority and then name and names no graft
twice.\<close>

theorem discovery_order_free:
  assumes "discover_grafts toml sha files = Inr gs" "mset files = mset files'"
  shows "discover_grafts toml sha files' = Inr gs \<and> sorted (map sort_rank gs) \<and> distinct (map g_name gs)"
proof -
  obtain os where os: "map (load_file toml sha) files = map Inr os" "distinct (map g_name (loaded os))"
    and gs: "gs = sort_grafts (loaded os)" "validate_unique_type_names gs = Inr ()"
    using assms(1) by (auto simp: discover_grafts_def Let_def discover_iff)
  obtain os' where os': "map (load_file toml sha) files' = map Inr os'" "mset os' = mset os"
    using map_Inr_perm [OF os(1) assms(2)] by blast
  have ms: "mset (loaded os') = mset (loaded os)" using os'(2) by (rule mset_loaded)
  then have "distinct (map g_name (loaded os'))" using os(2) distinct_names_mset by blast
  then have "discover toml sha [] [] files' = Inr (loaded os')" using os'(1) by (auto simp: discover_iff)
  moreover have "sort_grafts (loaded os') = gs"
    using sort_grafts_mset [OF ms [symmetric] os(2)] gs(1) by simp
  ultimately show ?thesis using discover_grafts_sound [OF assms(1)] gs(2) by (simp add: discover_grafts_def Let_def)
qed


text \<open>A manifest of a name and a priority, with an optional poke and peek block.\<close>

definition sample_graft :: "ustr \<Rightarrow> int \<Rightarrow> ustr option \<Rightarrow> ustr option \<Rightarrow> graft" where
  "sample_graft name prio poke peek =
     \<lparr>g_name = name, g_version = lit ''0.1'', g_priority = prio, g_after = [],
      g_blocks = \<lparr>b_imports = None, b_state = None, b_cause = None, b_poke_prelude = None, b_poke = poke,
        b_poke_postlude = None, b_peek = peek\<rparr>,
      g_gates = None, g_types = None, g_schema = None, g_sha = lit ''0123456789ab''\<rparr>"

lemma sample_checks:
  "load_manifest (\<lambda>raw. GraftTable (sample_graft raw p None None)) (\<lambda>raw. lit ''0123456789ab'') path raw =
     Inr (Some (sample_graft raw p None None))"
  "validate_gate_selection path (sample_graft raw p None None) = Inr ()"
  "apply_gate_selection path (sample_graft raw p None None) = Inr (sample_graft raw p None None)"
  "validate_types path (sample_graft raw p None None) = Inr ()"
  "g_name (sample_graft raw p None None) = raw" "g_types (sample_graft raw p None None) = None"
  by (simp_all add: load_manifest_def validate_gate_selection_def apply_gate_selection_def validate_types_def sample_graft_def)

lemma load_sample: "file_extension path = Some (lit ''toml'') \<Longrightarrow> is_valid_graft_name raw \<Longrightarrow>
    load_file (\<lambda>raw. GraftTable (sample_graft raw p None None)) (\<lambda>raw. lit ''0123456789ab'') (path, raw) =
    Inr (Some (sample_graft raw p None None))"
  unfolding load_file_def prod.case sample_checks by (simp only: if_False not_True_eq_False simp_thms res_bind_simps option.case
      sample_checks ensure_simps)

lemma sample_types: "unique_types f [] [sample_graft a 10 None None, sample_graft b 10 None None] = Inr ()"
  by (simp add: sample_checks)

lemma discovery_order_free_witness:
  "discover_grafts (\<lambda>raw. GraftTable (sample_graft raw 10 None None)) (\<lambda>raw. lit ''0123456789ab'')
     [(lit ''a.toml'', lit ''kv''), (lit ''b.toml'', lit ''log'')] =
   Inr [sample_graft (lit ''kv'') 10 None None, sample_graft (lit ''log'') 10 None None]"
proof -
  let ?kv = "sample_graft (lit ''kv'') 10 None None" and ?log = "sample_graft (lit ''log'') 10 None None"
  let ?toml = "\<lambda>raw. GraftTable (sample_graft raw 10 None None)" and ?sha = "\<lambda>raw. lit ''0123456789ab''"
  let ?files = "[(lit ''b.toml'', lit ''log''), (lit ''a.toml'', lit ''kv'')]" and ?os = "[Some ?log, Some ?kv]"
  have n: "is_valid_graft_name (lit ''kv'')" "is_valid_graft_name (lit ''log'')" "file_extension (lit ''a.toml'') = Some (lit ''toml'')"
    "file_extension (lit ''b.toml'') = Some (lit ''toml'')" "lit ''kv'' \<noteq> lit ''log''"
    by (simp_all add: is_valid_graft_name_def lowercase_def file_extension_def)
  have 1: "sort_grafts [?log, ?kv] = [?kv, ?log]" by (simp add: sort_grafts_def graft_order_def sample_graft_def)
  have "map (load_file ?toml ?sha) ?files = map Inr ?os"
    unfolding list.map load_sample [OF n(4,2)] load_sample [OF n(3,1)] ..
  moreover have "distinct (map g_name (loaded ?os))"
    unfolding loaded_simps list.map sample_checks using n(5) by (simp del: lit_Cons)
  ultimately have "discover ?toml ?sha [] [] ?files = Inr [?log, ?kv]"
    unfolding discover_iff
    by (intro exI [of _ ?os]) (simp only: loaded_simps append_Nil list.set image_empty Int_empty_right simp_thms)
  then have 2: "discover_grafts ?toml ?sha ?files = Inr [?kv, ?log]"
    unfolding discover_grafts_def validate_unique_type_names_def by (simp only: res_bind_simps Let_def 1 sample_types)
  have "mset ?files = mset [(lit ''a.toml'', lit ''kv''), (lit ''b.toml'', lit ''log'')]" by (simp del: lit_Cons)
  from discovery_order_free [OF 2 this] show ?thesis by (rule conjunct1)
qed

end
