(* ===== verification/Lints.thy ===== *)
theory Lints
  imports GraftManifest
begin

text \<open>
  The lints of the composer: findings, severities and the policy that overrides them (\<^verbatim>\<open>lint/mod.rs\<close>), the extractors of
  names (\<^verbatim>\<open>lint/extract.rs\<close>) and the passes over the lines of a kernel and the manifests.  A table sorted by name
  (\<open>BTreeMap\<close>) is the list \<open>grouped\<close>, and the order in which a \<open>HashSet\<close> is iterated is an argument.
\<close>

subsection \<open>Findings and policy\<close>

datatype collision_kind = CauseTag | StateField

datatype lint_finding =
    WeldFriction nat ustr ustr
  | BareTildeAmbiguity nat ustr
  | Collision collision_kind ustr "ustr list"
  | TransitiveImport ustr ustr ustr ustr "ustr list"
  | InternalDupe collision_kind ustr "nat list"
  | UnresolvedCauseReference nat ustr

primrec kind_label :: "lint_finding \<Rightarrow> ustr" where
  "kind_label (WeldFriction n t ty) = lit ''weld-friction''"
| "kind_label (BareTildeAmbiguity n a) = lit ''bare-tilde-ambiguity''"
| "kind_label (Collision k n os) = lit ''collision''"
| "kind_label (TransitiveImport s r n t c) = lit ''transitive-imports''"
| "kind_label (InternalDupe k n ls) = lit ''internal-dupes''"
| "kind_label (UnresolvedCauseReference n t) = lit ''unresolved-cause-reference''"

datatype lint_severity = Severe | Warn | Note

primrec severity :: "lint_finding \<Rightarrow> lint_severity" where
  "severity (WeldFriction n t ty) = Warn"
| "severity (BareTildeAmbiguity n a) = Severe"
| "severity (Collision k n os) = Severe"
| "severity (TransitiveImport s r n t c) = Severe"
| "severity (InternalDupe k n ls) = Severe"
| "severity (UnresolvedCauseReference n t) = Severe"

definition parse_severity :: "ustr \<Rightarrow> lint_severity option" where
  "parse_severity s =
     (if s = lit ''error'' then Some Severe else if s = lit ''warn'' then Some Warn
      else if s = lit ''note'' then Some Note else None)"

definition KIND_ORDER :: "ustr list" where
  "KIND_ORDER =
     map lit [''weld-friction'', ''bare-tilde-ambiguity'', ''collision'', ''transitive-imports'', ''internal-dupes'',
       ''unresolved-cause-reference'']"

definition canonical_kind :: "ustr \<Rightarrow> ustr option" where
  "canonical_kind name = List.find (\<lambda>k. k = name) KIND_ORDER"

record lint_policy =
  overrides :: "ustr \<rightharpoonup> lint_severity"
  policy_warnings :: "ustr list"

definition empty_policy :: lint_policy where
  "empty_policy = \<lparr>overrides = Map.empty, policy_warnings = []\<rparr>"

datatype policy_error = UnknownLint ustr | UnknownSeverity ustr | NotAString ustr | NotNameSeverity ustr

text \<open>
  The configuration as the parser of TOML gives it: no file or no table \<open>[lint]\<close>, a file or a table of the wrong form, or
  the entries of the table, where a value that is no string is \<open>None\<close>.
\<close>

datatype lint_config = NoLintTable | LintMalformed ustr | LintTable "(ustr \<times> ustr option) list"

fun read_lint_table ::
  "(ustr \<rightharpoonup> lint_severity) \<Rightarrow> (ustr \<times> ustr option) list \<Rightarrow> policy_error + (ustr \<rightharpoonup> lint_severity)" where
  "read_lint_table m [] = Inr m"
| "read_lint_table m ((key, val) # entries) =
     (case canonical_kind key of
        None \<Rightarrow> Inl (UnknownLint key)
      | Some kind \<Rightarrow>
          (case val of
             None \<Rightarrow> Inl (NotAString key)
           | Some s \<Rightarrow>
               (case parse_severity s of
                  None \<Rightarrow> Inl (UnknownSeverity s)
                | Some sev \<Rightarrow> read_lint_table (m(kind \<mapsto> sev)) entries)))"

definition load_from_project :: "lint_config \<Rightarrow> policy_error + lint_policy" where
  "load_from_project config =
     (case config of
        NoLintTable \<Rightarrow> Inr empty_policy
      | LintMalformed warning \<Rightarrow> Inr (empty_policy\<lparr>policy_warnings := [warning]\<rparr>)
      | LintTable entries \<Rightarrow>
          res_bind (read_lint_table Map.empty entries) (\<lambda>m. Inr \<lparr>overrides = m, policy_warnings = []\<rparr>))"

fun split_once :: "ustr \<Rightarrow> ustr \<Rightarrow> (ustr \<times> ustr) option" where
  "split_once sep s =
     (if starts_with s sep then Some ([], drop (length sep) s)
      else case s of [] \<Rightarrow> None | c # s' \<Rightarrow> map_option (apfst (Cons c)) (split_once sep s'))"

declare split_once.simps [simp del]

fun apply_cli_overrides :: "lint_policy \<Rightarrow> ustr list \<Rightarrow> policy_error + lint_policy" where
  "apply_cli_overrides policy [] = Inr policy"
| "apply_cli_overrides policy (raw # args) =
     (case split_once (lit ''='') raw of
        None \<Rightarrow> Inl (NotNameSeverity raw)
      | Some (name, sev_str) \<Rightarrow>
          (case canonical_kind name of
             None \<Rightarrow> Inl (UnknownLint name)
           | Some kind \<Rightarrow>
               (case parse_severity sev_str of
                  None \<Rightarrow> Inl (UnknownSeverity sev_str)
                | Some sev \<Rightarrow> apply_cli_overrides (policy\<lparr>overrides := (overrides policy)(kind \<mapsto> sev)\<rparr>) args)))"

definition effective :: "lint_policy \<Rightarrow> lint_finding \<Rightarrow> lint_severity" where
  "effective policy finding = (case overrides policy (kind_label finding) of Some s \<Rightarrow> s | None \<Rightarrow> severity finding)"

definition effective_for_default :: "lint_policy \<Rightarrow> ustr \<Rightarrow> lint_severity \<Rightarrow> lint_severity" where
  "effective_for_default policy kind dflt = (case overrides policy kind of Some s \<Rightarrow> s | None \<Rightarrow> dflt)"

definition default_severity_table :: "(ustr \<times> lint_severity) list" where
  "default_severity_table =
     [(lit ''weld-friction'', Warn), (lit ''bare-tilde-ambiguity'', Severe), (lit ''collision'', Severe),
      (lit ''transitive-imports'', Severe), (lit ''internal-dupes'', Severe), (lit ''unresolved-cause-reference'', Severe)]"

definition resolved_policy_table :: "lint_policy \<Rightarrow> (ustr \<times> lint_severity \<times> lint_severity) list option" where
  "resolved_policy_table policy =
     those (map (\<lambda>kind.
       case map_of default_severity_table kind of
         None \<Rightarrow> None
       | Some dflt \<Rightarrow> Some (kind, dflt, effective_for_default policy kind dflt)) (sort KIND_ORDER))"

definition severity_count :: "lint_policy \<Rightarrow> lint_severity \<Rightarrow> lint_finding list \<Rightarrow> nat" where
  "severity_count policy sev findings = length (filter (\<lambda>f. effective policy f = sev) findings)"


subsection \<open>Names in the source\<close>

definition ascii_alnum :: "nat \<Rightarrow> bool" where
  "ascii_alnum c \<longleftrightarrow> 48 \<le> c \<and> c \<le> 57 \<or> 65 \<le> c \<and> c \<le> 90 \<or> 97 \<le> c \<and> c \<le> 122"

definition ascii_alpha :: "nat \<Rightarrow> bool" where
  "ascii_alpha c \<longleftrightarrow> 65 \<le> c \<and> c \<le> 90 \<or> 97 \<le> c \<and> c \<le> 122"

definition name_prefix :: "ustr \<Rightarrow> ustr" where
  "name_prefix s = takeWhile (\<lambda>c. ascii_alnum c \<or> c = 45) s"

definition text_after :: "ustr \<Rightarrow> ustr \<Rightarrow> ustr option" where
  "text_after p s = map_option snd (split_once p s)"

definition text_before :: "ustr \<Rightarrow> ustr \<Rightarrow> ustr option" where
  "text_before p s = map_option fst (split_once p s)"

fun position :: "('a \<Rightarrow> bool) \<Rightarrow> 'a list \<Rightarrow> nat option" where
  "position P [] = None"
| "position P (x # xs) = (if P x then Some 0 else map_option Suc (position P xs))"

text \<open>Whether a trimmed line opens (\<open>Some True\<close>) or closes (\<open>Some False\<close>) a region that the composer wrote.\<close>

definition banner_edge :: "ustr \<Rightarrow> bool option" where
  "banner_edge trimmed =
     (if starts_with trimmed (lit ''::'') \<and> contains trimmed (lit ''graft-inject:'') then
        if contains trimmed (lit '':begin '') \<or> ends_with trimmed (lit '':begin'') then Some True
        else if ends_with trimmed (lit '':end'') then Some False else None
      else None)"

definition arm_tag :: "ustr \<Rightarrow> ustr option" where
  "arm_tag line =
     (case strip_prefix (lit ''%'') (trim line) of
        None \<Rightarrow> None
      | Some rest \<Rightarrow>
          let tag = name_prefix rest
          in if tag \<noteq> [] \<and> \<not> contains line (lit ''['') \<and> \<not> contains line (lit ''('') then Some tag else None)"

definition extract_graft_cause_tags :: "graft \<Rightarrow> ustr list" where
  "extract_graft_cause_tags g =
     concat (map (\<lambda>m. case block m g of None \<Rightarrow> [] | Some body \<Rightarrow> List.map_filter arm_tag (str_lines body))
       [Poke, PokePrelude, PokePostlude])"

definition field_name :: "ustr \<Rightarrow> ustr option" where
  "field_name trimmed =
     (case text_before (lit ''='') trimmed of
        None \<Rightarrow> None
      | Some before \<Rightarrow> let name = name_prefix before in if name \<noteq> [] then Some name else None)"

definition extract_graft_state_fields :: "graft \<Rightarrow> ustr list" where
  "extract_graft_state_fields g =
     (case block State g of
        None \<Rightarrow> []
      | Some body \<Rightarrow>
          List.map_filter (\<lambda>line.
            let trimmed = trim line
            in if trimmed = [] \<or> starts_with trimmed (lit ''::'') \<or> starts_with trimmed (lit ''$:'') \<or> trimmed = lit ''==''
               then None else field_name trimmed) (str_lines body))"

definition bracket_tag :: "ustr \<Rightarrow> ustr option" where
  "bracket_tag s =
     (case strip_prefix (lit ''[%'') (trim_start s) of
        None \<Rightarrow> None
      | Some rest \<Rightarrow> let tag = name_prefix rest in if tag = [] then None else Some tag)"

definition push_bracket_tag :: "ustr \<Rightarrow> ustr list \<Rightarrow> ustr list" where
  "push_bracket_tag s tags = (case bracket_tag s of None \<Rightarrow> tags | Some tag \<Rightarrow> tags @ [tag])"

definition opens :: "ustr list \<Rightarrow> ustr \<Rightarrow> bool" where
  "opens names line \<longleftrightarrow> (let t = trim line in starts_with t (lit ''+$'') \<and> list_ex (contains t) names)"

text \<open>
  The walk over a declaration: until \<open>opener\<close> is met nothing is read, then lines outside the composer's regions, up to
  \<open>closer\<close>.
\<close>

fun cause_walk :: "bool \<Rightarrow> bool \<Rightarrow> ustr list \<Rightarrow> ustr list \<Rightarrow> ustr list" where
  "cause_walk started in_banner tags [] = tags"
| "cause_walk started in_banner tags (line # rest) =
     (let trimmed = trim line
      in if \<not> started then
           (case text_after (lit ''$%'') trimmed of
              Some after \<Rightarrow> cause_walk True in_banner (push_bracket_tag after tags) rest
            | None \<Rightarrow> cause_walk False in_banner tags rest)
         else if starts_with trimmed (lit ''::  nockup:cause'') \<or> trimmed = lit ''=='' then tags
         else
           (case banner_edge trimmed of
              Some b \<Rightarrow> cause_walk True b tags rest
            | None \<Rightarrow>
                if in_banner then cause_walk True True tags rest
                else cause_walk True False (push_bracket_tag trimmed tags) rest))"

definition extract_domain_cause_tags :: "ustr list \<Rightarrow> ustr list" where
  "extract_domain_cause_tags lines =
     (case position (opens [lit ''cause'']) lines of
        None \<Rightarrow> []
      | Some open_idx \<Rightarrow> cause_walk False False [] (drop open_idx lines))"

fun state_walk :: "bool \<Rightarrow> bool \<Rightarrow> ustr list \<Rightarrow> ustr list" where
  "state_walk started in_banner [] = []"
| "state_walk started in_banner (line # rest) =
     (let trimmed = trim line
      in if \<not> started then state_walk (contains trimmed (lit ''$:'')) in_banner rest
         else if starts_with trimmed (lit ''::  nockup:state'') \<or> trimmed = lit ''=='' then []
         else
           (case banner_edge trimmed of
              Some b \<Rightarrow> state_walk True b rest
            | None \<Rightarrow>
                if in_banner \<or> starts_with trimmed (lit ''::'') \<or> trimmed = [] then state_walk True in_banner rest
                else case field_name trimmed of
                       Some name \<Rightarrow> name # state_walk True False rest
                     | None \<Rightarrow> state_walk True False rest))"

definition extract_domain_state_fields :: "ustr list \<Rightarrow> ustr list" where
  "extract_domain_state_fields lines =
     (case position (opens [lit ''state'', lit ''versioned-state'']) lines of
        None \<Rightarrow> []
      | Some open_idx \<Rightarrow> state_walk False False (drop open_idx lines))"

datatype cause_union_member = Literal ustr nat | Reference ustr nat

definition push_cause_member :: "ustr \<Rightarrow> nat \<Rightarrow> cause_union_member list" where
  "push_cause_member s line =
     (let t = trim s
      in if t = [] then []
         else case bracket_tag t of
                Some tag \<Rightarrow> [Literal tag line]
              | None \<Rightarrow> let name = name_prefix t in if name \<noteq> [] then [Reference name line] else [])"

fun union_walk :: "bool \<Rightarrow> nat \<Rightarrow> ustr list \<Rightarrow> cause_union_member list" where
  "union_walk started i [] = []"
| "union_walk started i (line # rest) =
     (let trimmed = trim line
      in if \<not> started then
           (case text_after (lit ''$%'') trimmed of
              Some after \<Rightarrow> push_cause_member after (i + 1) @ union_walk True (i + 1) rest
            | None \<Rightarrow> union_walk False (i + 1) rest)
         else if trimmed = lit ''=='' then []
         else if starts_with trimmed (lit ''::'') then union_walk True (i + 1) rest
         else push_cause_member trimmed (i + 1) @ union_walk True (i + 1) rest)"

definition cause_alias :: "ustr \<Rightarrow> ustr option" where
  "cause_alias cause_line =
     (case drop 1 (dropWhile (\<lambda>t. t \<noteq> lit ''cause'') (words_of cause_line)) of
        [] \<Rightarrow> None
      | first # _ \<Rightarrow>
          if \<not> starts_with first (lit ''$%'') \<and> \<not> starts_with first (lit ''[%'') \<and> first \<noteq> [] then
            let name = name_prefix first in if name \<noteq> [] then Some name else None
          else None)"

definition extract_cause_union_members :: "ustr list \<Rightarrow> cause_union_member list" where
  "extract_cause_union_members lines =
     (case position (opens [lit ''cause'']) lines of
        None \<Rightarrow> []
      | Some open_idx \<Rightarrow>
          (case cause_alias (trim (lines ! open_idx)) of
             Some name \<Rightarrow> [Reference name (open_idx + 1)]
           | None \<Rightarrow> union_walk False open_idx (drop open_idx lines)))"


subsection \<open>The passes\<close>

text \<open>The narrow types searched for; \<open>ord\<close> is the order in which the set of them is iterated.\<close>

definition effect_variants :: "ustr list \<Rightarrow> ustr list" where
  "effect_variants variants =
     remdups (filter (\<lambda>v. ends_with v (lit ''-effect'') \<and> v \<noteq> lit ''domain-effect'') variants)"

definition narrow_binding :: "ustr \<Rightarrow> ustr" where
  "narrow_binding variant = lit ''(list '' @ variant @ lit '')''"

fun weld_walk :: "ustr list \<Rightarrow> bool \<Rightarrow> nat \<Rightarrow> ustr list \<Rightarrow> lint_finding list" where
  "weld_walk variants in_banner i [] = []"
| "weld_walk variants in_banner i (line # rest) =
     (case banner_edge (trim line) of
        Some b \<Rightarrow> weld_walk variants b (i + 1) rest
      | None \<Rightarrow>
          if in_banner then weld_walk variants True (i + 1) rest
          else
            (case List.find (\<lambda>v. contains line (narrow_binding v)) variants of
               Some v \<Rightarrow> WeldFriction (i + 1) (trim line) v # weld_walk variants False (i + 1) rest
             | None \<Rightarrow> weld_walk variants False (i + 1) rest))"

definition lint_weld_friction :: "(ustr list \<Rightarrow> ustr list) \<Rightarrow> ustr list \<Rightarrow> ustr list \<Rightarrow> lint_finding list" where
  "lint_weld_friction ord lines variants =
     (let vs = effect_variants variants in if vs = [] then [] else weld_walk (ord vs) False 0 lines)"

definition arm_header :: "ustr \<Rightarrow> ustr option" where
  "arm_header trimmed =
     (case strip_prefix (lit ''%'') trimmed of
        None \<Rightarrow> None
      | Some rest \<Rightarrow>
          (case rest of
             [] \<Rightarrow> None
           | c # _ \<Rightarrow> if ascii_alpha c \<or> c = 45 then
                         let tag = name_prefix rest in if tag \<noteq> [] then Some tag else None
                       else None))"

fun tilde_walk :: "ustr option \<Rightarrow> bool \<Rightarrow> nat \<Rightarrow> ustr list \<Rightarrow> lint_finding list" where
  "tilde_walk current_arm in_banner i [] = []"
| "tilde_walk current_arm in_banner i (line # rest) =
     (let trimmed = trim line
      in if trimmed = lit ''=='' then []
         else
           (case banner_edge trimmed of
              Some b \<Rightarrow> tilde_walk current_arm b (i + 1) rest
            | None \<Rightarrow>
                if in_banner \<or> starts_with trimmed (lit ''::'') then tilde_walk current_arm in_banner (i + 1) rest
                else
                  let arm = (case arm_header trimmed of Some tag \<Rightarrow> Some tag | None \<Rightarrow> current_arm)
                  in if trimmed = lit ''~'' then
                       (case arm of
                          Some tag \<Rightarrow> BareTildeAmbiguity (i + 1) tag # tilde_walk None False (i + 1) rest
                        | None \<Rightarrow> tilde_walk None False (i + 1) rest)
                     else tilde_walk arm False (i + 1) rest))"

definition lint_bare_tilde_ambiguity :: "ustr list \<Rightarrow> lint_finding list" where
  "lint_bare_tilde_ambiguity lines =
     (case position (\<lambda>l. let t = trim l in starts_with t (lit ''?-'') \<and> contains t (lit ''-.u.act'')) lines of
        None \<Rightarrow> []
      | Some switch_idx \<Rightarrow> tilde_walk None False (switch_idx + 1) (drop (switch_idx + 1) lines))"

definition grouped :: "(ustr \<times> 'a) list \<Rightarrow> (ustr \<times> 'a list) list" where
  "grouped kvs = map (\<lambda>k. (k, map snd (filter (\<lambda>kv. fst kv = k) kvs))) (sort (remdups (map fst kvs)))"

definition shared :: "(ustr \<times> 'a) list \<Rightarrow> (ustr \<times> 'a list) list" where
  "shared kvs = filter (\<lambda>(k, vs). 1 < length vs) (grouped kvs)"

definition lint_collision_check :: "graft list \<Rightarrow> ustr list \<Rightarrow> lint_finding list" where
  "lint_collision_check grafts domain_lines =
     (let cause_owners = concat (map (\<lambda>g. map (\<lambda>t. (t, g_name g)) (extract_graft_cause_tags g)) grafts) @
            map (\<lambda>t. (t, lit ''(domain)'')) (extract_domain_cause_tags domain_lines);
          state_owners = concat (map (\<lambda>g. map (\<lambda>f. (f, g_name g)) (extract_graft_state_fields g)) grafts) @
            map (\<lambda>f. (f, lit ''(domain)'')) (extract_domain_state_fields domain_lines)
      in map (\<lambda>(tag, owners). Collision CauseTag tag owners) (shared cause_owners) @
         map (\<lambda>(field, owners). Collision StateField field owners) (shared state_owners))"

definition extract_all_cause_variants :: "ustr list \<Rightarrow> (ustr \<times> nat) list" where
  "extract_all_cause_variants lines =
     List.map_filter (\<lambda>m. case m of Literal tag line \<Rightarrow> Some (tag, line) | Reference _ _ \<Rightarrow> None)
       (extract_cause_union_members lines)"

fun all_fields_walk :: "bool \<Rightarrow> nat \<Rightarrow> ustr list \<Rightarrow> (ustr \<times> nat) list" where
  "all_fields_walk started i [] = []"
| "all_fields_walk started i (line # rest) =
     (let trimmed = trim line
      in if \<not> started then all_fields_walk (contains trimmed (lit ''$:'')) (i + 1) rest
         else if trimmed = lit ''=='' then []
         else if starts_with trimmed (lit ''::'') \<or> trimmed = [] then all_fields_walk True (i + 1) rest
         else case field_name trimmed of
                Some name \<Rightarrow> (name, i + 1) # all_fields_walk True (i + 1) rest
              | None \<Rightarrow> all_fields_walk True (i + 1) rest)"

definition extract_all_state_fields :: "ustr list \<Rightarrow> (ustr \<times> nat) list" where
  "extract_all_state_fields lines =
     (case position (opens [lit ''state'', lit ''versioned-state'']) lines of
        None \<Rightarrow> []
      | Some open_idx \<Rightarrow> all_fields_walk False open_idx (drop open_idx lines))"

definition lint_internal_dupes :: "ustr list \<Rightarrow> lint_finding list" where
  "lint_internal_dupes lines =
     map (\<lambda>(tag, line_nums). InternalDupe CauseTag tag line_nums) (shared (extract_all_cause_variants lines)) @
     map (\<lambda>(name, line_nums). InternalDupe StateField name line_nums) (shared (extract_all_state_fields lines))"

text \<open>The line numbers inside a region, its banners included.\<close>

fun banner_walk :: "bool \<Rightarrow> nat \<Rightarrow> ustr list \<Rightarrow> nat list" where
  "banner_walk in_banner i [] = []"
| "banner_walk in_banner i (line # rest) =
     (case banner_edge (trim line) of
        Some b \<Rightarrow> (i + 1) # banner_walk b (i + 1) rest
      | None \<Rightarrow> if in_banner then (i + 1) # banner_walk True (i + 1) rest else banner_walk False (i + 1) rest)"

definition banner_line_set :: "ustr list \<Rightarrow> nat set" where
  "banner_line_set lines = set (banner_walk False 0 lines)"

definition lint_unresolved_cause_references :: "graft list \<Rightarrow> ustr list \<Rightarrow> lint_finding list" where
  "lint_unresolved_cause_references grafts lines =
     (let declared = List.map_filter (\<lambda>g. Option.bind (g_types g) cause_type) grafts
      in List.map_filter (\<lambda>m.
           case m of
             Reference name line \<Rightarrow>
               if line \<in> banner_line_set lines \<or> name \<in> set declared then None
               else Some (UnresolvedCauseReference line name)
           | Literal _ _ \<Rightarrow> None) (extract_cause_union_members lines))"

text \<open>The tags of a kernel, for the generated slice (\<^verbatim>\<open>codegen/kernel_cause_tags.rs\<close>), sorted and without duplicates.\<close>

definition member_tags :: "graft list \<Rightarrow> cause_union_member \<Rightarrow> ustr list" where
  "member_tags grafts m =
     (case m of
        Literal tag line \<Rightarrow> if tag \<noteq> lit ''cause'' then [tag] else []
      | Reference name line \<Rightarrow>
          (case List.find (\<lambda>g. Option.bind (g_types g) cause_type = Some name) grafts of
             None \<Rightarrow> []
           | Some g \<Rightarrow> extract_graft_cause_tags g))"

definition kernel_cause_tags :: "graft list \<Rightarrow> ustr list \<Rightarrow> ustr list" where
  "kernel_cause_tags grafts lines = sort (remdups (concat (map (member_tags grafts) (extract_cause_union_members lines))))"


subsection \<open>What the policy and the collision check decide\<close>

lemma canonical_kind_eq: "canonical_kind name = Some kind \<Longrightarrow> kind = name"
  by (auto simp: canonical_kind_def find_Some_iff)

text \<open>The last entry of a table for a kind, as a severity.\<close>

definition last_entry :: "(ustr \<times> ustr option) list \<Rightarrow> ustr \<Rightarrow> lint_severity option" where
  "last_entry entries kind = Option.bind (Option.bind (map_of (rev entries) kind) id) parse_severity"

lemma read_lint_table_eq:
  "read_lint_table m entries = Inr m' \<Longrightarrow>
     m' kind = (case last_entry entries kind of Some s \<Rightarrow> Some s | None \<Rightarrow> m kind)"
proof (induction m entries rule: read_lint_table.induct)
  case (2 m key val entries)
  from 2(2) obtain k s sev where *: "canonical_kind key = Some k" "val = Some s" "parse_severity s = Some sev"
    "read_lint_table (m(k \<mapsto> sev)) entries = Inr m'"
    by (auto split: option.splits)
  then have k: "k = key" by (blast dest: canonical_kind_eq)
  have IH: "m' kind = (case last_entry entries kind of Some s \<Rightarrow> Some s | None \<Rightarrow> (m(k \<mapsto> sev)) kind)"
    using 2(1) [OF *(1,2,3,4)] .
  show ?case
  proof (cases "map_of (rev entries) kind")
    case None
    then show ?thesis using IH * k by (auto simp: last_entry_def map_add_def)
  next
    case (Some v)
    obtain t where "v = Some t" "parse_severity t \<noteq> None"
    proof -
      have "\<forall>(n, v)\<in>set entries. \<exists>t. v = Some t \<and> parse_severity t \<noteq> None"
        using *(4) by (induction "m(k \<mapsto> sev)" entries arbitrary: m k sev rule: read_lint_table.induct)
          (auto split: option.splits)
      moreover have "(kind, v) \<in> set entries" using Some by (metis map_of_SomeD set_rev)
      ultimately show ?thesis using that by blast
    qed
    then show ?thesis using IH Some by (auto simp: last_entry_def map_add_def)
  qed
qed (simp add: last_entry_def)


definition override_entries :: "ustr list \<Rightarrow> (ustr \<times> ustr option) list" where
  "override_entries args = List.map_filter (\<lambda>raw. map_option (apsnd Some) (split_once (lit ''='') raw)) args"

lemma override_entries_Cons:
  "split_once (lit ''='') raw = Some (name, s) \<Longrightarrow> override_entries (raw # args) = (name, Some s) # override_entries args"
  by (simp add: override_entries_def List.map_filter_simps del: lit_Cons)

lemma apply_cli_step:
  assumes "apply_cli_overrides policy (raw # args) = Inr policy'"
  obtains name s sev where "split_once (lit ''='') raw = Some (name, s)" "canonical_kind name = Some name"
    "parse_severity s = Some sev"
    "apply_cli_overrides (policy\<lparr>overrides := (overrides policy)(name \<mapsto> sev)\<rparr>) args = Inr policy'"
proof -
  from assms obtain name s k sev where *: "split_once (lit ''='') raw = Some (name, s)" "canonical_kind name = Some k"
    "parse_severity s = Some sev"
    "apply_cli_overrides (policy\<lparr>overrides := (overrides policy)(k \<mapsto> sev)\<rparr>) args = Inr policy'"
    by (auto simp del: lit_Cons split: option.splits prod.splits)
  have "k = name" using *(2) by (rule canonical_kind_eq)
  with * that show ?thesis by blast
qed

lemma override_entries_parse:
  "apply_cli_overrides policy args = Inr policy' \<Longrightarrow> (n, v) \<in> set (override_entries args) \<Longrightarrow>
     \<exists>t. v = Some t \<and> parse_severity t \<noteq> None"
proof (induction args arbitrary: policy)
  case Nil then show ?case by (simp add: override_entries_def List.map_filter_simps)
next
  case (Cons raw args)
  from Cons.prems(1) show ?case
  proof (rule apply_cli_step)
    fix name s sev
    assume "split_once (lit ''='') raw = Some (name, s)" "parse_severity s = Some sev"
      "apply_cli_overrides (policy\<lparr>overrides := (overrides policy)(name \<mapsto> sev)\<rparr>) args = Inr policy'"
    with Cons.IH Cons.prems(2) show ?thesis by (auto simp: override_entries_Cons simp del: lit_Cons)
  qed
qed

lemma apply_cli_overrides_eq:
  "apply_cli_overrides policy args = Inr policy' \<Longrightarrow>
     overrides policy' kind = (case last_entry (override_entries args) kind of Some s \<Rightarrow> Some s | None \<Rightarrow> overrides policy kind)"
proof (induction args arbitrary: policy)
  case Nil then show ?case by (simp add: override_entries_def last_entry_def List.map_filter_simps)
next
  case (Cons raw args)
  from Cons.prems show ?case
  proof (rule apply_cli_step)
    fix name s sev
    let ?policy = "policy\<lparr>overrides := (overrides policy)(name \<mapsto> sev)\<rparr>"
    assume raw: "split_once (lit ''='') raw = Some (name, s)" and sev: "parse_severity s = Some sev"
      and rest: "apply_cli_overrides ?policy args = Inr policy'"
    have IH: "overrides policy' kind =
        (case last_entry (override_entries args) kind of Some s \<Rightarrow> Some s | None \<Rightarrow> overrides ?policy kind)"
      using Cons.IH [OF rest] .
    note cons = override_entries_Cons [OF raw, of args]
    show ?thesis
    proof (cases "map_of (rev (override_entries args)) kind")
      case None
      then show ?thesis using IH sev by (simp add: cons last_entry_def map_add_def)
    next
      case (Some v)
      then have "(kind, v) \<in> set (override_entries args)" by (metis map_of_SomeD set_rev)
      then obtain t where "v = Some t" "parse_severity t \<noteq> None" using override_entries_parse [OF rest] by blast
      then show ?thesis using IH Some by (auto simp: cons last_entry_def map_add_def)
    qed
  qed
qed

text \<open>The severity of a finding is decided in the documented order: the last override of the command line for its kind, else
the last entry of the table of the project, else the severity of the kind.\<close>

theorem lint_policy_precedence:
  assumes "load_from_project (LintTable entries) = Inr policy" "apply_cli_overrides policy args = Inr policy'"
  shows "effective policy' f =
    (case last_entry (override_entries args) (kind_label f) of Some s \<Rightarrow> s
     | None \<Rightarrow> (case last_entry entries (kind_label f) of Some s \<Rightarrow> s | None \<Rightarrow> severity f))"
proof -
  have "overrides policy (kind_label f) = last_entry entries (kind_label f)"
    using assms(1) read_lint_table_eq [of Map.empty entries "overrides policy" "kind_label f"]
    by (auto simp: load_from_project_def split: option.splits)
  then show ?thesis
    using apply_cli_overrides_eq [OF assms(2), of "kind_label f"] by (auto simp: effective_def split: option.splits)
qed

lemma lint_policy_precedence_witness:
  "\<exists>policy policy'. load_from_project (LintTable [(lit ''collision'', Some (lit ''note''))]) = Inr policy \<and>
     apply_cli_overrides policy [lit ''collision=warn''] = Inr policy' \<and> effective policy' (Collision CauseTag [] []) = Warn"
proof -
  have sp: "split_once (lit ''='') (lit ''collision=warn'') = Some (lit ''collision'', lit ''warn'')"
    by (simp add: split_once.simps starts_with_def)
  have k: "canonical_kind (lit ''collision'') = Some (lit ''collision'')"
    by (simp add: canonical_kind_def KIND_ORDER_def)
  have v: "parse_severity (lit ''note'') = Some Note" "parse_severity (lit ''warn'') = Some Warn"
    by (simp_all add: parse_severity_def)
  let ?p = "\<lparr>overrides = Map.empty(lit ''collision'' \<mapsto> Note), policy_warnings = []\<rparr>"
  have 1: "load_from_project (LintTable [(lit ''collision'', Some (lit ''note''))]) = Inr ?p"
    by (simp add: load_from_project_def k v del: lit_Cons)
  obtain q where 2: "apply_cli_overrides ?p [lit ''collision=warn''] = Inr q"
    by (simp add: sp k v del: lit_Cons)
  have "override_entries [lit ''collision=warn''] = [(lit ''collision'', Some (lit ''warn''))]"
    unfolding override_entries_Cons [OF sp] by (simp add: override_entries_def List.map_filter_simps)
  then have "last_entry (override_entries [lit ''collision=warn'']) (kind_label (Collision CauseTag [] [])) = Some Warn"
    by (simp add: last_entry_def v del: lit_Cons)
  with lint_policy_precedence [OF 1 2, of "Collision CauseTag [] []"] 1 2 show ?thesis by auto
qed

lemma length_owners: "length (map snd (filter (\<lambda>kv. fst kv = k) kvs)) = count_list (map fst kvs) k"
  by (induction kvs) auto

lemma shared_iff: "(\<exists>vs. (k, vs) \<in> set (shared kvs)) \<longleftrightarrow> 2 \<le> count_list (map fst kvs) k"
proof -
  have "(\<exists>vs. (k, vs) \<in> set (shared kvs)) \<longleftrightarrow>
      k \<in> set (map fst kvs) \<and> 1 < length (map snd (filter (\<lambda>kv. fst kv = k) kvs))"
    by (force simp: shared_def grouped_def image_iff)
  also have "\<dots> \<longleftrightarrow> 2 \<le> count_list (map fst kvs) k"
    unfolding length_owners using count_notin [of k "map fst kvs"] by (cases "k \<in> set (map fst kvs)") auto
  finally show ?thesis .
qed

lemma count_list_concat: "count_list (concat xss) k = (\<Sum>xs\<leftarrow>xss. count_list xs k)"
  by (induction xss) auto

lemma map_fst_owned: "map fst (concat (map (\<lambda>g. map (\<lambda>t. (t, f g)) (h g)) gs) @ map (\<lambda>t. (t, d)) ts) =
    concat (map h gs) @ ts"
  by (simp add: map_concat comp_def)

text \<open>The collision check misses nothing and invents nothing: a cause tag, or a state field, is reported exactly when the
active grafts and the domain code together declare it at least twice.\<close>

theorem collision_check_exact:
  "((\<exists>owners. Collision CauseTag n owners \<in> set (lint_collision_check grafts lines)) \<longleftrightarrow>
      2 \<le> (\<Sum>g\<leftarrow>grafts. count_list (extract_graft_cause_tags g) n) + count_list (extract_domain_cause_tags lines) n) \<and>
   ((\<exists>owners. Collision StateField n owners \<in> set (lint_collision_check grafts lines)) \<longleftrightarrow>
      2 \<le> (\<Sum>g\<leftarrow>grafts. count_list (extract_graft_state_fields g) n) + count_list (extract_domain_state_fields lines) n)"
proof -
  have mem: "(\<exists>owners. c n owners \<in> set (map (\<lambda>(t, vs). c t vs) (shared kvs))) \<longleftrightarrow> (\<exists>vs. (n, vs) \<in> set (shared kvs))"
    if "\<And>a b x y. c a b = c x y \<longleftrightarrow> a = x \<and> b = y" for c :: "ustr \<Rightarrow> ustr list \<Rightarrow> lint_finding" and kvs
    using that by (auto simp: image_iff) force
  have "Collision CauseTag n owners \<notin> set (map (\<lambda>(t, vs). Collision StateField t vs) kvs)"
    "Collision StateField n owners \<notin> set (map (\<lambda>(t, vs). Collision CauseTag t vs) kvs)" for owners kvs
    by auto
  moreover have "2 \<le> count_list (map fst (concat (map (\<lambda>g. map (\<lambda>t. (t, g_name g)) (h g)) grafts) @ map (\<lambda>t. (t, d)) ts)) n \<longleftrightarrow>
      2 \<le> (\<Sum>g\<leftarrow>grafts. count_list (h g) n) + count_list ts n" for h :: "graft \<Rightarrow> ustr list" and d :: ustr and ts
    unfolding map_fst_owned count_list_append count_list_concat by (simp add: comp_def)
  moreover have "(\<exists>owners. Collision CauseTag n owners \<in> set (map (\<lambda>(t, vs). Collision CauseTag t vs) (shared kvs))) \<longleftrightarrow>
      2 \<le> count_list (map fst kvs) n" for kvs
    using mem [of "Collision CauseTag"] by (simp only: shared_iff lint_finding.inject simp_thms)
  moreover have "(\<exists>owners. Collision StateField n owners \<in> set (map (\<lambda>(t, vs). Collision StateField t vs) (shared kvs))) \<longleftrightarrow>
      2 \<le> count_list (map fst kvs) n" for kvs
    using mem [of "Collision StateField"] by (simp only: shared_iff lint_finding.inject simp_thms)
  ultimately show ?thesis
    unfolding lint_collision_check_def Let_def set_append Un_iff by (simp only: simp_thms)
qed

end
