(* ===== verification/Composer.thy ===== *)
theory Composer
  imports Lints
begin

text \<open>
  The composer (\<^verbatim>\<open>marker.rs\<close>, \<^verbatim>\<open>inject.rs\<close>, \<^verbatim>\<open>codegen/mod.rs\<close>, \<^verbatim>\<open>migration.rs\<close>): it splices the blocks of the active
  grafts at the markers of a kernel, each between a begin and an end banner, prunes the blocks of grafts that are not
  active, and generates the effect union and the defaults of \<open>++load\<close>.  A kernel is the list of its lines; a result that
  may panic is an \<open>outcome\<close>; what is printed on the way is left out.
\<close>

subsection \<open>Markers and banners\<close>

definition MARKER_PREFIX :: ustr where "MARKER_PREFIX = lit ''nockup:''"

definition BANNER_PREFIX :: ustr where "BANNER_PREFIX = lit ''::  graft-inject:''"

definition codegen_begin_banner :: "marker \<Rightarrow> ustr" where
  "codegen_begin_banner m = BANNER_PREFIX @ label m @ lit '':begin''"

definition codegen_end_banner :: "marker \<Rightarrow> ustr" where
  "codegen_end_banner m = BANNER_PREFIX @ label m @ lit '':end''"

definition begin_banner :: "ustr \<Rightarrow> marker \<Rightarrow> ustr" where
  "begin_banner name m = BANNER_PREFIX @ name @ lit '':'' @ label m @ lit '':begin''"

definition begin_banner_with_sha :: "ustr \<Rightarrow> marker \<Rightarrow> ustr \<Rightarrow> ustr" where
  "begin_banner_with_sha name m sha = BANNER_PREFIX @ name @ lit '':'' @ label m @ lit '':begin sha256:'' @ sha"

definition end_banner :: "ustr \<Rightarrow> marker \<Rightarrow> ustr" where
  "end_banner name m = BANNER_PREFIX @ name @ lit '':'' @ label m @ lit '':end''"

definition is_marker_line :: "marker \<Rightarrow> ustr \<Rightarrow> bool" where
  "is_marker_line m line =
     (case strip_prefix (lit ''::'') (trim_start line) of
        None \<Rightarrow> False
      | Some after_colons \<Rightarrow>
          let after_spaces = dropWhile (\<lambda>c. c = 32) after_colons
          in length after_spaces \<noteq> length after_colons \<and>
             (case strip_prefix (MARKER_PREFIX @ label m) after_spaces of
                None \<Rightarrow> False
              | Some tail \<Rightarrow> list_all white_space tail))"

definition find_marker :: "ustr list \<Rightarrow> marker \<Rightarrow> nat option" where
  "find_marker lines m = position (is_marker_line m) lines"

definition leading_whitespace :: "ustr \<Rightarrow> ustr" where
  "leading_whitespace s = takeWhile white_space s"

definition find_banner_pair :: "ustr list \<Rightarrow> ustr \<Rightarrow> marker \<Rightarrow> (nat \<times> nat) option" where
  "find_banner_pair lines name m =
     (case position (\<lambda>l. starts_with (trim l) (begin_banner name m)) lines of
        None \<Rightarrow> None
      | Some b \<Rightarrow>
          (case position (\<lambda>l. trim l = end_banner name m) (drop (b + 1) lines) of
             None \<Rightarrow> None
           | Some k \<Rightarrow> Some (b, b + 1 + k)))"

definition banner_sha256 :: "ustr \<Rightarrow> ustr option" where
  "banner_sha256 line =
     (let sep = lit '' sha256:''
      in case split_once sep line of
           None \<Rightarrow> None
         | Some (_, tail) \<Rightarrow>
             let part = (case split_once sep tail of None \<Rightarrow> tail | Some (p, _) \<Rightarrow> p)
             in case words_of part of [] \<Rightarrow> None | w # _ \<Rightarrow> if w = [] then None else Some w)"

definition strip_banner_pair :: "ustr list \<Rightarrow> ustr \<Rightarrow> marker \<Rightarrow> ustr list \<times> nat option" where
  "strip_banner_pair lines name m =
     (case find_banner_pair lines name m of
        None \<Rightarrow> (lines, None)
      | Some (b, e) \<Rightarrow> (take b lines @ drop (e + 1) lines, Some b))"


subsection \<open>Blocks\<close>

definition insert_lines :: "nat \<Rightarrow> ustr list \<Rightarrow> ustr list \<Rightarrow> ustr list" where
  "insert_lines i new lines = take i lines @ new @ drop i lines"

definition indent_line :: "ustr \<Rightarrow> ustr \<Rightarrow> ustr" where
  "indent_line indent line = (if line = [] then [] else indent @ line)"

definition expected_block_body :: "graft \<Rightarrow> marker \<Rightarrow> ustr \<Rightarrow> ustr list" where
  "expected_block_body g m indent =
     (case block m g of None \<Rightarrow> [] | Some b \<Rightarrow> map (indent_line indent) (str_lines (trimmed_body b)))"

definition block_lines :: "ustr \<Rightarrow> marker \<Rightarrow> graft \<Rightarrow> ustr list" where
  "block_lines indent m g =
     indent_line indent (begin_banner_with_sha (g_name g) m (sha256_short g)) #
     expected_block_body g m indent @ [indent_line indent (end_banner (g_name g) m)]"

definition emit_block :: "ustr list \<Rightarrow> nat \<Rightarrow> ustr \<Rightarrow> marker \<Rightarrow> graft list \<Rightarrow> ustr list" where
  "emit_block lines marker_idx indent m pending =
     insert_lines (marker_idx + 1) (concat (map (block_lines indent m) pending)) lines"

definition parse_glob_import :: "ustr \<Rightarrow> ustr option" where
  "parse_glob_import line =
     (let trimmed = trim_start line
      in case (case strip_prefix (lit ''/+'') trimmed of
                 Some rest \<Rightarrow> Some rest
               | None \<Rightarrow> strip_prefix (lit ''/-'') trimmed) of
           None \<Rightarrow> None
         | Some rest \<Rightarrow>
             (case strip_prefix (lit ''*'') (trim_start rest) of
                None \<Rightarrow> None
              | Some rest \<Rightarrow>
                  let name = takeWhile (\<lambda>c. \<not> white_space c) rest in if name = [] then None else Some name))"

fun keep_imports :: "ustr set \<Rightarrow> ustr list \<Rightarrow> ustr list \<times> ustr set" where
  "keep_imports imported [] = ([], imported)"
| "keep_imports imported (line # rest) =
     (case parse_glob_import line of
        Some name \<Rightarrow>
          if name \<in> imported then keep_imports imported rest
          else apfst (Cons line) (keep_imports (insert name imported) rest)
      | None \<Rightarrow> apfst (Cons line) (keep_imports imported rest))"

fun imports_lines :: "ustr set \<Rightarrow> graft list \<Rightarrow> ustr list" where
  "imports_lines imported [] = []"
| "imports_lines imported (g # gs) =
     (let (kept, imported') = keep_imports imported (str_lines (trimmed_body (the (block Imports g))))
      in begin_banner_with_sha (g_name g) Imports (sha256_short g) # kept @ [end_banner (g_name g) Imports] @
         imports_lines imported' gs)"

definition emit_imports_block :: "ustr list \<Rightarrow> nat \<Rightarrow> ustr \<Rightarrow> graft list \<Rightarrow> ('e, ustr list) outcome" where
  "emit_imports_block lines marker_idx indent pending =
     (if list_ex (\<lambda>g. block Imports g = None) pending then Panic
      else
        let imported = set (List.map_filter parse_glob_import lines)
        in Ok (insert_lines (marker_idx + 1) (map (indent_line indent) (imports_lines imported pending)) lines))"

definition binding_stub :: "ustr \<Rightarrow> ustr" where
  "binding_stub name = (case strip_suffix (lit ''-graft'') name of Some stub \<Rightarrow> stub | None \<Rightarrow> name)"

definition peek_lines :: "ustr \<Rightarrow> graft \<Rightarrow> ustr list" where
  "peek_lines indent g =
     (let stub = binding_stub (g_name g)
      in [indent @ begin_banner_with_sha (g_name g) Peek (sha256_short g),
          indent @ lit ''=/  '' @ stub @ lit ''-res  '' @ trimmed_body (the (block Peek g)),
          indent @ lit ''?.  =(~ '' @ stub @ lit ''-res)  '' @ stub @ lit ''-res'',
          indent @ end_banner (g_name g) Peek])"

fun last_tilde :: "nat \<Rightarrow> ustr list \<Rightarrow> nat option \<Rightarrow> nat option" where
  "last_tilde i [] found = found"
| "last_tilde i (line # rest) found =
     (let trimmed = trim line
      in if trimmed = lit ''=='' then found
         else last_tilde (i + 1) rest (if trimmed = lit ''~'' then Some i else found))"

definition find_last_bare_tilde :: "ustr list \<Rightarrow> nat \<Rightarrow> nat option" where
  "find_last_bare_tilde lines marker_idx = last_tilde (marker_idx + 1) (drop (marker_idx + 1) lines) None"

definition emit_peek_chain :: "ustr list \<Rightarrow> nat \<Rightarrow> ustr \<Rightarrow> graft list \<Rightarrow> ('e, ustr list) outcome" where
  "emit_peek_chain lines marker_idx indent pending =
     (if list_ex (\<lambda>g. block Peek g = None) pending then Panic
      else
        let chain_lines = concat (map (peek_lines indent) pending)
        in Ok (case find_last_bare_tilde lines marker_idx of
                 Some target \<Rightarrow> insert_lines target chain_lines lines
               | None \<Rightarrow> insert_lines (marker_idx + 1) (chain_lines @ [indent @ lit ''~'']) lines))"

definition strip_grafts :: "marker \<Rightarrow> graft list \<Rightarrow> ustr list \<Rightarrow> ustr list" where
  "strip_grafts m gs lines = fold (\<lambda>g lines. fst (strip_banner_pair lines (g_name g) m)) gs lines"

definition canonicalize_marker_section ::
  "ustr list \<Rightarrow> marker \<Rightarrow> ustr \<Rightarrow> graft list \<Rightarrow> ('e, ustr list) outcome" where
  "canonicalize_marker_section lines m indent gs =
     (if gs = [] then Ok lines
      else
        let lines = strip_grafts m gs lines
        in case find_marker lines m of
             None \<Rightarrow> Panic
           | Some marker_idx \<Rightarrow>
               (case m of
                  Peek \<Rightarrow> emit_peek_chain lines marker_idx indent gs
                | Imports \<Rightarrow> emit_imports_block lines marker_idx indent gs
                | _ \<Rightarrow> Ok (emit_block lines marker_idx indent m gs)))"


subsection \<open>The status of a graft at a marker\<close>

datatype inject_status = UpToDate | Drift ustr | Legacy | NotInjected

definition check_injection :: "ustr list \<Rightarrow> graft \<Rightarrow> marker \<Rightarrow> inject_status" where
  "check_injection lines g m =
     (let prefix = begin_banner (g_name g) m
      in case List.find (\<lambda>l. starts_with (trim l) prefix) lines of
           None \<Rightarrow> NotInjected
         | Some line \<Rightarrow>
             let suffix = drop (length prefix) (trim line)
             in if suffix = [] then Legacy
                else case strip_prefix (lit '' sha256:'') suffix of
                       Some sha \<Rightarrow> if sha = sha256_short g then UpToDate else Drift sha
                     | None \<Rightarrow> Legacy)"

definition orphan_graft_names :: "ustr list \<Rightarrow> ustr set \<Rightarrow> ustr list" where
  "orphan_graft_names lines active =
     sort (remdups (List.map_filter (\<lambda>line.
       case strip_prefix BANNER_PREFIX (trim_start line) of
         None \<Rightarrow> None
       | Some rest \<Rightarrow>
           (case split_once (lit '':'') rest of
              None \<Rightarrow> None
            | Some (segment, _) \<Rightarrow>
                if segment \<in> set (map label all_markers) \<or> segment \<in> active then None else Some segment)) lines))"

record graft_report =
  r_name :: ustr
  applicable :: "marker list"
  injected :: "marker list"
  skipped :: "marker list"
  pruned :: "marker list"


subsection \<open>Generated blocks\<close>

datatype codegen_status = Skipped | Inserted | Replaced | Unchanged

record codegen_report =
  cg_status :: codegen_status
  cg_names :: "ustr list"

datatype compose_error = DuplicateBegin nat | OrphanEnd nat | OrphanBegin

fun pair_walk ::
  "ustr \<Rightarrow> ustr \<Rightarrow> nat option \<Rightarrow> nat \<Rightarrow> ustr list \<Rightarrow> (compose_error, (nat \<times> nat) option) outcome" where
  "pair_walk begin_str end_str b i [] = (if b = None then Ok None else Err OrphanBegin)"
| "pair_walk begin_str end_str b i (line # rest) =
     (let trimmed = trim line
      in if trimmed = begin_str then
           (if b = None then pair_walk begin_str end_str (Some i) (i + 1) rest else Err (DuplicateBegin (i + 1)))
         else if trimmed = end_str then (case b of None \<Rightarrow> Err (OrphanEnd (i + 1)) | Some b \<Rightarrow> Ok (Some (b, i)))
         else pair_walk begin_str end_str b (i + 1) rest)"

definition find_banner_pair_indices ::
  "ustr list \<Rightarrow> ustr \<Rightarrow> ustr \<Rightarrow> nat \<Rightarrow> (compose_error, (nat \<times> nat) option) outcome" where
  "find_banner_pair_indices lines begin_str end_str search_start =
     pair_walk begin_str end_str None search_start (drop search_start lines)"

definition splice :: "nat \<Rightarrow> nat \<Rightarrow> ustr list \<Rightarrow> ustr list \<Rightarrow> ustr list" where
  "splice b e new lines = take b lines @ new @ drop (e + 1) lines"

text \<open>The line a generated block takes the place of: the first line of the window that is neither blank nor a comment.\<close>

fun placeholder :: "(ustr \<Rightarrow> bool) \<Rightarrow> nat \<Rightarrow> ustr list \<Rightarrow> nat option" where
  "placeholder P i [] = None"
| "placeholder P i (line # rest) =
     (let trimmed = trim line
      in if trimmed = [] \<or> starts_with trimmed (lit ''::'') then placeholder P (i + 1) rest
         else if P trimmed then Some i else None)"

definition place_block ::
  "ustr list \<Rightarrow> nat \<Rightarrow> nat \<Rightarrow> (ustr \<Rightarrow> bool) \<Rightarrow> (nat \<times> nat) option \<Rightarrow> ustr list \<Rightarrow> ustr list \<times> codegen_status" where
  "place_block lines idx window P pair new_block =
     (case pair of
        Some (b, e) \<Rightarrow>
          if take (e + 1 - b) (drop b lines) = new_block then (lines, Unchanged)
          else (splice b e new_block lines, Replaced)
      | None \<Rightarrow>
          (case placeholder P (idx + 1) (drop (idx + 1) (take (idx + window) lines)) of
             Some i \<Rightarrow> (splice i i new_block lines, Inserted)
           | None \<Rightarrow> (insert_lines (idx + 1) new_block lines, Inserted)))"

definition is_bare_effect_open_type :: "ustr \<Rightarrow> bool" where
  "is_bare_effect_open_type s \<longleftrightarrow> words_of s = [lit ''+$'', lit ''effect'', lit ''*'']"

definition render_effect_union_block :: "ustr \<Rightarrow> ustr list \<Rightarrow> ustr list" where
  "render_effect_union_block indent variants =
     [indent @ codegen_begin_banner EffectUnion, indent @ lit ''+$  effect'', indent @ lit ''  $%  '' @ hd variants] @
     map (\<lambda>v. indent @ lit ''      '' @ v) (tl variants) @
     [indent @ lit ''  =='', indent @ codegen_end_banner EffectUnion]"

definition union_variants :: "graft list \<Rightarrow> bool \<Rightarrow> ustr list" where
  "union_variants grafts domain =
     (let vs = List.map_filter (\<lambda>g. Option.bind (g_types g) effect_type) grafts @
        (if domain then [lit ''domain-effect''] else [])
      in if vs = [] then [lit ''[%effect-placeholder ~]''] else vs)"

definition emit_effect_union ::
  "ustr list \<Rightarrow> graft list \<Rightarrow> (compose_error, ustr list \<times> codegen_report) outcome" where
  "emit_effect_union lines grafts =
     (case find_marker lines EffectUnion of
        None \<Rightarrow> Ok (lines, \<lparr>cg_status = Skipped, cg_names = []\<rparr>)
      | Some union_idx \<Rightarrow>
          let variants = union_variants grafts (find_marker lines DomainEffect \<noteq> None);
              new_block = render_effect_union_block (leading_whitespace (lines ! union_idx)) variants
          in and_then
               (find_banner_pair_indices lines (codegen_begin_banner EffectUnion) (codegen_end_banner EffectUnion)
                 (union_idx + 1))
               (\<lambda>pair.
                 let (lines', status) = place_block lines union_idx 8 is_bare_effect_open_type pair new_block
                 in Ok (lines', \<lparr>cg_status = status, cg_names = variants\<rparr>)))"

definition default_line :: "ustr \<Rightarrow> graft \<Rightarrow> ustr" where
  "default_line indent g =
     (let stub = binding_stub (g_name g);
          probe = (case stub of [] \<Rightarrow> lit ''_'' | c # _ \<Rightarrow> [c])
      in indent @ lit ''    '' @ stub @ lit ''  =/  '' @ probe @ lit ''  (mole |.(;;('' @ stub @ lit ''-state '' @ stub @
         lit ''.old-state)))  ?~('' @ probe @ lit '' ^*('' @ stub @ lit ''-state) u.'' @ probe @ lit '')'')"

definition stateful :: "graft list \<Rightarrow> graft list" where
  "stateful grafts = filter (\<lambda>g. block State g \<noteq> None) grafts"

definition render_load_defaults_block :: "ustr \<Rightarrow> graft list \<Rightarrow> ustr list \<Rightarrow> ustr list" where
  "render_load_defaults_block indent grafts names =
     [indent @ codegen_begin_banner LoadDefaults] @
     (if names = [] then [indent @ lit ''^*(versioned-state)'']
      else
        [indent @ lit ''=/  defaults  ^*(versioned-state)'', indent @ lit ''%_  defaults''] @
        map (default_line indent) (stateful grafts) @ [indent @ lit ''=='']) @
     [indent @ codegen_end_banner LoadDefaults]"

definition emit_load_defaults ::
  "ustr list \<Rightarrow> graft list \<Rightarrow> (compose_error, ustr list \<times> codegen_report) outcome" where
  "emit_load_defaults lines grafts =
     (case find_marker lines LoadDefaults of
        None \<Rightarrow> Ok (lines, \<lparr>cg_status = Skipped, cg_names = []\<rparr>)
      | Some marker_idx \<Rightarrow>
          let names = map (\<lambda>g. binding_stub (g_name g)) (stateful grafts);
              new_block = render_load_defaults_block (leading_whitespace (lines ! marker_idx)) grafts names
          in and_then
               (find_banner_pair_indices lines (codegen_begin_banner LoadDefaults) (codegen_end_banner LoadDefaults)
                 (marker_idx + 1))
               (\<lambda>pair.
                 let (lines', status) = place_block lines marker_idx 6 (\<lambda>t. t = lit ''old-state'') pair new_block
                 in Ok (lines', \<lparr>cg_status = status, cg_names = names\<rparr>)))"


subsection \<open>A run\<close>

fun prune_markers :: "ustr \<Rightarrow> marker list \<Rightarrow> ustr list \<Rightarrow> ustr list \<times> marker list" where
  "prune_markers name [] lines = (lines, [])"
| "prune_markers name (m # ms) lines =
     (case strip_banner_pair lines name m of
        (lines', None) \<Rightarrow> prune_markers name ms lines'
      | (lines', Some _) \<Rightarrow> apsnd (Cons m) (prune_markers name ms lines'))"

fun prune_orphans :: "ustr list \<Rightarrow> ustr list \<Rightarrow> ustr list \<times> graft_report list" where
  "prune_orphans [] lines = (lines, [])"
| "prune_orphans (name # names) lines =
     (let (lines', ms) = prune_markers name all_markers lines
      in if ms = [] then prune_orphans names lines'
         else
           apsnd (Cons \<lparr>r_name = name, applicable = ms, injected = [], skipped = [], pruned = ms\<rparr>)
             (prune_orphans names lines'))"

record pass =
  p_lines :: "ustr list"
  markers_in_source :: "marker list"
  markers_missing :: "marker list"
  per_graft :: "ustr \<rightharpoonup> graft_report"

definition seed_report :: "graft \<Rightarrow> graft_report" where
  "seed_report g =
     \<lparr>r_name = g_name g, applicable = filter (\<lambda>m. block m g \<noteq> None) all_markers, injected = [], skipped = [], pruned = []\<rparr>"

definition note_status :: "marker \<Rightarrow> inject_status \<Rightarrow> graft_report \<Rightarrow> graft_report" where
  "note_status m status r =
     (if status = UpToDate then r\<lparr>skipped := skipped r @ [m]\<rparr> else r\<lparr>injected := injected r @ [m]\<rparr>)"

definition note_graft :: "ustr list \<Rightarrow> marker \<Rightarrow> graft \<Rightarrow> (ustr \<rightharpoonup> graft_report) \<Rightarrow> (ustr \<rightharpoonup> graft_report)" where
  "note_graft lines m g reports =
     reports(g_name g := map_option (note_status m (check_injection lines g m)) (reports (g_name g)))"

definition grafts_at :: "marker \<Rightarrow> graft list \<Rightarrow> graft list" where
  "grafts_at m grafts = filter (\<lambda>g. block m g \<noteq> None) grafts"

definition marker_pass :: "graft list \<Rightarrow> marker \<Rightarrow> pass \<Rightarrow> ('e, pass) outcome" where
  "marker_pass grafts m p =
     (case find_marker (p_lines p) m of
        None \<Rightarrow> Ok (p\<lparr>markers_missing := markers_missing p @ [m]\<rparr>)
      | Some initial_idx \<Rightarrow>
          let indent = leading_whitespace (p_lines p ! initial_idx);
              at_marker = grafts_at m grafts;
              reports = fold (note_graft (p_lines p) m) at_marker (per_graft p)
          in and_then (canonicalize_marker_section (p_lines p) m indent at_marker) (\<lambda>lines'.
               Ok (p\<lparr>p_lines := lines', markers_in_source := markers_in_source p @ [m], per_graft := reports\<rparr>)))"

fun marker_passes :: "graft list \<Rightarrow> marker list \<Rightarrow> pass \<Rightarrow> ('e, pass) outcome" where
  "marker_passes grafts [] p = Ok p"
| "marker_passes grafts (m # ms) p = and_then (marker_pass grafts m p) (marker_passes grafts ms)"

fun take_reports :: "graft list \<Rightarrow> (ustr \<rightharpoonup> graft_report) \<Rightarrow> ('e, graft_report list) outcome" where
  "take_reports [] reports = Ok []"
| "take_reports (g # gs) reports =
     (case reports (g_name g) of
        None \<Rightarrow> Panic
      | Some r \<Rightarrow> and_then (take_reports gs (reports(g_name g := None))) (\<lambda>rs. Ok (r # rs)))"

record inject_report =
  i_in_source :: "marker list"
  i_missing :: "marker list"
  i_grafts :: "graft_report list"
  i_pruned :: "graft_report list"
  i_codegen :: codegen_report
  i_weld_lint :: "lint_finding list"
  i_load_defaults :: codegen_report

definition inject_lines ::
  "(ustr list \<Rightarrow> ustr list) \<Rightarrow> ustr list \<Rightarrow> graft list \<Rightarrow> (compose_error, ustr list \<times> inject_report) outcome" where
  "inject_lines ord lines grafts =
     (let reports = map_of (rev (map (\<lambda>g. (g_name g, seed_report g)) grafts));
          (lines, pruned_grafts) = prune_orphans (orphan_graft_names lines (set (map g_name grafts))) lines
      in and_then
           (marker_passes grafts all_markers
             \<lparr>p_lines = lines, markers_in_source = [], markers_missing = [], per_graft = reports\<rparr>) (\<lambda>p.
         and_then (emit_effect_union (p_lines p) grafts) (\<lambda>(lines, codegen).
         and_then (emit_load_defaults lines grafts) (\<lambda>(lines, defaults).
         and_then (take_reports grafts (per_graft p)) (\<lambda>rs.
           Ok (lines,
             \<lparr>i_in_source = markers_in_source p, i_missing = markers_missing p, i_grafts = rs, i_pruned = pruned_grafts,
              i_codegen = codegen, i_weld_lint = lint_weld_friction ord lines (cg_names codegen),
              i_load_defaults = defaults\<rparr>))))))"

definition source_lines :: "ustr \<Rightarrow> ustr list" where
  "source_lines source = str_lines (replace_all [13, 10] NL source)"

definition with_newline :: "ustr \<Rightarrow> ustr list \<Rightarrow> ustr" where
  "with_newline source lines = join NL lines @ (if ends_with source NL then NL else [])"

definition inject ::
  "(ustr list \<Rightarrow> ustr list) \<Rightarrow> ustr \<Rightarrow> graft list \<Rightarrow> (compose_error, ustr \<times> inject_report) outcome" where
  "inject ord source grafts =
     and_then (inject_lines ord (source_lines source) grafts) (\<lambda>(lines, report). Ok (with_newline source lines, report))"

definition enforce_markers_placeable :: "inject_report \<Rightarrow> (ustr \<times> marker) list + unit" where
  "enforce_markers_placeable report =
     (let unplaceable = concat (map (\<lambda>g. map (\<lambda>m. (r_name g, m)) (filter (\<lambda>m. m \<in> set (i_missing report)) (applicable g)))
        (i_grafts report))
      in if unplaceable = [] then Inr () else Inl unplaceable)"


subsection \<open>Migration\<close>

record migration_report =
  migrated :: bool
  skipped_custom :: bool

definition effect_decl :: "ustr \<Rightarrow> bool" where
  "effect_decl line \<longleftrightarrow> take 2 (words_of (trim line)) = [lit ''+$'', lit ''effect'']"

definition migration_block :: "ustr \<Rightarrow> ustr list" where
  "migration_block indent =
     map (\<lambda>s. indent @ lit s)
       [''::  domain-effect is your app'' @ [CHR 39] @ ''s effect union. Add variants here as'',
        ''::  your app emits them. The codegen-generated `+$ effect` below'',
        ''::  splats domain-effect into a typed union with all graft effects.'',
        ''::'',
        ''::  nockup:domain-effect'',
        ''+$  domain-effect'',
        ''  $%  [%domain-placeholder ~]'',
        ''  =='',
        ''::'',
        ''::  graft-inject codegen replaces the open `+$ effect *` below with a'',
        ''::  typed union. Do not edit the codegen banner block by hand.'',
        ''::'',
        ''::  nockup:effect-union'',
        ''+$  effect  *'']"

definition migrate_legacy_effect :: "ustr \<Rightarrow> ustr \<times> migration_report" where
  "migrate_legacy_effect source =
     (let lines = source_lines source
      in if find_marker lines EffectUnion \<noteq> None then (source, \<lparr>migrated = False, skipped_custom = False\<rparr>)
         else
           (case position effect_decl lines of
              None \<Rightarrow> (source, \<lparr>migrated = False, skipped_custom = False\<rparr>)
            | Some idx \<Rightarrow>
                if is_bare_effect_open_type (trim (lines ! idx)) then
                  (with_newline source (splice idx idx (migration_block (leading_whitespace (lines ! idx))) lines),
                   \<lparr>migrated = True, skipped_custom = False\<rparr>)
                else (source, \<lparr>migrated = False, skipped_custom = True\<rparr>)))"


subsection \<open>The doctor\<close>

definition HAND_EDIT_MARKERS :: "marker list" where
  "HAND_EDIT_MARKERS = [State, Cause, PokePrelude, Poke, PokePostlude]"

text \<open>Where a block differs from what its manifest renders: the graft, the marker, the line of the banner.\<close>

definition hand_edit :: "ustr list \<Rightarrow> graft \<Rightarrow> marker \<Rightarrow> (ustr \<times> marker \<times> nat) option" where
  "hand_edit lines g m =
     (if block m g = None then None
      else
        case find_banner_pair lines (g_name g) m of
          None \<Rightarrow> None
        | Some (b, e) \<Rightarrow>
            if banner_sha256 (lines ! b) \<noteq> Some (sha256_short g) then None
            else
              let indent = leading_whitespace (lines ! b);
                  actual = take (e - (b + 1)) (drop (b + 1) lines)
              in if actual = expected_block_body g m indent then None else Some (g_name g, m, b + 1))"

definition check_hand_edits :: "ustr \<Rightarrow> graft list \<Rightarrow> (ustr \<times> marker \<times> nat) list" where
  "check_hand_edits source grafts =
     concat (map (\<lambda>g. List.map_filter (hand_edit (str_lines source) g) HAND_EDIT_MARKERS) grafts)"

definition missing_load_defaults :: "ustr \<Rightarrow> bool" where
  "missing_load_defaults source \<longleftrightarrow>
     (let lines = str_lines source
      in list_ex (\<lambda>l. contains l (lit ''graft-inject:'') \<and> contains l (lit '':begin'')) lines \<and>
         find_marker lines LoadDefaults = None)"


subsection \<open>The inject command\<close>

datatype select_error = NoGrafts | UnknownGraft ustr

fun select_named :: "graft list \<Rightarrow> ustr list \<Rightarrow> select_error + graft list" where
  "select_named discovered [] = Inr []"
| "select_named discovered (name # names) =
     (case List.find (\<lambda>g. g_name g = name) discovered of
        None \<Rightarrow> Inl (UnknownGraft name)
      | Some g \<Rightarrow> res_bind (select_named discovered names) (\<lambda>gs. Inr (g # gs)))"

definition select_grafts :: "graft list \<Rightarrow> ustr list \<Rightarrow> ustr list \<Rightarrow> select_error + graft list" where
  "select_grafts discovered names exclude =
     (if discovered = [] then Inl NoGrafts
      else if names \<noteq> [] then select_named discovered names
      else Inr (filter (\<lambda>g. g_name g \<notin> set exclude) discovered))"

record inject_flags =
  apply_flag :: bool
  no_migrate :: bool
  force_overwrite_hand_edits :: bool
  lint_override :: "ustr list"

datatype run_error =
    SchemaTooNew schema_skew
  | NotHoon
  | BadPolicy policy_error
  | LintErrors "ustr list" nat
  | HandEdited nat
  | ComposeFailed compose_error
  | Unplaceable "(ustr \<times> marker) list"
  | NoMarkers

definition gate_inject_lint_findings :: "lint_finding list \<Rightarrow> bool \<Rightarrow> lint_policy \<Rightarrow> run_error + unit" where
  "gate_inject_lint_findings findings apply_it policy =
     (let errors = filter (\<lambda>f. effective policy f = Severe) findings
      in if findings = [] \<or> \<not> apply_it \<or> errors = [] then Inr ()
         else Inl (LintErrors (sort (remdups (map kind_label errors))) (length errors)))"

text \<open>
  A run ends by a panic, or with the text it wrote over the kernel, if it wrote, and its error.  The findings of the walk over
  the imports on disk, the configuration and the extension of the path are arguments.
\<close>

datatype run_result = Crashed | Ended "ustr option" "run_error option"

definition or_stop :: "run_error + 'a \<Rightarrow> ('a \<Rightarrow> run_result) \<Rightarrow> run_result" where
  "or_stop r k = (case r of Inl e \<Rightarrow> Ended None (Some e) | Inr x \<Rightarrow> k x)"

text \<open>Composing a source and writing it, once the gates before it are passed; then the run on a source with its policy.\<close>

definition compose_and_write ::
  "(ustr list \<Rightarrow> ustr list) \<Rightarrow> bool \<Rightarrow> lint_policy \<Rightarrow> graft list \<Rightarrow> ustr \<Rightarrow> run_result" where
  "compose_and_write ord apply_it policy grafts source =
     (case inject ord source grafts of
        Panic \<Rightarrow> Crashed
      | Err e \<Rightarrow> Ended None (Some (ComposeFailed e))
      | Ok (output, report) \<Rightarrow>
          or_stop (map_sum Unplaceable id (enforce_markers_placeable report)) (\<lambda>_.
          or_stop (gate_inject_lint_findings (lint_internal_dupes (str_lines output)) apply_it policy) (\<lambda>_.
            Ended (if apply_it \<and> output \<noteq> source then Some output else None)
              (if i_in_source report = [] then Some NoMarkers else None))))"

definition pre_findings :: "lint_finding list \<Rightarrow> graft list \<Rightarrow> ustr list \<Rightarrow> lint_finding list" where
  "pre_findings imports grafts pre_lines =
     lint_bare_tilde_ambiguity pre_lines @ lint_collision_check grafts pre_lines @ imports @
     lint_unresolved_cause_references grafts pre_lines"

definition run_on_source ::
  "(ustr list \<Rightarrow> ustr list) \<Rightarrow> lint_finding list \<Rightarrow> inject_flags \<Rightarrow> graft list \<Rightarrow> ustr \<Rightarrow> lint_policy \<Rightarrow> run_result" where
  "run_on_source ord imports flags grafts source policy =
     or_stop (gate_inject_lint_findings (pre_findings imports grafts (str_lines source)) (apply_flag flags) policy) (\<lambda>_.
       let hand_edits = check_hand_edits source grafts
       in if hand_edits \<noteq> [] \<and> apply_flag flags \<and> \<not> force_overwrite_hand_edits flags then
            Ended None (Some (HandEdited (length hand_edits)))
          else compose_and_write ord (apply_flag flags) policy grafts source)"

definition kernel_source :: "inject_flags \<Rightarrow> ustr \<Rightarrow> ustr" where
  "kernel_source flags raw_source = (if no_migrate flags then raw_source else fst (migrate_legacy_effect raw_source))"

definition run_policy :: "lint_config \<Rightarrow> ustr list \<Rightarrow> policy_error + lint_policy" where
  "run_policy config args = res_bind (load_from_project config) (\<lambda>policy. apply_cli_overrides policy args)"

definition run_inject ::
  "(ustr list \<Rightarrow> ustr list) \<Rightarrow> lint_finding list \<Rightarrow> lint_config \<Rightarrow> inject_flags \<Rightarrow> graft list \<Rightarrow> ustr option \<Rightarrow> ustr \<Rightarrow>
   run_result" where
  "run_inject ord imports config flags grafts ext raw_source =
     (case check_schema_compat grafts of
        skew # _ \<Rightarrow> Ended None (Some (SchemaTooNew skew))
      | [] \<Rightarrow>
          if ext \<noteq> Some (lit ''hoon'') then Ended None (Some NotHoon)
          else
            or_stop (map_sum BadPolicy id (run_policy config (lint_override flags)))
              (run_on_source ord imports flags grafts (kernel_source flags raw_source)))"

end
