(* ===== verification/Documents.thy ===== *)
theory Documents
  imports Composer
begin

text \<open>
  The kernels the composer works on.  A kernel is the rendering of a skeleton, the lines of its author with
  one slot for every marker, in an environment that gives the blocks that stand in each slot; every step of \<open>inject\<close> is
  an update of the environment, and the environment after a run depends on the active grafts alone.
\<close>

subsection \<open>Banners\<close>

text \<open>Names of grafts and hashes, as the discovery of the manifests has checked and computed them.\<close>

definition name_ok :: "ustr \<Rightarrow> bool" where
  "name_ok n \<longleftrightarrow> is_valid_graft_name n \<and> n \<notin> set (map label all_markers)"

definition sha_ok :: "ustr \<Rightarrow> bool" where
  "sha_ok s \<longleftrightarrow> list_all (\<lambda>c. \<not> white_space c) s"

lemma label_in: "label m \<in> set (map label all_markers)"
  by (cases m) (simp_all add: all_markers_def)

lemma inj_label [simp]: "label m = label m' \<longleftrightarrow> m = m'"
  by (cases m; cases m'; simp)

lemma label_colon [simp]: "58 \<notin> set (label m)"
  by (cases m) simp_all

lemma valid_name_colon: "is_valid_graft_name n \<Longrightarrow> 58 \<notin> set n"
  by (auto simp: is_valid_graft_name_def lowercase_def list_all_iff split: list.splits)

lemma name_ok_colon: "name_ok n \<Longrightarrow> 58 \<notin> set n"
  by (simp add: name_ok_def valid_name_colon)

lemma white_58 [simp]: "\<not> white_space 58" "\<not> white_space 110" "\<not> white_space 100" "\<not> white_space 36" "white_space 32"
  by (simp_all add: white_space_def)

lemma banner_hd [simp]: "BANNER_PREFIX \<noteq> []" "hd BANNER_PREFIX = 58"
  by (simp_all add: BANNER_PREFIX_def)

lemma sha_white: "sha_ok s \<Longrightarrow> s \<noteq> [] \<Longrightarrow> \<not> white_space (last s)"
  by (simp add: sha_ok_def list_all_iff)

lemma trim_banner:
  assumes "list_all white_space w"
  shows "trim_start (w @ BANNER_PREFIX @ x) = BANNER_PREFIX @ x"
    and "x \<noteq> [] \<Longrightarrow> \<not> white_space (last x) \<Longrightarrow> trim (w @ BANNER_PREFIX @ x) = BANNER_PREFIX @ x"
  using assms by (simp_all add: text_simps trim_start_id trim_id)

lemma trim_begin_banner:
  assumes "list_all white_space w" "sha_ok s"
  shows "trim (w @ begin_banner_with_sha n m s) = begin_banner_with_sha n m s"
  unfolding begin_banner_with_sha_def using assms sha_white [of s]
  by (intro trim_banner) (auto simp: last_append)

lemma trim_end_banner: "list_all white_space w \<Longrightarrow> trim (w @ end_banner n m) = end_banner n m"
  unfolding end_banner_def by (intro trim_banner) (auto simp: last_append)

lemma trim_codegen_banners:
  assumes "list_all white_space w"
  shows "trim (w @ codegen_begin_banner m) = codegen_begin_banner m"
    and "trim (w @ codegen_end_banner m) = codegen_end_banner m"
  unfolding codegen_begin_banner_def codegen_end_banner_def using assms by (auto intro!: trim_banner simp: last_append)

lemma begin_prefix_iff:
  assumes "58 \<notin> set n" "58 \<notin> set n'"
  shows "starts_with (begin_banner n' m' @ s) (begin_banner n m) \<longleftrightarrow> n = n' \<and> m = m'"
proof
  assume "starts_with (begin_banner n' m' @ s) (begin_banner n m)"
  then obtain t where "n' @ 58 # label m' @ 58 # lit ''begin'' @ s = n @ 58 # label m @ 58 # lit ''begin'' @ t"
    by (auto simp: starts_with_iff begin_banner_def)
  then show "n = n' \<and> m = m'" using assms by (simp add: split_at_first)
qed (simp add: text_simps)

lemma begin_banner_with_sha_eq: "begin_banner_with_sha n m s = begin_banner n m @ lit '' sha256:'' @ s"
  by (simp add: begin_banner_with_sha_def begin_banner_def)

lemma end_not_begin:
  assumes "58 \<notin> set n" "58 \<notin> set n'"
  shows "\<not> starts_with (end_banner n' m') (begin_banner n m)"
proof
  assume "starts_with (end_banner n' m') (begin_banner n m)"
  then obtain t where "n' @ 58 # label m' @ 58 # lit ''end'' = n @ 58 # label m @ 58 # lit ''begin'' @ t"
    by (auto simp: starts_with_iff end_banner_def begin_banner_def)
  then show False using assms by (simp add: split_at_first)
qed

lemma codegen_not_begin:
  assumes "58 \<notin> set n"
  shows "\<not> starts_with (codegen_begin_banner m') (begin_banner n m)"
    and "\<not> starts_with (codegen_end_banner m') (begin_banner n m)"
proof -
  have *: "lit ''begin'' \<noteq> label m @ 58 # t" "lit ''end'' \<noteq> label m @ 58 # t" for t :: ustr
    by (cases m; simp)+
  show "\<not> starts_with (codegen_begin_banner m') (begin_banner n m)"
  proof
    assume "starts_with (codegen_begin_banner m') (begin_banner n m)"
    then obtain t where "label m' @ 58 # lit ''begin'' = n @ 58 # label m @ 58 # lit ''begin'' @ t"
      by (auto simp: starts_with_iff codegen_begin_banner_def begin_banner_def)
    then show False using assms * by (simp del: lit_Cons add: split_at_first)
  qed
  show "\<not> starts_with (codegen_end_banner m') (begin_banner n m)"
  proof
    assume "starts_with (codegen_end_banner m') (begin_banner n m)"
    then obtain t where "label m' @ 58 # lit ''end'' = n @ 58 # label m @ 58 # lit ''begin'' @ t"
      by (auto simp: starts_with_iff codegen_end_banner_def begin_banner_def)
    then show False using assms * by (simp del: lit_Cons add: split_at_first)
  qed
qed


subsection \<open>Documents\<close>

datatype item = Plain ustr | Slot marker

type_synonym environment = "marker \<Rightarrow> (ustr \<times> ustr list) list"

definition flat :: "(ustr \<times> ustr list) list \<Rightarrow> ustr list" where
  "flat bs = concat (map snd bs)"

primrec item_lines :: "environment \<Rightarrow> item \<Rightarrow> ustr list" where
  "item_lines env (Plain l) = [l]"
| "item_lines env (Slot m) = flat (env m)"

definition render :: "environment \<Rightarrow> item list \<Rightarrow> ustr list" where
  "render env items = concat (map (item_lines env) items)"

lemma flat_simps [simp]: "flat [] = []" "flat ((n, ls) # bs) = ls @ flat bs" "flat (bs @ cs) = flat bs @ flat cs"
  by (simp_all add: flat_def)

lemma render_simps [simp]:
  "render env [] = []" "render env (Plain l # items) = l # render env items"
  "render env (Slot m # items) = flat (env m) @ render env items"
  "render env (is1 @ is2) = render env is1 @ render env is2"
  by (simp_all add: render_def)

lemma render_cong: "(\<And>m. Slot m \<in> set items \<Longrightarrow> flat (env m) = flat (env' m)) \<Longrightarrow> render env items = render env' items"
  by (induction items) (auto simp: render_def split: item.splits, metis item.exhaust item_lines.simps)

lemma render_upd [simp]: "Slot m \<notin> set items \<Longrightarrow> render (env(m := bs)) items = render env items"
  by (rule render_cong) auto

text \<open>Lines that are no banner, and lines that survive writing and reading.\<close>

definition quiet :: "ustr \<Rightarrow> bool" where
  "quiet l \<longleftrightarrow> \<not> starts_with (trim_start l) BANNER_PREFIX"

definition text_line :: "ustr \<Rightarrow> bool" where
  "text_line l \<longleftrightarrow> 10 \<notin> set l \<and> (l = [] \<or> last l \<noteq> 13)"

definition slot_line :: "marker \<Rightarrow> ustr \<Rightarrow> bool" where
  "slot_line m l \<longleftrightarrow>
     list_all (\<lambda>m'. \<not> is_marker_line m' l) all_markers \<and> trim l \<noteq> lit ''~'' \<and>
     (m = Imports \<or> parse_glob_import l = None) \<and> text_line l"

definition graft_block :: "marker \<Rightarrow> ustr \<times> ustr list \<Rightarrow> bool" where
  "graft_block m b \<longleftrightarrow>
     (case b of (n, ls) \<Rightarrow>
        name_ok n \<and> 2 \<le> length ls \<and> starts_with (trim (hd ls)) (begin_banner n m) \<and>
        trim (last ls) = end_banner n m \<and> list_all quiet (butlast (tl ls)))"

definition place_holder :: "marker \<Rightarrow> ustr \<Rightarrow> bool" where
  "place_holder m t \<longleftrightarrow> (if m = EffectUnion then is_bare_effect_open_type t else t = lit ''old-state'')"

definition codegen_block :: "marker \<Rightarrow> ustr list \<Rightarrow> bool" where
  "codegen_block m ls \<longleftrightarrow>
     (if length ls = 1 then place_holder m (trim (hd ls)) \<and> quiet (hd ls)
      else 2 \<le> length ls \<and> trim (hd ls) = codegen_begin_banner m \<and> trim (last ls) = codegen_end_banner m \<and>
           list_all quiet (butlast (tl ls)))"

definition codegen_marker :: "marker \<Rightarrow> bool" where
  "codegen_marker m \<longleftrightarrow> m = EffectUnion \<or> m = LoadDefaults"

definition slot_ok :: "marker \<Rightarrow> (ustr \<times> ustr list) list \<Rightarrow> bool" where
  "slot_ok m bs \<longleftrightarrow>
     list_all (list_all (slot_line m)) (map snd bs) \<and>
     (if codegen_marker m then map fst bs = [[]] \<and> codegen_block m (snd (hd bs))
      else list_all (graft_block m) bs \<and> distinct (map fst bs))"

definition slots :: "item list \<Rightarrow> marker list" where
  "slots items = filter (\<lambda>m. Slot m \<in> set items) all_markers"

definition env_ok :: "item list \<Rightarrow> environment \<Rightarrow> bool" where
  "env_ok items env \<longleftrightarrow> list_all (\<lambda>m. slot_ok m (env m)) (slots items)"

lemma all_markers_UNIV [simp]: "m \<in> set all_markers"
  by (cases m) (simp_all add: all_markers_def)

lemma env_okD: "env_ok items env \<Longrightarrow> Slot m \<in> set items \<Longrightarrow> slot_ok m (env m)"
  by (simp add: env_ok_def slots_def list_all_iff)

definition plain_ok :: "item list \<Rightarrow> bool" where
  "plain_ok items \<longleftrightarrow> list_all (\<lambda>i. case i of Plain l \<Rightarrow> quiet l \<and> text_line l | Slot m \<Rightarrow> True) items"

lemma plain_okD: "plain_ok items \<Longrightarrow> Plain l \<in> set items \<Longrightarrow> quiet l \<and> text_line l"
  by (force simp: plain_ok_def list_all_iff)

lemma quiet_banners:
  assumes "quiet l"
  shows "\<not> starts_with (trim l) (begin_banner n m)" "trim l \<noteq> end_banner n m"
    "trim l \<noteq> codegen_begin_banner m" "trim l \<noteq> codegen_end_banner m"
proof -
  have *: "\<not> starts_with (trim l) BANNER_PREFIX"
    using assms trim_prefix [of l] by (auto simp: quiet_def dest: starts_with_trans)
  then show "\<not> starts_with (trim l) (begin_banner n m)"
    by (auto simp: begin_banner_def dest: starts_with_trans [OF _ starts_with_append])
  show "trim l \<noteq> end_banner n m" "trim l \<noteq> codegen_begin_banner m" "trim l \<noteq> codegen_end_banner m"
    using * by (auto simp: end_banner_def codegen_begin_banner_def codegen_end_banner_def text_simps)
qed

lemma graft_blockE:
  assumes "graft_block m (n, ls)"
  obtains b body e t where "ls = b # body @ [e]" "name_ok n" "trim b = begin_banner n m @ t"
    "trim e = end_banner n m" "\<forall>l\<in>set body. quiet l"
proof -
  obtain b rest where 1: "ls = b # rest" "rest \<noteq> []"
    using assms by (cases ls) (auto simp: graft_block_def Suc_le_eq)
  then have "ls = b # butlast rest @ [last rest]" by simp
  moreover obtain t where "trim b = begin_banner n m @ t" using assms 1 by (auto simp: graft_block_def starts_with_iff)
  ultimately show ?thesis
    using assms 1 by (intro that [of b "butlast rest" "last rest" t]) (auto simp: graft_block_def list_all_iff)
qed

lemma codegen_blockE:
  assumes "codegen_block m ls"
  obtains (holder) l where "ls = [l]" "place_holder m (trim l)" "quiet l"
  | (pair) b body e where "ls = b # body @ [e]" "trim b = codegen_begin_banner m" "trim e = codegen_end_banner m"
      "\<forall>l\<in>set body. quiet l"
proof (cases "length ls = 1")
  case True
  with assms holder show ?thesis by (cases ls) (auto simp: codegen_block_def)
next
  case False
  with assms obtain b rest where 1: "ls = b # rest" "rest \<noteq> []"
    by (cases ls) (auto simp: codegen_block_def Suc_le_eq)
  then have "ls = b # butlast rest @ [last rest]" by simp
  with assms False 1 show ?thesis
    by (intro pair [of b "butlast rest" "last rest"]) (auto simp: codegen_block_def list_all_iff)
qed


lemma set_render: "l \<in> set (render env items) \<longleftrightarrow>
    Plain l \<in> set items \<or> (\<exists>m k ls. Slot m \<in> set items \<and> (k, ls) \<in> set (env m) \<and> l \<in> set ls)"
proof (induction items)
  case (Cons i items) then show ?case by (cases i) (auto simp: flat_def, fastforce+)
qed simp

lemma slot_line_cases:
  assumes "slot_ok m bs" "(k, ls) \<in> set bs" "l \<in> set ls"
  obtains (quiet) "quiet l" | (begin_b) t where "name_ok k" "trim l = begin_banner k m @ t" "\<not> codegen_marker m"
  | (end_b) "name_ok k" "trim l = end_banner k m" "\<not> codegen_marker m"
  | (codegen) "codegen_marker m" "trim l = codegen_begin_banner m \<or> trim l = codegen_end_banner m"
proof (cases "codegen_marker m")
  case True
  with assms have "codegen_block m ls" by (auto simp: slot_ok_def)
  then show ?thesis
  proof (cases rule: codegen_blockE)
    case (holder l') with assms quiet show ?thesis by simp
  next
    case (pair b body e) with assms quiet codegen True show ?thesis by auto
  qed
next
  case False
  with assms have "graft_block m (k, ls)" by (auto simp: slot_ok_def list_all_iff)
  then show ?thesis using assms quiet begin_b end_b False by (elim graft_blockE) auto
qed

lemma no_begin:
  assumes ok: "plain_ok items" "env_ok items env" and n: "name_ok n"
    and absent: "Slot m \<notin> set items \<or> n \<notin> fst ` set (env m)"
    and l: "l \<in> set (render env items)"
  shows "\<not> starts_with (trim l) (begin_banner n m)"
proof -
  consider "Plain l \<in> set items" | m' k ls where "Slot m' \<in> set items" "(k, ls) \<in> set (env m')" "l \<in> set ls"
    using l by (auto simp: set_render)
  then show ?thesis
  proof cases
    case 1 with ok show ?thesis by (simp add: plain_okD quiet_banners)
  next
    case 2
    note slot = env_okD [OF ok(2) 2(1)]
    have colon: "58 \<notin> set n" using n by (rule name_ok_colon)
    from slot 2(2,3) show ?thesis
    proof (cases rule: slot_line_cases)
      case (begin_b t)
      have "(n, m) \<noteq> (k, m')" using absent 2 by force
      then show ?thesis
        using begin_b colon by (simp add: begin_prefix_iff name_ok_colon)
    next
      case end_b then show ?thesis using colon by (simp add: end_not_begin name_ok_colon)
    next
      case codegen then show ?thesis using colon by (auto simp: codegen_not_begin)
    qed (simp add: quiet_banners)
  qed
qed

lemma position_append:
  "position P (xs @ ys) =
     (if list_ex P xs then position P xs else map_option (\<lambda>i. length xs + i) (position P ys))"
  by (induction xs) (simp_all add: option.map_comp comp_def, cases "position P ys", simp_all)

lemma position_None: "position P xs = None \<longleftrightarrow> \<not> list_ex P xs"
  by (induction xs) auto

lemma position_hit: "\<not> list_ex P xs \<Longrightarrow> P y \<Longrightarrow> position P (xs @ y # ys) = Some (length xs)"
  by (simp add: position_append)

text \<open>Stripping a graft at a marker removes its block from the slot.\<close>

definition without :: "ustr \<Rightarrow> (ustr \<times> ustr list) list \<Rightarrow> (ustr \<times> ustr list) list" where
  "without n bs = filter (\<lambda>b. fst b \<noteq> n) bs"

lemma slot_split:
  assumes "Slot m \<in> set items" "distinct items \<or> count_list items (Slot m) \<le> 1"
  obtains is1 is2 where "items = is1 @ Slot m # is2" "Slot m \<notin> set is1" "Slot m \<notin> set is2"
proof -
  obtain is1 is2 where s: "items = is1 @ Slot m # is2" "Slot m \<notin> set is1"
    using split_list_first [OF assms(1)] by blast
  then have "Slot m \<notin> set is2" using assms(2) by (auto simp: count_list_0_iff)
  with s that show ?thesis by blast
qed

lemma find_item_at: "\<forall>i\<in>set pre. \<not> P i \<Longrightarrow> P i \<Longrightarrow> List.find P (pre @ i # post) = Some i"
  by (induction pre) auto

lemma no_codegen_owner:
  assumes slot: "slot_ok m bs" and n: "name_ok n" "n \<in> fst ` set bs"
  shows "\<not> codegen_marker m"
proof
  assume "codegen_marker m"
  with slot have "fst ` set bs = {[]}" by (simp add: slot_ok_def flip: set_map)
  with n show False by (simp add: name_ok_def is_valid_graft_name_def)
qed

text \<open>The banners of a block are the first that are found.\<close>

lemma find_banner_slot:
  assumes ok: "plain_ok items" "env_ok items env" and n: "name_ok n"
    and items: "items = is1 @ Slot m # is2" "Slot m \<notin> set is1"
    and env: "env m = x @ (n, ls) # y" "n \<notin> fst ` set x" and ls: "ls = b # body @ [e]"
    and b: "trim b = begin_banner n m @ t" and e: "trim e = end_banner n m" and body: "\<forall>l\<in>set body. quiet l"
    and m: "\<not> codegen_marker m"
  shows "find_banner_pair (render env items) n m =
      Some (length (render env is1 @ flat x), length (render env is1 @ flat x) + 1 + length body)"
    and "List.find (\<lambda>l. starts_with (trim l) (begin_banner n m)) (render env items) = Some b"
proof -
  let ?P = "\<lambda>l. starts_with (trim l) (begin_banner n m)"
  let ?A = "render env is1 @ flat x" and ?C = "flat y @ render env is2"
  have slot: "slot_ok m (env m)" using ok(2) by (rule env_okD) (simp add: items)
  have R: "render env items = ?A @ b # body @ e # ?C" by (simp add: items env ls)
  have "slot_ok m x" using slot m env by (simp add: slot_ok_def)
  have A: "\<not> ?P l" if l: "l \<in> set ?A" for l
  proof -
    have "plain_ok (is1 @ [Slot m])" "env_ok (is1 @ [Slot m]) (env(m := x))"
      using ok items \<open>slot_ok m x\<close> by (auto simp: plain_ok_def env_ok_def slots_def list_all_iff)
    moreover have "l \<in> set (render (env(m := x)) (is1 @ [Slot m]))" using l items by simp
    ultimately show ?thesis using no_begin n env(2) by fastforce
  qed
  have hit: "?P b" using b by (simp add: text_simps)
  have 1: "position ?P (render env items) = Some (length ?A)"
    unfolding R by (rule position_hit) (use A hit in \<open>auto simp: list_ex_iff\<close>)
  have 2: "position (\<lambda>l. trim l = end_banner n m) (body @ e # ?C) = Some (length body)"
    by (rule position_hit) (use body e quiet_banners(2) in \<open>auto simp: list_ex_iff\<close>)
  show "find_banner_pair (render env items) n m = Some (length ?A, length ?A + 1 + length body)"
    using 1 2 by (simp add: find_banner_pair_def R)
  show "List.find ?P (render env items) = Some b"
    unfolding R by (rule find_item_at) (use A hit in auto)
qed

lemma strip_slot:
  assumes ok: "plain_ok items" "env_ok items env" and n: "name_ok n" and single: "count_list items (Slot m) \<le> 1"
  shows "fst (strip_banner_pair (render env items) n m) = render (env(m := without n (env m))) items"
    and "snd (strip_banner_pair (render env items) n m) \<noteq> None \<longleftrightarrow> Slot m \<in> set items \<and> n \<in> fst ` set (env m)"
proof -
  let ?P = "\<lambda>l. starts_with (trim l) (begin_banner n m)"
  have "strip_banner_pair (render env items) n m = (render (env(m := without n (env m))) items, None)"
    if absent: "Slot m \<notin> set items \<or> n \<notin> fst ` set (env m)"
  proof -
    have "position ?P (render env items) = None"
      using no_begin [OF ok n absent] by (auto simp: position_None list_ex_iff)
    moreover have "render (env(m := without n (env m))) items = render env items"
    proof (rule render_cong)
      fix m' assume "Slot m' \<in> set items"
      with absent have "m' = m \<Longrightarrow> without n (env m) = env m"
        by (force simp: without_def filter_id_conv)
      then show "flat ((env(m := without n (env m))) m') = flat (env m')" by simp
    qed
    ultimately show ?thesis by (simp add: strip_banner_pair_def find_banner_pair_def)
  qed
  moreover have "\<exists>i. strip_banner_pair (render env items) n m = (render (env(m := without n (env m))) items, Some i)"
    if there: "Slot m \<in> set items" "n \<in> fst ` set (env m)"
  proof -
    obtain is1 is2 where items: "items = is1 @ Slot m # is2" "Slot m \<notin> set is1" "Slot m \<notin> set is2"
      using slot_split [OF there(1)] single by blast
    have slot: "slot_ok m (env m)" using ok(2) there(1) by (rule env_okD)
    have m: "\<not> codegen_marker m" using no_codegen_owner [OF slot n there(2)] .
    then have dist: "distinct (map fst (env m))" using slot by (simp add: slot_ok_def)
    obtain ls where "(n, ls) \<in> set (env m)" using there(2) by auto
    then obtain x y where env: "env m = x @ (n, ls) # y" by (meson split_list)
    then have xy: "n \<notin> fst ` set x" "n \<notin> fst ` set y" using dist by auto
    have "graft_block m (n, ls)" using slot m env by (simp add: slot_ok_def)
    then obtain b body e t where ls: "ls = b # body @ [e]" and b: "trim b = begin_banner n m @ t"
      and e: "trim e = end_banner n m" and body: "\<forall>l\<in>set body. quiet l" by (rule graft_blockE)
    let ?A = "render env is1 @ flat x" and ?C = "flat y @ render env is2"
    have R: "render env items = ?A @ b # body @ e # ?C" by (simp add: items env ls)
    have "strip_banner_pair (render env items) n m = (?A @ ?C, Some (length ?A))"
      using find_banner_slot(1) [OF ok n items(1,2) env xy(1) ls b e body m] by (simp add: strip_banner_pair_def R)
    moreover have "filter (\<lambda>b. fst b \<noteq> n) x = x" "filter (\<lambda>b. fst b \<noteq> n) y = y"
      using xy by (auto intro!: filter_True)
    then have "without n (env m) = x @ y" by (simp add: without_def env)
    ultimately show ?thesis using items by simp
  qed
  ultimately have "(if Slot m \<in> set items \<and> n \<in> fst ` set (env m)
      then \<exists>i. strip_banner_pair (render env items) n m = (render (env(m := without n (env m))) items, Some i)
      else strip_banner_pair (render env items) n m = (render (env(m := without n (env m))) items, None))"
    by auto
  then show "fst (strip_banner_pair (render env items) n m) = render (env(m := without n (env m))) items"
    and "snd (strip_banner_pair (render env items) n m) \<noteq> None \<longleftrightarrow> Slot m \<in> set items \<and> n \<in> fst ` set (env m)"
    by (auto split: if_splits)
qed


subsection \<open>Skeletons\<close>

text \<open>
  What the author's lines look like around a marker: the slot of a marker stands right after its first line, the slot of
  the peeks before the bare tilde that is the last one of the block, and the slot of a generated block in the place of its
  placeholder.
\<close>

primrec marker_item :: "marker \<Rightarrow> item \<Rightarrow> bool" where
  "marker_item m (Plain l) = is_marker_line m l"
| "marker_item m (Slot m') = False"

fun no_tilde :: "item list \<Rightarrow> bool" where
  "no_tilde [] = True"
| "no_tilde (Plain l # items) = (trim l = lit ''=='' \<or> trim l \<noteq> lit ''~'' \<and> no_tilde items)"
| "no_tilde (Slot m # items) = no_tilde items"

definition room :: "marker \<Rightarrow> item list \<Rightarrow> item list \<Rightarrow> bool" where
  "room m mid post \<longleftrightarrow>
     (if m = Peek then
        list_all (\<lambda>i. case i of Plain l \<Rightarrow> trim l \<noteq> lit ''=='' | Slot _ \<Rightarrow> False) mid \<and>
        (case post of Plain t # rest \<Rightarrow> trim t = lit ''~'' \<and> no_tilde rest | _ \<Rightarrow> False)
      else mid = [])"

definition section_ok :: "marker \<Rightarrow> item list \<Rightarrow> bool" where
  "section_ok m items \<longleftrightarrow>
     (let pre = takeWhile (\<lambda>i. \<not> marker_item m i) items; rest = dropWhile (\<lambda>i. \<not> marker_item m i) items
      in if rest = [] \<or> m = DomainEffect then Slot m \<notin> set items
         else
           let after = tl rest; mid = takeWhile (\<lambda>i. i \<noteq> Slot m) after; post = tl (dropWhile (\<lambda>i. i \<noteq> Slot m) after)
           in Slot m \<in> set after \<and> Slot m \<notin> set pre \<and> Slot m \<notin> set post \<and> room m mid post)"

definition skeleton_ok :: "item list \<Rightarrow> bool" where
  "skeleton_ok items \<longleftrightarrow> plain_ok items \<and> list_all (\<lambda>m. section_ok m items) all_markers"

lemma section_okE:
  assumes "section_ok m items"
  obtains (no_slot) "Slot m \<notin> set items" "m = DomainEffect \<or> (\<forall>i\<in>set items. \<not> marker_item m i)"
  | (here) pre l mid post where "items = pre @ Plain l # mid @ Slot m # post" "is_marker_line m l"
      "\<forall>i\<in>set pre. \<not> marker_item m i" "Slot m \<notin> set (pre @ mid @ post)" "room m mid post" "m \<noteq> DomainEffect"
proof -
  let ?P = "\<lambda>i. \<not> marker_item m i"
  let ?pre = "takeWhile ?P items" and ?rest = "dropWhile ?P items"
  show ?thesis
  proof (cases "?rest = [] \<or> m = DomainEffect")
    case True
    with assms no_slot show ?thesis by (auto simp: section_ok_def dropWhile_eq_Nil_conv)
  next
    case False
    then obtain i after where rest: "?rest = i # after" by (cases ?rest) auto
    then have "marker_item m i" by (metis hd_dropWhile list.distinct(1) list.sel(1))
    then obtain l where l: "i = Plain l" "is_marker_line m l" by (cases i) auto
    let ?mid = "takeWhile (\<lambda>i. i \<noteq> Slot m) after" and ?post = "tl (dropWhile (\<lambda>i. i \<noteq> Slot m) after)"
    have ok: "Slot m \<in> set after" "Slot m \<notin> set ?pre" "Slot m \<notin> set ?post" "room m ?mid ?post"
      using assms False rest by (simp_all add: section_ok_def Let_def)
    have "dropWhile (\<lambda>i. i \<noteq> Slot m) after \<noteq> []" using ok(1) by (auto simp: dropWhile_eq_Nil_conv)
    then have "dropWhile (\<lambda>i. i \<noteq> Slot m) after = Slot m # ?post"
      using hd_dropWhile [of "\<lambda>i. i \<noteq> Slot m" after] by (metis list.collapse)
    then have "after = ?mid @ Slot m # ?post" by (metis takeWhile_dropWhile_id)
    moreover have "items = ?pre @ i # after" using rest by (metis takeWhile_dropWhile_id)
    moreover have "Slot m \<notin> set ?mid" "\<forall>i\<in>set ?pre. \<not> marker_item m i" by (auto dest: set_takeWhileD)
    ultimately show ?thesis using here [of ?pre l ?mid ?post] l ok False by simp
  qed
qed

lemma skeleton_section: "skeleton_ok items \<Longrightarrow> section_ok m items"
  by (simp add: skeleton_ok_def list_all_iff)

lemma skeleton_single: "skeleton_ok items \<Longrightarrow> count_list items (Slot m) \<le> 1"
  using skeleton_section [of items m]
  by (auto elim!: section_okE simp: count_list_0_iff)

lemma find_marker_none:
  assumes "env_ok items env" "\<forall>i\<in>set items. \<not> marker_item m i"
  shows "find_marker (render env items) m = None"
  using assms env_okD [OF assms(1)]
  by (fastforce simp: find_marker_def position_None list_ex_iff set_render slot_ok_def slot_line_def list_all_iff)

lemma find_marker_at:
  assumes env: "env_ok items env" and items: "items = pre @ Plain l # post" and pre: "\<forall>i\<in>set pre. \<not> marker_item m i"
    and l: "is_marker_line m l"
  shows "find_marker (render env items) m = Some (length (render env pre))"
proof -
  have "env_ok pre env" using env items by (auto simp: env_ok_def slots_def list_all_iff)
  then have "\<not> list_ex (is_marker_line m) (render env pre)"
    using find_marker_none [OF _ pre] by (simp add: find_marker_def position_None)
  then show ?thesis using l by (simp add: find_marker_def items position_hit)
qed


subsection \<open>Well-formed grafts and their blocks\<close>

definition graft_ok :: "graft \<Rightarrow> bool" where
  "graft_ok g \<longleftrightarrow>
     name_ok (g_name g) \<and> sha_ok (g_sha g) \<and>
     (case Option.bind (g_types g) effect_type of None \<Rightarrow> True | Some t \<Rightarrow> is_valid_graft_name t) \<and>
     list_all (\<lambda>m.
       case block m g of
         None \<Rightarrow> True
       | Some b \<Rightarrow>
           if m = Peek then text_line (trimmed_body b) \<and> trimmed_body b \<noteq> []
           else list_all (\<lambda>l. quiet l \<and> slot_line m l) (str_lines (trimmed_body b))) all_markers"

definition grafts_ok :: "graft list \<Rightarrow> bool" where
  "grafts_ok gs \<longleftrightarrow> list_all graft_ok gs \<and> distinct (map g_name gs)"

lemma graft_okD:
  assumes "graft_ok g"
  shows "name_ok (g_name g)" "sha_ok (sha256_short g)"
    "block m g = Some b \<Longrightarrow> m \<noteq> Peek \<Longrightarrow> l \<in> set (str_lines (trimmed_body b)) \<Longrightarrow> quiet l \<and> slot_line m l"
    "block Peek g = Some b \<Longrightarrow> text_line (trimmed_body b) \<and> trimmed_body b \<noteq> []"
    "Option.bind (g_types g) effect_type = Some t \<Longrightarrow> is_valid_graft_name t"
proof -
  show "name_ok (g_name g)" "sha_ok (sha256_short g)"
    using assms by (auto simp: graft_ok_def sha_ok_def sha256_short_def list_all_iff dest: in_set_takeD)
  show "Option.bind (g_types g) effect_type = Some t \<Longrightarrow> is_valid_graft_name t"
    using assms by (simp add: graft_ok_def)
  have *: "case block m g of None \<Rightarrow> True | Some b \<Rightarrow> if m = Peek then text_line (trimmed_body b) \<and> trimmed_body b \<noteq> []
      else list_all (\<lambda>l. quiet l \<and> slot_line m l) (str_lines (trimmed_body b))" for m
    using assms by (simp add: graft_ok_def list_all_iff)
  show "block m g = Some b \<Longrightarrow> m \<noteq> Peek \<Longrightarrow> l \<in> set (str_lines (trimmed_body b)) \<Longrightarrow> quiet l \<and> slot_line m l"
    using * [of m] by (simp add: list_all_iff)
  show "block Peek g = Some b \<Longrightarrow> text_line (trimmed_body b) \<and> trimmed_body b \<noteq> []"
    using * [of Peek] by simp
qed

lemma indented:
  assumes w: "list_all white_space w"
  shows "quiet (w @ l) = quiet l" "is_marker_line m (w @ l) = is_marker_line m l"
    "parse_glob_import (w @ l) = parse_glob_import l" "trim (w @ l) = trim l"
  using w by (simp_all add: quiet_def is_marker_line_def parse_glob_import_def text_simps)

lemma text_line_append: "10 \<notin> set w \<Longrightarrow> l \<noteq> [] \<Longrightarrow> text_line l \<Longrightarrow> text_line (w @ l)"
  by (simp add: text_line_def)

lemma slot_line_indent:
  assumes "list_all white_space w" "10 \<notin> set w"
  shows "slot_line m l \<Longrightarrow> slot_line m (indent_line w l)" "quiet l \<Longrightarrow> quiet (indent_line w l)"
  using assms by (auto simp: slot_line_def indent_line_def indented text_line_append)

text \<open>A line that does not begin with a colon, a slash or a tilde is neither a banner nor a marker nor an import.\<close>

lemma other_line:
  assumes "l \<noteq> []" "\<not> white_space (hd l)" "hd l \<notin> {58, 47, 126}"
  shows "quiet l" "\<not> is_marker_line m l" "parse_glob_import l = None" "trim l \<noteq> lit ''~''"
proof -
  have s: "trim_start l = l" using assms by (simp add: trim_start_id)
  show "quiet l" using assms s starts_with_hd [of l BANNER_PREFIX] by (auto simp: quiet_def)
  have "strip_prefix (lit ''::'') l = None" "strip_prefix (lit ''/+'') l = None" "strip_prefix (lit ''/-'') l = None"
    using assms starts_with_hd [of l] by (auto simp: strip_prefix_eq_None)
  then show "\<not> is_marker_line m l" "parse_glob_import l = None"
    by (simp_all add: is_marker_line_def parse_glob_import_def s)
  show "trim l \<noteq> lit ''~''"
    using trim_prefix [of l] starts_with_hd [of l "trim l"] assms s by auto
qed

lemma banner_line:
  assumes "x \<noteq> []" "10 \<notin> set x" "last x \<noteq> 13" "\<not> white_space (last x)"
  shows "slot_line m (BANNER_PREFIX @ x)"
proof -
  have t: "trim_start (BANNER_PREFIX @ x) = BANNER_PREFIX @ x" by (simp add: trim_start_id)
  have "trim (BANNER_PREFIX @ x) = BANNER_PREFIX @ x" using assms by (simp add: trim_id)
  moreover have "\<not> is_marker_line m' (BANNER_PREFIX @ x)" for m'
    unfolding is_marker_line_def t
    by (simp add: BANNER_PREFIX_def MARKER_PREFIX_def strip_prefix_def starts_with_def)
  moreover have "parse_glob_import (BANNER_PREFIX @ x) = None"
    unfolding parse_glob_import_def t by (simp add: BANNER_PREFIX_def strip_prefix_def starts_with_def)
  ultimately show ?thesis
    using assms by (auto simp: slot_line_def list_all_iff text_line_def) (auto simp: BANNER_PREFIX_def)
qed

lemma valid_name_newline: "is_valid_graft_name n \<Longrightarrow> 10 \<notin> set n"
  by (auto simp: is_valid_graft_name_def lowercase_def list_all_iff split: list.splits)

lemma label_newline [simp]: "10 \<notin> set (label m)"
  by (cases m) simp_all

lemma white_line_end: "white_space 10" "white_space 13"
  by (simp_all add: white_space_def)

lemma sha_newline: "sha_ok s \<Longrightarrow> 10 \<notin> set s" "sha_ok s \<Longrightarrow> s \<noteq> [] \<Longrightarrow> last s \<noteq> 13"
proof -
  show "sha_ok s \<Longrightarrow> 10 \<notin> set s" using white_line_end(1) by (auto simp: sha_ok_def list_all_iff)
  show "sha_ok s \<Longrightarrow> s \<noteq> [] \<Longrightarrow> last s \<noteq> 13" using sha_white [of s] white_line_end(2) by auto
qed

lemma slot_line_banners:
  assumes "name_ok n" "sha_ok s"
  shows "slot_line m (begin_banner_with_sha n m' s)" "slot_line m (end_banner n m')"
    "slot_line m (codegen_begin_banner m')" "slot_line m (codegen_end_banner m')"
  using assms sha_newline [of s] sha_white [of s]
  unfolding begin_banner_with_sha_def end_banner_def codegen_begin_banner_def codegen_end_banner_def
  by (auto intro!: banner_line simp: last_append name_ok_def valid_name_newline split: if_splits)

lemma graft_block_of:
  assumes g: "graft_ok g" and w: "list_all white_space w" "10 \<notin> set w"
    and body: "\<forall>l\<in>set body. quiet l \<and> slot_line m l"
    and ls: "ls = indent_line w (begin_banner_with_sha (g_name g) m (sha256_short g)) # body @
      [indent_line w (end_banner (g_name g) m)]"
  shows "graft_block m (g_name g, ls)" "list_all (slot_line m) ls"
proof -
  have n: "name_ok (g_name g)" and s: "sha_ok (sha256_short g)" using g by (simp_all add: graft_okD)
  have [simp]: "begin_banner_with_sha (g_name g) m (sha256_short g) \<noteq> []" "end_banner (g_name g) m \<noteq> []"
    by (simp_all add: begin_banner_with_sha_def end_banner_def)
  show "graft_block m (g_name g, ls)"
    using n s w body trim_begin_banner [OF w(1) s] trim_end_banner [OF w(1)]
    by (auto simp: graft_block_def ls indent_line_def list_all_iff begin_banner_with_sha_eq text_simps butlast_append)
  show "list_all (slot_line m) ls"
    using slot_line_indent(1) [OF w] slot_line_banners [OF n s] body by (auto simp: ls list_all_iff)
qed

lemma block_lines_ok:
  assumes g: "graft_ok g" "block m g \<noteq> None" and w: "list_all white_space w" "10 \<notin> set w" and m: "m \<noteq> Peek"
  shows "graft_block m (g_name g, block_lines w m g)" "list_all (slot_line m) (block_lines w m g)"
proof -
  obtain b where b: "block m g = Some b" using g by blast
  have "\<forall>l\<in>set (expected_block_body g m w). quiet l \<and> slot_line m l"
    using graft_okD(3) [OF g(1) b m] slot_line_indent [OF w] by (auto simp: expected_block_body_def b)
  note * = graft_block_of [OF g(1) w this block_lines_def]
  show "graft_block m (g_name g, block_lines w m g)" "list_all (slot_line m) (block_lines w m g)" by (rule *)+
qed


lemma generated_line:
  assumes "list_all white_space w" "10 \<notin> set w" "l \<noteq> []" "\<not> white_space (hd l)" "hd l \<notin> {58, 47, 126}" "text_line l"
  shows "quiet (w @ l)" "slot_line m (w @ l)"
  using assms other_line [of l] by (simp_all add: slot_line_def indented list_all_iff text_line_append)

lemma stub_ok:
  assumes "is_valid_graft_name n"
  shows "binding_stub n \<noteq> []" "hd (binding_stub n) = hd n" "10 \<notin> set (binding_stub n)"
proof -
  have "hd n \<noteq> 45" "n \<noteq> []" using assms by (auto simp: is_valid_graft_name_def lowercase_def split: list.splits)
  moreover have "10 \<notin> set n" using assms by (rule valid_name_newline)
  ultimately show "binding_stub n \<noteq> []" "hd (binding_stub n) = hd n" "10 \<notin> set (binding_stub n)"
    by (auto simp: binding_stub_def strip_suffix_eq_Some hd_append split: option.splits)
qed

lemma name_hd:
  assumes "is_valid_graft_name n"
  shows "n \<noteq> []" "\<not> white_space (hd n)" "hd n \<notin> {58, 47, 126}" "last n \<noteq> 13"
proof -
  obtain c cs where n: "n = c # cs" "lowercase c" "\<forall>d\<in>set cs. lowercase d \<or> 48 \<le> d \<and> d \<le> 57 \<or> d = 45"
    using assms by (auto simp: is_valid_graft_name_def list_all_iff split: list.splits)
  have "\<not> white_space c" using n(2) by (auto simp: lowercase_def white_space_def)
  moreover have "\<forall>d\<in>set n. d \<noteq> 13" using n by (auto simp: lowercase_def)
  then have "last n \<noteq> 13" using n(1) by (metis last_in_set list.distinct(1))
  ultimately show "n \<noteq> []" "\<not> white_space (hd n)" "hd n \<notin> {58, 47, 126}" "last n \<noteq> 13"
    using n by (auto simp: lowercase_def)
qed

lemma peek_lines_ok:
  assumes g: "graft_ok g" "block Peek g \<noteq> None" and w: "list_all white_space w" "10 \<notin> set w"
  shows "graft_block Peek (g_name g, peek_lines w g)" "list_all (slot_line Peek) (peek_lines w g)"
proof -
  obtain b where b: "block Peek g = Some b" using g by blast
  have body: "text_line (trimmed_body b)" "trimmed_body b \<noteq> []" using graft_okD(4) [OF g(1) b] by auto
  have valid: "is_valid_graft_name (g_name g)" using graft_okD(1) [OF g(1)] by (simp add: name_ok_def)
  let ?stub = "binding_stub (g_name g)"
  let ?l1 = "lit ''=/  '' @ ?stub @ lit ''-res  '' @ trimmed_body b" and ?l2 = "lit ''?.  =(~ '' @ ?stub @ lit ''-res)  '' @ ?stub @ lit ''-res''"
  have "text_line ?l1" "text_line ?l2" using body stub_ok [OF valid] by (auto simp: text_line_def)
  then have "\<forall>l\<in>set [w @ ?l1, w @ ?l2]. quiet l \<and> slot_line Peek l"
    using generated_line [OF w, of ?l1] generated_line [OF w, of ?l2] by (simp add: white_space_def)
  moreover have "peek_lines w g = indent_line w (begin_banner_with_sha (g_name g) Peek (sha256_short g)) #
      [w @ ?l1, w @ ?l2] @ [indent_line w (end_banner (g_name g) Peek)]"
    unfolding peek_lines_def Let_def b by (simp add: indent_line_def begin_banner_with_sha_def end_banner_def)
  ultimately show "graft_block Peek (g_name g, peek_lines w g)" "list_all (slot_line Peek) (peek_lines w g)"
    by (rule graft_block_of [OF g(1) w])+
qed

fun import_blocks :: "ustr set \<Rightarrow> ustr \<Rightarrow> graft list \<Rightarrow> (ustr \<times> ustr list) list" where
  "import_blocks imported w [] = []"
| "import_blocks imported w (g # gs) =
     (let (kept, imported') = keep_imports imported (str_lines (trimmed_body (the (block Imports g))))
      in (g_name g, map (indent_line w)
           (begin_banner_with_sha (g_name g) Imports (sha256_short g) # kept @ [end_banner (g_name g) Imports])) #
         import_blocks imported' w gs)"

lemma flat_import_blocks: "flat (import_blocks imported w gs) = map (indent_line w) (imports_lines imported gs)"
  by (induction gs arbitrary: imported) (simp_all add: Let_def split: prod.split)

lemma import_names [simp]: "map fst (import_blocks imported w gs) = map g_name gs"
  by (induction gs arbitrary: imported) (simp_all add: Let_def split: prod.split)

lemma keep_imports_subset: "set (fst (keep_imports imported ls)) \<subseteq> set ls"
  by (induction imported ls rule: keep_imports.induct) (auto split: option.splits)

lemma import_blocks_ok:
  assumes "list_all graft_ok gs" "\<forall>g\<in>set gs. block Imports g \<noteq> None" "list_all white_space w" "10 \<notin> set w"
  shows "\<forall>b\<in>set (import_blocks imported w gs). graft_block Imports b \<and> list_all (slot_line Imports) (snd b)"
  using assms
proof (induction gs arbitrary: imported)
  case (Cons g gs)
  obtain b where b: "block Imports g = Some b" using Cons.prems by auto
  obtain kept imported' where k: "keep_imports imported (str_lines (trimmed_body b)) = (kept, imported')" by fastforce
  have "set kept \<subseteq> set (str_lines (trimmed_body b))" using keep_imports_subset [of imported] k by (metis fst_conv)
  then have "\<forall>l\<in>set (map (indent_line w) kept). quiet l \<and> slot_line Imports l"
    using graft_okD(3) [of g Imports b] Cons.prems b slot_line_indent [of w] by auto
  note * = graft_block_of [of g w, OF _ _ _ this]
  show ?case using Cons.IH [of imported'] Cons.prems * by (simp add: b k Let_def del: block.simps)
qed simp

definition variant_ok :: "ustr \<Rightarrow> bool" where
  "variant_ok v \<longleftrightarrow> v \<noteq> [] \<and> \<not> white_space (hd v) \<and> hd v \<notin> {58, 47, 126} \<and> text_line v"

lemma union_variants_ok:
  assumes "list_all graft_ok gs"
  shows "union_variants gs d \<noteq> [] \<and> list_all variant_ok (union_variants gs d)"
proof -
  have "variant_ok v" if "v \<in> set (List.map_filter (\<lambda>g. Option.bind (g_types g) effect_type) gs)" for v
    using that assms graft_okD(5) name_hd [of v] valid_name_newline [of v]
    by (fastforce simp: List.map_filter_def list_all_iff variant_ok_def text_line_def)
  moreover have "variant_ok (lit ''domain-effect'')" "variant_ok (lit ''[%effect-placeholder ~]'')"
    by (simp_all add: variant_ok_def white_space_def text_line_def)
  ultimately show ?thesis by (auto simp: union_variants_def Let_def list_all_iff)
qed


lemma codegen_pair_ok:
  assumes m: "codegen_marker m" and w: "list_all white_space w" "10 \<notin> set w"
    and body: "\<forall>l\<in>set body. quiet l \<and> slot_line m l"
  shows "slot_ok m [([], (w @ codegen_begin_banner m) # body @ [w @ codegen_end_banner m])]"
proof -
  have n: "name_ok (lit ''a'')" "sha_ok []"
    by (simp_all add: name_ok_def is_valid_graft_name_def lowercase_def all_markers_def sha_ok_def)
  have "codegen_begin_banner m \<noteq> []" "codegen_end_banner m \<noteq> []"
    by (simp_all add: codegen_begin_banner_def codegen_end_banner_def)
  then have "slot_line m (w @ codegen_begin_banner m)" "slot_line m (w @ codegen_end_banner m)"
    using slot_line_indent(1) [OF w, of m] slot_line_banners(3,4) [OF n, of m m] by (metis indent_line_def)+
  then show ?thesis
    using m body trim_codegen_banners [OF w(1), of m]
    by (auto simp: slot_ok_def codegen_block_def list_all_iff butlast_append)
qed

lemma union_block_ok:
  assumes w: "list_all white_space w" "10 \<notin> set w" and vs: "vs \<noteq> []" "list_all variant_ok vs"
  shows "slot_ok EffectUnion [([], render_effect_union_block w vs)]"
proof -
  let ?body = "[w @ lit ''+$  effect'', w @ lit ''  $%  '' @ hd vs] @ map (\<lambda>v. w @ lit ''      '' @ v) (tl vs) @ [w @ lit ''  =='']"
  have w': "list_all white_space (w @ lit ''  '')" "10 \<notin> set (w @ lit ''  '')"
    "list_all white_space (w @ lit ''      '')" "10 \<notin> set (w @ lit ''      '')"
    using w by (simp_all add: list_all_iff)
  have v: "variant_ok v" if "v \<in> set vs" for v using vs(2) that by (simp add: list_all_iff)
  have "quiet (w @ lit ''+$  effect'') \<and> slot_line EffectUnion (w @ lit ''+$  effect'')"
    using generated_line [OF w, of "lit ''+$  effect''"] by (simp add: white_space_def text_line_def)
  moreover have "quiet (w @ lit ''  $%  '' @ hd vs) \<and> slot_line EffectUnion (w @ lit ''  $%  '' @ hd vs)"
    using generated_line [OF w'(1,2), of "lit ''$%  '' @ hd vs"] v [of "hd vs"] vs(1)
    by (auto simp: text_line_def variant_ok_def)
  moreover have "quiet (w @ lit ''      '' @ v) \<and> slot_line EffectUnion (w @ lit ''      '' @ v)" if "v \<in> set (tl vs)" for v
    using generated_line [OF w'(3,4), of v] assms(3) assms(4) that
    by (simp add: list_all_iff variant_ok_def list.set_sel(2))
  moreover have "quiet (w @ lit ''  =='') \<and> slot_line EffectUnion (w @ lit ''  =='')"
    using generated_line [OF w'(1,2), of "lit ''==''"] by (simp add: white_space_def text_line_def)
  ultimately have "\<forall>l\<in>set ?body. quiet l \<and> slot_line EffectUnion l" by simp
  from codegen_pair_ok [OF _ w this] show ?thesis
    by (simp add: codegen_marker_def render_effect_union_block_def)
qed

lemma defaults_block_ok:
  assumes w: "list_all white_space w" "10 \<notin> set w" and gs: "list_all graft_ok gs"
  shows "slot_ok LoadDefaults [([], render_load_defaults_block w gs names)]"
proof -
  let ?body = "if names = [] then [w @ lit ''^*(versioned-state)'']
    else [w @ lit ''=/  defaults  ^*(versioned-state)'', w @ lit ''%_  defaults''] @ map (default_line w) (stateful gs) @ [w @ lit ''=='']"
  have w': "list_all white_space (w @ lit ''    '')" "10 \<notin> set (w @ lit ''    '')" using w by (simp_all add: list_all_iff)
  have "quiet (default_line w g) \<and> slot_line LoadDefaults (default_line w g)" if "g \<in> set (stateful gs)" for g
  proof -
    have valid: "is_valid_graft_name (g_name g)" using gs that graft_okD(1) by (auto simp: stateful_def list_all_iff name_ok_def)
    let ?s = "binding_stub (g_name g)"
    obtain c cs where cs: "?s = c # cs" "c \<noteq> 10" "10 \<notin> set cs" using stub_ok [OF valid] by (cases ?s) auto
    let ?l = "?s @ lit ''  =/  '' @ [c] @ lit ''  (mole |.(;;('' @ ?s @ lit ''-state '' @ ?s @
         lit ''.old-state)))  ?~('' @ [c] @ lit '' ^*('' @ ?s @ lit ''-state) u.'' @ [c] @ lit '')''"
    have hd: "hd ?l = hd (g_name g)" using cs stub_ok(2) [OF valid] by simp
    have tl: "text_line ?l" using cs by (simp add: text_line_def del: lit_Cons) simp
    have "quiet ((w @ lit ''    '') @ ?l) \<and> slot_line LoadDefaults ((w @ lit ''    '') @ ?l)"
      using generated_line [OF w', of ?l] name_hd [OF valid] hd tl cs by (simp del: lit_Cons append_assoc)
    moreover have "default_line w g = (w @ lit ''    '') @ ?l" by (simp add: default_line_def Let_def cs(1))
    ultimately show ?thesis by (simp only:)
  qed
  then have "\<forall>l\<in>set ?body. quiet l \<and> slot_line LoadDefaults l"
    using generated_line [OF w, of "lit ''^*(versioned-state)''"] generated_line [OF w, of "lit ''=/  defaults  ^*(versioned-state)''"]
      generated_line [OF w, of "lit ''%_  defaults''"] generated_line [OF w, of "lit ''==''"]
    by (simp add: white_space_def text_line_def)
  from codegen_pair_ok [OF _ w this] show ?thesis
    by (simp add: codegen_marker_def render_load_defaults_block_def)
qed

end
