(* ===== verification/Recompose.thy ===== *)
theory Recompose
  imports Documents
begin

text \<open>
  What a run of the composer does to a whole kernel: every step of \<open>inject\<close> is an update of the environment of its
  skeleton, and the environment after a run depends on the active grafts alone.
\<close>

subsection \<open>Stripping and pruning\<close>

lemma slot_ok_without: "slot_ok m bs \<Longrightarrow> name_ok n \<Longrightarrow> slot_ok m (without n bs)"
proof (cases "codegen_marker m")
  case True
  assume "slot_ok m bs" "name_ok n"
  then have "map fst bs = [[]]" "n \<noteq> []" using True by (auto simp: slot_ok_def name_ok_def is_valid_graft_name_def)
  then have "without n bs = bs" by (auto simp: without_def map_eq_Cons_conv)
  then show "slot_ok m (without n bs)" using \<open>slot_ok m bs\<close> by simp
qed (auto simp: slot_ok_def without_def list_all_iff distinct_map_filter)

lemma env_ok_upd: "env_ok items env \<Longrightarrow> slot_ok m bs \<Longrightarrow> env_ok items (env(m := bs))"
  by (simp add: env_ok_def list_all_iff)

definition drop_names :: "ustr set \<Rightarrow> (ustr \<times> ustr list) list \<Rightarrow> (ustr \<times> ustr list) list" where
  "drop_names ns bs = filter (\<lambda>b. fst b \<notin> ns) bs"

lemma drop_names_simps [simp]: "drop_names {} bs = bs" "drop_names ns (without n bs) = drop_names (insert n ns) bs"
  by (auto simp: drop_names_def without_def intro: filter_cong)

lemma strip_grafts_render:
  assumes "skeleton_ok items" "env_ok items env" "\<forall>g\<in>set gs. name_ok (g_name g)"
  shows "strip_grafts m gs (render env items) = render (env(m := drop_names (g_name ` set gs) (env m))) items \<and>
    env_ok items (env(m := drop_names (g_name ` set gs) (env m)))"
  using assms
proof (induction gs arbitrary: env)
  case (Cons g gs)
  have plain: "plain_ok items" using Cons.prems by (simp add: skeleton_ok_def)
  let ?env = "env(m := without (g_name g) (env m))"
  have "env_ok items ?env"
  proof (cases "Slot m \<in> set items")
    case True then show ?thesis using Cons.prems by (intro env_ok_upd slot_ok_without env_okD) auto
  next
    case False then show ?thesis using Cons.prems by (auto simp: env_ok_def slots_def list_all_iff)
  qed
  then have "strip_grafts m gs (render ?env items) = render (?env(m := drop_names (g_name ` set gs) (?env m))) items \<and>
      env_ok items (?env(m := drop_names (g_name ` set gs) (?env m)))"
    using Cons.IH [OF Cons.prems(1) \<open>env_ok items ?env\<close>] Cons.prems(3) by (metis list.set_intros(2))
  moreover have "?env(m := drop_names (g_name ` set gs) (?env m)) = env(m := drop_names (g_name ` set (g # gs)) (env m))"
    by (simp add: fun_eq_iff)
  moreover have "strip_grafts m (g # gs) (render env items) = strip_grafts m gs (render ?env items)"
    using strip_slot(1) [OF plain Cons.prems(2) _ skeleton_single [OF Cons.prems(1)], of "g_name g" m] Cons.prems(3)
    by (simp only: strip_grafts_def fold_simps) simp
  ultimately show ?case by (simp only:)
qed (simp add: strip_grafts_def)

definition prune_env :: "ustr \<Rightarrow> marker list \<Rightarrow> environment \<Rightarrow> environment" where
  "prune_env n ms env = (\<lambda>m. if m \<in> set ms then without n (env m) else env m)"

lemma env_ok_prune:
  "env_ok items env \<Longrightarrow> name_ok n \<Longrightarrow> env_ok items (prune_env n ms env)"
  by (auto simp: env_ok_def list_all_iff prune_env_def slot_ok_without)

lemma prune_markers_render:
  assumes "skeleton_ok items" "env_ok items env" "name_ok n" "distinct ms"
  shows "fst (prune_markers n ms (render env items)) = render (prune_env n ms env) items"
  using assms
proof (induction ms arbitrary: env)
  case Nil then show ?case by (simp add: prune_env_def)
next
  case (Cons m ms)
  let ?env = "env(m := without n (env m))"
  have plain: "plain_ok items" using Cons.prems by (simp add: skeleton_ok_def)
  have 1: "?env = prune_env n [m] env" by (auto simp: prune_env_def)
  then have "env_ok items ?env" using Cons.prems by (metis env_ok_prune)
  then have "fst (prune_markers n ms (render ?env items)) = render (prune_env n ms ?env) items"
    using Cons by simp
  moreover have "prune_env n ms ?env = prune_env n (m # ms) env" using Cons.prems by (auto simp: prune_env_def)
  moreover have "fst (strip_banner_pair (render env items) n m) = render ?env items"
    using strip_slot(1) [OF plain Cons.prems(2,3) skeleton_single [OF Cons.prems(1)]] .
  ultimately show ?case
    by (cases "strip_banner_pair (render env items) n m") (auto split: option.splits)
qed

lemma distinct_all_markers [simp]: "distinct all_markers"
  by (simp add: all_markers_def)

lemma prune_orphans_render:
  assumes "skeleton_ok items" "env_ok items env" "\<forall>n\<in>set ns. name_ok n"
  shows "fst (prune_orphans ns (render env items)) = render (\<lambda>m. drop_names (set ns) (env m)) items \<and>
    env_ok items (\<lambda>m. drop_names (set ns) (env m))"
  using assms
proof (induction ns arbitrary: env)
  case (Cons n ns)
  let ?env = "prune_env n all_markers env"
  have env: "?env = (\<lambda>m. without n (env m))" by (simp add: prune_env_def)
  have 1: "fst (prune_markers n all_markers (render env items)) = render ?env items"
    using Cons.prems by (intro prune_markers_render) auto
  have 2: "env_ok items ?env" using Cons.prems by (simp add: env_ok_prune)
  have "fst (prune_orphans ns (render ?env items)) = render (\<lambda>m. drop_names (set (n # ns)) (env m)) items \<and>
      env_ok items (\<lambda>m. drop_names (set (n # ns)) (env m))"
    using Cons.IH [OF Cons.prems(1) 2] Cons.prems(3) by (simp add: env)
  with 1 show ?case by (cases "prune_markers n all_markers (render env items)") (auto split: if_splits)
qed simp

lemma split_once_colon: "58 \<notin> set n \<Longrightarrow> split_once (lit '':'') (n @ 58 # t) = Some (n, t)"
  by (induction n) (subst split_once.simps, simp add: starts_with_def)+

definition line_orphan :: "ustr set \<Rightarrow> ustr \<Rightarrow> ustr option" where
  "line_orphan active line =
     (case strip_prefix BANNER_PREFIX (trim_start line) of
        None \<Rightarrow> None
      | Some rest \<Rightarrow>
          (case split_once (lit '':'') rest of
             None \<Rightarrow> None
           | Some (segment, _) \<Rightarrow>
               if segment \<in> set (map label all_markers) \<or> segment \<in> active then None else Some segment))"

lemma set_orphans: "set (orphan_graft_names lines active) = {n. \<exists>l\<in>set lines. line_orphan active l = Some n}"
  by (auto simp: orphan_graft_names_def line_orphan_def [symmetric] in_map_filter)

lemma line_orphan_quiet: "quiet l \<Longrightarrow> line_orphan active l = None"
  by (simp add: quiet_def line_orphan_def strip_prefix_def)

lemma line_orphan_banner:
  assumes "trim l = BANNER_PREFIX @ n @ 58 # t" "58 \<notin> set n"
  shows "line_orphan active l = (if n \<in> set (map label all_markers) \<or> n \<in> active then None else Some n)"
proof -
  obtain w where "trim_start l = trim l @ w" using trim_prefix [of l] by (auto simp: starts_with_iff)
  then have "trim_start l = BANNER_PREFIX @ n @ 58 # (t @ w)" using assms by simp
  then show ?thesis using assms(2) by (simp add: line_orphan_def text_simps split_once_colon del: lit_Cons)
qed

lemma line_orphan_inactive: "line_orphan active l = Some n \<Longrightarrow> n \<notin> active"
  by (auto simp: line_orphan_def split: option.split_asm prod.split_asm if_split_asm simp del: lit_Cons)

lemma orphans_render:
  assumes ok: "skeleton_ok items" "env_ok items env"
  shows "\<forall>n\<in>set (orphan_graft_names (render env items) active). name_ok n"
    and "Slot m \<in> set items \<Longrightarrow> \<not> codegen_marker m \<Longrightarrow> n \<in> fst ` set (env m) \<Longrightarrow> n \<notin> active \<Longrightarrow>
      n \<in> set (orphan_graft_names (render env items) active)"
    and "set (orphan_graft_names (render env items) active) \<inter> active = {}"
proof -
  have plain: "plain_ok items" using ok by (simp add: skeleton_ok_def)
  show "\<forall>n\<in>set (orphan_graft_names (render env items) active). name_ok n"
  proof
    fix n assume "n \<in> set (orphan_graft_names (render env items) active)"
    then obtain l where l: "l \<in> set (render env items)" "line_orphan active l = Some n" by (auto simp: set_orphans)
    then have nq: "\<not> quiet l" using line_orphan_quiet by fastforce
    then have "\<not> Plain l \<in> set items" using plain plain_okD by blast
    then obtain m k ls where s: "Slot m \<in> set items" "(k, ls) \<in> set (env m)" "l \<in> set ls"
      using l(1) by (auto simp: set_render)
    from env_okD [OF ok(2) s(1)] s(2,3) show "name_ok n"
    proof (cases rule: slot_line_cases)
      case (begin_b t)
      then show ?thesis using l(2) line_orphan_banner [of l k] by (auto simp: begin_banner_def name_ok_colon split: if_splits)
    next
      case end_b
      then show ?thesis using l(2) line_orphan_banner [of l k] by (auto simp: end_banner_def name_ok_colon split: if_splits)
    next
      case codegen
      then show ?thesis using l(2) line_orphan_banner [of l "label m"] label_in [of m]
        by (auto simp: codegen_begin_banner_def codegen_end_banner_def)
    qed (use nq in simp)
  qed
  show "set (orphan_graft_names (render env items) active) \<inter> active = {}"
    by (auto simp: set_orphans dest: line_orphan_inactive)
  assume s: "Slot m \<in> set items" "\<not> codegen_marker m" "n \<in> fst ` set (env m)" "n \<notin> active"
  then obtain ls where ls: "(n, ls) \<in> set (env m)" by auto
  then have "graft_block m (n, ls)" using env_okD [OF ok(2) s(1)] s(2) by (auto simp: slot_ok_def list_all_iff)
  then obtain b body e t where b: "ls = b # body @ [e]" "name_ok n" "trim b = begin_banner n m @ t" by (rule graft_blockE)
  then have "line_orphan active b = Some n"
    using line_orphan_banner [of b n] s(4) by (simp add: begin_banner_def name_ok_colon) (simp add: name_ok_def)
  moreover have "b \<in> set (render env items)" using s(1) ls b by (force simp: set_render)
  ultimately show "n \<in> set (orphan_graft_names (render env items) active)" by (auto simp: set_orphans)
qed


subsection \<open>The section of a marker\<close>

definition base_imports :: "item list \<Rightarrow> ustr set" where
  "base_imports items = set (concat (map (\<lambda>i. case i of Plain l \<Rightarrow> (case parse_glob_import l of None \<Rightarrow> [] | Some n \<Rightarrow> [n]) | Slot m \<Rightarrow> []) items))"

definition marker_section :: "item list \<Rightarrow> graft list \<Rightarrow> marker \<Rightarrow> ustr \<Rightarrow> (ustr \<times> ustr list) list" where
  "marker_section items gs m w =
     (case m of
        Imports \<Rightarrow> import_blocks (base_imports items) w (grafts_at m gs)
      | Peek \<Rightarrow> map (\<lambda>g. (g_name g, peek_lines w g)) (grafts_at m gs)
      | _ \<Rightarrow> map (\<lambda>g. (g_name g, block_lines w m g)) (grafts_at m gs))"

lemma marker_section_names: "map fst (marker_section items gs m w) = map g_name (grafts_at m gs)"
  by (cases m) (simp_all add: marker_section_def comp_def)

lemma marker_section_empty: "grafts_at m gs = [] \<Longrightarrow> marker_section items gs m w = []"
  using marker_section_names [of items gs m w] by simp

lemma marker_section_ok:
  assumes gs: "grafts_ok gs" and w: "list_all white_space w" "10 \<notin> set w" and m: "\<not> codegen_marker m"
  shows "slot_ok m (marker_section items gs m w)"
proof -
  have at_m: "g \<in> set (grafts_at m gs) \<Longrightarrow> graft_ok g \<and> block m g \<noteq> None" for g
    using gs by (auto simp: grafts_at_def grafts_ok_def list_all_iff)
  have "distinct (map fst (marker_section items gs m w))"
    unfolding marker_section_names using gs by (simp add: grafts_at_def grafts_ok_def distinct_map_filter)
  moreover have "\<forall>b\<in>set (marker_section items gs m w). graft_block m b \<and> list_all (slot_line m) (snd b)"
  proof (cases "m = Imports")
    case True
    have "list_all graft_ok (grafts_at m gs)" using at_m by (simp add: list_all_iff)
    then show ?thesis
      using import_blocks_ok [of "grafts_at m gs" w "base_imports items"] at_m w True
      by (simp add: marker_section_def del: block.simps)
  next
    case no_imports: False
    show ?thesis
    proof (cases "m = Peek")
      case True
      then show ?thesis using at_m peek_lines_ok [OF _ _ w] by (simp add: marker_section_def del: block.simps)
    next
      case False
      then have "marker_section items gs m w = map (\<lambda>g. (g_name g, block_lines w m g)) (grafts_at m gs)"
        using no_imports by (cases m) (simp_all add: marker_section_def)
      then show ?thesis using at_m block_lines_ok [OF _ _ w False] by auto
    qed
  qed
  ultimately show ?thesis using m by (simp add: slot_ok_def list_all_iff)
qed

fun calm :: "ustr list \<Rightarrow> bool" where
  "calm [] = True"
| "calm (l # ls) = (trim l = lit ''=='' \<or> trim l \<noteq> lit ''~'' \<and> calm ls)"

lemma calm_append: "\<forall>l\<in>set xs. trim l \<noteq> lit ''~'' \<Longrightarrow> calm ys \<Longrightarrow> calm (xs @ ys)"
  by (induction xs) auto

lemma calm_render: "env_ok items env \<Longrightarrow> no_tilde items \<Longrightarrow> calm (render env items)"
proof (induction items rule: no_tilde.induct)
  case (2 l items)
  then show ?case by (auto simp: env_ok_def slots_def list_all_iff)
next
  case (3 m items)
  have "env_ok items env" using 3 by (auto simp: env_ok_def slots_def list_all_iff)
  moreover have "\<forall>l\<in>set (flat (env m)). trim l \<noteq> lit ''~''"
    using env_okD [OF 3(2), of m] by (auto simp: slot_ok_def flat_def list_all_iff slot_line_def)
  ultimately show ?case using 3 by (simp add: calm_append del: lit_Cons)
qed simp

lemma last_tilde_calm: "calm ls \<Longrightarrow> last_tilde i ls found = found"
  by (induction ls arbitrary: i) (auto simp: Let_def)

lemma last_tilde_at:
  assumes "\<forall>l\<in>set xs. trim l \<noteq> lit ''==''" "trim t = lit ''~''" "calm ys"
  shows "last_tilde i (xs @ t # ys) found = Some (i + length xs)"
  using assms
proof (induction xs arbitrary: i found)
  case Nil then show ?case by (simp add: last_tilde_calm Let_def)
next
  case (Cons l xs) then show ?case by (simp add: Let_def)
qed

lemma base_imports_render:
  assumes env: "env_ok items env" and empty: "env Imports = []"
  shows "set (List.map_filter parse_glob_import (render env items)) = base_imports items"
proof -
  have "n \<in> set (List.map_filter parse_glob_import (render env items)) \<longleftrightarrow> n \<in> base_imports items" for n
  proof -
    have no: "parse_glob_import l = None" if "Slot m \<in> set items" "(k, ls) \<in> set (env m)" "l \<in> set ls" for m k ls l
      using env_okD [OF env that(1)] that(2,3) empty by (cases "m = Imports") (auto simp: slot_ok_def list_all_iff slot_line_def)
    have "n \<in> set (List.map_filter parse_glob_import (render env items)) \<longleftrightarrow>
        (\<exists>l\<in>set (render env items). parse_glob_import l = Some n)"
      by (rule in_map_filter)
    also have "\<dots> \<longleftrightarrow> (\<exists>l. Plain l \<in> set items \<and> parse_glob_import l = Some n)"
      using no by (fastforce simp: set_render)
    also have "\<dots> \<longleftrightarrow> n \<in> base_imports items"
      by (force simp: base_imports_def split: item.splits option.splits)
    finally show ?thesis .
  qed
  then show ?thesis by blast
qed


lemma list_ex_none_at: "\<not> list_ex (\<lambda>g. block m g = None) (grafts_at m gs)"
  by (auto simp: list_ex_iff grafts_at_def simp del: block.simps)

lemma canonicalize_render:
  assumes sk: "skeleton_ok items" and env: "env_ok items env" and gs: "grafts_ok gs"
    and items: "items = pre @ Plain l # mid @ Slot m # post" and l: "is_marker_line m l"
    and pre: "\<forall>i\<in>set pre. \<not> marker_item m i" and single: "Slot m \<notin> set (pre @ mid @ post)" and rm: "room m mid post"
    and m: "\<not> codegen_marker m" and covers: "fst ` set (env m) \<subseteq> g_name ` set (grafts_at m gs)"
  shows "canonicalize_marker_section (render env items) m w (grafts_at m gs) =
    Ok (render (env(m := marker_section items gs m w)) items)"
proof (cases "grafts_at m gs = []")
  case True
  then have "env m = []" using covers by simp
  then have "env(m := []) = env" by auto
  with True show ?thesis by (simp add: canonicalize_marker_section_def marker_section_empty)
next
  case False
  let ?gs = "grafts_at m gs" and ?env = "env(m := [])" and ?new = "marker_section items gs m w"
  have names: "\<forall>g\<in>set ?gs. name_ok (g_name g)"
    using gs by (auto simp: grafts_at_def grafts_ok_def list_all_iff graft_okD)
  have "drop_names (g_name ` set ?gs) (env m) = []" using covers by (auto simp: drop_names_def filter_empty_conv)
  then have strip: "strip_grafts m ?gs (render env items) = render ?env items" and env': "env_ok items ?env"
    using strip_grafts_render [OF sk env names, of m] by simp_all
  let ?idx = "length (render env pre)"
  have find: "find_marker (render ?env items) m = Some ?idx"
    using find_marker_at [OF env' items pre l] single by simp
  let ?A = "render env pre @ l # render env mid" and ?C = "render env post"
  have R: "render ?env items = ?A @ ?C" using single by (simp add: items)
  have goal: "render (env(m := ?new)) items = ?A @ flat ?new @ ?C" using single by (simp add: items)
  show ?thesis
  proof (cases "m = Peek")
    case True
    obtain t rest where post: "post = Plain t # rest" "trim t = lit ''~''" "no_tilde rest"
      and mid: "list_all (\<lambda>i. case i of Plain l \<Rightarrow> trim l \<noteq> lit ''=='' | Slot _ \<Rightarrow> False) mid"
      using rm True by (auto simp: room_def simp del: lit_Cons split: list.splits item.splits)
    have "env_ok rest env" using env by (auto simp: items post env_ok_def slots_def list_all_iff)
    then have c: "calm (render env rest)" using post(3) by (rule calm_render)
    have "\<forall>x\<in>set (render env mid). trim x \<noteq> lit ''==''"
      using mid by (fastforce simp: set_render list_all_iff simp del: lit_Cons split: item.splits)
    then have t: "find_last_bare_tilde (render ?env items) ?idx = Some (length ?A)"
      unfolding find_last_bare_tilde_def R using last_tilde_at [OF _ post(2) c] by (simp add: post(1))
    have "flat ?new = concat (map (peek_lines w) ?gs)"
      by (simp add: True marker_section_def flat_def comp_def)
    then show ?thesis
      using False [unfolded True] find [unfolded True] t [unfolded True] list_ex_none_at [of Peek gs] goal [unfolded True]
      by (simp add: True canonicalize_marker_section_def strip [unfolded True] emit_peek_chain_def Let_def insert_lines_def
          R [unfolded True] del: block.simps)
  next
    case no_peek: False
    then have mid: "mid = []" using rm by (simp add: room_def)
    show ?thesis
    proof (cases "m = Imports")
      case True
      have "set (List.map_filter parse_glob_import (render ?env items)) = base_imports items"
        by (rule base_imports_render) (use env' True in simp_all)
      moreover have "flat ?new = map (indent_line w) (imports_lines (base_imports items) ?gs)"
        by (simp add: True marker_section_def flat_import_blocks)
      ultimately show ?thesis
        using False [unfolded True] find [unfolded True] list_ex_none_at [of Imports gs] goal [unfolded True]
        by (simp add: True canonicalize_marker_section_def strip [unfolded True] emit_imports_block_def Let_def
            insert_lines_def R [unfolded True] mid del: block.simps)
    next
      case other: False
      have "flat ?new = concat (map (block_lines w m) ?gs)"
        using no_peek other by (cases m) (simp_all add: marker_section_def flat_def comp_def)
      moreover have "canonicalize_marker_section (render env items) m w ?gs = Ok (emit_block (render ?env items) ?idx w m ?gs)"
        using False no_peek other
        by (simp add: canonicalize_marker_section_def strip find Let_def split: marker.split)
      ultimately show ?thesis
        using goal by (simp add: emit_block_def insert_lines_def R mid)
    qed
  qed
qed


definition present :: "item list \<Rightarrow> marker \<Rightarrow> bool" where
  "present items m \<longleftrightarrow> list_ex (marker_item m) items"

definition indent_at :: "item list \<Rightarrow> marker \<Rightarrow> ustr" where
  "indent_at items m = (case List.find (marker_item m) items of Some (Plain l) \<Rightarrow> leading_whitespace l | _ \<Rightarrow> [])"

definition covers :: "graft list \<Rightarrow> item list \<Rightarrow> environment \<Rightarrow> bool" where
  "covers gs items env \<longleftrightarrow>
     list_all (\<lambda>m. codegen_marker m \<or> list_all (\<lambda>b. fst b \<in> g_name ` set (grafts_at m gs)) (env m)) (slots items)"

lemma coversD: "covers gs items env \<Longrightarrow> Slot m \<in> set items \<Longrightarrow> \<not> codegen_marker m \<Longrightarrow>
    fst ` set (env m) \<subseteq> g_name ` set (grafts_at m gs)"
  by (auto simp: covers_def slots_def list_all_iff)

lemma grafts_at_generated: "codegen_marker m \<or> m = DomainEffect \<Longrightarrow> grafts_at m gs = []"
  by (auto simp: codegen_marker_def grafts_at_def)

lemma indent_at_eq: "\<forall>i\<in>set pre. \<not> marker_item m i \<Longrightarrow> is_marker_line m l \<Longrightarrow>
    indent_at (pre @ Plain l # post) m = leading_whitespace l"
  by (simp add: indent_at_def find_item_at)

lemma indent_at_white: "skeleton_ok items \<Longrightarrow> list_all white_space (indent_at items m) \<and> 10 \<notin> set (indent_at items m)"
proof (cases "List.find (marker_item m) items")
  case (Some i)
  assume sk: "skeleton_ok items"
  have "i \<in> set items" "marker_item m i" using Some by (auto simp: find_Some_iff)
  then obtain l where l: "i = Plain l" "Plain l \<in> set items" by (metis item.exhaust marker_item.simps(2))
  then have "10 \<notin> set l" using sk plain_okD [of items l] by (simp add: skeleton_ok_def text_line_def)
  then show ?thesis using Some l by (auto simp: indent_at_def leading_whitespace_def list_all_iff dest: set_takeWhileD)
qed (simp add: indent_at_def)

definition section_of :: "item list \<Rightarrow> graft list \<Rightarrow> marker \<Rightarrow> (ustr \<times> ustr list) list" where
  "section_of items gs m = marker_section items gs m (indent_at items m)"

lemma section_of_ok: "skeleton_ok items \<Longrightarrow> grafts_ok gs \<Longrightarrow> \<not> codegen_marker m \<Longrightarrow> slot_ok m (section_of items gs m)"
  unfolding section_of_def using indent_at_white by (intro marker_section_ok) auto

lemma marker_pass_render:
  assumes sk: "skeleton_ok items" and env: "env_ok items env" and gs: "grafts_ok gs" and p: "p_lines p = render env items"
    and cov: "Slot m \<in> set items \<Longrightarrow> \<not> codegen_marker m \<Longrightarrow> fst ` set (env m) \<subseteq> g_name ` set (grafts_at m gs)"
  shows "(marker_pass gs m p :: ('e, pass) outcome) = Ok
    (if present items m then
       p\<lparr>p_lines := render (if codegen_marker m then env else env(m := section_of items gs m)) items,
         markers_in_source := markers_in_source p @ [m],
         per_graft := fold (note_graft (render env items) m) (grafts_at m gs) (per_graft p)\<rparr>
     else p\<lparr>markers_missing := markers_missing p @ [m]\<rparr>)"
  using skeleton_section [OF sk, of m]
proof (cases rule: section_okE)
  case no_slot
  show ?thesis
  proof (cases "present items m")
    case False
    then have "find_marker (render env items) m = None"
      using find_marker_none [OF env] by (simp add: present_def list_ex_iff)
    with False show ?thesis by (simp add: marker_pass_def p)
  next
    case True
    then have m: "m = DomainEffect" using no_slot by (auto simp: present_def list_ex_iff)
    obtain pre i post where items: "items = pre @ i # post" "marker_item m i" "\<forall>j\<in>set pre. \<not> marker_item m j"
      using True split_list_first_prop [of items "marker_item m"] by (auto simp: present_def list_ex_iff)
    then obtain l where "i = Plain l" "is_marker_line m l" by (cases i) auto
    then have "find_marker (render env items) m = Some (length (render env pre))"
      using find_marker_at [OF env] items by simp
    with True m no_slot show ?thesis
      by (simp add: marker_pass_def p grafts_at_generated canonicalize_marker_section_def codegen_marker_def Let_def)
  qed
next
  case (here pre l mid post)
  have pr: "present items m" using here by (simp add: present_def)
  have f: "find_marker (render env items) m = Some (length (render env pre))"
    using find_marker_at [OF env here(1,3,2)] .
  have ind: "leading_whitespace (render env items ! length (render env pre)) = indent_at items m"
    using here indent_at_eq [OF here(3,2)] by (simp add: nth_append)
  show ?thesis
  proof (cases "codegen_marker m")
    case True
    with pr f show ?thesis
      by (simp add: marker_pass_def p grafts_at_generated canonicalize_marker_section_def Let_def)
  next
    case False
    have "(canonicalize_marker_section (render env items) m (indent_at items m) (grafts_at m gs) :: ('e, ustr list) outcome) =
        Ok (render (env(m := section_of items gs m)) items)"
      unfolding section_of_def
      by (rule canonicalize_render [OF sk env gs here(1,2,3,4,5) False cov]) (use here False in auto)
    with pr f ind False show ?thesis by (simp add: marker_pass_def p Let_def)
  qed
qed

definition passed :: "item list \<Rightarrow> graft list \<Rightarrow> marker list \<Rightarrow> environment \<Rightarrow> environment" where
  "passed items gs ms env = (\<lambda>m. if m \<in> set ms \<and> \<not> codegen_marker m then section_of items gs m else env m)"

lemma env_ok_passed: "skeleton_ok items \<Longrightarrow> env_ok items env \<Longrightarrow> grafts_ok gs \<Longrightarrow> env_ok items (passed items gs ms env)"
  by (auto simp: env_ok_def list_all_iff passed_def section_of_ok)

text \<open>What a pass over a marker leaves of the report of a graft: its name and its markers.\<close>

definition kept :: "(ustr \<rightharpoonup> graft_report) \<Rightarrow> ustr \<rightharpoonup> ustr \<times> marker list" where
  "kept reports = (\<lambda>n. map_option (\<lambda>r. (r_name r, applicable r)) (reports n))"

lemma kept_note_graft [simp]: "kept (note_graft lines m g reports) = kept reports"
  by (auto simp: kept_def note_graft_def note_status_def fun_eq_iff option.map_comp comp_def intro!: map_option_cong)

lemma kept_note_grafts [simp]: "kept (fold (note_graft lines m) gs reports) = kept reports"
  by (induction gs arbitrary: reports) auto

lemma section_of_owner: "b \<in> set (section_of items gs m) \<Longrightarrow> fst b \<in> g_name ` set (grafts_at m gs)"
  using marker_section_names [of items gs m "indent_at items m"] unfolding section_of_def by (metis image_eqI image_set)

lemma marker_passes_render:
  assumes "skeleton_ok items" "env_ok items env" "grafts_ok gs" "p_lines p = render env items" "covers gs items env"
    "distinct ms"
  shows "\<exists>p'. (marker_passes gs ms p :: ('e, pass) outcome) = Ok p' \<and> p_lines p' = render (passed items gs ms env) items \<and>
    markers_in_source p' = markers_in_source p @ filter (present items) ms \<and>
    markers_missing p' = markers_missing p @ filter (\<lambda>m. \<not> present items m) ms \<and>
    kept (per_graft p') = kept (per_graft p)"
  using assms
proof (induction ms arbitrary: p env)
  case Nil then show ?case by (simp add: passed_def)
next
  case (Cons m ms)
  let ?env = "passed items gs [m] env"
  have env: "env_ok items ?env" using Cons.prems by (intro env_ok_passed) auto
  have slot: "Slot m \<in> set items \<Longrightarrow> present items m"
    using skeleton_section [OF Cons.prems(1), of m] by (auto elim!: section_okE simp: present_def)
  obtain p1 where p1: "(marker_pass gs m p :: ('e, pass) outcome) = Ok p1" "p_lines p1 = render ?env items"
      "markers_in_source p1 = markers_in_source p @ filter (present items) [m]"
      "markers_missing p1 = markers_missing p @ filter (\<lambda>m. \<not> present items m) [m]" "kept (per_graft p1) = kept (per_graft p)"
  proof -
    have "render (if codegen_marker m then env else env(m := section_of items gs m)) items = render ?env items"
      by (rule arg_cong [where f = "\<lambda>e. render e items"]) (auto simp: passed_def fun_eq_iff)
    moreover have "render env items = render ?env items" if "\<not> present items m"
      by (rule render_cong) (use that slot in \<open>auto simp: passed_def\<close>)
    moreover have "(marker_pass gs m p :: ('e, pass) outcome) = Ok
      (if present items m then
         p\<lparr>p_lines := render (if codegen_marker m then env else env(m := section_of items gs m)) items,
           markers_in_source := markers_in_source p @ [m],
           per_graft := fold (note_graft (render env items) m) (grafts_at m gs) (per_graft p)\<rparr>
       else p\<lparr>markers_missing := markers_missing p @ [m]\<rparr>)"
      using coversD [OF Cons.prems(5)] by (intro marker_pass_render [OF Cons.prems(1-4)]) auto
    ultimately show ?thesis
      using Cons.prems(4) that by (cases "present items m") simp_all
  qed
  have cov: "covers gs items ?env"
    using Cons.prems(5) by (simp add: covers_def list_all_iff passed_def section_of_owner)
  have same: "passed items gs ms ?env = passed items gs (m # ms) env" by (auto simp: passed_def fun_eq_iff)
  obtain p' where p': "(marker_passes gs ms p1 :: ('e, pass) outcome) = Ok p'"
      "p_lines p' = render (passed items gs ms ?env) items"
      "markers_in_source p' = markers_in_source p1 @ filter (present items) ms"
      "markers_missing p' = markers_missing p1 @ filter (\<lambda>m. \<not> present items m) ms"
      "kept (per_graft p') = kept (per_graft p1)"
    using Cons.IH [OF Cons.prems(1) env Cons.prems(3) p1(2) cov] Cons.prems(6) by auto
  show ?case
    using p' p1(1,3,4,5) unfolding same by (intro exI [of _ p']) simp
qed


subsection \<open>The generated blocks\<close>

lemma no_codegen_banner:
  assumes ok: "plain_ok items" "env_ok items env" and absent: "Slot m \<notin> set items" and l: "l \<in> set (render env items)"
  shows "trim l \<noteq> codegen_begin_banner m \<and> trim l \<noteq> codegen_end_banner m"
proof -
  consider "Plain l \<in> set items" | m' k ls where "Slot m' \<in> set items" "(k, ls) \<in> set (env m')" "l \<in> set ls"
    using l by (auto simp: set_render)
  then show ?thesis
  proof cases
    case 1 with ok show ?thesis by (simp add: plain_okD quiet_banners)
  next
    case 2
    from env_okD [OF ok(2) 2(1)] 2(2,3) show ?thesis
    proof (cases rule: slot_line_cases)
      case (begin_b t)
      then show ?thesis
        using label_in [of m] by (auto simp: name_ok_def begin_banner_def codegen_begin_banner_def codegen_end_banner_def
            split_at_first valid_name_colon)
    next
      case end_b
      then show ?thesis
        using label_in [of m] by (auto simp: name_ok_def end_banner_def codegen_begin_banner_def codegen_end_banner_def
            split_at_first valid_name_colon)
    next
      case codegen
      moreover have "m' \<noteq> m" using 2(1) absent by blast
      ultimately show ?thesis by (auto simp: codegen_begin_banner_def codegen_end_banner_def split_at_first)
    qed (simp add: quiet_banners)
  qed
qed

lemma pair_walk_none: "\<forall>l\<in>set ls. trim l \<noteq> b \<and> trim l \<noteq> e \<Longrightarrow> pair_walk b e None i ls = Ok None"
  by (induction ls arbitrary: i) (auto simp: Let_def)

lemma pair_walk_body: "\<forall>l\<in>set body. trim l \<noteq> b \<and> trim l \<noteq> e \<Longrightarrow> trim el = e \<Longrightarrow> e \<noteq> b \<Longrightarrow>
    pair_walk b e (Some i) j (body @ el # rest) = Ok (Some (i, j + length body))"
  by (induction body arbitrary: j) (auto simp: Let_def)

lemma bare_effect_no_comment: "is_bare_effect_open_type t \<Longrightarrow> t \<noteq> [] \<and> \<not> starts_with t (lit ''::'')"
proof
  assume w: "is_bare_effect_open_type t"
  show "t \<noteq> []"
  proof
    assume "t = []"
    then have "words_of t = []" by (subst words_of.simps) simp
    with w show False by (simp add: is_bare_effect_open_type_def)
  qed
  show "\<not> starts_with t (lit ''::'')"
  proof
    assume "starts_with t (lit ''::'')"
    then obtain u where u: "t = 58 # 58 # u" by (auto simp: starts_with_iff)
    then have "hd (hd (words_of t)) = 58" by (subst words_of.simps) (simp add: Let_def)
    with w show False by (simp add: is_bare_effect_open_type_def)
  qed
qed

lemma place_holder_no_comment: "place_holder m t \<Longrightarrow> t \<noteq> [] \<and> \<not> starts_with t (lit ''::'')"
  using bare_effect_no_comment by (auto simp: place_holder_def starts_with_def split: if_splits)

lemma place_block_render:
  assumes ok: "plain_ok items" "env_ok items env" and m: "codegen_marker m"
    and items: "items = pre @ Plain l # Slot m # post" and single: "Slot m \<notin> set (pre @ post)"
    and P: "P = place_holder m" and window: "2 \<le> window" and idx: "idx = length (render env pre)"
  shows "\<exists>pair status.
    find_banner_pair_indices (render env items) (codegen_begin_banner m) (codegen_end_banner m) (idx + 1) = Ok pair \<and>
    place_block (render env items) idx window P pair new_block = (render (env(m := [([], new_block)])) items, status)"
proof -
  have slot: "slot_ok m (env m)" using ok(2) by (rule env_okD) (simp add: items)
  then have own: "map fst (env m) = [[]]" using m by (simp add: slot_ok_def)
  then obtain b where "env m = [b]" "fst b = []" by (auto simp: map_eq_Cons_conv)
  then obtain ls where e: "env m = [([], ls)]" by (cases b) auto
  then have cb: "codegen_block m ls" using slot m by (simp add: slot_ok_def)
  let ?A = "render env pre @ [l]" and ?C = "render env post"
  have R: "render env items = ?A @ ls @ ?C" by (simp add: items e)
  have goal: "render (env(m := [([], new_block)])) items = ?A @ new_block @ ?C" using single by (simp add: items)
  have idx': "idx + 1 = length ?A" using idx by simp
  have D: "drop (idx + 1) (render env items) = ls @ ?C" unfolding R idx' by simp
  have post: "plain_ok post" "env_ok post env" "Slot m \<notin> set post"
    using ok single by (auto simp: items plain_ok_def env_ok_def slots_def list_all_iff)
  have C: "\<forall>l\<in>set ?C. trim l \<noteq> codegen_begin_banner m \<and> trim l \<noteq> codegen_end_banner m"
    using no_codegen_banner [OF post] by blast
  have neq: "codegen_end_banner m \<noteq> codegen_begin_banner m"
    by (simp add: codegen_begin_banner_def codegen_end_banner_def)
  from cb show ?thesis
  proof (cases rule: codegen_blockE)
    case (holder h)
    have "pair_walk (codegen_begin_banner m) (codegen_end_banner m) None (idx + 1) (ls @ ?C) = Ok None"
      using C quiet_banners [OF holder(3)] holder(1) by (intro pair_walk_none) auto
    then have 1: "find_banner_pair_indices (render env items) (codegen_begin_banner m) (codegen_end_banner m) (idx + 1) = Ok None"
      unfolding find_banner_pair_indices_def D .
    obtain k where k: "window = Suc (Suc k)" using window by (metis add_2_eq_Suc le_Suc_ex)
    have "drop (idx + 1) (take (idx + window) (render env items)) = h # take k ?C"
      unfolding R k using idx holder(1) by (simp add: take_Cons')
    then have "placeholder P (idx + 1) (drop (idx + 1) (take (idx + window) (render env items))) = Some (idx + 1)"
      using holder(2) place_holder_no_comment [OF holder(2)] by (simp add: P Let_def)
    then have "place_block (render env items) idx window P None new_block = (splice (idx + 1) (idx + 1) new_block (render env items), Inserted)"
      by (simp add: place_block_def)
    also have "splice (idx + 1) (idx + 1) new_block (render env items) = ?A @ new_block @ ?C"
      unfolding splice_def R idx' using holder(1) by simp
    finally show ?thesis using 1 goal by simp
  next
    case (pair b body el)
    have "pair_walk (codegen_begin_banner m) (codegen_end_banner m) None (idx + 1) (ls @ ?C) =
        Ok (Some (idx + 1, idx + 1 + 1 + length body))"
      using pair_walk_body [of body _ _ el "idx + 1" "idx + 1 + 1" ?C] pair quiet_banners neq by (simp add: Let_def)
    then have 1: "find_banner_pair_indices (render env items) (codegen_begin_banner m) (codegen_end_banner m) (idx + 1) =
        Ok (Some (idx + 1, idx + 1 + 1 + length body))"
      unfolding find_banner_pair_indices_def D .
    have len: "idx + 1 + 1 + length body + 1 = length ?A + length ls" using pair(1) idx by simp
    have "take (idx + 1 + 1 + length body + 1 - (idx + 1)) (drop (idx + 1) (render env items)) = ls"
      unfolding D using pair(1) by simp
    moreover have "splice (idx + 1) (idx + 1 + 1 + length body) new_block (render env items) = ?A @ new_block @ ?C"
      unfolding splice_def len idx' R using pair(1) by (simp add: numeral_3_eq_3)
    ultimately have "\<exists>status. place_block (render env items) idx window P (Some (idx + 1, idx + 1 + 1 + length body)) new_block =
        (?A @ new_block @ ?C, status)"
      using R by (auto simp: place_block_def simp del: drop_append take_append)
    with 1 goal show ?thesis by auto
  qed
qed


subsection \<open>A whole run\<close>

lemma find_marker_present:
  assumes "env_ok items env"
  shows "find_marker (render env items) m \<noteq> None \<longleftrightarrow> present items m"
proof (cases "present items m")
  case True
  then obtain pre i post where items: "items = pre @ i # post" "marker_item m i" "\<forall>j\<in>set pre. \<not> marker_item m j"
    using split_list_first_prop [of items "marker_item m"] by (auto simp: present_def list_ex_iff)
  then obtain l where "i = Plain l" "is_marker_line m l" by (metis item.exhaust marker_item.simps)
  then show ?thesis using find_marker_at [OF assms] items True by simp
next
  case False
  then show ?thesis using find_marker_none [OF assms] by (simp add: present_def list_ex_iff)
qed

definition union_block :: "item list \<Rightarrow> graft list \<Rightarrow> ustr list" where
  "union_block items gs =
     render_effect_union_block (indent_at items EffectUnion) (union_variants gs (present items DomainEffect))"

definition defaults_block :: "item list \<Rightarrow> graft list \<Rightarrow> ustr list" where
  "defaults_block items gs =
     render_load_defaults_block (indent_at items LoadDefaults) gs (map (\<lambda>g. binding_stub (g_name g)) (stateful gs))"

definition composed :: "item list \<Rightarrow> graft list \<Rightarrow> environment" where
  "composed items gs m =
     (if m = EffectUnion then [([], union_block items gs)]
      else if m = LoadDefaults then [([], defaults_block items gs)]
      else section_of items gs m)"

lemma composed_ok: "skeleton_ok items \<Longrightarrow> grafts_ok gs \<Longrightarrow> env_ok items (composed items gs)"
proof -
  assume sk: "skeleton_ok items" and gs: "grafts_ok gs"
  have "slot_ok m (composed items gs m)" for m
  proof (cases "codegen_marker m")
    case False
    then have "composed items gs m = section_of items gs m" by (auto simp: composed_def codegen_marker_def)
    then show ?thesis using section_of_ok [OF sk gs False] by simp
  next
    case True
    then show ?thesis
      using indent_at_white [OF sk] gs union_variants_ok [of gs]
      by (auto simp: codegen_marker_def composed_def union_block_def defaults_block_def grafts_ok_def
          intro!: union_block_ok defaults_block_ok)
  qed
  then show ?thesis by (simp add: env_ok_def list_all_iff)
qed

lemma emit_effect_union_render:
  assumes sk: "skeleton_ok items" and env: "env_ok items env"
  shows "\<exists>report. emit_effect_union (render env items) gs =
    Ok (render (env(EffectUnion := [([], union_block items gs)])) items, report)"
  using skeleton_section [OF sk, of EffectUnion]
proof (cases rule: section_okE)
  case no_slot
  then have "find_marker (render env items) EffectUnion = None" using find_marker_none [OF env] by simp
  then show ?thesis using no_slot by (simp add: emit_effect_union_def)
next
  case (here pre l mid post)
  have plain: "plain_ok items" using sk by (simp add: skeleton_ok_def)
  have mid: "mid = []" using here(5) by (simp add: room_def)
  have f: "find_marker (render env items) EffectUnion = Some (length (render env pre))"
    using find_marker_at [OF env here(1,3,2)] .
  have ind: "leading_whitespace (render env items ! length (render env pre)) = indent_at items EffectUnion"
    using here indent_at_eq [OF here(3,2)] by (simp add: nth_append)
  have P: "is_bare_effect_open_type = place_holder EffectUnion" by (simp add: place_holder_def fun_eq_iff)
  obtain pair status where
    "find_banner_pair_indices (render env items) (codegen_begin_banner EffectUnion) (codegen_end_banner EffectUnion)
       (length (render env pre) + 1) = Ok pair"
    "place_block (render env items) (length (render env pre)) 8 is_bare_effect_open_type pair (union_block items gs) =
       (render (env(EffectUnion := [([], union_block items gs)])) items, status)"
    using place_block_render [OF plain env _ here(1) [unfolded mid append_Nil] _ P, of 8 _ "union_block items gs"] here(4) mid
    by (auto simp: codegen_marker_def)
  then show ?thesis
    unfolding emit_effect_union_def f option.case Let_def ind
    using find_marker_present [OF env, of DomainEffect] by (simp add: union_block_def)
qed

lemma emit_load_defaults_render:
  assumes sk: "skeleton_ok items" and env: "env_ok items env"
  shows "\<exists>report. emit_load_defaults (render env items) gs =
    Ok (render (env(LoadDefaults := [([], defaults_block items gs)])) items, report)"
  using skeleton_section [OF sk, of LoadDefaults]
proof (cases rule: section_okE)
  case no_slot
  then have "find_marker (render env items) LoadDefaults = None" using find_marker_none [OF env] by simp
  then show ?thesis using no_slot by (simp add: emit_load_defaults_def)
next
  case (here pre l mid post)
  have plain: "plain_ok items" using sk by (simp add: skeleton_ok_def)
  have mid: "mid = []" using here(5) by (simp add: room_def)
  have f: "find_marker (render env items) LoadDefaults = Some (length (render env pre))"
    using find_marker_at [OF env here(1,3,2)] .
  have ind: "leading_whitespace (render env items ! length (render env pre)) = indent_at items LoadDefaults"
    using here indent_at_eq [OF here(3,2)] by (simp add: nth_append)
  have P: "(\<lambda>t. t = lit ''old-state'') = place_holder LoadDefaults" by (simp add: place_holder_def fun_eq_iff)
  obtain pair status where
    "find_banner_pair_indices (render env items) (codegen_begin_banner LoadDefaults) (codegen_end_banner LoadDefaults)
       (length (render env pre) + 1) = Ok pair"
    "place_block (render env items) (length (render env pre)) 6 (\<lambda>t. t = lit ''old-state'') pair (defaults_block items gs) =
       (render (env(LoadDefaults := [([], defaults_block items gs)])) items, status)"
    using place_block_render [OF plain env _ here(1) [unfolded mid append_Nil] _ P, of 6 _ "defaults_block items gs"] here(4) mid
    by (auto simp: codegen_marker_def)
  then show ?thesis
    unfolding emit_load_defaults_def f option.case Let_def ind by (simp add: defaults_block_def)
qed


text \<open>An active graft that already has a block in a slot still contributes one there.\<close>

definition agrees :: "graft list \<Rightarrow> item list \<Rightarrow> environment \<Rightarrow> bool" where
  "agrees gs items env \<longleftrightarrow>
     list_all (\<lambda>m. codegen_marker m \<or>
       list_all (\<lambda>b. fst b \<in> g_name ` set gs \<longrightarrow> fst b \<in> g_name ` set (grafts_at m gs)) (env m)) (slots items)"

lemma take_reports_kept:
  assumes "distinct (map g_name gs)"
    and "\<forall>g\<in>set gs. kept reports (g_name g) = Some (g_name g, filter (\<lambda>m. block m g \<noteq> None) all_markers)"
  shows "\<exists>rs. (take_reports gs reports :: ('e, graft_report list) outcome) = Ok rs \<and>
    map (\<lambda>r. (r_name r, applicable r)) rs = map (\<lambda>g. (g_name g, filter (\<lambda>m. block m g \<noteq> None) all_markers)) gs"
  using assms
proof (induction gs arbitrary: reports)
  case (Cons g gs)
  obtain r where r: "reports (g_name g) = Some r" "r_name r = g_name g" "applicable r = filter (\<lambda>m. block m g \<noteq> None) all_markers"
    using Cons.prems(2) by (auto simp: kept_def simp del: block.simps)
  let ?reports = "reports(g_name g := None)"
  have "\<exists>rs. (take_reports gs ?reports :: ('e, graft_report list) outcome) = Ok rs \<and>
    map (\<lambda>r. (r_name r, applicable r)) rs = map (\<lambda>g. (g_name g, filter (\<lambda>m. block m g \<noteq> None) all_markers)) gs"
  proof (rule Cons.IH)
    have "g_name h \<noteq> g_name g" if "h \<in> set gs" for h using Cons.prems(1) that by (metis distinct.simps(2) image_eqI image_set list.map(2))
    then show "\<forall>h\<in>set gs. kept ?reports (g_name h) = Some (g_name h, filter (\<lambda>m. block m h \<noteq> None) all_markers)"
      using Cons.prems(2) by (simp add: kept_def del: block.simps)
  qed (use Cons.prems(1) in simp)
  then obtain rs where "(take_reports gs ?reports :: ('e, graft_report list) outcome) = Ok rs"
    "map (\<lambda>r. (r_name r, applicable r)) rs = map (\<lambda>g. (g_name g, filter (\<lambda>m. block m g \<noteq> None) all_markers)) gs" by blast
  then show ?case using r by (intro exI [of _ "r # rs"]) (simp del: block.simps)
qed simp

lemma kept_seed:
  assumes "distinct (map g_name gs)" "g \<in> set gs"
  shows "kept (map_of (rev (map (\<lambda>g. (g_name g, seed_report g)) gs))) (g_name g) =
    Some (g_name g, filter (\<lambda>m. block m g \<noteq> None) all_markers)"
proof -
  let ?kvs = "rev (map (\<lambda>g. (g_name g, seed_report g)) gs)"
  have "map fst ?kvs = rev (map g_name gs)" by (simp add: rev_map comp_def)
  then have "distinct (map fst ?kvs)" using assms(1) by simp
  moreover have "(g_name g, seed_report g) \<in> set ?kvs" using assms(2) by simp
  ultimately have "map_of ?kvs (g_name g) = Some (seed_report g)" by (rule map_of_is_SomeI)
  then show ?thesis by (simp add: kept_def seed_report_def del: block.simps)
qed

lemma inject_lines_render:
  assumes sk: "skeleton_ok items" and env: "env_ok items env" and gs: "grafts_ok gs" and ag: "agrees gs items env"
  shows "\<exists>report. inject_lines ord (render env items) gs = Ok (render (composed items gs) items, report) \<and>
    i_in_source report = filter (present items) all_markers \<and>
    i_missing report = filter (\<lambda>m. \<not> present items m) all_markers \<and>
    map (\<lambda>r. (r_name r, applicable r)) (i_grafts report) =
      map (\<lambda>g. (g_name g, filter (\<lambda>m. block m g \<noteq> None) all_markers)) gs"
proof -
  let ?active = "set (map g_name gs)"
  let ?orphans = "orphan_graft_names (render env items) ?active"
  let ?env1 = "\<lambda>m. drop_names (set ?orphans) (env m)"
  obtain reports_pruned where prune: "prune_orphans ?orphans (render env items) = (render ?env1 items, reports_pruned)"
    and env1: "env_ok items ?env1"
    using prune_orphans_render [OF sk env orphans_render(1) [OF sk env, of ?active]] by (metis prod.collapse)
  have "covers gs items ?env1"
  proof -
    have "fst b \<in> g_name ` set (grafts_at m gs)"
      if m: "Slot m \<in> set items" "\<not> codegen_marker m" and b: "b \<in> set (?env1 m)" for m b
    proof -
      have b': "b \<in> set (env m)" "fst b \<notin> set ?orphans" using b by (auto simp: drop_names_def)
      then have "fst b \<in> ?active" using orphans_render(2) [OF sk env m, of "fst b" ?active] by auto
      moreover have "fst b \<in> g_name ` set gs \<longrightarrow> fst b \<in> g_name ` set (grafts_at m gs)"
        using ag m b'(1) by (auto simp: agrees_def slots_def list_all_iff)
      ultimately show ?thesis by simp
    qed
    then show ?thesis by (auto simp: covers_def slots_def list_all_iff)
  qed
  let ?seed = "map_of (rev (map (\<lambda>g. (g_name g, seed_report g)) gs))"
  let ?p = "\<lparr>p_lines = render ?env1 items, markers_in_source = [], markers_missing = [], per_graft = ?seed\<rparr>"
  obtain p where p: "(marker_passes gs all_markers ?p :: (compose_error, pass) outcome) = Ok p"
      "p_lines p = render (passed items gs all_markers ?env1) items"
      "markers_in_source p = filter (present items) all_markers"
      "markers_missing p = filter (\<lambda>m. \<not> present items m) all_markers" "kept (per_graft p) = kept ?seed"
    using marker_passes_render [OF sk env1 gs _ \<open>covers gs items ?env1\<close> distinct_all_markers, of ?p, where 'e = compose_error]
    by auto
  let ?env2 = "passed items gs all_markers ?env1"
  have env2: "env_ok items ?env2" using sk env1 gs by (rule env_ok_passed)
  obtain codegen where cg: "emit_effect_union (render ?env2 items) gs =
      Ok (render (?env2(EffectUnion := [([], union_block items gs)])) items, codegen)"
    using emit_effect_union_render [OF sk env2] by blast
  let ?env3 = "?env2(EffectUnion := [([], union_block items gs)])"
  have "slot_ok EffectUnion [([], union_block items gs)]"
    unfolding union_block_def using indent_at_white [OF sk] gs union_variants_ok [of gs]
    by (intro union_block_ok) (auto simp: grafts_ok_def)
  then have env3: "env_ok items ?env3" using env2 by (intro env_ok_upd)
  obtain defaults where ld: "emit_load_defaults (render ?env3 items) gs =
      Ok (render (?env3(LoadDefaults := [([], defaults_block items gs)])) items, defaults)"
    using emit_load_defaults_render [OF sk env3] by blast
  have final: "?env3(LoadDefaults := [([], defaults_block items gs)]) = composed items gs"
    by (auto simp: fun_eq_iff composed_def passed_def codegen_marker_def)
  have dist: "distinct (map g_name gs)" using gs by (simp add: grafts_ok_def)
  obtain rs where rs: "(take_reports gs (per_graft p) :: (compose_error, graft_report list) outcome) = Ok rs"
      "map (\<lambda>r. (r_name r, applicable r)) rs = map (\<lambda>g. (g_name g, filter (\<lambda>m. block m g \<noteq> None) all_markers)) gs"
    using take_reports_kept [OF dist, of "per_graft p", where 'e = compose_error] kept_seed [OF dist] p(5) by auto
  show ?thesis
    using prune p(1,3,4) cg [folded p(2)] ld rs final
    by (simp add: inject_lines_def Let_def del: block.simps fun_upd_apply)
qed

end
