(* ===== verification/ComposeRun.thy ===== *)
theory ComposeRun
  imports Recompose "HOL-Library.Sublist"
begin

text \<open>
  Runs of the composer on the text of a kernel: writing and reading lines, the doctor's check for blocks edited by hand
  (\<^verbatim>\<open>doctor.rs\<close>), and \<open>run_inject\<close> with its gates (\<^verbatim>\<open>cli.rs\<close>).
\<close>

subsection \<open>Text\<close>

lemma replace_all_step: "p \<noteq> [] \<Longrightarrow> \<not> starts_with (c # s) p \<Longrightarrow> replace_all p new (c # s) = c # replace_all p new s"
  by (subst replace_all.simps) simp

lemma replace_all_line:
  assumes "text_line l"
  shows "replace_all [13, 10] NL (l @ 10 # rest) = l @ 10 # replace_all [13, 10] NL rest"
  using assms
proof (induction l)
  case Nil then show ?case by (simp add: replace_all_step starts_with_def)
next
  case (Cons c l)
  have "\<not> starts_with (c # l @ 10 # rest) [13, 10]"
    using Cons.prems by (cases l) (auto simp: starts_with_def text_line_def split: if_splits)
  moreover have "text_line l" using Cons.prems by (auto simp: text_line_def split: if_splits)
  ultimately show ?case using Cons.IH by (simp add: replace_all_step)
qed

lemma replace_all_Nil: "replace_all p new [] = []"
  by (subst replace_all.simps) simp

lemma replace_all_lines: "list_all text_line ls \<Longrightarrow>
    replace_all [13, 10] NL (concat (map (\<lambda>l. l @ [10]) ls)) = concat (map (\<lambda>l. l @ [10]) ls)"
  by (induction ls) (simp_all add: replace_all_line replace_all_Nil)

lemma split_lines_line: "10 \<notin> set l \<Longrightarrow> split_lines cur (l @ 10 # rest) = without_cr (cur @ l) # split_lines [] rest"
  by (induction l arbitrary: cur) auto

lemma str_lines_concat: "list_all text_line ls \<Longrightarrow> str_lines (concat (map (\<lambda>l. l @ [10]) ls)) = ls"
  by (induction ls) (auto simp: str_lines_def split_lines_line text_line_def without_cr_def)

lemma join_concat: "ls \<noteq> [] \<Longrightarrow> join NL ls @ NL = concat (map (\<lambda>l. l @ [10]) ls)"
  by (induction NL ls rule: join.induct) (simp_all add: NL_def)

lemma source_lines_join: "list_all text_line ls \<Longrightarrow> ls \<noteq> [] \<Longrightarrow> source_lines (join NL ls @ NL) = ls"
  by (simp add: source_lines_def join_concat replace_all_lines str_lines_concat)

lemma slot_lineD: "slot_ok m bs \<Longrightarrow> (k, ls) \<in> set bs \<Longrightarrow> l \<in> set ls \<Longrightarrow> slot_line m l"
  by (auto simp: slot_ok_def list_all_iff)

lemma render_text: "plain_ok items \<Longrightarrow> env_ok items env \<Longrightarrow> list_all text_line (render env items)"
  using slot_lineD [OF env_okD [of items env]] plain_okD [of items]
  by (auto simp: list_all_iff set_render slot_line_def)

lemma ends_with_NL: "ends_with (s @ NL) NL"
  by (auto simp: ends_with_iff)


subsection \<open>Composing again\<close>

text \<open>Grafts of one name contribute at least the same blocks.\<close>

definition consistent :: "graft list \<Rightarrow> graft list \<Rightarrow> bool" where
  "consistent gs gs' \<longleftrightarrow>
     list_all (\<lambda>g. list_all (\<lambda>g'. g_name g = g_name g' \<longrightarrow>
       list_all (\<lambda>m. block m g \<noteq> None \<longrightarrow> block m g' \<noteq> None) all_markers) gs') gs"

lemma composed_agrees:
  assumes "consistent gs gs'"
  shows "agrees gs' items (composed items gs)"
proof -
  have "fst b \<in> g_name ` set (grafts_at m gs')"
    if m: "\<not> codegen_marker m" and b: "b \<in> set (composed items gs m)" "fst b \<in> g_name ` set gs'" for m b
  proof -
    have "composed items gs m = section_of items gs m" using m by (auto simp: composed_def codegen_marker_def)
    then obtain g where g: "g \<in> set gs" "block m g \<noteq> None" "fst b = g_name g"
      using section_of_owner [of b items gs m] b(1) by (auto simp: grafts_at_def)
    obtain g' where g': "g' \<in> set gs'" "fst b = g_name g'" using b(2) by auto
    then have "block m g' \<noteq> None" using assms g by (auto simp: consistent_def list_all_iff)
    with g' show ?thesis by (auto simp: grafts_at_def)
  qed
  then show ?thesis by (auto simp: agrees_def list_all_iff)
qed

text \<open>A document: a text whose lines are a skeleton with blocks, as an author writes it or a run has left it.\<close>

definition document :: "item list \<Rightarrow> environment \<Rightarrow> ustr \<Rightarrow> bool" where
  "document items env src \<longleftrightarrow>
     items \<noteq> [] \<and> skeleton_ok items \<and> env_ok items env \<and> source_lines src = render env items \<and> ends_with src NL"

lemma skeleton_render_nonempty:
  assumes "skeleton_ok items" "items \<noteq> []"
  shows "render env items \<noteq> []"
proof -
  have "\<exists>l. Plain l \<in> set items"
  proof (cases items)
    case (Cons i rest)
    show ?thesis
    proof (cases i)
      case (Plain l) then show ?thesis using Cons by auto
    next
      case (Slot m)
      then have "Slot m \<in> set items" using Cons by simp
      with skeleton_section [OF assms(1), of m] show ?thesis by (elim section_okE) auto
    qed
  qed (use assms(2) in simp)
  then have "\<exists>l. l \<in> set (render env items)" by (auto simp: set_render)
  then show ?thesis by auto
qed

lemma inject_document:
  assumes d: "document items env src" and gs: "grafts_ok gs" and ag: "agrees gs items env"
  shows "\<exists>out report. inject ord src gs = Ok (out, report) \<and> document items (composed items gs) out \<and>
    out = join NL (render (composed items gs) items) @ NL \<and>
    i_in_source report = filter (present items) all_markers \<and>
    i_missing report = filter (\<lambda>m. \<not> present items m) all_markers \<and>
    map (\<lambda>r. (r_name r, applicable r)) (i_grafts report) =
      map (\<lambda>g. (g_name g, filter (\<lambda>m. block m g \<noteq> None) all_markers)) gs"
proof -
  have sk: "skeleton_ok items" and env: "env_ok items env" using d by (simp_all add: document_def)
  let ?ls = "render (composed items gs) items"
  obtain report where r: "inject_lines ord (render env items) gs = Ok (?ls, report)"
    "i_in_source report = filter (present items) all_markers"
    "i_missing report = filter (\<lambda>m. \<not> present items m) all_markers"
    "map (\<lambda>r. (r_name r, applicable r)) (i_grafts report) =
      map (\<lambda>g. (g_name g, filter (\<lambda>m. block m g \<noteq> None) all_markers)) gs"
    using inject_lines_render [OF sk env gs ag] by blast
  have "?ls \<noteq> []" using skeleton_render_nonempty [OF sk] d by (simp add: document_def)
  moreover have env': "env_ok items (composed items gs)" using sk gs by (rule composed_ok)
  ultimately have "source_lines (join NL ?ls @ NL) = ?ls"
    using sk by (intro source_lines_join render_text) (auto simp: skeleton_ok_def)
  then have "document items (composed items gs) (join NL ?ls @ NL)"
    using sk env' d by (simp add: document_def ends_with_NL)
  moreover have "inject ord src gs = Ok (join NL ?ls @ NL, report)"
    using r(1) d by (simp add: inject_def with_newline_def document_def)
  ultimately show ?thesis using r(2,3,4) by blast
qed

text \<open>C20: Composition is a pure function of the author's lines and the active grafts, on a document: a run with another set of
grafts writes the text that a run on the original kernel writes, byte for byte. Grafts may be removed, added again, or given
other blocks and contents, and nothing of the earlier run shows. Assumed is what the tool does not repair: no graft of a run
has a block left in the kernel at a marker where its manifest has none (\<open>agrees\<close>, \<open>consistent\<close>), and no graft is named like
a marker (in \<open>grafts_ok\<close>); such blocks stay.\<close>

theorem inject_pure:
  assumes "document items env src" "grafts_ok gs" "grafts_ok gs'" "agrees gs items env" "agrees gs' items env"
    "consistent gs gs'"
  shows "\<exists>once out r r' r''. inject ord src gs = Ok (once, r) \<and> inject ord once gs' = Ok (out, r') \<and>
    inject ord src gs' = Ok (out, r'')"
proof -
  obtain once r where 1: "inject ord src gs = Ok (once, r)" "document items (composed items gs) once"
    using inject_document [OF assms(1,2,4)] by blast
  show ?thesis
    using inject_document [OF 1(2) assms(3) composed_agrees [OF assms(6)], of ord]
      inject_document [OF assms(1,3,5), of ord] 1(1) by blast
qed

text \<open>A second run of the composer with the same grafts leaves the kernel as it is, byte for byte.\<close>

theorem inject_idempotent:
  assumes "document items env src" "grafts_ok gs" "agrees gs items env"
  shows "\<exists>out r r'. inject ord src gs = Ok (out, r) \<and> inject ord out gs = Ok (out, r')"
proof -
  have "\<forall>g\<in>set gs. \<forall>g'\<in>set gs. g_name g = g_name g' \<longrightarrow> g = g'"
    using assms(2) by (auto simp: grafts_ok_def distinct_map dest: inj_onD)
  then have "consistent gs gs" by (force simp: consistent_def list_all_iff)
  then obtain out r where 1: "inject ord src gs = Ok (out, r)" "document items (composed items gs) out"
    "out = join NL (render (composed items gs) items) @ NL" "agrees gs items (composed items gs)"
    using inject_document [OF assms] composed_agrees by blast
  then show ?thesis using inject_document [OF 1(2) assms(2) 1(4), of ord] by blast
qed


subsection \<open>The blocks of a composed kernel\<close>


























subsection \<open>Runs of the command\<close>


























lemma gate_preview [simp]: "gate_inject_lint_findings findings False policy = Inr ()"
  by (simp add: gate_inject_lint_findings_def)











subsection \<open>Limits of the composer\<close>

text \<open>
  The name of a graft may be the label of a marker.  Banners with such a name are taken for those of generated blocks, so the
  blocks of a graft of this name that has been removed stay in the kernel.
\<close>

lemma labels_never_orphaned: "m \<in> set all_markers \<Longrightarrow> label m \<notin> set (orphan_graft_names ls active)"
  unfolding orphan_graft_names_def set_sort set_remdups in_map_filter by (auto split: option.splits if_splits)

lemma label_is_graft_name: "is_valid_graft_name (label State)"
  by (simp add: is_valid_graft_name_def lowercase_def)


subsection \<open>A small kernel\<close>

definition sample_items :: "item list" where
  "sample_items =
     [Plain (lit ''    ::  nockup:peek''), Slot Peek, Plain (lit ''    ~''), Plain (lit ''      ::  nockup:poke''), Slot Poke,
      Plain (lit ''    =='')]"

definition sample_source :: ustr where
  "sample_source = join NL (render (\<lambda>_. []) sample_items) @ NL"

abbreviation kv :: graft where
  "kv \<equiv> sample_graft (lit ''kv-graft'') 10 (Some (lit ''%kv-set'')) (Some (lit ''(kv-peek kv.state path)''))"

abbreviation log :: graft where
  "log \<equiv> sample_graft (lit ''log-graft'') 20 (Some (lit ''%log-add'')) None"

lemmas line_eval = is_marker_line_def trim_start_def trim_def white_space_def strip_prefix_def starts_with_def
  MARKER_PREFIX_def BANNER_PREFIX_def

lemma sample_skeleton: "skeleton_ok sample_items"
  by (simp add: skeleton_ok_def sample_items_def plain_ok_def quiet_def text_line_def line_eval section_ok_def
      all_markers_def room_def)

lemma sample_grafts: "graft_ok kv" "graft_ok log"
  by (simp_all add: graft_ok_def sample_graft_def name_ok_def is_valid_graft_name_def lowercase_def sha_ok_def
      white_space_def all_markers_def text_line_def trimmed_body_def quiet_def slot_line_def line_eval str_lines_def
      without_cr_def parse_glob_import_def)

lemma sample_names: "g_name kv \<noteq> g_name log"
  by (simp add: sample_graft_def)

lemma sample_env: "env_ok sample_items (\<lambda>_. [])" "agrees gs sample_items (\<lambda>_. [])"
  by (simp_all add: env_ok_def agrees_def slots_def sample_items_def all_markers_def slot_ok_def codegen_marker_def)

lemma sample_document: "document sample_items (\<lambda>_. []) sample_source"
proof -
  have "source_lines sample_source = render (\<lambda>_. []) sample_items"
    unfolding sample_source_def using sample_skeleton sample_env(1)
    by (intro source_lines_join render_text skeleton_render_nonempty) (auto simp: skeleton_ok_def sample_items_def)
  then show ?thesis
    using sample_skeleton sample_env(1) by (simp add: document_def sample_source_def ends_with_NL) (simp add: sample_items_def)
qed

lemma sample_sets: "grafts_ok [kv]" "grafts_ok [log]" "grafts_ok [kv, log]" "consistent [kv] [log]"
  using sample_grafts sample_names by (simp_all add: grafts_ok_def consistent_def)

lemma inject_pure_witness:
  "\<exists>once out r r' r''. inject id sample_source [kv] = Ok (once, r) \<and> inject id once [log] = Ok (out, r') \<and>
     inject id sample_source [log] = Ok (out, r'')"
  by (rule inject_pure [OF sample_document sample_sets(1,2) sample_env(2,2) sample_sets(4)])

lemma inject_idempotent_witness:
  "\<exists>out r r'. inject id sample_source [kv, log] = Ok (out, r) \<and> inject id out [kv, log] = Ok (out, r')"
  by (rule inject_idempotent [OF sample_document sample_sets(3) sample_env(2)])









end
