(* ===== verification/Spec2Isabelle.thy ===== *)
theory Spec2Isabelle
  imports Siwn Merkle BondLocks Commit Fee Peeks Wallet Service NodeClient ComposeRun
begin

text \<open>
  A verification development for the Rust workspace \<open>vesl-nockup\<close>: cryptographic signing, Merkle
  commitments, spend locks, settlement transactions and wallets of a Nockchain application, and the tool that
  composes its kernel.

  \<^bold>\<open>The program.\<close>  \<^verbatim>\<open>crates/vesl-signing\<close> holds the arithmetic (base field, hash, curve), Schnorr
  signatures and the sign-in messages.  \<^verbatim>\<open>crates/nockchain-tip5-rs\<close> builds Merkle trees over that hash.
  \<^verbatim>\<open>crates/vesl-core\<close> is the tool kit: it commits data (mint), checks leaves against registered roots
  (guard), builds the locks of the notes a flow passes through, the outputs and witnesses that spend them
  (settle), their fees, and the nouns that carry all this to the kernel and back (pokes and peeks).
  \<^verbatim>\<open>crates/vesl-wallet\<close> derives the keys that sign.  \<^verbatim>\<open>crates/vesl-hull\<close> is an HTTP service over a kernel that is
  composed of grafts (\<^verbatim>\<open>hoon/lib\<close>): a request to commit registers the root of a tree with the kernel, a
  request to settle pokes the kernel with a note and reads its effects back.  \<^verbatim>\<open>tools/graft-inject\<close> composes the
  source of such a kernel: it writes the blocks of the grafts, as their manifests give them, at the markers of the source.

  \<^bold>\<open>Theories and what they model.\<close>

  \<^item> \<open>Prelude\<close>: machine words, overflowing and saturating operations, byte strings, slices, strings, and
    the type of results that can also panic.
  \<^item> \<open>Goldilocks\<close>, \<open>Sextic\<close>: the mathematics the code is measured against: the prime field of
    \<open>2 ^ 64 - 2 ^ 32 + 1\<close> elements (primality by a Lucas certificate) and its extension of degree six.
  \<^item> \<open>Belt\<close>, \<open>Tip5\<close>, \<open>Bpoly\<close>, \<open>Cheetah\<close>: \<^verbatim>\<open>crates/vesl-signing/src/math\<close>, file by file; 64 and 128 bit
    words with their wrap-around, the hash permutation and sponge, the extended Euclidean algorithm, the
    extension field and the curve.
  \<^item> \<open>Scalar\<close>, \<open>Schnorr\<close>, \<open>Domain\<close>, \<open>Replay\<close>, \<open>Siwn\<close>: \<^verbatim>\<open>crates/vesl-signing/src\<close>: scalars, signatures,
    domain-separated hashing, the replay cache (a locale, with the in-memory cache as its
    interpretation), and the sign-in messages with their verifier.
  \<^item> \<open>Merkle\<close>: \<^verbatim>\<open>crates/nockchain-tip5-rs\<close>, over two hash functions that are parameters.
  \<^item> \<open>Ledger\<close>: the types of the third-party transaction engine, and its functions as the fields of a
    record \<open>engine\<close>, with the laws the sources rely on (\<open>engine_laws\<close>, \<open>lock_hash_law\<close>).
  \<^item> \<open>Lock\<close>, \<open>JobLocks\<close>, \<open>CheckLocks\<close>, \<open>BondLocks\<close>: \<^verbatim>\<open>lock.rs\<close>, \<^verbatim>\<open>job_locks.rs\<close>, \<^verbatim>\<open>check_locks.rs\<close> and
    \<^verbatim>\<open>bond_locks.rs\<close> of \<^verbatim>\<open>crates/vesl-core/src\<close>: the locks of every note of the escrow, checking and bonding
    flows, with every refusal, and the Merkle proofs of lock branches.
  \<^item> \<open>Commit\<close>: \<^verbatim>\<open>mint.rs\<close>, \<^verbatim>\<open>guard.rs\<close>, \<^verbatim>\<open>types.rs\<close> and the \<open>Settle\<close> orchestrator of \<^verbatim>\<open>settle.rs\<close>.  What the
    guard needs of a commitment scheme is the locale \<open>commitment\<close>, interpreted on the Merkle tree.
  \<^item> \<open>Seeds\<close>: the free functions of \<^verbatim>\<open>settle.rs\<close>: outputs, their pins, signatures and branch witnesses, over
    the record \<open>env\<close> of the engine's digests.
  \<^item> \<open>Fee\<close>: \<^verbatim>\<open>fee.rs\<close> and \<^verbatim>\<open>note_hash.rs\<close>: the word counts of both protocol phases and the minimum fee.
  \<^item> \<open>ChainSign\<close>: \<^verbatim>\<open>signing.rs\<close>, the conversions between chain and wire forms of keys and signatures.
  \<^item> \<open>Nouns\<close>, \<open>Peeks\<close>: \<^verbatim>\<open>crates/nock-noun-rs\<close>, \<^verbatim>\<open>noun_builder.rs\<close>, \<^verbatim>\<open>peek.rs\<close> and \<^verbatim>\<open>poke.rs\<close>: nouns as atoms
    and pairs, what is sent to the kernel and how its answers are decoded.
  \<^item> \<open>Wallet\<close>: \<^verbatim>\<open>crates/vesl-wallet\<close> and the path constants of \<^verbatim>\<open>crates/vesl-wallet-spec\<close>.
  \<^item> \<open>Pokes\<close>: \<^verbatim>\<open>crates/vesl-core/src/graft_pokes\<close>, the builders of the causes of every graft.
  \<^item> \<open>Graft\<close>: \<^verbatim>\<open>hoon/lib/settle-graft.hoon\<close> and \<^verbatim>\<open>rbac-graft.hoon\<close>, the other side of those pokes, as state
    machines over nouns.  What a client needs of such a kernel is the locale \<open>settle_kernel\<close>, interpreted on
    the settle graft.
  \<^item> \<open>Config\<close>: \<^verbatim>\<open>config.rs\<close> of \<open>vesl-core\<close> and of \<open>vesl-hull\<close>, with the demonstration key of \<^verbatim>\<open>signing.rs\<close>.
  \<^item> \<open>Gateway\<close>: \<^verbatim>\<open>api/auth.rs\<close> and \<^verbatim>\<open>manifest_summary.rs\<close> of \<open>vesl-hull\<close> and the plaintext check of
    \<^verbatim>\<open>crates/nockchain-client-rs/src/lib.rs\<close>, with the address parser of the standard library.
  \<^item> \<open>HullApi\<close>: the payload builders, the role check and the handlers of \<open>vesl-hull\<close>, each handler one function
    from the state to the answer and the next state (it holds the mutex of the state throughout).
  \<^item> \<open>Service\<close>: the runs of the service as a step relation over the handlers and the kernel's own steps, and
    what holds of them for any \<open>settle_kernel\<close> and for the kernel of the two grafts.
  \<^item> \<open>TxBuild\<close>: \<^verbatim>\<open>tx_builder.rs\<close> and \<^verbatim>\<open>verify_tx.rs\<close>: the jammed seeds and spends of a transaction, the hashes the
    kernel is asked for, and receipts; the engine's encoders are the record \<open>codec\<close>.
  \<^item> \<open>NodeClient\<close>: \<^verbatim>\<open>crates/nockchain-client-rs\<close>, the clients of a node and of a wallet, with the receipt handler of
    \<open>vesl-hull\<close>, which composes configuration, endpoint check, client and receipt.
  \<^item> \<open>GraftManifest\<close>: \<^verbatim>\<open>manifest.rs\<close>, \<^verbatim>\<open>gates.rs\<close> and the markers of \<^verbatim>\<open>marker.rs\<close> in \<^verbatim>\<open>tools/graft-inject/src\<close>, with the
    operations on text of the standard library that the tool uses: manifests, their checks and their discovery.
  \<^item> \<open>Lints\<close>: \<^verbatim>\<open>lint\<close> and \<^verbatim>\<open>codegen/kernel_cause_tags.rs\<close> of the tool: the extractors of names, five lints as walks over
    the lines of a kernel, and the policy that gives their findings a severity.
  \<^item> \<open>Composer\<close>: \<^verbatim>\<open>inject.rs\<close>, the banners of \<^verbatim>\<open>marker.rs\<close>, \<^verbatim>\<open>codegen/mod.rs\<close>, \<^verbatim>\<open>migration.rs\<close>, the hand-edit check of
    \<^verbatim>\<open>doctor.rs\<close>, and \<open>run_inject\<close> of \<^verbatim>\<open>cli.rs\<close>, from a source text to the text that is written over it.
  \<^item> \<open>Documents\<close>, \<open>Recompose\<close>: the composer's contract.  A kernel is a skeleton of lines and marked slots with an
    environment that gives each slot its blocks (\<open>render\<close>); every step of the composer is an operation on the
    environment.  \<open>ComposeRun\<close> states what follows for a whole run.

  \<^bold>\<open>What the lemmas show.\<close>  The arithmetic theories prove each word routine equal to its mathematical
  counterpart (reduction, Montgomery products, inverses, Bezout coefficients, the curve's group
  operations staying on the curve).  The signing theories show what a verification binds: a signature that verifies
  for two keys or messages exhibits a hash collision, a sign-in is accepted once in its window over every run of the
  verifier that leaves it in the cache, and exactly what lets it in again; and totality: no operation panics on a
  well-formed input.  The lock theories show that a constructor accepts
  exactly the operands its documentation allows, that the block windows of competing branches never
  overlap, and that distinct operands give distinct locks.  The settlement theories show that value is
  conserved, that a witness covers its lock's threshold with signatures that verify, and that a settled
  note is not settled again while it is remembered.  The noun theories give round trips and exact
  decoders; the wallet theory that a derived key is the child of its seed at each index of its path, attempt by attempt,
  and the separation of its hash inputs.  The
  service theories show that what the service holds is what the kernel has registered, whatever is timed out
  or lost on the way, that its answers are those of the graft's specification, when its automatic identifiers are stuck
  for good, who is let in, and which source each value of its configuration comes from.  The
  theories \<open>TxBuild\<close> and \<open>NodeClient\<close> show that a transaction is the spends it was assembled from, that no
  seeds abort the process, what a receipt attests, and exactly which outputs and entries are taken from the answers of
  a node that is not trusted.  The theories of the composer show that what it writes is a function of the skeleton and the active grafts alone, whatever was composed
  before, that a run it accepts leaves every block of every graft standing between its banners, what it writes over a
  kernel and that it does so once, that a graft selected twice ends it, and that the order of the files of a directory
  does not matter.

  \<^bold>\<open>Errors and panics.\<close>  \<open>Err\<close> of a \<open>Result\<close> is a value of the error datatype; an operation that can panic
  (an index out of range, an overflow check) has an explicit branch for it, and the totality theorems
  show that it is not taken.  \<open>usize\<close> has 64 bits.

  \<^bold>\<open>Loops.\<close>  The loops are functions with termination proofs; no fuel is used.  The retry loop of a key
  derivation may run for ever and is a partial function: \<open>None\<close> is the derivation that never returns, and
  the theorems say when it does return.  So is the wait for a block, which is proved to return, with a bound on its
  polls, when the interval between them is not zero.

  \<^bold>\<open>Parameters.\<close>  Third-party code is a parameter: base58, base64, JSON and time-stamp codecs, the hash
  functions of \<open>nockchain-math\<close> used by the Merkle crate, the transaction engine (\<open>engine\<close>, \<open>env\<close>), \<open>jam\<close>
  and \<open>cue\<close>, the padded bytes of an atom, HMAC-SHA512, the mnemonic parser, the TOML and hex readers, SHA-256, the
  verify gate of a kernel (record \<open>host\<close>), what became of a poke (\<open>delivery\<close>), the ordered sets and maps of the engine with their
  depth limit (\<open>stack_law\<close>, \<open>zmap_law\<close>, \<open>copy_law\<close>), the answers of a node over gRPC (record \<open>network\<close>), the
  order in which a hash set is iterated, and the findings of the composer's walk over imported files.  The
  witnesses instantiate them with concrete functions for which the hypotheses hold.

  \<^bold>\<open>Not modelled.\<close>  Logging, \<open>Debug\<close> and \<open>Display\<close> output, arenas, the HTTP router with its rate limit and its limit on the
  bytes of a streamed body, and the transports (gRPC, files) are left out.  So are the crate \<open>vesl-checkpoint\<close> (files around third-party
  formats) and, of \<open>graft-inject\<close>, the bindings of the test harness, the renaming of a kernel, the update of the tool
  and the atomic replacement of a file.
\<close>

end
